(* ===== verification/Py_Float.thy ===== *)
theory Py_Float
  imports Py_Base Complex_Main
begin

text \<open>
  Python's \<open>float\<close>. A value is an IEEE binary64 number given exactly as a rational, one of the two
  infinities or NaN; the two zeros are identified. \<open>fl\<close> rounds a rational to the nearest double,
  ties to even, with gradual underflow and overflow to infinity, so an arithmetic operation of
  Python is the exact operation followed by \<open>fl\<close>. \<open>py_float\<close> and \<open>py_int\<close> are \<open>float(s)\<close> and \<open>int(s)\<close>
  on strings, \<open>py_round\<close> is \<open>round(x, n)\<close>. Comparisons with NaN are false.
\<close>

datatype pyfloat = Fin rat | PInf | NInf | NaN

section \<open>Rounding\<close>

definition pow2 :: "int \<Rightarrow> rat" where
  "pow2 e = (if 0 \<le> e then 2 ^ nat e else 1 / 2 ^ nat (- e))"

function bit_len :: "int \<Rightarrow> int" where
  "bit_len n = (if n \<le> 0 then 0 else 1 + bit_len (n div 2))"
  by pat_completeness auto
termination
  by (relation "measure nat") auto

declare bit_len.simps [simp del]

text \<open>The exponent \<open>e\<close> with \<open>2 ^ e \<le> q < 2 ^ (e + 1)\<close>, for a positive \<open>q\<close>.\<close>

definition ilog2 :: "rat \<Rightarrow> int" where
  "ilog2 q = (case quotient_of q of (n, d) \<Rightarrow>
     let e = bit_len n - bit_len d in if pow2 e \<le> q then e else e - 1)"

definition round_even :: "rat \<Rightarrow> int" where
  "round_even x = (let f = \<lfloor>x\<rfloor>; d = x - of_int f in
     if d < 1 / 2 then f else if 1 / 2 < d then f + 1 else if even f then f else f + 1)"

definition fl_exp :: "rat \<Rightarrow> int" where
  "fl_exp a = max (ilog2 a) (- 1022)"

definition fl_mant :: "rat \<Rightarrow> int" where
  "fl_mant a = round_even (a / pow2 (fl_exp a - 52))"

definition fl_pos :: "rat \<Rightarrow> pyfloat" where
  "fl_pos a = (if 1023 < fl_exp a \<or> fl_exp a = 1023 \<and> fl_mant a = 2 ^ 53 then PInf
     else Fin (of_int (fl_mant a) * pow2 (fl_exp a - 52)))"

fun neg :: "pyfloat \<Rightarrow> pyfloat" where
  "neg (Fin q) = Fin (- q)"
| "neg PInf = NInf"
| "neg NInf = PInf"
| "neg NaN = NaN"

definition fl :: "rat \<Rightarrow> pyfloat" where
  "fl q = (if q = 0 then Fin 0 else if 0 < q then fl_pos q else neg (fl_pos (- q)))"

section \<open>Comparison and arithmetic\<close>

fun flt_less :: "pyfloat \<Rightarrow> pyfloat \<Rightarrow> bool" where
  "flt_less (Fin a) (Fin b) = (a < b)"
| "flt_less (Fin a) PInf = True"
| "flt_less NInf (Fin b) = True"
| "flt_less NInf PInf = True"
| "flt_less _ _ = False"

fun flt_eq :: "pyfloat \<Rightarrow> pyfloat \<Rightarrow> bool" where
  "flt_eq NaN _ = False"
| "flt_eq _ NaN = False"
| "flt_eq x y = (x = y)"

definition flt_le :: "pyfloat \<Rightarrow> pyfloat \<Rightarrow> bool" where
  "flt_le x y = (flt_less x y \<or> flt_eq x y)"

fun flt_add :: "pyfloat \<Rightarrow> pyfloat \<Rightarrow> pyfloat" where
  "flt_add (Fin a) (Fin b) = fl (a + b)"
| "flt_add NaN _ = NaN"
| "flt_add _ NaN = NaN"
| "flt_add PInf NInf = NaN"
| "flt_add NInf PInf = NaN"
| "flt_add PInf _ = PInf"
| "flt_add _ PInf = PInf"
| "flt_add NInf _ = NInf"
| "flt_add _ NInf = NInf"

definition flt_sub :: "pyfloat \<Rightarrow> pyfloat \<Rightarrow> pyfloat" where
  "flt_sub x y = flt_add x (neg y)"

fun flt_abs :: "pyfloat \<Rightarrow> pyfloat" where
  "flt_abs (Fin q) = Fin \<bar>q\<bar>"
| "flt_abs NaN = NaN"
| "flt_abs _ = PInf"

text \<open>\<open>n / m\<close> on integers: correctly rounded, an error on overflow or for a zero divisor.\<close>

definition int_truediv :: "int \<Rightarrow> int \<Rightarrow> pyfloat res" where
  "int_truediv n m = (if m = 0 then Inl ZeroDivisionError
     else case fl (of_int n / of_int m) of Fin q \<Rightarrow> Inr (Fin q) | _ \<Rightarrow> Inl OverflowError)"

text \<open>\<open>math.ceil(x)\<close> and \<open>int(x)\<close>.\<close>

fun flt_ceil :: "pyfloat \<Rightarrow> int res" where
  "flt_ceil (Fin q) = Inr \<lceil>q\<rceil>"
| "flt_ceil NaN = Inl ValueError"
| "flt_ceil _ = Inl OverflowError"

fun flt_trunc :: "pyfloat \<Rightarrow> int res" where
  "flt_trunc (Fin q) = Inr (if 0 \<le> q then \<lfloor>q\<rfloor> else \<lceil>q\<rceil>)"
| "flt_trunc NaN = Inl ValueError"
| "flt_trunc _ = Inl OverflowError"

definition pow10 :: "int \<Rightarrow> rat" where
  "pow10 e = (if 0 \<le> e then 10 ^ nat e else 1 / 10 ^ nat (- e))"

fun py_round :: "pyfloat \<Rightarrow> int \<Rightarrow> pyfloat" where
  "py_round (Fin q) n = fl (of_int (round_even (q * pow10 n)) / pow10 n)"
| "py_round x n = x"

section \<open>Parsing\<close>

text \<open>A run of decimal digits, with single underscores allowed between two digits.\<close>

fun digit_tail :: "string \<Rightarrow> string \<times> string" where
  "digit_tail [] = ([], [])"
| "digit_tail (c # s) =
     (if is_digit c then (let (d, r) = digit_tail s in (c # d, r))
      else if c = CHR ''_'' \<and> s \<noteq> [] \<and> is_digit (hd s) then digit_tail s
      else ([], c # s))"

fun digit_run :: "string \<Rightarrow> string \<times> string" where
  "digit_run [] = ([], [])"
| "digit_run (c # s) = (if is_digit c then (let (d, r) = digit_tail s in (c # d, r)) else ([], c # s))"

fun split_sign :: "string \<Rightarrow> bool \<times> string" where
  "split_sign [] = (False, [])"
| "split_sign (c # s) =
     (if c = CHR ''-'' then (True, s) else if c = CHR ''+'' then (False, s) else (False, c # s))"

definition split_frac :: "string \<Rightarrow> string \<times> string" where
  "split_frac s = (case s of c # t \<Rightarrow> if c = CHR ''.'' then digit_run t else ([], s) | [] \<Rightarrow> ([], []))"

text \<open>The exponent part: None when it is malformed or something follows the number.\<close>

definition exponent :: "string \<Rightarrow> int option" where
  "exponent s = (case s of [] \<Rightarrow> Some 0
     | c # t \<Rightarrow> if lower_char c = CHR ''e'' then
         (let (m, u) = split_sign t; (d, r) = digit_run u in
          if d = [] \<or> r \<noteq> [] then None else Some (if m then - digits_val d else digits_val d))
       else None)"

definition parse_number :: "string \<Rightarrow> rat option" where
  "parse_number s = (let (i, r) = digit_run s; (f, r') = split_frac r in
     if i = [] \<and> f = [] then None
     else case exponent r' of None \<Rightarrow> None
       | Some e \<Rightarrow> Some (of_int (digits_val (i @ f)) * pow10 (e - int (length f))))"

definition py_float :: "string \<Rightarrow> pyfloat res" where
  "py_float s = (let (m, t) = split_sign (strip s); l = str_lower t in
     if l = ''inf'' \<or> l = ''infinity'' then Inr (if m then NInf else PInf)
     else if l = ''nan'' then Inr NaN
     else case parse_number t of None \<Rightarrow> Inl ValueError
       | Some q \<Rightarrow> Inr (if m then neg (fl q) else fl q))"

definition py_int :: "string \<Rightarrow> int res" where
  "py_int s = (let (m, t) = split_sign (strip s); (d, r) = digit_run t in
     if d = [] \<or> r \<noteq> [] then Inl ValueError
     else Inr (if m then - digits_val d else digits_val d))"

section \<open>Facts about rounding\<close>

lemma pow2_pos [simp]: "0 < pow2 e"
  by (simp add: pow2_def)

lemma pow2_nonzero [simp]: "pow2 e \<noteq> 0"
  using pow2_pos [of e] by linarith

lemma pow2_powi: "pow2 e = 2 powi e"
  by (simp add: pow2_def power_int_def inverse_eq_divide power_one_over)

lemma pow2_add: "pow2 (a + b) = pow2 a * pow2 b"
  by (simp add: pow2_powi power_int_add)

lemma pow2_Suc: "pow2 (e + 1) = 2 * pow2 e"
proof -
  have "pow2 1 = 2" by (simp add: pow2_def)
  then show ?thesis by (simp add: pow2_add)
qed

lemma pow2_0 [simp]: "pow2 0 = 1"
  by (simp add: pow2_def)

lemma pow2_less: "a < b \<Longrightarrow> pow2 a < pow2 b"
proof -
  assume "a < b"
  then have "1 < pow2 (b - a)" by (simp add: pow2_def)
  then have "pow2 a * 1 < pow2 a * pow2 (b - a)" by (intro mult_strict_left_mono) auto
  also have "\<dots> = pow2 b" by (simp flip: pow2_add)
  finally show ?thesis by simp
qed

lemma pow2_less_iff [simp]: "pow2 a < pow2 b \<longleftrightarrow> a < b"
  by (metis pow2_less not_less_iff_gr_or_eq)

lemma pow2_le_iff [simp]: "pow2 a \<le> pow2 b \<longleftrightarrow> a \<le> b"
  by (metis pow2_less_iff not_less)

lemma pow2_int: "0 \<le> e \<Longrightarrow> pow2 e = of_int (2 ^ nat e)"
  by (simp add: pow2_def)

lemma bit_len_nonneg [simp]: "0 \<le> bit_len n"
proof (induction n rule: bit_len.induct)
  case (1 n)
  then show ?case by (subst bit_len.simps) auto
qed

lemma bit_len_bounds: "0 < n \<Longrightarrow> pow2 (bit_len n - 1) \<le> of_int n \<and> of_int n < pow2 (bit_len n)"
proof (induction n rule: bit_len.induct)
  case (1 n)
  show ?case
  proof (cases "n = 1")
    case True
    then show ?thesis by (simp add: bit_len.simps pow2_def)
  next
    case False
    with "1.prems" have m: "0 < n div 2" by auto
    define m where "m = n div 2"
    have b: "bit_len n = bit_len m + 1"
      using "1.prems" by (subst bit_len.simps) (simp add: m_def)
    have IH: "pow2 (bit_len m - 1) \<le> of_int m" "of_int m < pow2 (bit_len m)"
      using "1.IH" "1.prems" m by (simp_all add: m_def)
    have "bit_len m \<ge> 0" by simp
    then have "m + 1 \<le> 2 ^ nat (bit_len m)"
      using IH(2) unfolding pow2_int [OF \<open>bit_len m \<ge> 0\<close>] of_int_less_iff by linarith
    then have "of_int (m + 1) \<le> pow2 (bit_len m)"
      unfolding pow2_int [OF \<open>bit_len m \<ge> 0\<close>] of_int_le_iff by simp
    moreover have "n < 2 * (m + 1)" "2 * m \<le> n" by (simp_all add: m_def)
    then have "(of_int n :: rat) < of_int (2 * (m + 1))" "(of_int (2 * m) :: rat) \<le> of_int n"
      unfolding of_int_less_iff of_int_le_iff by simp_all
    ultimately show ?thesis
      using IH(1) pow2_Suc [of "bit_len m - 1"] pow2_Suc [of "bit_len m"] by (simp add: b)
  qed
qed

lemma ilog2_bounds:
  assumes "0 < q"
  shows "pow2 (ilog2 q) \<le> q" and "q < pow2 (ilog2 q + 1)"
proof -
  obtain n d where nd: "quotient_of q = (n, d)" by (cases "quotient_of q")
  then have q: "q = of_int n / of_int d" and d: "0 < d"
    by (auto intro: quotient_of_div quotient_of_denom_pos)
  with assms have n: "0 < n" by (simp add: zero_less_divide_iff)
  define e where "e = bit_len n - bit_len d"
  note bn = bit_len_bounds [OF n] and bd = bit_len_bounds [OF d]
  have lo: "pow2 (e - 1) \<le> q"
  proof -
    have "pow2 (e - 1) * of_int d \<le> pow2 (e - 1) * pow2 (bit_len d)"
      using bd by (intro mult_left_mono) (auto intro: less_imp_le)
    also have "\<dots> = pow2 (bit_len n - 1)" by (simp add: e_def flip: pow2_add)
    finally show ?thesis using bn d by (simp add: q field_simps)
  qed
  have hi: "q < pow2 (e + 1)"
  proof -
    have "of_int n < pow2 (bit_len n)" using bn by simp
    also have "\<dots> = pow2 (e + 1) * pow2 (bit_len d - 1)" by (simp add: e_def flip: pow2_add)
    also have "\<dots> \<le> pow2 (e + 1) * of_int d"
      using bd by (intro mult_left_mono) (auto intro: less_imp_le)
    finally show ?thesis using d by (simp add: q field_simps)
  qed
  show "pow2 (ilog2 q) \<le> q" "q < pow2 (ilog2 q + 1)"
    using lo hi by (auto simp: ilog2_def nd Let_def simp flip: e_def)
qed

lemma ilog2_unique: "pow2 e \<le> q \<Longrightarrow> q < pow2 (e + 1) \<Longrightarrow> ilog2 q = e"
proof -
  assume q: "pow2 e \<le> q" "q < pow2 (e + 1)"
  then have "0 < q" using pow2_pos [of e] by linarith
  note b = ilog2_bounds [OF this]
  have "pow2 e < pow2 (ilog2 q + 1)" "pow2 (ilog2 q) < pow2 (e + 1)" using b q by linarith+
  then show ?thesis by simp
qed

lemma round_even_bounds: "\<lfloor>x\<rfloor> \<le> round_even x" "round_even x \<le> \<lceil>x\<rceil>"
proof -
  show "\<lfloor>x\<rfloor> \<le> round_even x" by (simp add: round_even_def Let_def)
  show "round_even x \<le> \<lceil>x\<rceil>"
  proof (cases "x = of_int \<lfloor>x\<rfloor>")
    case True
    then have "round_even x = \<lfloor>x\<rfloor>" by (simp add: round_even_def Let_def)
    then show ?thesis by (simp add: floor_le_ceiling)
  next
    case False
    then have "\<lceil>x\<rceil> = \<lfloor>x\<rfloor> + 1" by (simp add: ceiling_altdef)
    then show ?thesis by (simp add: round_even_def Let_def)
  qed
qed

lemma round_even_int [simp]: "round_even (of_int k) = k"
  by (simp add: round_even_def)

lemma round_even_mono: "x \<le> y \<Longrightarrow> round_even x \<le> round_even y"
proof (cases "\<lfloor>x\<rfloor> = \<lfloor>y\<rfloor>")
  case True
  assume "x \<le> y"
  with True show ?thesis by (auto simp: round_even_def Let_def)
next
  case False
  assume "x \<le> y"
  with False have "\<lfloor>x\<rfloor> < \<lfloor>y\<rfloor>" using floor_mono [of x y] by simp
  moreover have "round_even x \<le> \<lfloor>x\<rfloor> + 1" by (simp add: round_even_def Let_def)
  ultimately show ?thesis using round_even_bounds(1) [of y] by simp
qed

lemma round_even_ge_int: "of_int k \<le> x \<Longrightarrow> k \<le> round_even x"
  using round_even_mono [of "of_int k" x] by simp

lemma round_even_le_int: "x \<le> of_int k \<Longrightarrow> round_even x \<le> k"
  using round_even_mono [of x "of_int k"] by simp

text \<open>More than half a unit above an integer: rounding leaves that integer.\<close>

lemma round_even_above: "of_int k + 1 / 2 < x \<Longrightarrow> k < round_even x"
proof -
  assume a: "of_int k + 1 / 2 < x"
  show ?thesis
  proof (cases "x \<ge> of_int (k + 1)")
    case True
    then show ?thesis using round_even_ge_int [of "k + 1" x] by simp
  next
    case False
    with a have "\<lfloor>x\<rfloor> = k" by (intro floor_unique) auto
    with a show ?thesis by (simp add: round_even_def Let_def)
  qed
qed

text \<open>A positive integer of at most 53 bits is its own double.\<close>

lemma fl_pos_scaled:
  assumes "0 < a" and "a = of_int m * pow2 (fl_exp a - 52)" and "fl_exp a < 1023"
  shows "fl_pos a = Fin a"
proof -
  have "a / pow2 (fl_exp a - 52) = of_int m"
    by (rule nonzero_divide_eq_eq [THEN iffD2]) (simp_all add: assms(2) [symmetric])
  then have "fl_mant a = m" by (simp add: fl_mant_def)
  moreover have "of_int m * pow2 (fl_exp a - 52) = a" by (rule assms(2) [symmetric])
  ultimately show ?thesis using assms(3) by (simp add: fl_pos_def)
qed

lemma fl_exp_int:
  assumes "1 \<le> n" and "n \<le> 2 ^ 53"
  shows "0 \<le> fl_exp (of_int n)" and "fl_exp (of_int n) \<le> 53"
proof -
  have pos: "(0::rat) < of_int n" using assms by simp
  note b = ilog2_bounds [OF pos]
  have "(1 :: rat) \<le> of_int n" using assms(1) by simp
  then have "pow2 0 < pow2 (ilog2 (of_int n) + 1)" using b(2) unfolding pow2_0 by linarith
  then have e0: "0 \<le> ilog2 (of_int n)" unfolding pow2_less_iff by simp
  have "(of_int n :: rat) \<le> of_int (2 ^ 53)" using assms(2) by (simp only: of_int_le_iff)
  then have "pow2 (ilog2 (of_int n)) \<le> pow2 53"
    using b(1) by (simp add: pow2_def [of 53])
  then have "ilog2 (of_int n) \<le> 53" by simp
  with e0 show "0 \<le> fl_exp (of_int n)" "fl_exp (of_int n) \<le> 53"
    by (simp_all add: fl_exp_def)
qed

lemma fl_of_int:
  assumes "\<bar>n\<bar> \<le> 2 ^ 53"
  shows "fl (of_int n) = Fin (of_int n)"
proof -
  have pos: "fl_pos (of_int n) = Fin (of_int n)" if n: "1 \<le> n" "n \<le> 2 ^ 53" for n
  proof (cases "n = 2 ^ 53")
    case True
    have "ilog2 (of_int n) = 53"
      by (rule ilog2_unique) (simp_all add: True pow2_def)
    then show ?thesis
      by (intro fl_pos_scaled [where m = "2 ^ 52"]) (simp_all add: True fl_exp_def pow2_def)
  next
    case False
    define e where "e = fl_exp (of_int n)"
    have "(of_int n :: rat) < of_int (2 ^ 53)" using n False by (simp only: of_int_less_iff)
    then have "pow2 (ilog2 (of_int n)) < pow2 53"
      using n ilog2_bounds(1) [of "of_int n"] by (simp add: pow2_def [of 53])
    then have e: "0 \<le> e" "e \<le> 52" using fl_exp_int [OF n] by (auto simp: e_def fl_exp_def)
    have "of_int n = of_int (n * 2 ^ nat (52 - e)) * pow2 (fl_exp (of_int n) - 52)"
      using e unfolding e_def [symmetric] by (cases "e = 52") (simp_all add: pow2_def)
    moreover have "fl_exp (of_int n :: rat) < 1023" using e by (simp add: e_def)
    moreover have "(0 :: rat) < of_int n" using n by simp
    ultimately show ?thesis by (intro fl_pos_scaled)
  qed
  show ?thesis
    using assms pos [of n] pos [of "- n"] by (cases n "0 :: int" rule: linorder_cases) (auto simp: fl_def)
qed

text \<open>
  The quotient of two positive integers below \<open>2 ^ 53\<close> is never rounded down to an integer it
  exceeds, nor up past the next one, so \<open>math.ceil(n / m)\<close> is the exact ceiling.
\<close>

lemma ceil_truediv:
  assumes n: "0 < n" "n < 2 ^ 53" and m: "0 < m" "m < 2 ^ 53"
  shows "bindE (int_truediv n m) flt_ceil = Inr \<lceil>of_int n / of_int m :: rat\<rceil>"
proof -
  define q where "q = (of_int n / of_int m :: rat)"
  have q: "0 < q" using n m by (simp add: q_def)
  define e where "e = fl_exp q"
  have qm: "q * of_int m = of_int n" using m by (simp add: q_def)
  have p53: "pow2 53 = of_int (2 ^ 53)" by (simp add: pow2_def)
  have n53: "(of_int n :: rat) < pow2 53" and m53: "(of_int m :: rat) < pow2 53"
    by (simp_all only: p53 of_int_less_iff n(2) m(2))
  have "q \<le> of_int n" using m q qm mult_left_mono [of 1 "of_int m" q] by simp
  then have "pow2 (ilog2 q) < pow2 53" using ilog2_bounds(1) [OF q] n53 by linarith
  moreover have "pow2 (- 53) < q"
  proof -
    have "pow2 (- 53) * of_int m < pow2 (- 53) * pow2 53"
      using m53 by (intro mult_strict_left_mono) auto
    also have "\<dots> \<le> of_int n" using n by (simp flip: pow2_add)
    finally show ?thesis using m by (simp add: q_def field_simps)
  qed
  then have "pow2 (- 53) < pow2 (ilog2 q + 1)" using ilog2_bounds(2) [OF q] by linarith
  ultimately have e: "- 53 \<le> e" "e \<le> 52" "e = ilog2 q" by (simp_all add: e_def fl_exp_def)
  define u where "u = pow2 (e - 52)"
  have u: "0 < u" by (simp add: u_def)
  define r where "r = of_int (fl_mant q) * u"
  have fl: "fl q = Fin r" using q e by (simp add: fl_def fl_pos_def r_def u_def e_def)
  have scale: "\<exists>j. of_int k = of_int j * u" for k :: int
  proof -
    have "of_int (k * 2 ^ nat (52 - e)) * u = of_int k"
      using e(2) by (cases "e = 52") (simp_all add: u_def pow2_def)
    then show ?thesis by metis
  qed
  define k where "k = \<lceil>q\<rceil> - 1"
  have k: "of_int k < q" "q \<le> of_int (k + 1)" unfolding k_def using ceiling_correct [of q] by simp_all
  obtain j where j: "of_int k = of_int j * u" using scale by metis
  obtain i where i: "of_int (k + 1) = of_int i * u" using scale by metis
  have up: "r \<le> of_int (k + 1)"
  proof -
    have "q / u \<le> of_int i" using k(2) u unfolding i by (simp add: field_simps)
    then have "fl_mant q \<le> i" by (simp add: fl_mant_def round_even_le_int u_def e_def)
    then show ?thesis unfolding i r_def using u by (simp add: mult_right_mono)
  qed
  have low: "of_int k < r"
  proof -
    have "u / 2 < q - of_int k"
    proof -
      have "pow2 (e - 53) * of_int m < 1"
      proof -
        have "pow2 e * of_int m \<le> q * of_int m"
          using ilog2_bounds(1) [OF q] e(3) m by (intro mult_right_mono) auto
        also have "\<dots> < pow2 53" using n53 qm by simp
        finally have "pow2 (e - 53) * of_int m * pow2 53 < 1 * pow2 53"
          by (simp add: mult.commute mult.left_commute flip: pow2_add mult.assoc)
        then show ?thesis by (simp only: mult_less_cancel_right_pos [OF pow2_pos])
      qed
      moreover have "1 \<le> (q - of_int k) * of_int m"
      proof -
        have "(of_int (k * m) :: rat) < of_int n" using k(1) m qm
          by (metis mult_strict_right_mono of_int_0_less_iff of_int_mult)
        then have "k * m + 1 \<le> n" unfolding of_int_less_iff by simp
        then have "(of_int (k * m + 1) :: rat) \<le> of_int n" by (simp only: of_int_le_iff)
        then show ?thesis by (simp add: left_diff_distrib qm)
      qed
      ultimately have "pow2 (e - 53) * of_int m < (q - of_int k) * of_int m" by linarith
      then have "pow2 (e - 53) < q - of_int k" using m by simp
      moreover have "u = 2 * pow2 (e - 53)" using pow2_Suc [of "e - 53"] by (simp add: u_def)
      ultimately show ?thesis by simp
    qed
    then have "of_int j + 1 / 2 < q / u" using u unfolding j by (simp add: field_simps)
    then have "j < fl_mant q" by (simp add: fl_mant_def round_even_above u_def e_def)
    then show ?thesis unfolding j r_def using u by simp
  qed
  have "\<lceil>r\<rceil> = k + 1" using up low by (intro ceiling_unique) auto
  then show ?thesis using m fl by (simp add: int_truediv_def k_def flip: q_def)
qed

end
