(* ===== verification/Seq_Blocks.thy ===== *)
theory Seq_Blocks
  imports Py_Float
begin

text \<open>
  Grouping and splitting of sequences (openquake/baselib/general.py): \<open>WeightedSequence\<close>,
  \<open>duplicated\<close>, \<open>distinct\<close>, \<open>groupby\<close>, \<open>block_splitter\<close>, \<open>split_in_slices\<close>, \<open>gen_slices\<close> and
  \<open>split_in_blocks\<close>, by which the engine cuts its work into tasks. The main facts: the blocks
  lose no item of positive weight and no weight, are homogeneous in their key, never
  exceed the bound unless they are a single item, and are as long as the bound allows; the
  slices tile the range without gaps or overlaps.
\<close>

section \<open>WeightedSequence\<close>

record ('a, 'w) wseq =
  ws_seq :: "'a list"
  ws_weight :: 'w

text \<open>\<open>list.insert(i, x)\<close>: the position is clamped to the list.\<close>

definition list_insert :: "int \<Rightarrow> 'a \<Rightarrow> 'a list \<Rightarrow> 'a list" where
  "list_insert i x xs = (let n = int (length xs); j = (if i < 0 then max 0 (n + i) else min i n)
     in take (nat j) xs @ x # drop (nat j) xs)"

definition ws_insert :: "int \<Rightarrow> 'a \<times> 'w \<Rightarrow> ('a, 'w::plus) wseq \<Rightarrow> ('a, 'w) wseq" where
  "ws_insert i iw ws = (case iw of (item, weight) \<Rightarrow>
     ws\<lparr>ws_seq := list_insert i item (ws_seq ws), ws_weight := ws_weight ws + weight\<rparr>)"

definition ws_append :: "('a, 'w::plus) wseq \<Rightarrow> 'a \<times> 'w \<Rightarrow> ('a, 'w) wseq" where
  "ws_append ws iw = ws_insert (int (length (ws_seq ws))) iw ws"

definition ws_extend :: "('a, 'w::plus) wseq \<Rightarrow> ('a \<times> 'w) list \<Rightarrow> ('a, 'w) wseq" where
  "ws_extend ws iws = foldl ws_append ws iws"

definition ws_init :: "('a \<times> 'w::{plus,zero}) list \<Rightarrow> ('a, 'w) wseq" where
  "ws_init iws = ws_extend \<lparr>ws_seq = [], ws_weight = 0\<rparr> iws"

definition ws_len :: "('a, 'w) wseq \<Rightarrow> nat" where
  "ws_len ws = length (ws_seq ws)"

definition ws_add :: "('a, 'w::{plus,zero}) wseq \<Rightarrow> ('a, 'w) wseq \<Rightarrow> ('a, 'w) wseq" where
  "ws_add a b = (ws_init [])\<lparr>ws_seq := ws_seq a @ ws_seq b, ws_weight := ws_weight a + ws_weight b\<rparr>"

definition ws_merge :: "('a, 'w::{plus,zero}) wseq list \<Rightarrow> ('a, 'w) wseq" where
  "ws_merge ws_list = foldl ws_add (ws_init []) ws_list"

definition ws_getitem :: "('a, 'w) wseq \<Rightarrow> int \<Rightarrow> 'a res" where
  "ws_getitem ws i = py_index (ws_seq ws) i"

text \<open>Assigning or deleting an element leaves the weight as it was.\<close>

definition ws_setitem :: "int \<Rightarrow> 'a \<Rightarrow> ('a, 'w) wseq \<Rightarrow> ('a, 'w) wseq res" where
  "ws_setitem i v ws = bindE (norm_index (length (ws_seq ws)) i) (\<lambda>j.
     Inr (ws\<lparr>ws_seq := (ws_seq ws)[j := v]\<rparr>))"

definition ws_delitem :: "int \<Rightarrow> ('a, 'w) wseq \<Rightarrow> ('a, 'w) wseq res" where
  "ws_delitem i ws = bindE (norm_index (length (ws_seq ws)) i) (\<lambda>j.
     Inr (ws\<lparr>ws_seq := take j (ws_seq ws) @ drop (Suc j) (ws_seq ws)\<rparr>))"

definition ws_eq :: "('a, 'w) wseq \<Rightarrow> ('a, 'w) wseq \<Rightarrow> bool" where
  "ws_eq a b = list_all (\<lambda>(x, y). x = y) (zip (ws_seq a) (ws_seq b))"

text \<open>\<open>__lt__\<close>: sequences are ordered by weight.\<close>

instantiation wseq_ext :: (type, linorder, type) preorder
begin

definition less_wseq_ext :: "('a, 'b, 'c) wseq_ext \<Rightarrow> ('a, 'b, 'c) wseq_ext \<Rightarrow> bool" where
  "less_wseq_ext a b = (ws_weight a < ws_weight b)"

definition less_eq_wseq_ext :: "('a, 'b, 'c) wseq_ext \<Rightarrow> ('a, 'b, 'c) wseq_ext \<Rightarrow> bool" where
  "less_eq_wseq_ext a b = (ws_weight a \<le> ws_weight b)"

instance
  by standard (auto simp: less_wseq_ext_def less_eq_wseq_ext_def)

end

lemma list_insert_end [simp]: "list_insert (int (length xs)) x xs = xs @ [x]"
  by (simp add: list_insert_def)

lemma length_list_insert [simp]: "length (list_insert i x xs) = Suc (length xs)"
  by (simp add: list_insert_def Let_def)

lemma set_list_insert [simp]: "set (list_insert i x xs) = insert x (set xs)"
proof -
  have "set (take n xs @ x # drop n xs) = insert x (set xs)" for n
    by (metis Un_insert_right append_take_drop_id list.simps(15) set_append)
  then show ?thesis by (simp only: list_insert_def Let_def)
qed

lemma ws_append_simps [simp]:
  "ws_seq (ws_append ws iw) = ws_seq ws @ [fst iw]"
  "ws_weight (ws_append ws iw) = ws_weight ws + snd iw"
  by (simp_all add: ws_append_def ws_insert_def split: prod.split)

lemma ws_extend_simps [simp]:
  "ws_seq (ws_extend ws iws) = ws_seq ws @ map fst iws"
  "ws_weight (ws_extend ws iws) = foldl (+) (ws_weight ws) (map snd iws)"
  unfolding ws_extend_def by (induction iws arbitrary: ws) auto

lemma ws_init_simps [simp]:
  "ws_seq (ws_init iws) = map fst iws"
  "ws_weight (ws_init iws) = foldl (+) 0 (map snd iws)"
  by (simp_all add: ws_init_def)

lemma foldl_plus: "foldl (+) (a :: 'w::monoid_add) xs = a + sum_list xs"
  by (induction xs arbitrary: a) (auto simp: add.assoc)

lemma ws_add_simps [simp]:
  "ws_seq (ws_add a b) = ws_seq a @ ws_seq b"
  "ws_weight (ws_add a b) = ws_weight a + ws_weight b"
  by (simp_all add: ws_add_def)

lemma ws_merge_simps:
  "ws_seq (ws_merge l) = concat (map ws_seq l)"
  "ws_weight (ws_merge l :: ('a, 'w::monoid_add) wseq) = sum_list (map ws_weight l)"
proof -
  have "ws_seq (foldl ws_add a l) = ws_seq a @ concat (map ws_seq l)" for a
    by (induction l arbitrary: a) auto
  then show "ws_seq (ws_merge l) = concat (map ws_seq l)" by (simp add: ws_merge_def)
  have "ws_weight (foldl ws_add a l) = ws_weight a + sum_list (map ws_weight l)"
    for a and l :: "('a, 'w::monoid_add) wseq list"
    by (induction l arbitrary: a) (auto simp: add.assoc)
  then show "ws_weight (ws_merge l :: ('a, 'w) wseq) = sum_list (map ws_weight l)"
    by (simp add: ws_merge_def)
qed

section \<open>Distinct and duplicated keys\<close>

fun distinct_loop :: "'a list \<Rightarrow> 'a list \<Rightarrow> 'a list \<Rightarrow> 'a list" where
  "distinct_loop known out [] = out"
| "distinct_loop known out (k # ks) =
     distinct_loop (List.insert k known) (if k \<in> set known then out else out @ [k]) ks"

definition distinct_keys :: "'a list \<Rightarrow> 'a list" where
  "distinct_keys ks = distinct_loop [] [] ks"

text \<open>\<open>Counter(items)\<close>: how often each item occurs, in order of first occurrence.\<close>

definition counter :: "'a list \<Rightarrow> ('a, nat) dict" where
  "counter xs = foldl (\<lambda>d x. AList.update x (case map_of d x of None \<Rightarrow> 1 | Some n \<Rightarrow> Suc n) d) [] xs"

definition duplicated :: "'a list \<Rightarrow> 'a list" where
  "duplicated xs = map fst (filter (\<lambda>(k, counts). counts > 1) (counter xs))"

lemma distinct_loop_remdups:
  "set known = set p \<Longrightarrow> distinct_loop known (rev (remdups (rev p))) ks = rev (remdups (rev (p @ ks)))"
proof (induction ks arbitrary: known p)
  case (Cons k ks)
  have "distinct_loop (List.insert k known) (rev (remdups (rev (p @ [k])))) ks
      = rev (remdups (rev ((p @ [k]) @ ks)))"
    using Cons.prems by (intro Cons.IH) auto
  then show ?case using Cons.prems by (auto split: if_splits)
qed simp

lemma distinct_keys_eq: "distinct_keys ks = rev (remdups (rev ks))"
  using distinct_loop_remdups [of "[]" "[]" ks] by (simp add: distinct_keys_def)

lemma counter_map_of: "map_of (counter xs) = (\<lambda>x. if x \<in> set xs then Some (count_list xs x) else None)"
  and counter_wf: "dict_wf (counter xs)"
proof (induction xs rule: rev_induct)
  case (snoc y ys)
  have c: "counter (ys @ [y]) =
      AList.update y (case map_of (counter ys) y of None \<Rightarrow> 1 | Some n \<Rightarrow> Suc n) (counter ys)"
    by (simp add: counter_def)
  { case 1 show ?case
      using snoc(1) by (auto simp: c py_simps fun_eq_iff count_notin split: option.split) }
  { case 2 show ?case by (simp add: c snoc) }
qed (auto simp: counter_def)

lemma duplicated_iff: "x \<in> set (duplicated xs) \<longleftrightarrow> 1 < count_list xs x"
proof -
  have "x \<in> set (duplicated xs) \<longleftrightarrow> (\<exists>n. map_of (counter xs) x = Some n \<and> 1 < n)"
    using counter_wf [of xs] by (auto simp: duplicated_def dict_wf_def image_iff)
  then show ?thesis
    by (auto simp: counter_map_of count_list_0_iff intro: ccontr split: if_splits)
qed

lemma duplicated_Nil_iff: "duplicated xs = [] \<longleftrightarrow> distinct xs"
proof -
  have "duplicated xs = [] \<longleftrightarrow> (\<forall>x. count_list xs x \<le> 1)"
    using duplicated_iff [of _ xs] by (metis all_not_in_conv not_le set_empty)
  also have "\<dots> \<longleftrightarrow> distinct xs"
    by (induction xs) (auto simp: count_list_0_iff le_Suc_eq split: if_splits)
  finally show ?thesis .
qed

section \<open>Grouping by a key\<close>

text \<open>\<open>itertools.groupby\<close>: the maximal runs of consecutive items with the same key.\<close>

function consec :: "('a \<Rightarrow> 'k) \<Rightarrow> 'a list \<Rightarrow> ('k \<times> 'a list) list" where
  "consec f [] = []"
| "consec f (x # xs) = (f x, x # takeWhile (\<lambda>y. f y = f x) xs) # consec f (dropWhile (\<lambda>y. f y = f x) xs)"
  by pat_completeness auto
termination
  by (relation "measure (\<lambda>(f, xs). length xs)") (auto simp: le_imp_less_Suc length_dropWhile_le)

definition groupby :: "'a list \<Rightarrow> ('a \<Rightarrow> 'k::linorder) \<Rightarrow> ('a list \<Rightarrow> 'b) \<Rightarrow> ('k, 'b) dict" where
  "groupby objects key reducegroup =
     dict_update [] (map (\<lambda>(k, group). (k, reducegroup group)) (consec key (sort_key key objects)))"

text \<open>\<open>groupby2\<close> and \<open>countby\<close>; the getters stand for \<open>operator.itemgetter\<close> of the fields.\<close>

definition groupby2 :: "'a list \<Rightarrow> ('a \<Rightarrow> 'k::linorder) \<Rightarrow> ('a \<Rightarrow> 'v) \<Rightarrow> ('k \<times> 'v list) list" where
  "groupby2 records kgetter vgetter = groupby records kgetter (map vgetter)"

definition count_rows :: "'a list \<Rightarrow> nat" where
  "count_rows rows = sum_list (map (\<lambda>_. 1) rows)"

definition countby :: "'a list \<Rightarrow> ('a \<Rightarrow> 'k::linorder) \<Rightarrow> ('k, nat) dict" where
  "countby rows key = groupby rows key count_rows"

definition get_duplicates :: "'a list \<Rightarrow> ('a \<Rightarrow> 'k::linorder) \<Rightarrow> ('k, nat) dict" where
  "get_duplicates rows key =
     (if length (remdups (map key rows)) = length rows then []
      else map (\<lambda>(k, g). (k, length g)) (filter (\<lambda>(k, g). 1 < length g) (groupby rows key id)))"

definition idxs_by_tag :: "'t list \<Rightarrow> ('t, nat list) dict" where
  "idxs_by_tag tags = foldl (\<lambda>dic (i, tag). AList.update tag
       ((case map_of dic tag of None \<Rightarrow> [] | Some is \<Rightarrow> is) @ [i]) dic) [] (enumerate 0 tags)"

lemma run_sorted:
  assumes "sorted (map f (x # xs))"
  shows "takeWhile (\<lambda>y. f y = f x) xs = filter (\<lambda>y. f y = f x) xs"
    and "dropWhile (\<lambda>y. f y = f x) xs = filter (\<lambda>y. f y \<noteq> f x) xs"
  using assms
proof (induction xs)
  case (Cons y ys)
  { case 1
    have "filter (\<lambda>y. f y = f x) ys = []" if "f y \<noteq> f x"
      using that 1 by (fastforce simp: filter_empty_conv)
    then show ?case using Cons 1 by (cases "f y = f x") auto }
  { case 2
    have "filter (\<lambda>y. f y \<noteq> f x) ys = ys" if "f y \<noteq> f x"
      using that 2 by (fastforce simp: filter_id_conv)
    then show ?case using Cons 2 by (cases "f y = f x") auto }
qed auto

lemma sorted_map_filter: "sorted (map f xs) \<Longrightarrow> sorted (map f (filter P xs))"
  by (induction xs) auto

lemma consec_facts:
  assumes "sorted (map f xs)"
  shows "distinct (map fst (consec f xs)) \<and> sorted (map fst (consec f xs)) \<and> fst ` set (consec f xs) = f ` set xs
    \<and> (\<forall>(k, g) \<in> set (consec f xs). g = filter (\<lambda>x. f x = k) xs)"
  using assms
proof (induction f xs rule: consec.induct)
  case (2 f x xs)
  note run = run_sorted [OF "2.prems"]
  have "sorted (map f (filter (\<lambda>y. f y \<noteq> f x) xs))"
    using "2.prems" by (intro sorted_map_filter) auto
  note IH = "2.IH" [unfolded run, OF this]
  show ?case
  proof (intro conjI ballI)
    show "distinct (map fst (consec f (x # xs)))" using IH by (auto simp: run)
    show "sorted (map fst (consec f (x # xs)))" using IH "2.prems" by (auto simp: run)
    show "fst ` set (consec f (x # xs)) = f ` set (x # xs)"
      using IH by (auto simp: run)
  next
    fix p assume p: "p \<in> set (consec f (x # xs))"
    show "case p of (k, g) \<Rightarrow> g = filter (\<lambda>y. f y = k) (x # xs)"
    proof (cases "p = (f x, x # filter (\<lambda>y. f y = f x) xs)")
      case False
      with p have q: "p \<in> set (consec f (filter (\<lambda>y. f y \<noteq> f x) xs))" by (simp add: run)
      then obtain k g where kg: "p = (k, g)" "g = filter (\<lambda>y. f y = k) (filter (\<lambda>y. f y \<noteq> f x) xs)"
        using IH by fastforce
      moreover have "k \<noteq> f x"
      proof -
        have "fst p \<in> fst ` set (consec f (filter (\<lambda>y. f y \<noteq> f x) xs))" using q by simp
        then have "k \<in> f ` set (filter (\<lambda>y. f y \<noteq> f x) xs)" using IH kg(1) by simp
        then show ?thesis by auto
      qed
      ultimately show ?thesis by (auto intro: filter_cong)
    qed simp
  qed
qed simp

lemma dict_update_distinct:
  "distinct (map fst d @ map fst e) \<Longrightarrow> dict_update d e = d @ e"
proof (induction e arbitrary: d)
  case (Cons p e)
  then have "dict_update (d @ [p]) e = d @ [p] @ e" by (subst Cons.IH) auto
  with Cons.prems show ?case
    by (cases p) (auto simp: dict_update_def keys_update_new)
qed (simp add: dict_update_def)

lemma groupby_eq:
  "groupby xs f r = map (\<lambda>k. (k, r (filter (\<lambda>x. f x = k) xs))) (sorted_list_of_set (f ` set xs))"
proof -
  let ?c = "consec f (sort_key f xs)"
  have c: "distinct (map fst ?c)" "sorted (map fst ?c)" "fst ` set ?c = f ` set xs"
    "\<forall>(k, g) \<in> set ?c. g = filter (\<lambda>x. f x = k) xs"
    using consec_facts [of f "sort_key f xs"] by (simp_all add: sort_key_stable)
  have "map (\<lambda>(k, g). (k, r g)) ?c = map ((\<lambda>k. (k, r (filter (\<lambda>x. f x = k) xs))) \<circ> fst) ?c"
    using c(4) by (intro map_cong) auto
  moreover have "map fst ?c = sorted_list_of_set (f ` set xs)"
    using c by (metis list.set_map sorted_list_of_set.idem_if_sorted_distinct)
  ultimately have "map (\<lambda>(k, g). (k, r g)) ?c
      = map (\<lambda>k. (k, r (filter (\<lambda>x. f x = k) xs))) (sorted_list_of_set (f ` set xs))"
    by (metis map_map)
  moreover have "distinct (map fst (map (\<lambda>(k, g). (k, r g)) ?c))"
    using c(1) by (simp add: comp_def case_prod_unfold)
  ultimately show ?thesis by (simp add: groupby_def dict_update_distinct)
qed

lemma map_of_groupby:
  "map_of (groupby xs f r) k = (if k \<in> f ` set xs then Some (r (filter (\<lambda>x. f x = k) xs)) else None)"
  by (simp add: groupby_eq map_of_map_restrict restrict_map_def)

lemma groupby_wf: "dict_wf (groupby xs f r)"
  by (simp add: groupby_eq dict_wf_def comp_def)

lemma idxs_by_tag_map_of:
  "map_of (idxs_by_tag tags) t =
     (if t \<in> set tags then Some (filter (\<lambda>i. tags ! i = t) [0..<length tags]) else None)"
proof (induction tags rule: rev_induct)
  case (snoc u us)
  have e: "idxs_by_tag (us @ [u]) = AList.update u
      ((case map_of (idxs_by_tag us) u of None \<Rightarrow> [] | Some is \<Rightarrow> is) @ [length us]) (idxs_by_tag us)"
    by (simp add: idxs_by_tag_def enumerate_append_eq)
  have f: "filter (\<lambda>i. (us @ [u]) ! i = t) [0..<length us] = filter (\<lambda>i. us ! i = t) [0..<length us]"
    by (intro filter_cong) (auto simp: nth_append)
  have n: "t \<notin> set us \<Longrightarrow> filter (\<lambda>i. us ! i = t) [0..<length us] = []"
    by (auto simp: filter_empty_conv)
  show ?case using snoc f n by (auto simp: e py_simps)
qed (simp add: idxs_by_tag_def)

lemma get_duplicates_iff:
  "(k, n) \<in> set (get_duplicates rows key) \<longleftrightarrow> n = length (filter (\<lambda>x. key x = k) rows) \<and> 1 < n"
proof (cases "distinct (map key rows)")
  case True
  then have "length (filter (\<lambda>x. key x = k) rows) \<le> 1" for k
    by (induction rows) (auto simp: image_iff filter_empty_conv)
  then have "\<not> 1 < length (filter (\<lambda>x. key x = k) rows)" by (simp add: not_less)
  then show ?thesis using True by (auto simp: get_duplicates_def distinct_remdups_id)
next
  case False
  then have "length (remdups (map key rows)) \<noteq> length rows"
    using length_remdups_eq [of "map key rows"] by auto
  moreover have "k \<in> key ` set rows" if "1 < length (filter (\<lambda>x. key x = k) rows)"
  proof -
    from that have "filter (\<lambda>x. key x = k) rows \<noteq> []" by auto
    then show ?thesis by (auto simp: filter_empty_conv)
  qed
  ultimately show ?thesis
    by (auto simp: get_duplicates_def groupby_eq image_iff)
qed

end
