(* ===== verification/Containers.thy ===== *)
theory Containers
  imports Seq_Blocks
begin

text \<open>
  The dictionary-like containers of openquake/baselib/general.py: \<open>Cache\<close>, \<open>CallableDict\<close>, \<open>pack\<close>,
  \<open>AccumDict\<close>, \<open>DictArray\<close>, \<open>Param\<close> and \<open>RecordBuilder\<close>. The locale \<open>store\<close> is the interface of
  a dictionary; its main lemma says what a loop that assigns key by key leaves in the store, and
  it is interpreted on Python's \<open>dict\<close>, on \<open>Cache\<close> and on \<open>AccumDict\<close>.
\<close>

section \<open>The interface of a dictionary\<close>

locale store =
  fixes get :: "'s \<Rightarrow> 'k \<Rightarrow> 'v option"
    and put :: "'k \<Rightarrow> 'v \<Rightarrow> 's \<Rightarrow> 's"
  assumes get_put: "get (put k v s) j = (if j = k then Some v else get s j)"
begin

lemma get_put_same [simp]: "get (put k v s) k = Some v"
  by (simp add: get_put)

lemma get_put_other [simp]: "j \<noteq> k \<Longrightarrow> get (put k v s) j = get s j"
  by (simp add: get_put)

text \<open>Assigning to the keys one after the other is, for each key, a fold over its own values.\<close>

lemma get_assign_loop:
  "get (foldl (\<lambda>s (k, v). put k (f (get s k) v) s) s kvs) j
     = foldl (\<lambda>a v. Some (f a v)) (get s j) (map snd (filter (\<lambda>(k, v). k = j) kvs))"
  by (induction kvs arbitrary: s) (auto simp: get_put)

lemma get_assign_distinct:
  assumes "distinct (map fst kvs)"
  shows "get (foldl (\<lambda>s (k, v). put k (f (get s k) v) s) s kvs) j
    = (case map_of kvs j of None \<Rightarrow> get s j | Some v \<Rightarrow> Some (f (get s j) v))"
proof -
  have none: "filter (\<lambda>(k, v). k = j) kvs = []" if "j \<notin> fst ` set kvs" for kvs :: "('k \<times> 'v2) list"
    using that by (force simp: filter_empty_conv)
  have "map snd (filter (\<lambda>(k, v). k = j) kvs) = (case map_of kvs j of None \<Rightarrow> [] | Some v \<Rightarrow> [v])"
    using assms
  proof (induction kvs)
    case (Cons p kvs)
    then show ?case using none [of kvs] by (cases p) auto
  qed simp
  then show ?thesis by (simp only: get_assign_loop split: option.split) auto
qed

end

interpretation dict: store map_of "AList.update"
  by unfold_locales (simp add: py_simps)

section \<open>Cache\<close>

record ('k, 'v) cache =
  ca_items :: "('k, 'v) dict"
  ca_miss :: nat
  ca_tot :: nat

definition cache_empty :: "('k, 'v) cache" where
  "cache_empty = \<lparr>ca_items = [], ca_miss = 0, ca_tot = 0\<rparr>"

definition cache_hit :: "('k, 'v) cache \<Rightarrow> int" where
  "cache_hit c = int (ca_tot c) - int (ca_miss c)"

definition cache_setitem :: "'k \<Rightarrow> 'v \<Rightarrow> ('k, 'v) cache \<Rightarrow> ('k, 'v) cache" where
  "cache_setitem key val c = c\<lparr>ca_items := AList.update key val (ca_items c), ca_miss := ca_miss c + 1\<rparr>"

text \<open>The access is counted even when the key is missing and KeyError is raised.\<close>

definition cache_getitem :: "'k \<Rightarrow> ('k, 'v) cache \<Rightarrow> 'v res \<times> ('k, 'v) cache" where
  "cache_getitem key c = (dict_get (ca_items c) key, c\<lparr>ca_tot := ca_tot c + 1\<rparr>)"

interpretation cache: store "\<lambda>c. map_of (ca_items c)" cache_setitem
  by unfold_locales (simp add: cache_setitem_def py_simps)

text \<open>The protocol of a cached computation: look the key up, compute and store on KeyError.\<close>

definition cache_use :: "('k \<Rightarrow> 'v) \<Rightarrow> 'k \<Rightarrow> ('k, 'v) cache \<Rightarrow> 'v \<times> ('k, 'v) cache" where
  "cache_use f key c = (case cache_getitem key c of
     (Inr v, c') \<Rightarrow> (v, c') | (Inl _, c') \<Rightarrow> (f key, cache_setitem key (f key) c'))"

section \<open>CallableDict\<close>

record ('o, 'k, 'r) callable_dict =
  cd_dict :: "('k, 'o \<Rightarrow> 'r) dict"
  cd_keyfunc :: "'o \<Rightarrow> 'k"
  cd_keymissing :: "('o \<Rightarrow> 'r) option"

definition cd_init :: "('o \<Rightarrow> 'k) \<Rightarrow> ('o \<Rightarrow> 'r) option \<Rightarrow> ('o, 'k, 'r) callable_dict" where
  "cd_init keyfunc keymissing = \<lparr>cd_dict = [], cd_keyfunc = keyfunc, cd_keymissing = keymissing\<rparr>"

definition cd_add :: "'k list \<Rightarrow> ('o \<Rightarrow> 'r) \<Rightarrow> ('o, 'k, 'r) callable_dict \<Rightarrow> ('o, 'k, 'r) callable_dict" where
  "cd_add ks func cd = cd\<lparr>cd_dict := foldl (\<lambda>d key. AList.update key func d) (cd_dict cd) ks\<rparr>"

definition cd_missing :: "('o, 'k, 'r) callable_dict \<Rightarrow> ('o \<Rightarrow> 'r) res" where
  "cd_missing cd = of_option KeyError (cd_keymissing cd)"

definition cd_call :: "('o, 'k, 'r) callable_dict \<Rightarrow> 'o \<Rightarrow> 'r res" where
  "cd_call cd x = (let key = cd_keyfunc cd x in
     bindE (case map_of (cd_dict cd) key of Some f \<Rightarrow> Inr f | None \<Rightarrow> cd_missing cd) (\<lambda>f. Inr (f x)))"

lemma map_of_cd_add:
  "map_of (cd_dict (cd_add ks f cd)) j = (if j \<in> set ks then Some f else map_of (cd_dict cd) j)"
proof -
  have "foldl (\<lambda>d key. AList.update key f d) d ks = foldl (\<lambda>d (k, v). AList.update k v d) d (map (\<lambda>k. (k, f)) ks)" for d
    by (induction ks arbitrary: d) auto
  moreover have "map_of (rev (map (\<lambda>k. (k, f)) ks)) j = (if j \<in> set ks then Some f else None)"
    by (simp add: rev_map map_of_map_restrict restrict_map_def)
  ultimately show ?thesis
    by (simp add: cd_add_def map_of_dict_update [unfolded dict_update_def] map_add_def split: option.split)
qed

section \<open>pack\<close>

text \<open>The items, and the attributes set on the object; the values are lists turned into arrays.\<close>

definition pack :: "(string, 'a list) dict \<Rightarrow> string list \<Rightarrow>
    (string, 'a list) dict \<times> (string, 'a list) dict" where
  "pack dic attrs = foldl (\<lambda>(items, ats) (k, v).
     if k \<in> set attrs then (items, AList.update k v ats) else (AList.update k v items, ats)) ([], []) dic"

lemma pack_map_of:
  assumes "dict_wf dic"
  shows "map_of (fst (pack dic attrs)) k = (if k \<in> set attrs then None else map_of dic k)"
    and "map_of (snd (pack dic attrs)) k = (if k \<in> set attrs then map_of dic k else None)"
proof -
  have "map_of (fst (foldl (\<lambda>(items, ats) (k, v). if k \<in> set attrs then (items, AList.update k v ats)
        else (AList.update k v items, ats)) (i, a) dic)) k
      = (if k \<in> set attrs then map_of i k else (map_of i ++ map_of dic) k)
    \<and> map_of (snd (foldl (\<lambda>(items, ats) (k, v). if k \<in> set attrs then (items, AList.update k v ats)
        else (AList.update k v items, ats)) (i, a) dic)) k
      = (if k \<in> set attrs then (map_of a ++ map_of dic) k else map_of a k)" for i a
    using assms
  proof (induction dic arbitrary: i a)
    case (Cons p dic)
    obtain j v where p: "p = (j, v)" by (cases p)
    have "map_of dic j = None" using Cons.prems p by (auto simp: dict_wf_def map_of_eq_None_iff)
    then show ?case using Cons p by (auto simp: dict_wf_def py_simps map_add_def split: option.split)
  qed simp
  then show "map_of (fst (pack dic attrs)) k = (if k \<in> set attrs then None else map_of dic k)"
    "map_of (snd (pack dic attrs)) k = (if k \<in> set attrs then map_of dic k else None)"
    by (simp_all add: pack_def)
qed

section \<open>AccumDict\<close>

text \<open>
  The operand of an in-place operation is a mapping or a single value. A new AccumDict made by
  \<open>+\<close>, \<open>-\<close> or \<open>*\<close> copies the items and drops the accumulator. Sharing of mutable values between
  dictionaries is not modelled.
\<close>

record ('k, 'v) accum_dict =
  ad_items :: "('k, 'v) dict"
  ad_accum :: "'v option"

datatype ('k, 'v) operand = Mapping "('k, 'v) dict" | Scalar 'v

definition ad_setitem :: "'k \<Rightarrow> 'v \<Rightarrow> ('k, 'v) accum_dict \<Rightarrow> ('k, 'v) accum_dict" where
  "ad_setitem key v a = a\<lparr>ad_items := AList.update key v (ad_items a)\<rparr>"

text \<open>The keys given at creation get a copy of the accumulator, \<open>none\<close> (Python's None) without one.\<close>

definition ad_init :: "'v \<Rightarrow> ('k, 'v) dict \<Rightarrow> 'v option \<Rightarrow> 'k list \<Rightarrow> ('k, 'v) accum_dict" where
  "ad_init none dic accum ks = \<lparr>ad_items = dict_update
       (foldl (\<lambda>d key. AList.update key (case accum of None \<Rightarrow> none | Some v \<Rightarrow> v) d) [] ks) dic,
     ad_accum = accum\<rparr>"

definition ad_of :: "('k, 'v) dict \<Rightarrow> ('k, 'v) accum_dict" where
  "ad_of dic = \<lparr>ad_items = dict_update [] dic, ad_accum = None\<rparr>"

definition ad_missing :: "'k \<Rightarrow> ('k, 'v) accum_dict \<Rightarrow> ('v \<times> ('k, 'v) accum_dict) res" where
  "ad_missing key a = (case ad_accum a of None \<Rightarrow> Inl KeyError | Some v \<Rightarrow> Inr (v, ad_setitem key v a))"

definition ad_getitem :: "'k \<Rightarrow> ('k, 'v) accum_dict \<Rightarrow> ('v \<times> ('k, 'v) accum_dict) res" where
  "ad_getitem key a = (case map_of (ad_items a) key of Some v \<Rightarrow> Inr (v, a) | None \<Rightarrow> ad_missing key a)"

definition ad_map :: "('v \<Rightarrow> 'u) \<Rightarrow> ('k, 'v) dict \<Rightarrow> ('k, 'u) dict" where
  "ad_map f d = map (\<lambda>(k, v). (k, f v)) d"

definition ad_iadd :: "('k, 'v::plus) accum_dict \<Rightarrow> ('k, 'v) operand \<Rightarrow> ('k, 'v) accum_dict" where
  "ad_iadd a other = (case other of
     Mapping d \<Rightarrow> foldl (\<lambda>a (k, v). ad_setitem k
       (case map_of (ad_items a) k of None \<Rightarrow> v | Some u \<Rightarrow> u + v) a) a d
   | Scalar c \<Rightarrow> a\<lparr>ad_items := ad_map (\<lambda>u. u + c) (ad_items a)\<rparr>)"

definition ad_add :: "('k, 'v::plus) accum_dict \<Rightarrow> ('k, 'v) operand \<Rightarrow> ('k, 'v) accum_dict" where
  "ad_add a other = ad_iadd (ad_of (ad_items a)) other"

text \<open>\<open>self[k] -= self[k]\<close> with KeyError caught: both reads go through \<open>__missing__\<close>.\<close>

definition ad_isub :: "('k, 'v::minus) accum_dict \<Rightarrow> ('k, 'v) operand \<Rightarrow> ('k, 'v) accum_dict" where
  "ad_isub a other = (case other of
     Mapping d \<Rightarrow> foldl (\<lambda>a (k, v). case ad_getitem k a of
         Inl _ \<Rightarrow> ad_setitem k v a
       | Inr (u, a') \<Rightarrow> ad_setitem k (u - u) a') a d
   | Scalar c \<Rightarrow> a\<lparr>ad_items := ad_map (\<lambda>u. u - c) (ad_items a)\<rparr>)"

definition ad_sub :: "('k, 'v::minus) accum_dict \<Rightarrow> ('k, 'v) operand \<Rightarrow> ('k, 'v) accum_dict" where
  "ad_sub a other = ad_isub (ad_of (ad_items a)) other"

definition ad_neg :: "('k, 'v::uminus) accum_dict \<Rightarrow> ('k, 'v) accum_dict" where
  "ad_neg a = ad_of (ad_map uminus (ad_items a))"

definition ad_rsub :: "('k, 'v::{minus,uminus}) accum_dict \<Rightarrow> ('k, 'v) operand \<Rightarrow> ('k, 'v) accum_dict" where
  "ad_rsub a other = ad_neg (ad_sub a other)"

definition ad_imul :: "('k, 'v::times) accum_dict \<Rightarrow> ('k, 'v) operand \<Rightarrow> ('k, 'v) accum_dict" where
  "ad_imul a other = (case other of
     Mapping d \<Rightarrow> foldl (\<lambda>a (k, v). case ad_getitem k a of
         Inl _ \<Rightarrow> ad_setitem k v a
       | Inr (u, a') \<Rightarrow> ad_setitem k (u * v) a') a d
   | Scalar c \<Rightarrow> a\<lparr>ad_items := ad_map (\<lambda>u. u * c) (ad_items a)\<rparr>)"

definition ad_mul :: "('k, 'v::times) accum_dict \<Rightarrow> ('k, 'v) operand \<Rightarrow> ('k, 'v) accum_dict" where
  "ad_mul a other = ad_imul (ad_of (ad_items a)) other"

definition ad_pow :: "('k, 'v::power) accum_dict \<Rightarrow> nat \<Rightarrow> ('k, 'v) accum_dict" where
  "ad_pow a n = (ad_of (ad_items a))\<lparr>ad_items := ad_map (\<lambda>u. u ^ n) (ad_items a)\<rparr>"

definition ad_apply :: "('v \<Rightarrow> 'u) \<Rightarrow> ('k, 'v) accum_dict \<Rightarrow> ('k, 'u) accum_dict" where
  "ad_apply func a = ad_of (ad_map func (ad_items a))"

interpretation ad: store "\<lambda>a. map_of (ad_items a)" ad_setitem
  by unfold_locales (simp add: ad_setitem_def py_simps)

lemma map_of_ad_map [simp]: "map_of (ad_map f d) k = map_option f (map_of d k)"
  unfolding ad_map_def by (induction d) auto

lemma keys_ad_map [simp]: "keys (ad_map f d) = keys d"
  by (simp add: ad_map_def comp_def case_prod_unfold)

lemma dict_update_wf_id: "dict_wf d \<Longrightarrow> dict_update [] d = d"
  by (simp add: dict_update_distinct dict_wf_def)

lemma ad_of_items [simp]: "dict_wf d \<Longrightarrow> ad_items (ad_of d) = d"
  by (simp add: ad_of_def dict_update_wf_id)

lemma ad_of_accum [simp]: "ad_accum (ad_of d) = None"
  by (simp add: ad_of_def)

lemma ad_getitem_None: "ad_accum a = None \<Longrightarrow> ad_getitem k a =
    (case map_of (ad_items a) k of Some v \<Rightarrow> Inr (v, a) | None \<Rightarrow> Inl KeyError)"
  by (simp add: ad_getitem_def ad_missing_def split: option.split)

lemma ad_setitem_accum [simp]: "ad_accum (ad_setitem k v a) = ad_accum a"
  by (simp add: ad_setitem_def)

text \<open>What the loops leave under a key, when the operand has distinct keys.\<close>

lemma ad_iadd_map_of:
  assumes "dict_wf d"
  shows "map_of (ad_items (ad_iadd a (Mapping d))) j = (case (map_of (ad_items a) j, map_of d j) of
      (x, None) \<Rightarrow> x | (None, Some v) \<Rightarrow> Some v | (Some u, Some v) \<Rightarrow> Some (u + v))"
proof -
  have "map_of (ad_items (ad_iadd a (Mapping d))) j =
     map_of (ad_items (foldl (\<lambda>s (k, v). ad_setitem k
       ((\<lambda>x v. case x of None \<Rightarrow> v | Some u \<Rightarrow> u + v) (map_of (ad_items s) k) v) s) a d)) j"
    by (simp add: ad_iadd_def)
  also have "\<dots> = (case map_of d j of None \<Rightarrow> map_of (ad_items a) j
      | Some v \<Rightarrow> Some (case map_of (ad_items a) j of None \<Rightarrow> v | Some u \<Rightarrow> u + v))"
    using assms by (intro ad.get_assign_distinct) (simp add: dict_wf_def)
  finally show ?thesis by (simp split: option.split)
qed

lemma ad_loop_None:
  assumes "ad_accum a = None"
  shows "foldl (\<lambda>a (k, v). case ad_getitem k a of Inl _ \<Rightarrow> ad_setitem k v a
       | Inr (u, a') \<Rightarrow> ad_setitem k (f u v) a') a d
   = foldl (\<lambda>s (k, v). ad_setitem k
       ((\<lambda>x v. case x of None \<Rightarrow> v | Some u \<Rightarrow> f u v) (map_of (ad_items s) k) v) s) a d"
  using assms
  by (induction d arbitrary: a) (auto simp: ad_getitem_None split: option.split)

lemma ad_loop_map_of:
  assumes "ad_accum a = None" and "dict_wf d"
  shows "map_of (ad_items (foldl (\<lambda>a (k, v). case ad_getitem k a of Inl _ \<Rightarrow> ad_setitem k v a
       | Inr (u, a') \<Rightarrow> ad_setitem k (f u v) a') a d)) j = (case (map_of (ad_items a) j, map_of d j) of
      (x, None) \<Rightarrow> x | (None, Some v) \<Rightarrow> Some v | (Some u, Some v) \<Rightarrow> Some (f u v))"
proof -
  have "map_of (ad_items (foldl (\<lambda>s (k, v). ad_setitem k
       ((\<lambda>x v. case x of None \<Rightarrow> v | Some u \<Rightarrow> f u v) (map_of (ad_items s) k) v) s) a d)) j
    = (case map_of d j of None \<Rightarrow> map_of (ad_items a) j
      | Some v \<Rightarrow> Some (case map_of (ad_items a) j of None \<Rightarrow> v | Some u \<Rightarrow> f u v))"
    using assms(2) by (intro ad.get_assign_distinct) (simp add: dict_wf_def)
  then show ?thesis by (simp add: ad_loop_None [OF assms(1)] split: option.split)
qed

lemma ad_imul_map_of:
  "ad_accum a = None \<Longrightarrow> dict_wf d \<Longrightarrow> map_of (ad_items (ad_imul a (Mapping d))) j =
    (case (map_of (ad_items a) j, map_of d j) of
      (x, None) \<Rightarrow> x | (None, Some v) \<Rightarrow> Some v | (Some u, Some v) \<Rightarrow> Some (u * v))"
  by (simp add: ad_imul_def ad_loop_map_of [where f = "(*)"])

lemma ad_isub_map_of:
  "ad_accum a = None \<Longrightarrow> dict_wf d \<Longrightarrow> map_of (ad_items (ad_isub a (Mapping d))) j =
    (case (map_of (ad_items a) j, map_of d j) of
      (x, None) \<Rightarrow> x | (None, Some v) \<Rightarrow> Some v | (Some u, Some v) \<Rightarrow> Some (u - u))"
  by (simp add: ad_isub_def ad_loop_map_of [where f = "\<lambda>u v. u - u"])

section \<open>DictArray\<close>

text \<open>
  Levels for each intensity measure type; every row of the array must have the length of the first
  one. \<open>imtls\<close> is a dictionary; an empty one makes \<open>next(iter(imtls))\<close> raise StopIteration.
\<close>

record 'v dict_array =
  da_M :: nat
  da_L1 :: nat
  da_size :: nat
  da_names :: "string list"
  da_slicedic :: "(string, nat \<times> nat) dict"
  da_mdic :: "(string, nat) dict"
  da_array :: "'v list list"

definition da_row :: "nat \<Rightarrow> nat \<Rightarrow> 'v dict_array \<times> nat \<Rightarrow> nat \<times> string \<times> 'v list \<Rightarrow> ('v dict_array \<times> nat) res" where
  "da_row M L1 st x = (case (st, x) of ((da, n), (m, imt, imls)) \<Rightarrow>
     if length imls \<noteq> L1 then Inl ValueError
     else Inr (da\<lparr>da_slicedic := AList.update imt (n, n + L1) (da_slicedic da),
                 da_mdic := AList.update imt m (da_mdic da),
                 da_array := (da_array da)[m := imls]\<rparr>, n + L1))"

definition da_init :: "(string, 'v::zero list) dict \<Rightarrow> 'v dict_array res" where
  "da_init imtls = (case imtls of [] \<Rightarrow> Inl StopIteration
     | (_, levels) # _ \<Rightarrow>
       (let M = length imtls; L1 = length levels;
            da = \<lparr>da_M = M, da_L1 = L1, da_size = M * L1, da_names = keys imtls, da_slicedic = [],
                  da_mdic = [], da_array = replicate M (replicate L1 0)\<rparr> in
        bindE (foldE (da_row M L1) (da, 0) (enumerate 0 imtls)) (\<lambda>(da, n). Inr da)))"

definition da_call :: "'v dict_array \<Rightarrow> string \<Rightarrow> (nat \<times> nat) res" where
  "da_call da imt = dict_get (da_slicedic da) imt"

definition da_getitem :: "'v dict_array \<Rightarrow> string \<Rightarrow> 'v list res" where
  "da_getitem da imt = bindE (dict_get (da_mdic da) imt) (\<lambda>m. Inr (da_array da ! m))"

definition da_setitem :: "string \<Rightarrow> 'v list \<Rightarrow> 'v dict_array \<Rightarrow> 'v dict_array res" where
  "da_setitem imt row da = bindE (dict_get (da_mdic da) imt) (\<lambda>m.
     if length row = da_L1 da then Inr (da\<lparr>da_array := (da_array da)[m := row]\<rparr>) else Inl ValueError)"

definition da_iter :: "'v dict_array \<Rightarrow> string list" where
  "da_iter da = da_names da"

definition da_len :: "'v dict_array \<Rightarrow> nat" where
  "da_len da = length (da_names da)"

lemma keys_enumerate: "keys (map (\<lambda>(m, k, v). (k, f m)) (enumerate i xs)) = keys xs"
  by (induction xs arbitrary: i) auto

lemma da_loop:
  assumes "distinct (map fst xs)" and "length xs \<le> length (da_array da)"
    and "da_slicedic da = []" and "da_mdic da = []"
    and "foldE (da_row M L1) (da, 0) (enumerate 0 xs) = Inr (da', n)"
  shows "n = length xs * L1 \<and> list_all (\<lambda>(k, v). length v = L1) xs
    \<and> da' = da\<lparr>da_slicedic := map (\<lambda>(m, k, v). (k, m * L1, m * L1 + L1)) (enumerate 0 xs),
              da_mdic := map (\<lambda>(m, k, v). (k, m)) (enumerate 0 xs),
              da_array := map snd xs @ drop (length xs) (da_array da)\<rparr>"
  using assms(1,2,5)
proof (induction xs arbitrary: da' n rule: rev_induct)
  case Nil
  then show ?case using assms(3,4) by simp
next
  case (snoc x xs)
  obtain k v where x: "x = (k, v)" by (cases x)
  from snoc.prems(3) obtain d1 n1 where d1: "foldE (da_row M L1) (da, 0) (enumerate 0 xs) = Inr (d1, n1)"
    and step: "da_row M L1 (d1, n1) (length xs, k, v) = Inr (da', n)"
    by (auto simp: enumerate_append_eq foldE_append bindE_Inr_iff x)
  have IH: "n1 = length xs * L1" "list_all (\<lambda>(k, v). length v = L1) xs"
    "d1 = da\<lparr>da_slicedic := map (\<lambda>(m, k, v). (k, m * L1, m * L1 + L1)) (enumerate 0 xs),
            da_mdic := map (\<lambda>(m, k, v). (k, m)) (enumerate 0 xs),
            da_array := map snd xs @ drop (length xs) (da_array da)\<rparr>"
    using snoc.IH [OF _ _ d1] snoc.prems(1,2) by auto
  have "k \<notin> fst ` set xs" using snoc.prems(1) x by auto
  then have new: "\<not> has_key (map (\<lambda>(m, k, v). (k, m * L1, m * L1 + L1)) (enumerate 0 xs)) k"
    "\<not> has_key (map (\<lambda>(m, k, v). (k, m)) (enumerate 0 xs)) k"
    unfolding keys_enumerate by simp_all
  have arr: "(map snd xs @ drop (length xs) (da_array da))[length xs := v]
      = map snd (xs @ [x]) @ drop (length (xs @ [x])) (da_array da)"
    using snoc.prems(2) x by (simp add: list_update_append Cons_nth_drop_Suc [symmetric])
  show ?case
    using step IH(1,2) new arr
    by (auto simp: da_row_def IH(3) x keys_update_new enumerate_append_eq split: if_splits)
qed

lemma da_loop_ok:
  "list_all (\<lambda>(k, v). length v = L1) xs \<Longrightarrow> is_ok (foldE (da_row M L1) st (enumerate i xs))"
proof (induction xs arbitrary: st i)
  case (Cons x xs)
  obtain k v where x: "x = (k, v)" by (cases x)
  obtain da n where st: "st = (da, n)" by (cases st)
  have "\<exists>t. da_row M L1 st (i, x) = Inr t"
    using Cons.prems by (simp add: da_row_def x st)
  then show ?case using Cons x by auto
qed simp

lemma da_init_ok_iff:
  assumes "dict_wf imtls"
  shows "is_ok (da_init imtls) \<longleftrightarrow> imtls \<noteq> [] \<and> (\<forall>p \<in> set imtls. length (snd p) = length (snd (hd imtls)))"
proof (cases imtls)
  case (Cons p rest)
  obtain k levels where p: "p = (k, levels)" by (cases p)
  let ?L = "length levels"
  let ?da = "\<lparr>da_M = length imtls, da_L1 = ?L, da_size = length imtls * ?L, da_names = keys imtls,
     da_slicedic = [], da_mdic = [], da_array = replicate (length imtls) (replicate ?L 0)\<rparr>"
  let ?r = "foldE (da_row (length imtls) ?L) (?da, 0) (enumerate 0 imtls)"
  have e: "da_init imtls = bindE ?r (\<lambda>(da, n). Inr da)"
    by (simp add: da_init_def Cons p Let_def)
  have "is_ok ?r \<longleftrightarrow> list_all (\<lambda>(k, v). length v = ?L) imtls"
  proof
    assume "is_ok ?r"
    then obtain da' n where "?r = Inr (da', n)" by (auto simp: is_ok_iff)
    from da_loop [OF _ _ _ _ this] assms show "list_all (\<lambda>(k, v). length v = ?L) imtls"
      by (simp add: dict_wf_def)
  qed (rule da_loop_ok)
  moreover have "is_ok (da_init imtls) = is_ok ?r"
    unfolding e by (cases ?r) auto
  ultimately show ?thesis by (auto simp: Cons p list_all_iff)
qed (simp add: da_init_def)

lemma map_of_enumerate:
  assumes "distinct (map fst xs)" and "m < length xs"
  shows "map_of (map (\<lambda>(m, k, v). (k, f m)) (enumerate 0 xs)) (fst (xs ! m)) = Some (f m)"
proof (rule map_of_is_SomeI)
  show "distinct (map fst (map (\<lambda>(m, k, v). (k, f m)) (enumerate 0 xs)))"
    unfolding keys_enumerate by (rule assms)
  have "(m, xs ! m) \<in> set (enumerate 0 xs)" using assms(2) by (simp add: in_set_enumerate_eq)
  then show "(fst (xs ! m), f m) \<in> set (map (\<lambda>(m, k, v). (k, f m)) (enumerate 0 xs))"
    by (force simp: case_prod_unfold)
qed

lemma da_init_Inr:
  assumes "dict_wf imtls" and "da_init imtls = Inr da" and "m < length imtls"
  shows "da_getitem da (fst (imtls ! m)) = Inr (snd (imtls ! m))"
    and "da_call da (fst (imtls ! m)) = Inr (m * da_L1 da, (m + 1) * da_L1 da)"
    and "da_size da = length imtls * da_L1 da" and "da_iter da = keys imtls"
proof -
  obtain k levels rest where c: "imtls = (k, levels) # rest"
    using assms(3) by (cases imtls) auto
  let ?L = "length levels"
  let ?da = "\<lparr>da_M = length imtls, da_L1 = ?L, da_size = length imtls * ?L, da_names = keys imtls,
     da_slicedic = [], da_mdic = [], da_array = replicate (length imtls) (replicate ?L 0)\<rparr>"
  obtain n where r: "foldE (da_row (length imtls) ?L) (?da, 0) (enumerate 0 imtls) = Inr (da, n)"
    using assms(2) by (auto simp: da_init_def c Let_def bindE_Inr_iff)
  have da: "da = ?da\<lparr>da_slicedic := map (\<lambda>(m, k, v). (k, m * ?L, m * ?L + ?L)) (enumerate 0 imtls),
              da_mdic := map (\<lambda>(m, k, v). (k, m)) (enumerate 0 imtls), da_array := map snd imtls\<rparr>"
    using da_loop [OF _ _ _ _ r] assms(1) by (simp add: dict_wf_def)
  show "da_getitem da (fst (imtls ! m)) = Inr (snd (imtls ! m))"
    using map_of_enumerate [of imtls m "\<lambda>m. m"] assms(1,3) by (simp add: da_getitem_def da dict_get_def dict_wf_def)
  show "da_call da (fst (imtls ! m)) = Inr (m * da_L1 da, (m + 1) * da_L1 da)"
    using map_of_enumerate [of imtls m "\<lambda>m. (m * ?L, m * ?L + ?L)"] assms(1,3)
    by (simp add: da_call_def da dict_get_def dict_wf_def)
  show "da_size da = length imtls * da_L1 da" "da_iter da = keys imtls"
    by (simp_all add: da da_iter_def)
qed

end
