(* ===== verification/Utils.thy ===== *)
theory Utils
  imports Seq_Blocks Containers
begin

text \<open>
  The remaining pure functions of openquake/baselib/general.py: names of files and packages,
  codes for categories, aggregation by index, parameters and records, ports, subclasses.
\<close>

section \<open>File and package names\<close>

text \<open>\<open>os.path.splitext\<close> (POSIX): leading dots of the file name do not start an extension.\<close>

definition rfind :: "char \<Rightarrow> string \<Rightarrow> int" where
  "rfind c s = (let t = takeWhile (\<lambda>x. x \<noteq> c) (rev s) in
     if length t = length s then - 1 else int (length s) - int (length t) - 1)"

definition splitext :: "string \<Rightarrow> string \<times> string" where
  "splitext p = (let sep = rfind CHR ''/'' p; dot = rfind CHR ''.'' p in
     if sep < dot \<and> list_ex (\<lambda>c. c \<noteq> CHR ''.'') (py_slice (nat (sep + 1)) (nat dot) p)
     then (take (nat dot) p, drop (nat dot) p) else (p, []))"

definition check_extension :: "string list \<Rightarrow> unit res" where
  "check_extension fnames = (case fnames of [] \<Rightarrow> Inr ()
     | fname0 # rest \<Rightarrow>
       foldE (\<lambda>_ fname. checkE (snd (splitext fname) = snd (splitext fname0)) NameError) () rest)"

lemma splitext_append: "fst (splitext p) @ snd (splitext p) = p"
  by (simp add: splitext_def Let_def)

lemma check_extension_ok_iff:
  "is_ok (check_extension fnames) \<longleftrightarrow> (\<forall>f \<in> set fnames. \<forall>g \<in> set fnames. snd (splitext f) = snd (splitext g))"
proof (cases fnames)
  case (Cons f0 rest)
  have "is_ok (check_extension fnames) \<longleftrightarrow> (\<forall>f \<in> set rest. snd (splitext f) = snd (splitext f0))"
    by (simp add: Cons check_extension_def foldE_unit)
  then show ?thesis unfolding Cons by (metis list.set_intros(1,2) set_ConsD)
qed (simp add: check_extension_def)

text \<open>\<open>s.split(c, n)\<close>.\<close>

fun split_max :: "char \<Rightarrow> nat \<Rightarrow> string \<Rightarrow> string list" where
  "split_max c 0 s = [s]"
| "split_max c (Suc n) s = (let w = takeWhile (\<lambda>x. x \<noteq> c) s in
     if length w = length s then [s] else w # split_max c n (drop (Suc (length w)) s))"

definition not_importable :: "string list" where
  "not_importable = [''fonttools'', ''protobuf'', ''pyreadline3'', ''python_dateutil'',
     ''python_pam'', ''django_cors_headers'', ''django_cookie_consent'']"

definition missing_version :: "string list" where
  "missing_version = [''alpha_shapes'', ''django_pam'', ''pbr'', ''iniconfig'', ''importlib_metadata'', ''zipp'']"

definition import_name :: "string \<Rightarrow> string" where
  "import_name pkg = (if pkg = ''pyzmq'' then ''zmq'' else if pkg = ''Pillow'' then ''PIL''
     else if pkg = ''GDAL'' then ''osgeo.gdal'' else if pkg = ''Django'' then ''django''
     else if pkg = ''pyshp'' then ''shapefile'' else if pkg = ''django_appconf'' then ''appconf'' else pkg)"

definition dependency_of :: "string \<Rightarrow> (string \<times> string) list" where
  "dependency_of line = (let longname = last (split_on CHR ''/'' line) in
     case split_max CHR ''-'' 2 longname of
       [pkg, version, _] \<Rightarrow>
         if pkg \<in> set not_importable then [] else if pkg \<in> set missing_version then []
         else [(import_name pkg, version)]
     | _ \<Rightarrow> [])"

definition extract_dependencies :: "string list \<Rightarrow> (string \<times> string) list" where
  "extract_dependencies lines = concat (map dependency_of lines)"

lemma split_max_plain: "c \<notin> set w \<Longrightarrow> split_max c (Suc n) (w @ c # s) = w # split_max c n s"
proof -
  assume c: "c \<notin> set w"
  then have "takeWhile (\<lambda>x. x \<noteq> c) (w @ c # s) = w"
    by (subst takeWhile_append2) auto
  then show ?thesis by (simp add: Let_def)
qed

lemma split_on_last:
  "c \<notin> set t \<Longrightarrow> last (split_on c (s @ c # t)) = t"
proof (induction s)
  case Nil
  then show ?case by (simp add: split_on_plain)
next
  case (Cons x s)
  have "tl (split_on c (s @ c # t)) \<noteq> []"
    by (induction s) (auto split: if_splits)
  then show ?case using Cons by (simp add: last_tl split: if_splits)
qed

lemma dependency_of_wheel:
  assumes "CHR ''-'' \<notin> set pkg" "CHR ''-'' \<notin> set ver" "CHR ''/'' \<notin> set (pkg @ ver @ rest)"
    and "pkg \<notin> set not_importable" "pkg \<notin> set missing_version"
  shows "dependency_of (url @ CHR ''/'' # pkg @ CHR ''-'' # ver @ CHR ''-'' # rest) = [(import_name pkg, ver)]"
proof -
  have "last (split_on CHR ''/'' (url @ CHR ''/'' # pkg @ CHR ''-'' # ver @ CHR ''-'' # rest))
      = pkg @ CHR ''-'' # ver @ CHR ''-'' # rest"
    using assms(3) by (intro split_on_last) auto
  moreover have "split_max CHR ''-'' 2 (pkg @ CHR ''-'' # ver @ CHR ''-'' # rest) = [pkg, ver, rest]"
    using assms(1,2) by (simp add: numeral_2_eq_2 split_max_plain del: split_max.simps(2))
  ultimately show ?thesis using assms(4,5) by (simp add: dependency_of_def Let_def)
qed

section \<open>Comparing inputs\<close>

text \<open>An array is its shape and its data.\<close>

type_synonym 'v array = "nat list \<times> 'v list"

definition not_equal :: "'v array option \<Rightarrow> 'v array option \<Rightarrow> bool" where
  "not_equal a b = (case (a, b) of
     (None, None) \<Rightarrow> False | (None, Some _) \<Rightarrow> True | (Some _, None) \<Rightarrow> True
   | (Some (sh, x), Some (sh', y)) \<Rightarrow>
       if sh \<noteq> sh' then True else list_ex (\<lambda>(u, v). u \<noteq> v) (zip x y))"

definition all_equals :: "'a list \<Rightarrow> bool res" where
  "all_equals inputs = (case inputs of [] \<Rightarrow> Inl IndexError
     | inp0 # rest \<Rightarrow> Inr (list_all (\<lambda>inp. \<not> (inp \<noteq> inp0)) rest))"

definition array_ok :: "'v array \<Rightarrow> bool" where
  "array_ok a \<longleftrightarrow> length (snd a) = prod_list (fst a)"

lemma zip_eq_iff: "length x = length y \<Longrightarrow> \<not> list_ex (\<lambda>(u, v). u \<noteq> v) (zip x y) \<longleftrightarrow> x = y"
  by (induction x y rule: list_induct2) auto

lemma not_equal_iff:
  assumes "\<And>x. a = Some x \<Longrightarrow> array_ok x" and "\<And>x. b = Some x \<Longrightarrow> array_ok x"
  shows "not_equal a b \<longleftrightarrow> a \<noteq> b"
proof (cases "\<exists>x y. a = Some x \<and> b = Some y")
  case True
  then obtain s x t y where ab: "a = Some (s, x)" "b = Some (t, y)" by auto
  then have "length x = prod_list s" "length y = prod_list t"
    using assms by (auto simp: array_ok_def)
  then show ?thesis using zip_eq_iff [of x y] by (cases "s = t") (auto simp: not_equal_def ab)
qed (auto simp: not_equal_def split: option.split)

section \<open>Human readable sizes and lists\<close>

text \<open>\<open>'%.2f' % x\<close> of a non-negative value: the exact value rounded to cents, ties to even.\<close>

definition pad2 :: "nat \<Rightarrow> string" where
  "pad2 n = (if n < 10 then CHR ''0'' # show_nat n else show_nat n)"

definition format_2f :: "rat \<Rightarrow> string" where
  "format_2f x = (let n = nat (round_even (x * 100)) in show_nat (n div 100) @ CHR ''.'' # pad2 (n mod 100))"

fun humansize_loop :: "rat \<Rightarrow> nat \<Rightarrow> nat \<Rightarrow> rat \<times> nat" where
  "humansize_loop x i 0 = (x, i)"
| "humansize_loop x i (Suc n) = (if 1024 \<le> x then humansize_loop (x / 1024) (i + 1) n else (x, i))"

text \<open>
  Sizes below \<open>2 ^ 53\<close>: dividing by 1024 is then exact. The counter of the loop runs over the
  suffixes left.
\<close>

definition humansize :: "nat \<Rightarrow> string list \<Rightarrow> string" where
  "humansize nbytes sufs = (if nbytes = 0 then ''0 B''
     else (let (x, i) = humansize_loop (of_nat nbytes) 0 (length sufs - 1);
               f = rstrip_by (\<lambda>c. c = CHR ''.'') (rstrip_by (\<lambda>c. c = CHR ''0'') (format_2f x))
           in f @ '' '' @ sufs ! i))"

definition size_suffixes :: "string list" where
  "size_suffixes = [''B'', ''KB'', ''MB'', ''GB'', ''TB'', ''PB'']"

lemma humansize_loop_value:
  "humansize_loop x i n = (y, j) \<Longrightarrow> i \<le> j \<and> j \<le> i + n \<and> x = y * 1024 ^ (j - i) \<and> (y < 1024 \<or> j = i + n)
     \<and> (i < j \<longrightarrow> 1 \<le> y)"
proof (induction x i n rule: humansize_loop.induct)
  case (2 x i n)
  show ?case
  proof (cases "1024 \<le> x")
    case True
    then have e: "humansize_loop (x / 1024) (i + 1) n = (y, j)" using "2.prems" by simp
    note IH = "2.IH" [OF True e]
    have "j - i = Suc (j - (i + 1))" using conjunct1 [OF IH] by linarith
    then have "x = y * 1024 ^ (j - i)" using IH by (simp add: field_simps)
    moreover have "1 \<le> y"
    proof (cases "i + 1 < j")
      case False
      then have "j = i + 1" using IH by simp
      then have "x / 1024 = y" using IH by simp
      then show ?thesis using True by (simp add: field_simps)
    qed (use IH in simp)
    ultimately show ?thesis using IH by simp
  qed (use "2.prems" in auto)
qed auto

definition show_int_list :: "string list \<Rightarrow> string" where
  "show_int_list ws = ''['' @ join '', '' ws @ '']''"

definition shortlist :: "int list \<Rightarrow> string" where
  "shortlist lst = (if length lst \<le> 7 then show_int_list (map show_int lst)
     else show_int_list (map show_int (take 3 lst) @ [''...''] @ map show_int (drop (length lst - 3) lst)))"

section \<open>Codes for categories\<close>

definition base183 :: string where
  "base183 = map char_of ([65..<92] @ [93..<126] @ [33] @ [35..<44] @ [45] @ [47..<65] @ [161..<173] @ [174..<256 :: nat])"

definition itertools_product :: "'a list list \<Rightarrow> 'a list list" where
  "itertools_product ls = product_lists ls"

text \<open>
  The codes before their conversion to an array of bytes. The check allows \<open>184 ^ nchars\<close> values
  but there are \<open>183 ^ nchars\<close> codes; a value left without a code raises KeyError.
\<close>

definition category_codes :: "'v::linorder list \<Rightarrow> nat \<Rightarrow> ('v, string) dict" where
  "category_codes values nchars =
     zip (sorted_list_of_set (set values)) (itertools_product (replicate nchars base183))"

definition categorize :: "'v::linorder list \<Rightarrow> nat \<Rightarrow> string list res" where
  "categorize values nchars = (let uvalues = sorted_list_of_set (set values) in
     if 184 ^ nchars < length uvalues then Inl ValueError
     else mapE (dict_get (category_codes values nchars)) values)"

lemma length_base183: "length base183 = 183"
  by (simp add: base183_def)

lemma map_int_upt: "map int [m..<n] = [int m..int n - 1]"
proof (induction n)
  case (Suc n)
  then show ?case by (cases "m \<le> n") (simp_all add: upto_rec2 [of "int m" "int n"])
qed simp

lemma char_of_int: "map (char_of :: nat \<Rightarrow> char) [m..<n] = map (char_of :: int \<Rightarrow> char) [int m..int n - 1]"
  unfolding map_int_upt [symmetric] by (simp add: comp_def)

lemma base183_code [code]:
  "base183 = map (char_of :: int \<Rightarrow> char) ([65..91] @ [93..125] @ [33] @ [35..43] @ [45] @ [47..64] @ [161..172] @ [174..255])"
  using char_of_nat [of 33, where ?'a = int] char_of_nat [of 45, where ?'a = int]
  by (simp only: base183_def map_append char_of_int of_nat_numeral) simp

lemma distinct_base183: "distinct base183"
proof -
  have inj: "inj_on (char_of :: nat \<Rightarrow> char) {0..<256}"
    by (rule inj_onI) (drule arg_cong [where f = "of_char :: char \<Rightarrow> nat"], simp)
  let ?codes = "[65..<92] @ [93..<126] @ [33] @ [35..<44] @ [45] @ [47..<65] @ [161..<173] @ [174..<256 :: nat]"
  have "distinct ?codes"
    by (simp only: distinct_append distinct_upt set_append set_upt list.set distinct.simps) auto
  moreover have "set ?codes \<subseteq> {0..<256}"
    by (simp only: set_append set_upt list.set) auto
  ultimately show ?thesis
    unfolding base183_def distinct_map using inj_on_subset [OF inj] by blast
qed

lemma product_lists_replicate:
  "length (product_lists (replicate n xs)) = length xs ^ n"
  "distinct xs \<Longrightarrow> distinct (product_lists (replicate n xs))"
proof (induction n)
  case (Suc n)
  { case 1 show ?case using Suc(1) by (simp add: length_concat comp_def sum_list_triv) }
  { case 2
    show ?case
    proof (cases "product_lists (replicate n xs) = []")
      case False
      have "inj_on (\<lambda>a. map ((#) a) (product_lists (replicate n xs))) (set xs)"
        using False by (intro inj_onI) (metis hd_map list.sel(1))
      then show ?thesis using Suc(2) 2
        by (auto intro!: distinct_concat simp: distinct_map)
    qed (simp add: map_replicate_const) }
qed simp_all

lemma map_of_zip_inj:
  assumes "distinct us" "distinct cs" "map_of (zip us cs) a = Some c" "map_of (zip us cs) b = Some c"
  shows "a = b"
proof -
  obtain i where i: "i < length us" "i < length cs" "us ! i = a" "cs ! i = c"
    using map_of_SomeD [OF assms(3)] by (auto simp: set_zip)
  obtain j where j: "j < length us" "j < length cs" "us ! j = b" "cs ! j = c"
    using map_of_SomeD [OF assms(4)] by (auto simp: set_zip)
  have "i = j" using assms(2) i j nth_eq_iff_index_eq by metis
  then show ?thesis using i j by simp
qed

lemma category_codes_dom:
  "map_of (category_codes values n) v \<noteq> None \<longleftrightarrow>
     v \<in> set (take (183 ^ n) (sorted_list_of_set (set values)))"
proof -
  let ?cs = "itertools_product (replicate n base183)" and ?us = "sorted_list_of_set (set values)"
  have l: "length ?cs = 183 ^ n"
    by (simp add: itertools_product_def product_lists_replicate length_base183)
  have "map_of (zip ?us ?cs) v \<noteq> None \<longleftrightarrow> v \<in> set (map fst (zip ?us ?cs))"
    by (simp add: map_of_eq_None_iff)
  also have "map fst (zip ?us ?cs) = take (183 ^ n) ?us"
    by (metis l map_fst_zip_take min.commute take_take take_all_iff nle_le)
  finally show ?thesis by (simp add: category_codes_def)
qed

lemma categorize_inj:
  assumes "categorize values n = Inr codes" and "i < length values" "j < length values"
  shows "codes ! i = codes ! j \<longleftrightarrow> values ! i = values ! j"
proof -
  have c: "map_of (category_codes values n) (values ! k) = Some (codes ! k)" if "k < length values" for k
    using assms(1) that
    by (auto simp: categorize_def Let_def mapE_Inr_iff list_all2_conv_all_nth res_simps split: if_splits)
  have "distinct (itertools_product (replicate n base183))"
    by (simp add: itertools_product_def product_lists_replicate distinct_base183)
  then show ?thesis
    using c [OF assms(2)] c [OF assms(3)] map_of_zip_inj unfolding category_codes_def
    by (metis distinct_sorted_list_of_set option.inject)
qed

lemma categorize_ok_iff:
  "is_ok (categorize values n) \<longleftrightarrow> card (set values) \<le> 183 ^ n"
proof -
  let ?us = "sorted_list_of_set (set values)"
  have le: "(183::nat) ^ n \<le> 184 ^ n" by (simp add: power_mono)
  have ok: "is_ok (mapE (dict_get (category_codes values n)) values)
      \<longleftrightarrow> (\<forall>v \<in> set values. map_of (category_codes values n) v \<noteq> None)"
    by (simp add: mapE_ok_iff dict_get_def)
  have "(\<forall>v \<in> set values. map_of (category_codes values n) v \<noteq> None)
      \<longleftrightarrow> set ?us \<subseteq> set (take (183 ^ n) ?us)"
    unfolding category_codes_dom by auto
  also have "\<dots> \<longleftrightarrow> length ?us \<le> 183 ^ n"
  proof
    assume "set ?us \<subseteq> set (take (183 ^ n) ?us)"
    then have "card (set ?us) \<le> card (set (take (183 ^ n) ?us))" by (intro card_mono) auto
    then show "length ?us \<le> 183 ^ n"
      by (simp add: distinct_card)
  qed simp
  finally show ?thesis using ok le by (auto simp: categorize_def Let_def)
qed

section \<open>Indices and aggregation\<close>

datatype ix = Ix nat | Full

text \<open>
  What the generator \<open>multi_index\<close> yields and the error it ends with. With no axis it goes on,
  after the product, with a product of the ranges that are now exhausted: one empty tuple, in
  which \<open>insert(None, ...)\<close> raises.
\<close>

definition multi_index :: "nat list \<Rightarrow> int option \<Rightarrow> ix list list \<times> pyexc option" where
  "multi_index shape axis = (let ranges = map (\<lambda>s. map Ix [0..<s]) shape in
     case axis of None \<Rightarrow> (itertools_product ranges, Some TypeError)
     | Some i \<Rightarrow> (map (list_insert i Full) (itertools_product ranges), None))"

text \<open>\<open>numpy.bincount(indices, weights, M)\<close>: the length is the largest index plus one, at least M.\<close>

definition bincount :: "nat list \<Rightarrow> 'v::comm_monoid_add list \<Rightarrow> nat \<Rightarrow> 'v list" where
  "bincount idxs weights M =
     map (\<lambda>j. sum_list (map snd (filter (\<lambda>(i, v). i = j) (zip idxs weights))))
       [0..<fold max (map Suc idxs) M]"

text \<open>\<open>fast_agg\<close> on one value per index; sums are exact.\<close>

definition fast_agg :: "nat list \<Rightarrow> 'v::comm_semiring_1 list option \<Rightarrow> 'v option \<Rightarrow> nat option \<Rightarrow> 'v list res" where
  "fast_agg indices values factor M = (let vals = (case values of None \<Rightarrow> map (\<lambda>_. 1) indices | Some v \<Rightarrow> v) in
     if length indices \<noteq> length vals then Inl ValueError
     else bindE (case M of Some m \<Rightarrow> Inr m
                 | None \<Rightarrow> if indices = [] then Inl ValueError else Inr (Max (set indices) + 1))
       (\<lambda>m. Inr (bincount indices (case factor of None \<Rightarrow> vals | Some f \<Rightarrow> map (\<lambda>v. v * f) vals) m)))"

text \<open>\<open>numpy.unique(tags, return_inverse=True)\<close>.\<close>

definition unique_inverse :: "'t::linorder list \<Rightarrow> 't list \<times> nat list" where
  "unique_inverse tags = (let u = sorted_list_of_set (set tags) in
     (u, map (\<lambda>t. length (takeWhile (\<lambda>x. x \<noteq> t) u)) tags))"

definition fast_agg2 :: "'t::linorder list \<Rightarrow> 'v::comm_semiring_1 list option \<Rightarrow> ('t list \<times> 'v list) res" where
  "fast_agg2 tags values = (case unique_inverse tags of (u, indices) \<Rightarrow>
     bindE (fast_agg indices values None None) (\<lambda>agg. Inr (u, agg)))"

lemma fold_max_le: "x \<in> set xs \<Longrightarrow> x \<le> fold max xs (M :: nat)" "M \<le> fold max xs M"
proof -
  have "M \<le> fold max xs M \<and> (\<forall>x \<in> set xs. x \<le> fold max xs M)" for M
    by (induction xs arbitrary: M) (auto, (meson max.boundedE)+)
  then show "x \<in> set xs \<Longrightarrow> x \<le> fold max xs M" "M \<le> fold max xs M" by auto
qed

lemma fold_max_bounded: "(\<And>x. x \<in> set xs \<Longrightarrow> x \<le> M) \<Longrightarrow> fold max xs (M :: nat) = M"
  by (induction xs) (auto simp: max_def)

lemma fast_agg_Inr:
  assumes "fast_agg indices (Some vals) None None = Inr res" and "j < length res"
  shows "res ! j = sum_list (map snd (filter (\<lambda>(i, v). i = j) (zip indices vals)))"
    and "length res = Max (set indices) + 1"
proof -
  have ne: "indices \<noteq> []" and res: "res = bincount indices vals (Max (set indices) + 1)"
    using assms(1) by (auto simp: fast_agg_def Let_def bindE_Inr_iff split: if_splits)
  have "fold max (map Suc indices) (Max (set indices) + 1) = Max (set indices) + 1"
    using ne by (intro fold_max_bounded) auto
  then show "length res = Max (set indices) + 1" by (simp add: res bincount_def)
  show "res ! j = sum_list (map snd (filter (\<lambda>(i, v). i = j) (zip indices vals)))"
    using assms(2) by (simp add: res bincount_def)
qed

lemma position_nth:
  "x \<in> set u \<Longrightarrow> length (takeWhile (\<lambda>y. y \<noteq> x) u) < length u \<and> u ! length (takeWhile (\<lambda>y. y \<noteq> x) u) = x"
  by (induction u) auto

lemma fast_agg2_sum:
  assumes "fast_agg2 tags (Some vals) = Inr (u, agg)"
  shows "u = sorted_list_of_set (set tags)" and "length agg = length u"
    and "j < length u \<Longrightarrow> agg ! j = sum_list (map snd (filter (\<lambda>(t, v). t = u ! j) (zip tags vals)))"
proof -
  define pos where "pos t = length (takeWhile (\<lambda>x. x \<noteq> t) (sorted_list_of_set (set tags)))" for t
  have u: "u = sorted_list_of_set (set tags)"
    and f: "fast_agg (map pos tags) (Some vals) None None = Inr agg"
    using assms by (auto simp: fast_agg2_def unique_inverse_def Let_def bindE_Inr_iff pos_def [abs_def])
  show "u = sorted_list_of_set (set tags)" by (rule u)
  have pos: "pos t < length u" "u ! pos t = t" if "t \<in> set tags" for t
    using position_nth [of t u] that by (simp_all add: u pos_def)
  have len: "length vals = length tags"
    using f by (auto simp: fast_agg_def Let_def split: if_splits)
  have "tags \<noteq> []" using f by (auto simp: fast_agg_def split: if_splits)
  have surj: "\<exists>t \<in> set tags. pos t = j" if "j < length u" for j
    using that pos nth_eq_iff_index_eq [of u "pos (u ! j)" j] nth_mem [OF that] by (auto simp: u)
  have "u \<noteq> []" using \<open>tags \<noteq> []\<close> by (auto simp: u)
  then have "Max (pos ` set tags) = length u - 1"
    using surj [of "length u - 1"] pos(1) by (intro Max_eqI) (fastforce intro: rev_image_eqI)+
  moreover have "fold max (map Suc (map pos tags)) (Max (pos ` set tags) + 1) = Max (pos ` set tags) + 1"
    by (rule fold_max_bounded) auto
  then have "length agg = Max (pos ` set tags) + 1"
    using f by (auto simp: fast_agg_def Let_def bincount_def len split: if_splits)
  ultimately show l: "length agg = length u"
    using \<open>u \<noteq> []\<close> by (cases u) auto
  assume j: "j < length u"
  have "agg ! j = sum_list (map snd (filter (\<lambda>(i, v). i = j) (zip (map pos tags) vals)))"
    using fast_agg_Inr(1) [OF f] j l by simp
  also have "zip (map pos tags) vals = map (\<lambda>(t, v). (pos t, v)) (zip tags vals)"
    by (simp add: zip_map1)
  also have "map snd (filter (\<lambda>(i, v). i = j) (map (\<lambda>(t, v). (pos t, v)) (zip tags vals)))
      = map snd (filter (\<lambda>(t, v). pos t = j) (zip tags vals))"
    by (simp add: filter_map comp_def case_prod_unfold)
  also have "filter (\<lambda>(t, v). pos t = j) (zip tags vals) = filter (\<lambda>(t, v). t = u ! j) (zip tags vals)"
  proof (rule filter_cong [OF refl], clarify)
    fix t v assume "(t, v) \<in> set (zip tags vals)"
    then have "t \<in> set tags" by (rule set_zip_leftD)
    then show "(pos t = j) = (t = u ! j)"
      using pos [of t] j nth_eq_iff_index_eq [of u "pos t" j] by (auto simp: u)
  qed
  finally show "agg ! j = sum_list (map snd (filter (\<lambda>(t, v). t = u ! j) (zip tags vals)))" .
qed

end
