(* ===== verification/Records.thy ===== *)
theory Records
  imports Utils
begin

text \<open>
  Records, ports and class trees (openquake/baselib/general.py): \<open>Param\<close>, \<open>RecordBuilder\<close>,
  \<open>compose_arrays\<close>, \<open>smart_concat\<close>, \<open>add_columns\<close>, \<open>_get_free_port\<close>, the address parsing of
  \<open>socket_ready\<close>, the names \<open>zipfiles\<close> gives to its members, and \<open>gen_subclasses\<close>.
\<close>

section \<open>Param\<close>

definition param_init :: "(string, 'v) dict \<Rightarrow> (string, 'v) dict" where
  "param_init defaults = foldl (\<lambda>d (k, v). AList.update k v d) [] defaults"

definition param_setattr :: "string \<Rightarrow> 'v \<Rightarrow> (string, 'v) dict \<Rightarrow> (string, 'v) dict res" where
  "param_setattr name value d =
     (if has_key d name then Inr (AList.update name value d) else Inl AttributeError)"

lemma param_setattr_keys: "param_setattr name v d = Inr d' \<Longrightarrow> keys d' = keys d"
  unfolding param_setattr_def by (metis Inl_Inr_False keys_update_old sum.inject(2))

lemma param_session_keys:
  "foldE (\<lambda>d (name, v). param_setattr name v d) d ops = Inr d' \<Longrightarrow> keys d' = keys d"
proof -
  assume "foldE (\<lambda>d (name, v). param_setattr name v d) d ops = Inr d'"
  then show ?thesis
    by (rule foldE_invariant [where I = "\<lambda>e. keys e = keys d"]) (auto dest: param_setattr_keys)
qed

section \<open>RecordBuilder\<close>

text \<open>The conversion of a value to the type of its column is numpy's and is not modelled.\<close>

record 'v record_builder =
  rb_names :: "string list"
  rb_values :: "'v list"

definition rb_init :: "(string, 'v) dict \<Rightarrow> 'v record_builder" where
  "rb_init defaults = \<lparr>rb_names = keys defaults, rb_values = map snd defaults\<rparr>"

definition rb_call :: "'v record_builder \<Rightarrow> 'v list \<Rightarrow> (string, 'v) dict \<Rightarrow> (string, 'v) dict" where
  "rb_call rb args kw = map (\<lambda>(i, name).
     (name, case map_of kw name of Some v \<Rightarrow> v
       | None \<Rightarrow> if i < length args then args ! i else rb_values rb ! i)) (enumerate 0 (rb_names rb))"

lemma rb_call_map_of:
  assumes "dict_wf defaults" and "i < length defaults"
  shows "map_of (rb_call (rb_init defaults) args kw) (fst (defaults ! i)) =
    Some (case map_of kw (fst (defaults ! i)) of Some v \<Rightarrow> v
      | None \<Rightarrow> if i < length args then args ! i else snd (defaults ! i))"
proof (rule map_of_is_SomeI)
  let ?r = "rb_call (rb_init defaults) args kw"
  have k: "keys ?r = keys defaults"
    by (rule nth_equalityI) (auto simp: rb_call_def rb_init_def nth_enumerate_eq)
  show "distinct (keys ?r)" using assms(1) by (simp add: k dict_wf_def)
  have "length ?r = length defaults" using arg_cong [OF k, of length] by simp
  moreover have "?r ! i = (fst (defaults ! i), case map_of kw (fst (defaults ! i)) of Some v \<Rightarrow> v
      | None \<Rightarrow> if i < length args then args ! i else snd (defaults ! i))"
    using assms(2) by (simp add: rb_call_def rb_init_def nth_enumerate_eq split: option.split)
  ultimately show "(fst (defaults ! i), case map_of kw (fst (defaults ! i)) of Some v \<Rightarrow> v
      | None \<Rightarrow> if i < length args then args ! i else snd (defaults ! i)) \<in> set ?r"
    using assms(2) by (metis nth_mem)
qed

section \<open>Structured arrays\<close>

text \<open>
  A structured array is a dictionary from column names to columns. An input of \<open>compose_arrays\<close>
  is one column or a list of columns, with its number of rows.
\<close>

datatype 'v kwarray = Column "'v list" | Matrix nat "'v list list"

fun kw_rows :: "'v kwarray \<Rightarrow> nat" where
  "kw_rows (Column c) = length c"
| "kw_rows (Matrix n cs) = n"

fun kw_columns :: "string \<Rightarrow> 'v kwarray \<Rightarrow> (string \<times> 'v list) list" where
  "kw_columns key (Column c) = [(key, c)]"
| "kw_columns key (Matrix n cs) = map (\<lambda>(k, c). (key @ show_nat k, c)) (enumerate 0 cs)"

definition compose_arrays :: "(string, 'v kwarray) dict \<Rightarrow> (string \<times> 'v list) list res" where
  "compose_arrays kwarrays =
     (let nrows = remdups (map (\<lambda>(k, a). kw_rows a) kwarrays);
          cols = concat (map (\<lambda>(k, a). kw_columns k a) kwarrays);
          dic = dict_update [] cols in
      if length nrows \<noteq> 1 then Inl ValueError
      else if \<not> distinct (map fst cols) then Inl ValueError
      else mapE (\<lambda>(key, _). bindE (dict_get dic key) (\<lambda>c. Inr (key, c))) cols)"

definition smart_concat :: "(string, 'v list) dict list \<Rightarrow> (string, 'v list) dict res" where
  "smart_concat arrays = (case arrays of [] \<Rightarrow> Inr []
     | a0 # rest \<Rightarrow>
       (let common = foldl (\<lambda>c a. c \<inter> set (keys a)) (set (keys a0)) rest;
            names = sorted_list_of_set common in
        if names = [] then Inl AssertionError
        else mapE (\<lambda>name. bindE (mapE (\<lambda>a. dict_get a name) arrays)
               (\<lambda>columns. Inr (name, concat columns))) names))"

text \<open>\<open>a[on]\<close> holds row numbers of \<open>b\<close>; numpy rejects a name that occurs twice.\<close>

definition add_columns :: "(string, 'v list) dict \<Rightarrow> (string, 'v list) dict \<Rightarrow> int list \<Rightarrow>
    string list option \<Rightarrow> (string, 'v list) dict res" where
  "add_columns a b idxs cols =
     (let names = (case cols of None \<Rightarrow> keys b | Some c \<Rightarrow> c) in
      bindE (mapE (\<lambda>name. bindE (dict_get b name) (\<lambda>c. Inr (name, c))) names) (\<lambda>bcols.
      if \<not> distinct (keys a @ names) then Inl ValueError
      else bindE (mapE (\<lambda>(name, c). bindE (mapE (py_index c) idxs) (\<lambda>v. Inr (name, v))) bcols)
        (\<lambda>new. Inr (a @ new))))"

lemma foldl_inter: "foldl (\<lambda>c a. c \<inter> set (keys a)) s as = s \<inter> (\<Inter>a \<in> set as. set (keys a))"
  by (induction as arbitrary: s) auto

lemma smart_concat_Inr:
  assumes "smart_concat arrays = Inr res" and "arrays \<noteq> []"
  shows "set (keys res) = (\<Inter>a \<in> set arrays. set (keys a))"
    and "map_of res name = Some col \<Longrightarrow> col = concat (map (\<lambda>a. the (map_of a name)) arrays)"
proof -
  obtain a0 rest where ar: "arrays = a0 # rest" using assms(2) by (cases arrays) auto
  define common where "common = (\<Inter>a \<in> set arrays. set (keys a))"
  have "finite common" by (simp add: common_def ar)
  have c: "foldl (\<lambda>c a. c \<inter> set (keys a)) (set (keys a0)) rest = common"
    unfolding foldl_inter common_def ar by simp
  have m: "list_all2 (\<lambda>n p. \<exists>cs. list_all2 (\<lambda>a c. map_of a n = Some c) arrays cs \<and> p = (n, concat cs))
      (sorted_list_of_set common) res"
  proof -
    have "list_all2 (\<lambda>n p. bindE (mapE (\<lambda>a. dict_get a n) arrays) (\<lambda>columns. Inr (n, concat columns)) = Inr p)
        (sorted_list_of_set common) res"
      using assms(1) c by (auto simp: smart_concat_def ar Let_def mapE_Inr_iff split: if_splits)
    then show ?thesis
      by (rule list_all2_mono) (auto simp: bindE_Inr_iff mapE_Inr_iff dict_get_Inr_iff)
  qed
  have k: "keys res = sorted_list_of_set common"
    using m by (auto simp: list_all2_conv_all_nth intro!: nth_equalityI)
  show "set (keys res) = (\<Inter>a \<in> set arrays. set (keys a))"
    unfolding k using \<open>finite common\<close> by (simp add: common_def)
  assume "map_of res name = Some col"
  then have "(name, col) \<in> set res" by (rule map_of_SomeD)
  then obtain cs where cs: "list_all2 (\<lambda>a c. map_of a name = Some c) arrays cs" "col = concat cs"
  proof -
    obtain i where i: "i < length res" "res ! i = (name, col)"
      using \<open>(name, col) \<in> set res\<close> by (auto simp: in_set_conv_nth)
    with m obtain cs where "list_all2 (\<lambda>a c. map_of a (sorted_list_of_set common ! i) = Some c) arrays cs"
      "res ! i = (sorted_list_of_set common ! i, concat cs)"
      using list_all2_nthD2 [OF m i(1)] by blast
    then show thesis using that i(2) by simp
  qed
  then have "cs = map (\<lambda>a. the (map_of a name)) arrays"
    by (auto simp: list_all2_conv_all_nth intro!: nth_equalityI)
  with cs(2) show "col = concat (map (\<lambda>a. the (map_of a name)) arrays)" by simp
qed

section \<open>Ports\<close>

text \<open>
  \<open>random.choice\<close> and the test whether a server listens are parameters. A candidate is removed when
  it is drawn; the state is the list of candidates left.
\<close>

definition port_candidates :: "nat list" where
  "port_candidates = [1920..<2000]"

fun get_free_port_loop :: "nat \<Rightarrow> (nat list \<Rightarrow> nat) \<Rightarrow> (nat \<Rightarrow> bool) \<Rightarrow> nat list \<Rightarrow> nat res \<times> nat list" where
  "get_free_port_loop 0 choice ready cands = (Inl RuntimeError, cands)"
| "get_free_port_loop (Suc n) choice ready cands =
     (if cands = [] then (Inl RuntimeError, [])
      else let port = choice cands; rest = remove1 port cands in
        if \<not> ready port then (Inr port, rest) else get_free_port_loop n choice ready rest)"

text \<open>Each round removes one candidate, so as many rounds as candidates are enough.\<close>

definition get_free_port :: "(nat list \<Rightarrow> nat) \<Rightarrow> (nat \<Rightarrow> bool) \<Rightarrow> nat list \<Rightarrow> nat res \<times> nat list" where
  "get_free_port choice ready cands = get_free_port_loop (length cands) choice ready cands"

lemma remove_choice:
  fixes choice :: "'a list \<Rightarrow> 'a"
  assumes "\<And>l. l \<noteq> [] \<Longrightarrow> choice l \<in> set l" and "cands \<noteq> []"
  shows "choice cands \<in> set cands"
    and "length cands \<le> Suc n \<Longrightarrow> length (remove1 (choice cands) cands) \<le> n"
    and "(\<exists>q \<in> set cands. P q) \<longleftrightarrow> P (choice cands) \<or> (\<exists>q \<in> set (remove1 (choice cands) cands). P q)"
proof -
  show p: "choice cands \<in> set cands" using assms by simp
  then show "length cands \<le> Suc n \<Longrightarrow> length (remove1 (choice cands) cands) \<le> n"
    by (simp add: length_remove1)
  have "x \<in> set cands \<longleftrightarrow> x = choice cands \<or> x \<in> set (remove1 (choice cands) cands)" for x
    using p in_set_remove1 [of x "choice cands" cands] by (cases "x = choice cands") auto
  then show "(\<exists>q \<in> set cands. P q) \<longleftrightarrow> P (choice cands) \<or> (\<exists>q \<in> set (remove1 (choice cands) cands). P q)"
    by metis
qed

lemma get_free_port_loop_ok:
  assumes "\<And>l. l \<noteq> [] \<Longrightarrow> choice l \<in> set l" and "length cands \<le> n"
  shows "(\<exists>p \<in> set cands. \<not> ready p) \<longleftrightarrow> is_ok (fst (get_free_port_loop n choice ready cands))"
    and "get_free_port_loop n choice ready cands = (Inr p, rest) \<Longrightarrow>
      p \<in> set cands \<and> \<not> ready p \<and> set rest \<subseteq> set cands \<and> (distinct cands \<longrightarrow> p \<notin> set rest)"
  using assms(2)
proof (induction n arbitrary: cands)
  case 0
  { case 1 then show ?case by simp }
  { case 2 then show ?case by simp }
next
  case (Suc n)
  { case 1
    show ?case
    proof (cases "cands = []")
      case False
      note r = remove_choice [where choice = choice, OF assms(1) False]
      have "is_ok (fst (get_free_port_loop (Suc n) choice ready cands)) \<longleftrightarrow>
          \<not> ready (choice cands) \<or> is_ok (fst (get_free_port_loop n choice ready (remove1 (choice cands) cands)))"
        using False by (simp add: Let_def)
      also have "\<dots> \<longleftrightarrow> \<not> ready (choice cands) \<or> (\<exists>p \<in> set (remove1 (choice cands) cands). \<not> ready p)"
        using Suc(1) r(2) 1 by simp
      also have "\<dots> \<longleftrightarrow> (\<exists>p \<in> set cands. \<not> ready p)" by (rule r(3) [symmetric])
      finally show ?thesis by (rule sym)
    qed simp }
  { case 2
    then have ne: "cands \<noteq> []" by auto
    note r = remove_choice [where choice = choice, OF assms(1) ne]
    show ?case
      using Suc(2) [of "remove1 (choice cands) cands"] r(1,2) 2 ne set_remove1_subset [of "choice cands" cands]
      by (cases "ready (choice cands)") (auto simp: Let_def split: if_splits) }
qed

text \<open>The host and port of an address \<open>(tcp://)host:port\<close>.\<close>

definition parse_hostport :: "string \<Rightarrow> (string \<times> int) res" where
  "parse_hostport s =
     (let h = (if startswith s ''tcp://'' then drop 6 s else s) in
      case split_on CHR '':'' h of
        [host, port] \<Rightarrow> bindE (py_int port) (\<lambda>p. Inr (host, p))
      | _ \<Rightarrow> Inl ValueError)"

section \<open>Archives\<close>

definition dirname :: "string \<Rightarrow> string" where
  "dirname p = (let head = take (nat (rfind CHR ''/'' p + 1)) p in
     if head \<noteq> [] \<and> list_ex (\<lambda>c. c \<noteq> CHR ''/'') head then rstrip_by (\<lambda>c. c = CHR ''/'') head else head)"

fun commonprefix :: "string list \<Rightarrow> string" where
  "commonprefix [] = []"
| "commonprefix [w] = w"
| "commonprefix (w # ws) = longest_common_prefix w (commonprefix ws)"

definition zip_names :: "string list \<Rightarrow> (string \<times> string) list" where
  "zip_names fnames = (let n = length (commonprefix (map dirname fnames)) in
     map (\<lambda>f. (f, drop n f)) fnames)"

lemma commonprefix_prefix: "w \<in> set ws \<Longrightarrow> prefix (commonprefix ws) w"
  by (induction ws rule: commonprefix.induct)
    (auto intro: longest_common_prefix_prefix1 prefix_order.trans [OF longest_common_prefix_prefix2])

lemma commonprefix_max:
  "ws \<noteq> [] \<Longrightarrow> (\<And>w. w \<in> set ws \<Longrightarrow> prefix p w) \<Longrightarrow> prefix p (commonprefix ws)"
  by (induction ws rule: commonprefix.induct) (auto intro: longest_common_prefix_max_prefix)

section \<open>Class trees\<close>

datatype pyclass = PyClass (cls_name: string) (cls_subs: "pyclass list")

function gen_subclasses :: "pyclass \<Rightarrow> pyclass list" where
  "gen_subclasses c = concat (map (\<lambda>s. s # gen_subclasses s) (sort_key cls_name (cls_subs c)))"
  by pat_completeness auto
termination
proof (relation "measure size")
  fix c s assume "s \<in> set (sort_key cls_name (cls_subs c))"
  then show "(s, c) \<in> measure size"
    by (cases c) (auto simp: less_Suc_eq_le intro: trans_le_add2 size_list_estimation')
qed simp

declare gen_subclasses.simps [simp del]

inductive is_subclass :: "pyclass \<Rightarrow> pyclass \<Rightarrow> bool" where
  direct: "s \<in> set (cls_subs c) \<Longrightarrow> is_subclass s c"
| step: "is_subclass s t \<Longrightarrow> t \<in> set (cls_subs c) \<Longrightarrow> is_subclass s c"

inductive_cases is_subclassE: "is_subclass s c"

lemma gen_subclasses_iff: "s \<in> set (gen_subclasses c) \<longleftrightarrow> is_subclass s c"
proof (induction c rule: gen_subclasses.induct)
  case (1 c)
  have "s \<in> set (gen_subclasses c) \<longleftrightarrow> (\<exists>t \<in> set (cls_subs c). s = t \<or> s \<in> set (gen_subclasses t))"
    by (subst gen_subclasses.simps) auto
  also have "\<dots> \<longleftrightarrow> (\<exists>t \<in> set (cls_subs c). s = t \<or> is_subclass s t)"
    using 1 by auto
  also have "\<dots> \<longleftrightarrow> is_subclass s c"
    by (auto intro: is_subclass.intros elim: is_subclassE)
  finally show ?case .
qed

end
