(* ===== verification/Py_Show.thy ===== *)
theory Py_Show
  imports Py_Float
begin

text \<open>
  \<open>repr\<close> of a Python float, and formatting with a fixed number of decimals. \<open>repr\<close> gives the
  shortest decimal that reads back as the same double: \<open>shortest\<close> tries 1, 2, ... significant
  digits, at each length the two neighbours, the nearer one first. Seventeen digits are always
  enough for a double; the bound on the search is larger, so it never cuts it short.
\<close>

function dec_len :: "int \<Rightarrow> int" where
  "dec_len n = (if n \<le> 0 then 0 else 1 + dec_len (n div 10))"
  by pat_completeness auto
termination
  by (relation "measure nat") auto

declare dec_len.simps [simp del]

definition ilog10 :: "rat \<Rightarrow> int" where
  "ilog10 q = (case quotient_of q of (n, d) \<Rightarrow>
     let e = dec_len n - dec_len d in if pow10 e \<le> q then e else e - 1)"

text \<open>\<open>(c, s)\<close> stands for \<open>c * 10 ^ (- s)\<close>.\<close>

definition decimals :: "rat \<Rightarrow> int \<Rightarrow> (int \<times> int) list" where
  "decimals q s = (let x = q * pow10 s; c = \<lfloor>x\<rfloor> in
     if round_even x = c then [(c, s), (c + 1, s)] else [(c + 1, s), (c, s)])"

definition dec_value :: "int \<times> int \<Rightarrow> rat" where
  "dec_value cs = of_int (fst cs) * pow10 (- snd cs)"

function shortest_loop :: "int \<Rightarrow> int \<Rightarrow> rat \<Rightarrow> int \<times> int" where
  "shortest_loop n s q = (if n \<le> 0 then (\<lfloor>q * pow10 s\<rfloor>, s)
     else case filter (\<lambda>cs. fl (dec_value cs) = Fin q) (decimals q s) of
        cs # _ \<Rightarrow> cs | [] \<Rightarrow> shortest_loop (n - 1) (s + 1) q)"
  by pat_completeness auto
termination
  by (relation "measure (\<lambda>(n, s, q). nat n)") auto

declare shortest_loop.simps [simp del]

definition shortest :: "rat \<Rightarrow> int \<times> int" where
  "shortest q = shortest_loop 1100 (- ilog10 q) q"

definition zeros :: "int \<Rightarrow> string" where
  "zeros n = replicate (nat n) CHR ''0''"

text \<open>The digits and the position of the decimal point.\<close>

definition digits_point :: "rat \<Rightarrow> string \<times> int" where
  "digits_point q = (case shortest q of (c, s) \<Rightarrow>
     let d = show_digits c in (rstrip_by (\<lambda>x. x = CHR ''0'') d, int (length d) - s))"

definition show_exp :: "int \<Rightarrow> string" where
  "show_exp e = (let a = show_digits \<bar>e\<bar> in
     CHR ''e'' # (if e < 0 then CHR ''-'' else CHR ''+'') # (if length a < 2 then CHR ''0'' # a else a))"

definition show_pos :: "rat \<Rightarrow> string" where
  "show_pos q = (case digits_point q of (d, p) \<Rightarrow>
     if - 4 < p \<and> p \<le> 16 then
       (if p \<le> 0 then ''0.'' @ zeros (- p) @ d
        else if int (length d) \<le> p then d @ zeros (p - int (length d)) @ ''.0''
        else take (nat p) d @ CHR ''.'' # drop (nat p) d)
     else take 1 d @ (if length d = 1 then [] else CHR ''.'' # drop 1 d) @ show_exp (p - 1))"

fun show_float :: "pyfloat \<Rightarrow> string" where
  "show_float (Fin q) = (if q = 0 then ''0.0'' else if 0 < q then show_pos q else CHR ''-'' # show_pos (- q))"
| "show_float PInf = ''inf''"
| "show_float NInf = ''-inf''"
| "show_float NaN = ''nan''"

text \<open>\<open>'%.nf' % x\<close>.\<close>

definition fixed_pos :: "nat \<Rightarrow> rat \<Rightarrow> string" where
  "fixed_pos n q = (let d = show_digits (round_even (q * pow10 (int n)));
       d' = (if length d \<le> n then replicate (n + 1 - length d) CHR ''0'' @ d else d) in
     take (length d' - n) d' @ (if n = 0 then [] else CHR ''.'' # drop (length d' - n) d'))"

fun format_fixed :: "nat \<Rightarrow> pyfloat \<Rightarrow> string" where
  "format_fixed n (Fin q) = (if 0 \<le> q then fixed_pos n q else CHR ''-'' # fixed_pos n (- q))"
| "format_fixed n PInf = ''inf''"
| "format_fixed n NInf = ''-inf''"
| "format_fixed n NaN = ''nan''"

lemma show_float_examples:
  "show_float (fl (1 / 10)) = ''0.1''" "show_float (Fin 1) = ''1.0''"
  "show_float (Fin (5 / 2)) = ''2.5''" "show_float (Fin (- 1 / 4)) = ''-0.25''"
  "show_float (fl (1 / 100000)) = ''1e-05''" "show_float (Fin 123456) = ''123456.0''"
  by code_simp+

lemma format_fixed_examples:
  "format_fixed 6 (fl (1 / 10)) = ''0.100000''" "format_fixed 2 (Fin (- 5 / 4)) = ''-1.25''"
  by code_simp+

end
