(* ===== verification/Py_Regex.thy ===== *)
theory Py_Regex
  imports Py_Base
begin

text \<open>
  Regular expressions over character classes, for the patterns the sources pass to \<open>re.match\<close>.
  \<open>rx_lang\<close> says which strings an expression denotes; \<open>re_match\<close> is \<open>re.match(r, s)\<close> (some prefix
  of \<open>s\<close> is denoted) and \<open>re_match_end\<close> is \<open>re.match(r + '$', s)\<close>: as in Python, \<open>$\<close> matches at
  the end and also before a newline that ends the string.
\<close>

datatype rx =
    RNone | REmpty | RChar "char \<Rightarrow> bool" | RSeq rx rx | ROr rx rx | RMany rx

abbreviation RSome :: "rx \<Rightarrow> rx" where
  "RSome r \<equiv> RSeq r (RMany r)"

abbreviation ROpt :: "rx \<Rightarrow> rx" where
  "ROpt r \<equiv> ROr r REmpty"

abbreviation RLit :: "char \<Rightarrow> rx" where
  "RLit c \<equiv> RChar (\<lambda>x. x = c)"

inductive rx_lang :: "rx \<Rightarrow> string \<Rightarrow> bool" where
  lang_empty: "rx_lang REmpty []"
| lang_char: "p c \<Longrightarrow> rx_lang (RChar p) [c]"
| lang_seq: "rx_lang r s \<Longrightarrow> rx_lang q t \<Longrightarrow> rx_lang (RSeq r q) (s @ t)"
| lang_or1: "rx_lang r s \<Longrightarrow> rx_lang (ROr r q) s"
| lang_or2: "rx_lang q s \<Longrightarrow> rx_lang (ROr r q) s"
| lang_many0: "rx_lang (RMany r) []"
| lang_many: "rx_lang r (c # s) \<Longrightarrow> rx_lang (RMany r) t \<Longrightarrow> rx_lang (RMany r) (c # s @ t)"

inductive_simps rx_lang_simps [simp]:
  "rx_lang RNone s"
  "rx_lang REmpty s"
  "rx_lang (RChar p) s"
  "rx_lang (RSeq r q) s"
  "rx_lang (ROr r q) s"

inductive_simps rx_lang_many: "rx_lang (RMany r) s"

text \<open>The matcher: what is left of an expression once it has consumed a character.\<close>

fun nullable :: "rx \<Rightarrow> bool" where
  "nullable RNone = False"
| "nullable REmpty = True"
| "nullable (RChar p) = False"
| "nullable (RSeq r q) = (nullable r \<and> nullable q)"
| "nullable (ROr r q) = (nullable r \<or> nullable q)"
| "nullable (RMany r) = True"

fun seq_of :: "rx \<Rightarrow> rx \<Rightarrow> rx" where
  "seq_of RNone q = RNone"
| "seq_of REmpty q = q"
| "seq_of r q = RSeq r q"

fun or_of :: "rx \<Rightarrow> rx \<Rightarrow> rx" where
  "or_of RNone q = q"
| "or_of r RNone = r"
| "or_of r q = ROr r q"

fun consume :: "char \<Rightarrow> rx \<Rightarrow> rx" where
  "consume c (RChar p) = (if p c then REmpty else RNone)"
| "consume c (RSeq r q) = (if nullable r then or_of (seq_of (consume c r) q) (consume c q)
     else seq_of (consume c r) q)"
| "consume c (ROr r q) = or_of (consume c r) (consume c q)"
| "consume c (RMany r) = seq_of (consume c r) (RMany r)"
| "consume c _ = RNone"

fun rx_full :: "rx \<Rightarrow> string \<Rightarrow> bool" where
  "rx_full r [] = nullable r"
| "rx_full r (c # s) = rx_full (consume c r) s"

fun re_match :: "rx \<Rightarrow> string \<Rightarrow> bool" where
  "re_match r [] = nullable r"
| "re_match r (c # s) = (nullable r \<or> re_match (consume c r) s)"

definition newline :: char where
  "newline = char_of (10 :: nat)"

definition re_match_end :: "rx \<Rightarrow> string \<Rightarrow> bool" where
  "re_match_end r s = (rx_full r s \<or> s \<noteq> [] \<and> last s = newline \<and> rx_full r (butlast s))"

lemma nullable_iff: "nullable r \<longleftrightarrow> rx_lang r []"
  by (induction r) (auto intro: lang_many0)

lemma seq_of_lang [simp]: "rx_lang (seq_of r q) s \<longleftrightarrow> rx_lang (RSeq r q) s"
  by (cases r) auto

lemma or_of_lang [simp]: "rx_lang (or_of r q) s \<longleftrightarrow> rx_lang (ROr r q) s"
  by (cases r; cases q) auto

lemma consume_lang: "rx_lang (consume c r) s \<longleftrightarrow> rx_lang r (c # s)"
proof (induction r arbitrary: s)
  case (RSeq r q)
  show ?case
    by (auto simp: RSeq.IH nullable_iff Cons_eq_append_conv)
next
  case (RMany r)
  have "rx_lang (RMany r) (c # s) \<longleftrightarrow> (\<exists>u v. s = u @ v \<and> rx_lang r (c # u) \<and> rx_lang (RMany r) v)"
    by (subst rx_lang_many) auto
  then show ?case by (auto simp: RMany.IH)
qed auto

lemma rx_full_iff: "rx_full r s \<longleftrightarrow> rx_lang r s"
  by (induction s arbitrary: r) (auto simp: nullable_iff consume_lang)

lemma re_match_iff: "re_match r s \<longleftrightarrow> (\<exists>u v. s = u @ v \<and> rx_lang r u)"
proof (induction s arbitrary: r)
  case (Cons c s)
  then show ?case
    by (auto simp: nullable_iff consume_lang Cons_eq_append_conv)
qed (auto simp: nullable_iff)

lemma many_char_iff [simp]: "rx_lang (RMany (RChar p)) s \<longleftrightarrow> (\<forall>c \<in> set s. p c)"
proof (induction s)
  case Nil
  then show ?case by (simp add: lang_many0)
next
  case (Cons c s)
  have "rx_lang (RMany (RChar p)) (c # s) \<longleftrightarrow> p c \<and> rx_lang (RMany (RChar p)) s"
    by (subst rx_lang_many) auto
  with Cons show ?case by simp
qed

lemma seq_char_iff: "rx_lang (RSeq (RChar p) q) s \<longleftrightarrow> (\<exists>c t. s = c # t \<and> p c \<and> rx_lang q t)"
proof
  assume "\<exists>c t. s = c # t \<and> p c \<and> rx_lang q t"
  then obtain c t where s: "s = [c] @ t" and "p c" "rx_lang q t" by auto
  then show "rx_lang (RSeq (RChar p) q) s"
    unfolding s by (intro lang_seq lang_char)
qed auto

lemma some_char_iff: "rx_lang (RSome (RChar p)) s \<longleftrightarrow> s \<noteq> [] \<and> (\<forall>c \<in> set s. p c)"
proof (cases s)
  case (Cons c t)
  have "rx_lang (RSome (RChar p)) (c # t) \<longleftrightarrow> p c \<and> rx_lang (RMany (RChar p)) t"
    by (simp only: seq_char_iff) auto
  then show ?thesis using Cons by simp
qed auto

lemma re_match_end_iff:
  "re_match_end r s \<longleftrightarrow> rx_lang r s \<or> (\<exists>u. s = u @ [newline] \<and> rx_lang r u)"
  by (cases s rule: rev_cases) (auto simp: re_match_end_def rx_full_iff)

lemma re_match_end_imp_match: "re_match_end r s \<Longrightarrow> re_match r s"
  by (auto simp: re_match_end_iff re_match_iff)

end
