(* ===== verification/Imt.thy ===== *)
theory Imt
  imports Py_Show Py_Regex
begin

text \<open>
  Intensity measure types (openquake/hazardlib/imt.py): the named tuple \<open>IMT\<close>, its constructors,
  and \<open>from_string\<close>, \<open>imt2tup\<close>, \<open>sort_by_imt\<close>, which turn what a user writes into a measure type.
\<close>

record imt =
  imt_string :: string
  imt_period :: pyfloat
  imt_damping :: pyfloat
  imt_strength_ratio :: "pyfloat option"

text \<open>\<open>IMT(string, period=0., damping=5., strength_ratio=None)\<close>.\<close>

definition mk_imt :: "string \<Rightarrow> pyfloat \<Rightarrow> pyfloat \<Rightarrow> imt" where
  "mk_imt s p d = \<lparr>imt_string = s, imt_period = p, imt_damping = d, imt_strength_ratio = None\<rparr>"

definition plain_imt :: "string \<Rightarrow> imt" where
  "plain_imt s = mk_imt s (Fin 0) (Fin 5)"

definition imt_lt :: "imt \<Rightarrow> imt \<Rightarrow> bool" where
  "imt_lt a b = flt_less (imt_period a) (imt_period b)"

definition flt_truth :: "pyfloat \<Rightarrow> bool" where
  "flt_truth x = (x \<noteq> Fin 0)"

definition imt_repr :: "imt \<Rightarrow> string" where
  "imt_repr m =
     (if flt_truth (imt_period m) \<and> \<not> flt_eq (imt_damping m) (Fin 5) then
        (if startswith (imt_string m) ''SDi'' then
           ''SDi('' @ show_float (imt_period m) @ '', ''
             @ (case imt_strength_ratio m of None \<Rightarrow> ''None'' | Some r \<Rightarrow> show_float r) @ '', ''
             @ show_float (imt_damping m) @ '')''
         else ''SA('' @ show_float (imt_period m) @ '', '' @ show_float (imt_damping m) @ '')'')
      else imt_string m)"

text \<open>\<open>1. / x\<close>.\<close>

fun recip :: "pyfloat \<Rightarrow> pyfloat res" where
  "recip (Fin q) = (if q = 0 then Inl ZeroDivisionError else Inr (fl (1 / q)))"
| "recip NaN = Inr NaN"
| "recip _ = Inr (Fin 0)"

definition EAS :: "pyfloat \<Rightarrow> imt res" where
  "EAS frequency = bindE (recip frequency) (\<lambda>p. Inr (mk_imt (''EAS('' @ format_fixed 6 frequency @ '')'') p (Fin 5)))"

definition FAS :: "pyfloat \<Rightarrow> imt res" where
  "FAS frequency = bindE (recip frequency) (\<lambda>p. Inr (mk_imt (''FAS('' @ format_fixed 6 frequency @ '')'') p (Fin 5)))"

definition DRVT :: "pyfloat \<Rightarrow> imt res" where
  "DRVT frequency = bindE (recip frequency) (\<lambda>p. Inr (mk_imt (''DRVT('' @ format_fixed 6 frequency @ '')'') p (Fin 5)))"

definition SA :: "pyfloat \<Rightarrow> pyfloat \<Rightarrow> imt" where
  "SA period damping = mk_imt (''SA('' @ show_float period @ '')'') period damping"

definition SDi :: "pyfloat \<Rightarrow> pyfloat \<Rightarrow> pyfloat \<Rightarrow> imt" where
  "SDi period strength_ratio damping =
     (mk_imt (''SDi('' @ show_float period @ '','' @ show_float strength_ratio @ '')'') period damping)
       \<lparr>imt_strength_ratio := Some strength_ratio\<rparr>"

definition AvgSA :: "pyfloat \<Rightarrow> pyfloat \<Rightarrow> imt" where
  "AvgSA period damping = (if flt_truth period then mk_imt (''AvgSA('' @ show_float period @ '')'') period damping
     else plain_imt ''AvgSA'')"

text \<open>The names bound in the module when \<open>imt2tup\<close> looks a name up in \<open>globals()\<close>.\<close>

definition imt_names :: "string list" where
  "imt_names = [''PGA'', ''PGV'', ''PGD'', ''EAS'', ''FAS'', ''DRVT'', ''SA'', ''FIV3'', ''Sa_avg2'', ''Sa_avg3'',
     ''SDi'', ''AvgSA'', ''IA'', ''CAV'', ''RSD'', ''RSD595'', ''RSD575'', ''RSD2080'', ''MMI'', ''JMA'',
     ''ASH'', ''LAVA'', ''LAHAR'', ''PYRO'', ''Disp'', ''DispProb'', ''LiqProb'', ''LiqOccur'', ''LSE'',
     ''PGDMax'', ''LSD'', ''PGDGeomMean'', ''LsProb'']"

definition other_globals :: "string list" where
  "other_globals = [''__name__'', ''__doc__'', ''__package__'', ''__loader__'', ''__spec__'', ''__file__'',
     ''__cached__'', ''__builtins__'', ''re'', ''collections'', ''numpy'', ''DictArray'', ''FREQUENCY_PATTERN'',
     ''positivefloat'', ''imt2tup'', ''from_string'', ''sort_by_imt'', ''dictarray'', ''repr'', ''IMT'',
     ''sec_imts'', ''sec'']"

text \<open>
  The tuple \<open>imt2tup\<close> returns has one, two or three elements: a string, a period, and, for \<open>SDi\<close>, the
  strength ratio. Reading the strength ratio when it was not given is a NameError.
\<close>

definition imt2tup :: "string \<Rightarrow> (string \<times> pyfloat list) res" where
  "imt2tup str = (let s = strip str; parts = split_on CHR ''('' s; name = hd parts; rest = tl parts in
     if name \<notin> set (imt_names @ other_globals) then Inl KeyError
     else if 12 < length name then Inl NameError
     else if rest = [] then (if name = ''SA'' then Inl ValueError else Inr (s, []))
     else (let args = split_on CHR '','' (butlast (hd rest)) in
       bindE (if length args = 1 then bindE (py_float (args ! 0)) (\<lambda>p. Inr (p, None))
              else if length args = 2 then
                bindE (py_float (args ! 0)) (\<lambda>p. bindE (py_float (args ! 1)) (\<lambda>r. Inr (p, Some r)))
              else Inl NameError)
       (\<lambda>(period, strength_ratio).
         if startswith name ''Sa_avg2'' \<or> startswith name ''SA_avg2''
           then Inr (''Sa_avg2('' @ show_float period @ '')'', [period])
         else if startswith name ''Sa_avg3'' \<or> startswith name ''SA_avg3''
           then Inr (''Sa_avg3('' @ show_float period @ '')'', [period])
         else if startswith name ''SA'' \<or> startswith name ''Sa''
           then Inr (''SA('' @ show_float period @ '')'', [period])
         else if startswith name ''FIV3'' then Inr (''FIV3('' @ show_float period @ '')'', [period])
         else if startswith name ''SDi'' then
           (case strength_ratio of None \<Rightarrow> Inl NameError
            | Some r \<Rightarrow> Inr (''SDi('' @ show_float period @ '','' @ show_float r @ '')'', [period, r]))
         else Inl NameError)))"

text \<open>\<open>IMT(*tup)\<close>: the arguments after the string are the period and the damping.\<close>

definition imt_of_tup :: "string \<times> pyfloat list \<Rightarrow> imt" where
  "imt_of_tup t = (case t of
     (s, []) \<Rightarrow> plain_imt s
   | (s, [p]) \<Rightarrow> mk_imt s p (Fin 5)
   | (s, p # d # _) \<Rightarrow> mk_imt s p d)"

definition is_numeric :: "char \<Rightarrow> bool" where
  "is_numeric c = (is_digit c \<or> c = CHR ''.'')"

text \<open>\<open>\d+\.*\d*\<close>, \<open>\d+\.?\d*\<close> and \<open>[ \+\d\.]+\<close>.\<close>

definition rx_frequency :: rx where
  "rx_frequency = RSeq (RSome (RChar is_digit)) (RSeq (RMany (RLit CHR ''.'')) (RMany (RChar is_digit)))"

definition rx_decimal :: rx where
  "rx_decimal = RSeq (RSome (RChar is_digit)) (RSeq (ROpt (RLit CHR ''.'')) (RMany (RChar is_digit)))"

definition rx_period :: rx where
  "rx_period = RSome (RChar (\<lambda>c. c = CHR '' '' \<or> c = CHR ''+'' \<or> is_digit c \<or> c = CHR ''.''))"

text \<open>
  \<open>re.match(FREQUENCY_PATTERN, s)\<close>: the second group is the run of digits and dots after the
  parenthesis; it must be closed by a parenthesis, and what follows is not looked at.
\<close>

definition match_frequency :: "string \<Rightarrow> (string \<times> string) option" where
  "match_frequency s = (let name = takeWhile (\<lambda>c. c \<noteq> CHR ''('') s; t = drop (Suc (length name)) s;
       run = takeWhile is_numeric t in
     if name \<in> {''EAS'', ''FAS'', ''DRVT'', ''AvgSA''} \<and> length name < length s \<and> rx_full rx_frequency run
       \<and> startswith (drop (length run) t) '')''
     then Some (name, run) else None)"

text \<open>\<open>re.match(r'^SDi\((\d+\.?\d*),(\d+\.?\d*)\)$', s)\<close>.\<close>

definition match_sdi :: "string \<Rightarrow> (string \<times> string) option" where
  "match_sdi s = (let body = (if s \<noteq> [] \<and> last s = newline then butlast s else s);
       a = takeWhile is_numeric (drop 4 body); t = drop (4 + length a) body;
       b = takeWhile is_numeric (drop 1 t); u = drop (1 + length b) t in
     if startswith body ''SDi('' \<and> rx_full rx_decimal a \<and> startswith t '','' \<and> rx_full rx_decimal b \<and> u = '')''
     then Some (a, b) else None)"

definition imt_from_string :: "string \<Rightarrow> imt res" where
  "imt_from_string s = (case match_frequency s of
     Some (name, num) \<Rightarrow> bindE (py_float num) (\<lambda>f.
       if name = ''EAS'' then EAS f else if name = ''FAS'' then FAS f
       else if name = ''DRVT'' then DRVT f else Inr (AvgSA f (Fin 5)))
   | None \<Rightarrow> (case match_sdi s of
       Some (a, b) \<Rightarrow> bindE (py_float a) (\<lambda>p. bindE (py_float b) (\<lambda>r. Inr (SDi p r (Fin 5))))
     | None \<Rightarrow> if re_match rx_period s then bindE (py_float s) (\<lambda>p. Inr (SA p (Fin 5)))
         else bindE (imt2tup s) (\<lambda>t. Inr (imt_of_tup t))))"

text \<open>
  \<open>sort_by_imt\<close>: the sort compares periods; with a stable sort, as Python's, equal periods keep
  their order. The periods \<open>from_string\<close> gives are not NaN for the names of the sources.
\<close>

fun flt_rank :: "pyfloat \<Rightarrow> nat \<times> rat" where
  "flt_rank NInf = (0, 0)"
| "flt_rank (Fin q) = (1, q)"
| "flt_rank PInf = (2, 0)"
| "flt_rank NaN = (3, 0)"

definition sort_by_imt :: "(string, 'v) dict \<Rightarrow> (string, 'v) dict res" where
  "sort_by_imt imtls = bindE (mapE (\<lambda>(k, v). bindE (imt_from_string k) (\<lambda>m. Inr (imt_period m, k, v))) imtls)
     (\<lambda>l. Inr (map snd (sort_key (\<lambda>t. flt_rank (fst t)) l)))"

lemma flt_rank_less: "x \<noteq> NaN \<Longrightarrow> y \<noteq> NaN \<Longrightarrow> flt_rank x < flt_rank y \<longleftrightarrow> flt_less x y"
  by (cases x; cases y) (auto simp: less_prod_def)

lemma imt_examples:
  "imt_from_string ''SA(0.10)'' = Inr (SA (fl (1 / 10)) (Fin 5))"
  "imt_from_string ''PGA'' = Inr (plain_imt ''PGA'')"
  "imt_from_string ''SA'' = Inl ValueError"
  "imt_from_string ''0.5'' = Inr (SA (Fin (1 / 2)) (Fin 5))"
  "imt_from_string ''SDi(1,2)'' = Inr (SDi (Fin 1) (Fin 2) (Fin 5))"
  by code_simp+

end
