(* ===== verification/Valid.thy ===== *)
theory Valid
  imports Imt Seq_Blocks
begin

text \<open>
  The validators of openquake/hazardlib/valid.py that turn the strings of a job file or of an XML
  attribute into values. The locale \<open>validator\<close> is the contract they share: what they return
  satisfies a condition, and they refuse with ValueError only; it is interpreted on the
  validators of coordinates, ranges, numbers, booleans and identifiers.
\<close>

section \<open>The contract of a validator\<close>

locale validator =
  fixes valid :: "'s \<Rightarrow> 'v res" and ok :: "'v \<Rightarrow> bool"
  assumes sound: "valid s = Inr v \<Longrightarrow> ok v"
    and only_value_error: "valid s = Inl e \<Longrightarrow> e = ValueError"
begin

lemma many_sound: "mapE valid ss = Inr vs \<Longrightarrow> list_all ok vs \<and> length vs = length ss"
  by (auto simp: mapE_Inr_iff list_all_length list_all2_conv_all_nth intro: sound)

lemma many_only_value_error: "mapE valid ss = Inl e \<Longrightarrow> e = ValueError"
  by (induction ss) (auto simp: bindE_Inl_iff dest: only_value_error)

text \<open>A validator applied after a function that fails with ValueError only.\<close>

lemma after_sound:
  assumes "bindE r valid = Inr v" shows "ok v"
  using assms sound by (auto simp: bindE_Inr_iff)

lemma after_only_value_error:
  assumes "bindE r valid = Inl e" and "\<And>e. r = Inl e \<Longrightarrow> e = ValueError" shows "e = ValueError"
  using assms only_value_error by (auto simp: bindE_Inl_iff)

end

section \<open>Combinators\<close>

definition compose :: "('v \<Rightarrow> 'v res) list \<Rightarrow> 'v \<Rightarrow> 'v res" where
  "compose validators value = foldE (\<lambda>out validator. validator out) value (rev validators)"

definition none_or :: "(string \<Rightarrow> 'v res) \<Rightarrow> string \<Rightarrow> 'v option res" where
  "none_or cast value = (if value \<noteq> [] then bindE (cast value) (\<lambda>v. Inr (Some v)) else Inr None)"

definition choice :: "string list \<Rightarrow> string \<Rightarrow> string res" where
  "choice choices value = (if value \<notin> set choices then Inl ValueError else Inr value)"

definition choice_ci :: "string list \<Rightarrow> string \<Rightarrow> string res" where
  "choice_ci choices value = (let v = str_lower value in if v \<notin> set choices then Inl ValueError else Inr v)"

definition choices_of :: "string list \<Rightarrow> string \<Rightarrow> string list res" where
  "choices_of choices value = (let values = split_on CHR '','' (str_lower value) in
     bindE (foldE (\<lambda>_ val. checkE (val \<in> set choices) ValueError) () values) (\<lambda>_. Inr values))"

definition category :: "string \<Rightarrow> string res" where
  "category = choice_ci [''population'', ''buildings'']"

definition export_formats :: "string \<Rightarrow> string list res" where
  "export_formats = choices_of [[], ''xml'', ''geojson'', ''txt'', ''csv'', ''npz'', ''hdf5'']"

definition cost_type_type :: "string \<Rightarrow> string res" where
  "cost_type_type = choice [''aggregated'', ''per_area'', ''per_asset'']"

lemma compose_nil: "compose [] v = Inr v"
  by (simp add: compose_def)

lemma compose_cons: "compose (f # fs) v = bindE (compose fs v) f"
  by (simp add: compose_def foldE_append bindE_def split: sum.split)

interpretation choice: validator "choice choices" "\<lambda>v. v \<in> set choices" for choices
  by unfold_locales (auto simp: choice_def split: if_splits)

interpretation choice_ci: validator "choice_ci choices" "\<lambda>v. v \<in> set choices" for choices
  by unfold_locales (auto simp: choice_ci_def Let_def split: if_splits)

lemma foldE_check_Inr: "foldE (\<lambda>_ x. checkE (P x) e) () xs = Inr u \<longleftrightarrow> (\<forall>x \<in> set xs. P x)"
  by (induction xs) (auto simp: bindE_Inr_iff)

lemma foldE_check_Inl: "foldE (\<lambda>_ x. checkE (P x) e) () xs = Inl e' \<Longrightarrow> e' = e"
  by (induction xs) (auto simp: bindE_Inl_iff)

interpretation choices: validator "choices_of choices" "\<lambda>vs. set vs \<subseteq> set choices" for choices
  by unfold_locales
    (auto simp: choices_of_def Let_def bindE_Inr_iff bindE_Inl_iff foldE_check_Inr dest: foldE_check_Inl)

section \<open>Identifiers\<close>

definition is_alpha_us :: "char \<Rightarrow> bool" where
  "is_alpha_us c = (is_upper_az c \<or> is_lower_az c \<or> c = CHR ''_'')"

definition regex :: "(string \<Rightarrow> bool) \<Rightarrow> string \<Rightarrow> string res" where
  "regex matches value = (if matches value then Inr value else Inl ValueError)"

definition name :: "string \<Rightarrow> string res" where
  "name = regex (re_match_end (RSeq (RChar is_alpha_us) (RMany (RChar is_word))))"

definition name_with_dashes :: "string \<Rightarrow> string res" where
  "name_with_dashes = regex (re_match_end
     (RSeq (RChar is_alpha_us) (RMany (RChar (\<lambda>c. is_word c \<or> c = CHR ''-'')))))"

definition digits_rx :: "nat \<Rightarrow> rx" where
  "digits_rx n = foldr RSeq (replicate n (RChar is_digit)) REmpty"

definition lits_rx :: "rx list \<Rightarrow> rx" where
  "lits_rx rs = foldr RSeq rs REmpty"

definition local_timestamp :: "string \<Rightarrow> string res" where
  "local_timestamp = regex (re_match_end (lits_rx
     [digits_rx 4, RLit CHR ''-'', digits_rx 2, RLit CHR ''-'', digits_rx 2, RLit CHR '' '',
      digits_rx 2, RLit CHR '':'', digits_rx 2, RLit CHR '':'', digits_rx 2,
      RChar (\<lambda>c. c = CHR ''+'' \<or> c = CHR ''-''), digits_rx 2, RLit CHR '':'', digits_rx 2]))"

text \<open>\<open>SimpleId(length, regex)\<close>; the regular expression is given by its matching predicate.\<close>

definition simple_id_of :: "nat \<Rightarrow> (string \<Rightarrow> bool) \<Rightarrow> string \<Rightarrow> string res" where
  "simple_id_of len matches value =
     (if length value = 0 then Inl ValueError
      else if list_ex (\<lambda>c. 127 < code c) value then Inl ValueError
      else if len < length value then Inl ValueError
      else if matches value then Inr value else Inl ValueError)"

definition some_of :: "(char \<Rightarrow> bool) \<Rightarrow> string \<Rightarrow> bool" where
  "some_of p = re_match_end (RSome (RChar p))"

definition MAX_ID_LENGTH :: nat where "MAX_ID_LENGTH = 75"
definition ASSET_ID_LENGTH :: nat where "ASSET_ID_LENGTH = 50"

definition id_char :: "char \<Rightarrow> bool" where
  "id_char c = (is_word c \<or> c = CHR ''-'' \<or> c = CHR '':'')"

definition simple_id :: "string \<Rightarrow> string res" where
  "simple_id = simple_id_of MAX_ID_LENGTH (some_of id_char)"

definition branch_id :: "string \<Rightarrow> string res" where
  "branch_id = simple_id_of MAX_ID_LENGTH
     (some_of (\<lambda>c. is_word c \<or> c \<in> {CHR '':'', CHR ''#'', CHR ''-'', CHR ''.''}))"

definition asset_id :: "string \<Rightarrow> string res" where
  "asset_id = simple_id_of ASSET_ID_LENGTH (some_of id_char)"

definition source_id :: "string \<Rightarrow> string res" where
  "source_id = simple_id_of MAX_ID_LENGTH (some_of id_char)"

definition three_letters :: "string \<Rightarrow> string res" where
  "three_letters = simple_id_of 3 (some_of is_upper_az)"

text \<open>The patterns of the next two have no anchors: \<open>re.match\<close> looks for a prefix only.\<close>

definition nice_char :: "char \<Rightarrow> bool" where
  "nice_char c = (is_upper_az c \<or> is_lower_az c \<or> is_digit c \<or> c \<in> set ''.`!#$%()+/,;@[]^_{|}~-'')"

definition nice_string :: "string \<Rightarrow> string res" where
  "nice_string = simple_id_of ASSET_ID_LENGTH (re_match (RSome (RChar nice_char)))"

definition mod_func :: "string \<Rightarrow> string res" where
  "mod_func = simple_id_of MAX_ID_LENGTH (re_match
     (RSeq (RSome (RChar is_word)) (RSeq (RLit CHR ''.'') (RSome (RChar is_word)))))"

definition risk_id :: "string \<Rightarrow> string res" where
  "risk_id value = (if CHR ''#'' \<in> set value \<or> CHR 0x22 \<in> set value \<or> CHR 0x27 \<in> set value
     then Inl ValueError else Inr value)"

definition logic_tree_path :: "string \<Rightarrow> string list" where
  "logic_tree_path value = split_on CHR ''_'' value"

definition words_of :: "string \<Rightarrow> string list" where
  "words_of value = split_ws (replace_char CHR '','' '' '' value)"

definition namelist :: "string \<Rightarrow> string list res" where
  "namelist value = (let names = words_of value in
     bindE (foldE (\<lambda>_ n. checkE (is_ok (source_id n)) ValueError) () names) (\<lambda>_. Inr names))"

definition namelists :: "string \<Rightarrow> string list list res" where
  "namelists value = mapE (\<lambda>str. let names = words_of str in
     bindE (foldE (\<lambda>_ n. checkE (is_ok (source_id n)) ValueError) () names) (\<lambda>_. Inr names))
     (split_on CHR '';'' value)"

definition disagg_names :: "string list" where
  "disagg_names = [''Mag'', ''Dist'', ''Mag_Dist'', ''Mag_Dist_Eps'', ''Lon_Lat'', ''Mag_Lon_Lat'', ''TRT'',
     ''TRT_Mag'', ''TRT_Lon_Lat'', ''TRT_Mag_Dist'', ''TRT_Mag_Dist_Eps'']"

definition disagg_outputs :: "string \<Rightarrow> string list res" where
  "disagg_outputs value = (let values = words_of value in
     bindE (foldE (\<lambda>_ val. checkE (val \<in> set disagg_names) ValueError) () values) (\<lambda>_. Inr values))"

definition not_empty :: "string \<Rightarrow> string res" where
  "not_empty value = (if strip value = [] then Inl ValueError else Inr value)"

definition indexes :: "string \<Rightarrow> string list" where
  "indexes value = split_on CHR '','' value"

definition uncertainty_model :: "string \<Rightarrow> string" where
  "uncertainty_model value = (if startswith (lstrip value) ''['' then strip value
     else join '' '' (split_ws value))"

lemma some_of_iff:
  "some_of p s \<longleftrightarrow> (s \<noteq> [] \<and> (\<forall>c \<in> set s. p c))
     \<or> (\<exists>u. s = u @ [newline] \<and> u \<noteq> [] \<and> (\<forall>c \<in> set u. p c))"
  by (simp only: some_of_def re_match_end_iff some_char_iff)

definition id_ok :: "nat \<Rightarrow> (string \<Rightarrow> bool) \<Rightarrow> string \<Rightarrow> bool" where
  "id_ok len matches v \<longleftrightarrow> v \<noteq> [] \<and> length v \<le> len \<and> (\<forall>c \<in> set v. code c \<le> 127) \<and> matches v"

lemma simple_id_of_Inr_iff: "simple_id_of len matches s = Inr v \<longleftrightarrow> v = s \<and> id_ok len matches s"
  by (auto simp: simple_id_of_def id_ok_def list_ex_iff not_less not_le)

lemma simple_id_of_Inl: "simple_id_of len matches s = Inl e \<Longrightarrow> e = ValueError"
  by (auto simp: simple_id_of_def split: if_splits)

interpretation id: validator "simple_id_of len matches" "id_ok len matches" for len matches
  by unfold_locales (auto simp: simple_id_of_Inr_iff dest: simple_id_of_Inl)

section \<open>Numbers and coordinates\<close>

definition float_validator :: "string \<Rightarrow> pyfloat res" where
  "float_validator value = (case py_float value of Inr f \<Rightarrow> Inr f | Inl _ \<Rightarrow> Inl ValueError)"

definition nonzero :: "string \<Rightarrow> string res" where
  "nonzero value = bindE (float_validator value) (\<lambda>f. if flt_eq f (Fin 0) then Inl ValueError else Inr value)"

text \<open>The two comparisons of \<open>FloatRange\<close>, the larger bound first; NaN passes both.\<close>

definition range_check :: "pyfloat \<Rightarrow> pyfloat \<Rightarrow> pyfloat \<Rightarrow> pyfloat res" where
  "range_check minrange maxrange f =
     (if flt_less maxrange f then Inl ValueError
      else if flt_less f minrange then Inl ValueError else Inr f)"

definition float_range :: "pyfloat \<Rightarrow> pyfloat \<Rightarrow> string \<Rightarrow> pyfloat res" where
  "float_range minrange maxrange value = bindE (float_validator value) (range_check minrange maxrange)"

text \<open>With a string that is accepted as it is.\<close>

definition float_range_or :: "pyfloat \<Rightarrow> pyfloat \<Rightarrow> string \<Rightarrow> string \<Rightarrow> (string + pyfloat) res" where
  "float_range_or minrange maxrange accept value = (case float_validator value of
     Inl e \<Rightarrow> if value = accept then Inr (Inl value) else Inl e
   | Inr f \<Rightarrow> bindE (range_check minrange maxrange f) (\<lambda>f. Inr (Inr f)))"

definition magnitude :: "string \<Rightarrow> pyfloat res" where "magnitude = float_range (Fin 0) (Fin 11)"
definition probability :: "string \<Rightarrow> pyfloat res" where "probability = float_range (Fin 0) (Fin 1)"
definition strike_range :: "string \<Rightarrow> pyfloat res" where "strike_range = float_range (Fin 0) (Fin 360)"
definition slip_range :: "string \<Rightarrow> pyfloat res" where "slip_range = float_range (Fin 0) (Fin 360)"
definition dip_range :: "string \<Rightarrow> pyfloat res" where "dip_range = float_range (Fin 0) (Fin 90)"

definition rake_range :: "string \<Rightarrow> (string + pyfloat) res" where
  "rake_range = float_range_or (Fin (- 180)) (Fin 180) ''undefined''"

definition longitude :: "string \<Rightarrow> pyfloat res" where
  "longitude value = bindE (float_validator value) (\<lambda>f. let lon = py_round f 5 in
     if flt_less (Fin 180) lon then Inl ValueError
     else if flt_less lon (Fin (- 180)) then Inl ValueError else Inr lon)"

definition latitude :: "string \<Rightarrow> pyfloat res" where
  "latitude value = bindE (float_validator value) (\<lambda>f. let lat = py_round f 5 in
     if flt_less (Fin 90) lat then Inl ValueError
     else if flt_less lat (Fin (- 90)) then Inl ValueError else Inr lat)"

definition longitudes :: "string \<Rightarrow> pyfloat list res" where
  "longitudes value = mapE longitude (split_on CHR '','' value)"

definition latitudes :: "string \<Rightarrow> pyfloat list res" where
  "latitudes value = mapE latitude (split_on CHR '','' value)"

definition lon_lat :: "string \<Rightarrow> (pyfloat \<times> pyfloat) res" where
  "lon_lat value = (case words_of value of
     [lon, lat] \<Rightarrow> bindE (longitude lon) (\<lambda>x. bindE (latitude lat) (\<lambda>y. Inr (x, y)))
   | _ \<Rightarrow> Inl ValueError)"

type_synonym point3 = "pyfloat \<times> pyfloat \<times> pyfloat"

definition point :: "string \<Rightarrow> point3 res" where
  "point value = (case split_ws value of
     [lon, lat] \<Rightarrow> bindE (longitude lon) (\<lambda>x. bindE (latitude lat) (\<lambda>y. Inr (x, y, Fin 0)))
   | [lon, lat, dep] \<Rightarrow> bindE (longitude lon) (\<lambda>x. bindE (latitude lat) (\<lambda>y.
        bindE (float_validator dep) (\<lambda>z. Inr (x, y, z))))
   | _ \<Rightarrow> Inl ValueError)"

text \<open>
  The set of the longitudes and latitudes seen so far refuses a repeated site. A pair with a NaN
  is never found in the set again.
\<close>

definition same_site :: "point3 \<Rightarrow> point3 \<Rightarrow> bool" where
  "same_site p q = (flt_eq (fst p) (fst q) \<and> flt_eq (fst (snd p)) (fst (snd q)))"

definition coordinates :: "string \<Rightarrow> point3 list res" where
  "coordinates value = (if strip value = [] then Inl ValueError
     else foldE (\<lambda>points line. bindE (point line) (\<lambda>pnt.
       if list_ex (same_site pnt) points then Inl ValueError else Inr (points @ [pnt])))
       [] (split_on CHR '','' value))"

definition wkt_point :: "point3 \<Rightarrow> string" where
  "wkt_point p = show_float (fst p) @ '' '' @ show_float (fst (snd p))"

definition wkt_polygon :: "string \<Rightarrow> string res" where
  "wkt_polygon value = bindE (coordinates value) (\<lambda>ps. let points = map wkt_point ps in
     bindE (py_index points 0) (\<lambda>first.
       Inr (''POLYGON(('' @ join '', '' (points @ [first]) @ ''))'')))"

definition positiveint :: "string \<Rightarrow> int res" where
  "positiveint value = (let val = str_lower value in
     if val = ''true'' then Inr 1 else if val = ''false'' then Inr 0
     else bindE (not_empty val) (\<lambda>v. bindE (py_int v) (\<lambda>i. if i < 0 then Inl ValueError else Inr i)))"

definition positivefloat :: "string \<Rightarrow> pyfloat res" where
  "positivefloat value = bindE (not_empty value) (\<lambda>v. bindE (py_float v) (\<lambda>f.
     if flt_less f (Fin 0) then Inl ValueError else Inr f))"

definition strip_brackets :: "string \<Rightarrow> string" where
  "strip_brackets s = strip_by (\<lambda>c. c = CHR ''['' \<or> c = CHR '']'') s"

definition positivefloats :: "string \<Rightarrow> pyfloat list res" where
  "positivefloats value = mapE positivefloat (split_ws (strip_brackets value))"

definition floats :: "string \<Rightarrow> pyfloat list res" where
  "floats value = mapE py_float (split_ws value)"

definition BOOL_DICT :: "(string, bool) dict" where
  "BOOL_DICT = [([], False), (''0'', False), (''1'', True), (''false'', False), (''true'', True)]"

definition boolean :: "string \<Rightarrow> bool res" where
  "boolean value = of_option ValueError (map_of BOOL_DICT (str_lower (strip value)))"

definition range01 :: "string \<Rightarrow> pyfloat res" where
  "range01 value = (let val = str_lower value in
     if val = ''true'' then Inr (Fin 1) else if val = ''false'' then Inr (Fin 0)
     else float_range (Fin 0) (Fin 1) val)"

definition probabilities :: "string \<Rightarrow> pyfloat list res" where
  "probabilities value = mapE probability
     (words_of (replace_char CHR '']'' [] (replace_char CHR ''['' [] value)))"

definition posList :: "string \<Rightarrow> pyfloat list res" where
  "posList value = (let values = split_ws value; num_values = length values in
     if num_values mod 3 \<noteq> 0 \<and> num_values mod 2 \<noteq> 0 then Inl ValueError
     else mapE float_validator values)"

definition point3d :: "string \<Rightarrow> string \<Rightarrow> string \<Rightarrow> point3 res" where
  "point3d lon lat dep = bindE (longitude lon) (\<lambda>x. bindE (latitude lat) (\<lambda>y.
     bindE (positivefloat dep) (\<lambda>z. Inr (x, y, z))))"

definition ab_values :: "string \<Rightarrow> (pyfloat \<times> pyfloat) res" where
  "ab_values value = (case split_ws value of
     [a, b] \<Rightarrow> bindE (positivefloat a) (\<lambda>x. bindE (float_validator b) (\<lambda>y. Inr (x, y)))
   | _ \<Rightarrow> Inl ValueError)"

text \<open>Each word goes through \<open>float\<close> and is truncated.\<close>

definition integers :: "string \<Rightarrow> int list res" where
  "integers value =
     (if CHR ''.'' \<in> set value then Inl ValueError
      else let values = words_of (strip_brackets value) in
        if values = [] then Inl ValueError
        else case mapE (\<lambda>v. bindE (py_float v) flt_trunc) values of
          Inr ints \<Rightarrow> Inr ints | Inl _ \<Rightarrow> Inl ValueError)"

definition positiveints :: "string \<Rightarrow> int list res" where
  "positiveints value = bindE (integers value) (\<lambda>ints.
     bindE (foldE (\<lambda>_ val. checkE (\<not> val < 0) ValueError) () ints) (\<lambda>_. Inr ints))"

text \<open>\<open>vers[i] = int(number)\<close> on a list of three: a fourth number is an IndexError.\<close>

definition version :: "string \<Rightarrow> int list res" where
  "version value = foldE (\<lambda>vers (i, number).
     if contains number ''git'' then Inr vers
     else bindE (py_int number) (\<lambda>n. if i < length vers then Inr (vers[i := n]) else Inl IndexError))
     [0, 0, 0] (enumerate 0 (split_on CHR ''.'' value))"

section \<open>Probabilities and weights\<close>

text \<open>\<open>sum\<close> of a list of floats, adding from the left (as Python does up to version 3.11).\<close>

definition py_sum :: "pyfloat list \<Rightarrow> pyfloat" where
  "py_sum xs = foldl flt_add (Fin 0) xs"

definition PRECISION :: pyfloat where
  "PRECISION = fl (1 / 10 ^ 7)"

text \<open>Sorting floats; NaN, which Python would leave in an unspecified order, goes last.\<close>

definition flt_sort :: "pyfloat list \<Rightarrow> pyfloat list" where
  "flt_sort xs = sort_key flt_rank xs"

definition flt_eq_list :: "pyfloat list \<Rightarrow> pyfloat list \<Rightarrow> bool" where
  "flt_eq_list xs ys = list_all2 flt_eq xs ys"

definition decreasing_probabilities :: "string \<Rightarrow> pyfloat list res" where
  "decreasing_probabilities value = bindE (probabilities value) (\<lambda>probs.
     if length probs < 2 then Inl ValueError
     else if \<not> flt_eq_list (rev (flt_sort (rev probs))) probs then Inl ValueError
     else Inr probs)"

definition pmf :: "string \<Rightarrow> (pyfloat \<times> nat) list res" where
  "pmf value = bindE (probabilities value) (\<lambda>probs.
     if \<not> flt_eq (py_sum probs) (Fin 1) then Inl ValueError
     else Inr (map (\<lambda>(i, p). (p, i)) (enumerate 0 probs)))"

definition sums_to_one :: "pyfloat list \<Rightarrow> bool" where
  "sums_to_one ws = (\<not> flt_less PRECISION (flt_abs (flt_sub (py_sum ws) (Fin 1))))"

definition check_weights :: "('n \<Rightarrow> pyfloat) \<Rightarrow> 'n list \<Rightarrow> 'n list res" where
  "check_weights weight nodes = (if sums_to_one (map weight nodes) then Inr nodes else Inl ValueError)"

definition weights :: "string \<Rightarrow> pyfloat list res" where
  "weights value = bindE (probabilities value) (\<lambda>probs.
     if sums_to_one probs then Inr probs else Inl ValueError)"

section \<open>Intensity measure types and levels\<close>

definition intensity_measure_type :: "string \<Rightarrow> string res" where
  "intensity_measure_type value = (case imt_from_string value of
     Inr m \<Rightarrow> Inr (imt_repr m) | Inl _ \<Rightarrow> Inl ValueError)"

definition imt_eq :: "imt \<Rightarrow> imt \<Rightarrow> bool" where
  "imt_eq a b = (imt_string a = imt_string b \<and> flt_eq (imt_period a) (imt_period b)
     \<and> flt_eq (imt_damping a) (imt_damping b)
     \<and> (case (imt_strength_ratio a, imt_strength_ratio b) of (None, None) \<Rightarrow> True
         | (Some x, Some y) \<Rightarrow> flt_eq x y | _ \<Rightarrow> False))"

fun has_repeat :: "('a \<Rightarrow> 'a \<Rightarrow> bool) \<Rightarrow> 'a list \<Rightarrow> bool" where
  "has_repeat eq [] = False"
| "has_repeat eq (x # xs) = (list_ex (eq x) xs \<or> has_repeat eq xs)"

text \<open>\<open>from_string\<close> is called with no handler: its exceptions get through.\<close>

definition intensity_measure_types :: "string \<Rightarrow> string list res" where
  "intensity_measure_types value = (if value = [] then Inr []
     else bindE (mapE (\<lambda>chunk. imt_from_string (strip chunk)) (split_on CHR '','' value)) (\<lambda>imts.
       if has_repeat imt_eq imts then Inl ValueError
       else Inr (map imt_repr (sort_key (\<lambda>m. flt_rank (imt_period m)) imts))))"

text \<open>\<open>check_levels\<close> on finite levels: the list as it is left, with the cutoff applied.\<close>

definition check_levels :: "rat \<Rightarrow> rat list \<Rightarrow> rat list res" where
  "check_levels min_iml imls =
     (if imls = [0] then Inr imls
      else if length imls < 1 then Inl ValueError
      else if imls \<noteq> sort imls then Inl ValueError
      else if length (distinct_keys imls) < length imls then Inl ValueError
      else if imls ! 0 = 0 \<and> imls ! 1 \<le> min_iml then Inl ValueError
      else if imls ! 0 = 0 \<and> min_iml < imls ! 1 then Inr (imls[0 := min_iml])
      else Inr imls)"

text \<open>
  The loop of \<open>intensity_measure_types_and_levels\<close> over a copy of the items: a name that is not in
  normal form is moved to its normal form, at the end of the dictionary, before its levels are
  checked; the list of levels is shared, so the cutoff is seen under the new name too.
\<close>

definition imt_levels_step :: "rat \<Rightarrow> (string, rat list) dict \<Rightarrow> string \<times> rat list \<Rightarrow> (string, rat list) dict res" where
  "imt_levels_step min_iml dic item = (case item of (imt_str, imls) \<Rightarrow>
     bindE (imt_from_string imt_str) (\<lambda>m. let norm_imt = imt_repr m in
     bindE (check_levels min_iml imls) (\<lambda>imls'.
       Inr (if norm_imt \<noteq> imt_str then dict_pop imt_str (AList.update norm_imt imls' dic)
            else AList.update imt_str imls' dic))))"

definition imt_levels :: "rat \<Rightarrow> (string, rat list) dict \<Rightarrow> (string, rat list) dict res" where
  "imt_levels min_iml dic = foldE (imt_levels_step min_iml) dic dic"

definition loss_ratios :: "rat \<Rightarrow> (string, rat list) dict \<Rightarrow> (string, rat list) dict res" where
  "loss_ratios min_iml dic = mapE (\<lambda>(lt, ratios).
     bindE (foldE (\<lambda>_ ratio. checkE (0 \<le> ratio \<and> ratio \<le> 1) ValueError) () ratios) (\<lambda>_.
     bindE (check_levels min_iml ratios) (\<lambda>r. Inr (lt, r)))) dic"

text \<open>
  The parameters of a site; \<open>site_param_dt\<close> gives the recognised names. The value is a string or,
  for \<open>vs30measured\<close>, a truth value.
\<close>

definition site_param :: "string list \<Rightarrow> (string, string) dict \<Rightarrow> (string, string + bool) dict res" where
  "site_param site_param_dt dic = foldE (\<lambda>new (nam, val).
     if nam = ''vs30Type'' then Inr (AList.update ''vs30measured'' (Inr (val = ''measured'')) new)
     else if nam \<notin> set site_param_dt then Inl ValueError
     else Inr (AList.update nam (Inl val) new)) [] dic"

section \<open>The validators keep their contract\<close>

lemma py_float_Inl: "py_float s = Inl e \<Longrightarrow> e = ValueError"
  by (auto simp: py_float_def Let_def split: prod.splits option.splits if_splits)

lemma py_int_Inl: "py_int s = Inl e \<Longrightarrow> e = ValueError"
  by (auto simp: py_int_def Let_def split: prod.splits if_splits)

lemma float_validator_simp: "float_validator s = py_float s"
  using py_float_Inl [of s] by (auto simp: float_validator_def split: sum.split)

definition in_range :: "pyfloat \<Rightarrow> pyfloat \<Rightarrow> pyfloat \<Rightarrow> bool" where
  "in_range lo hi f \<longleftrightarrow> f = NaN \<or> (flt_le lo f \<and> flt_le f hi)"

lemma flt_not_less: "x \<noteq> NaN \<Longrightarrow> y \<noteq> NaN \<Longrightarrow> \<not> flt_less x y \<Longrightarrow> flt_le y x"
  by (cases x; cases y) (auto simp: flt_le_def)

lemma range_check_Inr:
  "range_check lo hi f = Inr g \<Longrightarrow> lo \<noteq> NaN \<Longrightarrow> hi \<noteq> NaN \<Longrightarrow> g = f \<and> in_range lo hi f"
  using flt_not_less [of hi f] flt_not_less [of f lo]
  by (auto simp: range_check_def in_range_def split: if_splits)

lemma range_check_Inl: "range_check lo hi f = Inl e \<Longrightarrow> e = ValueError"
  by (auto simp: range_check_def split: if_splits)

interpretation range: validator "float_range (Fin lo) (Fin hi)" "in_range (Fin lo) (Fin hi)" for lo hi
proof unfold_locales
  fix s v assume "float_range (Fin lo) (Fin hi) s = Inr v"
  then show "in_range (Fin lo) (Fin hi) v"
    by (auto simp: float_range_def bindE_Inr_iff dest: range_check_Inr)
next
  fix s e assume "float_range (Fin lo) (Fin hi) s = Inl e"
  then show "e = ValueError"
    by (auto simp: float_range_def bindE_Inl_iff float_validator_simp range_check_def
        dest: py_float_Inl split: if_splits)
qed

lemma longitude_range_check:
  "longitude s = bindE (py_float s) (\<lambda>f. range_check (Fin (- 180)) (Fin 180) (py_round f 5))"
  by (simp add: longitude_def range_check_def Let_def float_validator_simp)

lemma latitude_range_check:
  "latitude s = bindE (py_float s) (\<lambda>f. range_check (Fin (- 90)) (Fin 90) (py_round f 5))"
  by (simp add: latitude_def range_check_def Let_def float_validator_simp)

interpretation lon: validator longitude "in_range (Fin (- 180)) (Fin 180)"
  by unfold_locales
    (auto simp: longitude_range_check bindE_Inr_iff bindE_Inl_iff dest: py_float_Inl range_check_Inl range_check_Inr)

interpretation lat: validator latitude "in_range (Fin (- 90)) (Fin 90)"
  by unfold_locales
    (auto simp: latitude_range_check bindE_Inr_iff bindE_Inl_iff dest: py_float_Inl range_check_Inl range_check_Inr)

definition nonneg_float :: "pyfloat \<Rightarrow> bool" where
  "nonneg_float f \<longleftrightarrow> f = NaN \<or> flt_le (Fin 0) f"

interpretation posf: validator positivefloat nonneg_float
  by unfold_locales
    (auto simp: positivefloat_def not_empty_def nonneg_float_def res_simps
      dest: py_float_Inl intro: flt_not_less split: if_splits)

interpretation posi: validator positiveint "\<lambda>i. 0 \<le> i"
  by unfold_locales
    (auto simp: positiveint_def not_empty_def Let_def res_simps dest: py_int_Inl split: if_splits)

interpretation bool: validator boolean "\<lambda>_. True"
  by unfold_locales (auto simp: boolean_def res_simps)

end
