(* ===== verification/Params.thy ===== *)
theory Params
  imports Valid
begin

text \<open>
  Parameter sets and source names (openquake/hazardlib/valid.py): \<open>Param\<close> and \<open>ParamSet\<close>, the base
  of the job parameters (check, creation, validation), and \<open>basename\<close>, \<open>corename\<close>, \<open>fragmentno\<close>,
  which take the name of a split source apart.
\<close>

section \<open>ParamSet\<close>

text \<open>
  A class of parameters: its parameters with their validators and defaults (None for no default),
  the names of its other attributes, the inputs it knows, and its \<open>is_valid_\<close> methods. A method
  sees the instance, which is its dictionary; reading an attribute that is not there goes to
  the default of the parameter.
\<close>

record 'v param =
  pa_validator :: "string \<Rightarrow> 'v res"
  pa_default :: "'v option"

record 'v param_class =
  pc_params :: "(string, 'v param) dict"
  pc_others :: "string list"
  pc_known_inputs :: "string list"
  pc_valids :: "(string, (string \<Rightarrow> 'v res) \<Rightarrow> bool res) dict"

type_synonym 'v instance_dict = "(string, 'v) dict"

text \<open>\<open>getattr(obj, name)\<close>, with the descriptor's \<open>__get__\<close>.\<close>

definition param_get :: "'v param \<Rightarrow> 'v res" where
  "param_get p = of_option AttributeError (pa_default p)"

definition get_attr :: "'v param_class \<Rightarrow> 'v instance_dict \<Rightarrow> string \<Rightarrow> 'v res" where
  "get_attr cls obj nam = (case map_of obj nam of Some v \<Rightarrow> Inr v
     | None \<Rightarrow> (case map_of (pc_params cls) nam of Some p \<Rightarrow> param_get p | None \<Rightarrow> Inl AttributeError))"

text \<open>
  \<open>check\<close>: an unknown name is skipped; another attribute of the class has no validator and the
  AttributeError is not caught.
\<close>

definition ps_check_step :: "'v param_class \<Rightarrow> 'v instance_dict \<Rightarrow> string \<times> string \<Rightarrow> 'v instance_dict res" where
  "ps_check_step cls out nt = (case nt of (nam, txt) \<Rightarrow>
     (case map_of (pc_params cls) nam of
        Some p \<Rightarrow> bindE (pa_validator p txt) (\<lambda>v. Inr (AList.update nam v out))
      | None \<Rightarrow> if nam \<in> set (pc_others cls) then Inl AttributeError else Inr out))"

definition ps_check :: "'v param_class \<Rightarrow> (string, string) dict \<Rightarrow> 'v instance_dict res" where
  "ps_check cls dic = foldE (ps_check_step cls) [] dic"

text \<open>\<open>__init__\<close>: any exception of a validator becomes a ValueError.\<close>

definition ps_init_step :: "'v param_class \<Rightarrow> 'v instance_dict \<Rightarrow> string \<times> string \<Rightarrow> 'v instance_dict res" where
  "ps_init_step cls obj nv = (case nv of (nam, val) \<Rightarrow>
     if startswith nam ''_'' \<or> startswith nam ''is_valid_'' then Inl NameError
     else (case map_of (pc_params cls) nam of
        None \<Rightarrow> Inr obj
      | Some p \<Rightarrow> (case pa_validator p val of
            Inl _ \<Rightarrow> Inl ValueError
          | Inr v \<Rightarrow> Inr (AList.update nam v obj))))"

definition ps_init :: "'v param_class \<Rightarrow> (string, string) dict \<Rightarrow> 'v instance_dict res" where
  "ps_init cls names_vals = foldE (ps_init_step cls) [] names_vals"

text \<open>\<open>validate\<close>: the methods in lexicographic order; the first that returns False raises.\<close>

definition ps_validate :: "'v param_class \<Rightarrow> 'v instance_dict \<Rightarrow> unit res" where
  "ps_validate cls obj = foldE (\<lambda>_ (nam, is_valid).
     bindE (is_valid (get_attr cls obj)) (\<lambda>b. checkE b ValueError)) ()
     (sort_key fst (filter (\<lambda>(nam, is_valid). startswith nam ''is_valid_'') (pc_valids cls)))"

definition ps_iter :: "'v instance_dict \<Rightarrow> (string \<times> 'v) list" where
  "ps_iter obj = sort_key fst obj"

definition public_names :: "'v instance_dict \<Rightarrow> string list" where
  "public_names obj = sort (filter (\<lambda>n. \<not> startswith n ''_'') (keys obj))"

definition acceptable :: "string \<Rightarrow> bool" where
  "acceptable nam \<longleftrightarrow> \<not> startswith nam ''_'' \<and> \<not> startswith nam ''is_valid_''"

lemma ps_init_step_Inr_iff: "ps_init_step cls obj (nam, val) = Inr obj' \<longleftrightarrow> acceptable nam \<and>
    (case map_of (pc_params cls) nam of None \<Rightarrow> obj' = obj
     | Some p \<Rightarrow> (\<exists>v. pa_validator p val = Inr v \<and> obj' = AList.update nam v obj))"
  by (auto simp: ps_init_step_def acceptable_def split: option.split sum.split if_splits)

text \<open>What an instance holds: the converted value of each known parameter that was given.\<close>

lemma ps_init_map_of:
  assumes "ps_init cls nv = Inr obj" and "dict_wf nv"
  shows "map_of obj k = (case (map_of nv k, map_of (pc_params cls) k) of
      (Some val, Some p) \<Rightarrow> (case pa_validator p val of Inr v \<Rightarrow> Some v | Inl _ \<Rightarrow> None)
    | _ \<Rightarrow> None)"
  using assms
proof (induction nv arbitrary: obj rule: rev_induct)
  case (snoc x nv)
  obtain nam val where x: "x = (nam, val)" by (cases x)
  obtain o1 where o1: "ps_init cls nv = Inr o1" and st: "ps_init_step cls o1 (nam, val) = Inr obj"
    using snoc.prems(1) by (auto simp: ps_init_def foldE_append bindE_Inr_iff x)
  have wf: "dict_wf nv" and new: "map_of nv nam = None"
    using snoc.prems(2) by (auto simp: dict_wf_def x map_of_eq_None_iff)
  note IH = snoc.IH [OF o1 wf]
  have m: "map_of (nv @ [x]) k = (if k = nam then Some val else map_of nv k)"
    using new by (auto simp: x map_add_def split: option.split)
  show ?case
    using st IH unfolding ps_init_step_Inr_iff m
    by (auto simp: new py_simps split: option.splits sum.splits if_splits)
qed (simp add: ps_init_def)

lemma ps_init_ok_iff:
  "is_ok (ps_init cls nv) \<longleftrightarrow> (\<forall>(nam, val) \<in> set nv. acceptable nam \<and>
     (case map_of (pc_params cls) nam of None \<Rightarrow> True | Some p \<Rightarrow> is_ok (pa_validator p val)))"
proof -
  have "is_ok (foldE (ps_init_step cls) obj nv) \<longleftrightarrow> (\<forall>(nam, val) \<in> set nv. acceptable nam \<and>
     (case map_of (pc_params cls) nam of None \<Rightarrow> True | Some p \<Rightarrow> is_ok (pa_validator p val)))" for obj
  proof (induction nv arbitrary: obj)
    case (Cons x nv)
    obtain nam val where x: "x = (nam, val)" by (cases x)
    let ?c = "acceptable nam \<and>
     (case map_of (pc_params cls) nam of None \<Rightarrow> True | Some p \<Rightarrow> is_ok (pa_validator p val))"
    have "is_ok (ps_init_step cls obj (nam, val)) \<longleftrightarrow> ?c"
      by (auto simp: is_ok_iff ps_init_step_Inr_iff split: option.split)
    then show ?case using Cons.IH
      by (cases "ps_init_step cls obj (nam, val)") (auto simp: x)
  qed simp
  then show ?thesis by (simp add: ps_init_def)
qed

lemma ps_validate_Inr_iff:
  "ps_validate cls obj = Inr () \<longleftrightarrow> (\<forall>(nam, is_valid) \<in> set (pc_valids cls).
     startswith nam ''is_valid_'' \<longrightarrow> is_valid (get_attr cls obj) = Inr True)"
proof -
  have "foldE (\<lambda>_ (nam, is_valid). bindE (is_valid g) (\<lambda>b. checkE b ValueError)) () l = Inr () \<longleftrightarrow>
    (\<forall>(nam, is_valid) \<in> set l. is_valid g = Inr True)" for g and l :: "(string \<times> ((string \<Rightarrow> 'a res) \<Rightarrow> bool res)) list"
    by (induction l) (auto simp: bindE_Inr_iff)
  then show ?thesis by (auto simp: ps_validate_def)
qed

section \<open>Names of split sources\<close>

text \<open>\<open>re.sub(c + r'\d+', '', s)\<close>.\<close>

function drop_number :: "char \<Rightarrow> string \<Rightarrow> string" where
  "drop_number c [] = []"
| "drop_number c (x # s) =
     (if x = c \<and> s \<noteq> [] \<and> is_digit (hd s) then drop_number c (dropWhile is_digit s)
      else x # drop_number c s)"
  by pat_completeness auto
termination
  by (relation "measure (\<lambda>(c, s). length s)") (auto simp: less_Suc_eq_le length_dropWhile_le)

definition basename :: "string \<Rightarrow> string" where
  "basename src_id = foldl (\<lambda>s c. drop_number c s) src_id ''.:''"

definition corename :: "string \<Rightarrow> string" where
  "corename src = takeWhile (\<lambda>c. c \<notin> set ''!:;.'') src"

text \<open>\<open>re.split('[:.;]', s)\<close>.\<close>

fun split_any :: "char set \<Rightarrow> string \<Rightarrow> string list" where
  "split_any cs [] = [[]]"
| "split_any cs (x # s) =
     (if x \<in> cs then [] # split_any cs s else (x # hd (split_any cs s)) # tl (split_any cs s))"

definition fragmentno :: "string \<Rightarrow> int res" where
  "fragmentno src_id = (let fragments = split_any {CHR '':'', CHR ''.'', CHR '';''} src_id in
     if length fragments = 1 then Inr (- 1)
     else py_int (hd (split_on CHR ''!'' (fragments ! 1))))"

text \<open>No separator is followed by a digit.\<close>

fun no_number :: "char \<Rightarrow> string \<Rightarrow> bool" where
  "no_number c [] = True"
| "no_number c (x # s) = ((x = c \<longrightarrow> s = [] \<or> \<not> is_digit (hd s)) \<and> no_number c s)"

definition starts_digit :: "string \<Rightarrow> bool" where
  "starts_digit s \<longleftrightarrow> s \<noteq> [] \<and> is_digit (hd s)"

lemma drop_number_starts: "\<not> is_digit c \<Longrightarrow> starts_digit (drop_number c s) \<longleftrightarrow> starts_digit s"
proof (induction c s rule: drop_number.induct)
  case (2 c x s)
  have "\<not> starts_digit (dropWhile is_digit s)"
    using hd_dropWhile [of is_digit s] by (auto simp: starts_digit_def simp del: dropWhile_eq_Nil_conv)
  then show ?case using 2 by (auto simp: starts_digit_def)
qed simp

lemma no_number_drop: "\<not> is_digit c \<Longrightarrow> no_number c (drop_number c s)"
proof (induction c s rule: drop_number.induct)
  case (2 c x s)
  then show ?case using drop_number_starts [of c s] by (auto simp: starts_digit_def)
qed simp

lemma no_number_dropWhile: "no_number d s \<Longrightarrow> no_number d (dropWhile p s)"
  by (induction s) auto

lemma no_number_keep: "\<not> is_digit c \<Longrightarrow> no_number d s \<Longrightarrow> no_number d (drop_number c s)"
proof (induction c s rule: drop_number.induct)
  case (2 c x s)
  then show ?case using drop_number_starts [of c s] no_number_dropWhile [of d s is_digit]
    by (auto simp: starts_digit_def)
qed simp

lemma drop_number_id: "no_number c s \<Longrightarrow> drop_number c s = s"
  by (induction c s rule: drop_number.induct) auto

lemma drop_number_idem: "\<not> is_digit c \<Longrightarrow> no_number d s \<Longrightarrow>
   no_number c (drop_number c s) \<and> no_number d (drop_number c s)"
  by (simp add: no_number_drop no_number_keep)

lemma seps_not_digits: "\<not> is_digit CHR ''.''" "\<not> is_digit CHR '':''"
  by code_simp+

lemma basename_no_numbers: "no_number CHR ''.'' (basename s)" "no_number CHR '':'' (basename s)"
  using drop_number_idem [OF seps_not_digits(2) no_number_drop [OF seps_not_digits(1), of s]]
  by (simp_all add: basename_def)

end
