(* ===== verification/Lt.thy ===== *)
theory Lt
  imports Params
begin

text \<open>
  Logic trees (openquake/hazardlib/lt.py): \<open>Branch\<close>, \<open>BranchSet\<close> with its enumeration and sampling
  of paths, the selection of sources by filters, and \<open>apply_uncertainties\<close>. A branchset is a tree
  here: what the object graph looks like from its root once it is built (Lt_Build models how
  it is built). Weights are exact rationals; the rounding of their products is not modelled.
\<close>

datatype fval = FStr string | FList "string list"

type_synonym filters = "(string, fval) dict"

datatype 'v bset = BSet (bs_utype: string) (bs_ordinal: nat) (bs_filters: filters) (bs_collapsed: bool)
    (bs_branches: "'v branch list")
  and 'v branch = Branch (br_bs_id: string) (br_branch_id: string) (br_weight: rat) (br_value: 'v)
    (br_short: string) (br_bset: "'v bset option")

definition br_id :: "'v branch \<Rightarrow> string" where
  "br_id br = (if length (br_branch_id br) = 1 then br_branch_id br else br_short br)"

definition is_leaf :: "'v branch \<Rightarrow> bool" where
  "is_leaf br = (case br_bset br of None \<Rightarrow> True | Some b \<Rightarrow> bs_utype b = ''dummy'')"

definition reweigh :: "rat \<Rightarrow> 'v branch \<Rightarrow> 'v branch" where
  "reweigh w br = Branch (br_bs_id br) (br_branch_id br) w (br_value br) (br_short br) (br_bset br)"

lemma br_reweigh [simp]:
  "br_bset (reweigh w br) = br_bset br" "br_weight (reweigh w br) = w"
  "br_branch_id (reweigh w br) = br_branch_id br" "br_value (reweigh w br) = br_value br"
  "br_short (reweigh w br) = br_short br"
  by (simp_all add: reweigh_def)

section \<open>Enumeration of the paths\<close>

text \<open>The branches that are followed: for a collapsed branchset the first one, with weight 1.\<close>

definition live_branches :: "'v bset \<Rightarrow> 'v branch list res" where
  "live_branches b = (if bs_collapsed b then
      (case bs_branches b of [] \<Rightarrow> Inl IndexError | b0 # _ \<Rightarrow> Inr [reweigh 1 b0])
    else Inr (bs_branches b))"

lemma bindE_cong [fundef_cong]:
  "m = n \<Longrightarrow> (\<And>x. n = Inr x \<Longrightarrow> f x = g x) \<Longrightarrow> bindE m f = bindE n g"
  by (cases n) auto

lemma mapE_fun_cong [fundef_cong]:
  "xs = ys \<Longrightarrow> (\<And>x. x \<in> set ys \<Longrightarrow> f x = g x) \<Longrightarrow> mapE f xs = mapE g ys"
  using mapE_cong by blast

lemma live_branch_child:
  "live_branches b = Inr brs \<Longrightarrow> br \<in> set brs \<Longrightarrow> \<exists>br' \<in> set (bs_branches b). br_bset br' = br_bset br"
  by (auto simp: live_branches_def split: if_splits list.splits)

lemma size_child: "br \<in> set (bs_branches b) \<Longrightarrow> br_bset br = Some c \<Longrightarrow> size c < size b"
proof (cases b)
  case (BSet u n f k brs)
  assume br: "br \<in> set (bs_branches b)" "br_bset br = Some c"
  have "size c < size br" using br(2) by (cases br) auto
  also have "size br \<le> size_list size brs"
    using br(1) BSet by (intro size_list_estimation') auto
  finally show ?thesis using BSet by simp
qed

text \<open>\<open>_enumerate_paths\<close>: a path is the list of its branches, the last one first.\<close>

function enum_paths :: "'v bset \<Rightarrow> 'v branch list \<Rightarrow> 'v branch list list res" where
  "enum_paths b prefix_path = bindE (live_branches b) (\<lambda>brs.
     bindE (mapE (\<lambda>br. let path_branch = br # prefix_path in
       case br_bset br of Some c \<Rightarrow> enum_paths c path_branch | None \<Rightarrow> Inr [path_branch]) brs)
     (\<lambda>ls. Inr (concat ls)))"
  by pat_completeness auto
termination
  by (relation "measure (\<lambda>(b, p). size b)") (auto dest!: live_branch_child intro: size_child)

declare enum_paths.simps [simp del]

definition path_weight :: "'v branch list \<Rightarrow> rat" where
  "path_weight p = foldl (\<lambda>w br. w * br_weight br) 1 p"

definition enumerate_paths :: "'v bset \<Rightarrow> (rat \<times> 'v branch list) list res" where
  "enumerate_paths b = bindE (enum_paths b []) (\<lambda>ps. Inr (map (\<lambda>p. (path_weight p, rev p)) ps))"

function count_paths :: "'v branch list \<Rightarrow> nat" where
  "count_paths branches = sum_list (map (\<lambda>br. case br_bset br of None \<Rightarrow> 1
     | Some b \<Rightarrow> count_paths (bs_branches b)) branches)"
  by pat_completeness auto
termination
proof (relation "measure (size_list size)")
  fix branches :: "'v branch list" and br b
  assume br: "br \<in> set branches" "br_bset br = Some b"
  have "size_list size (bs_branches b) < size b" by (cases b) simp
  also have "size b < size br" using br(2) by (cases br) auto
  also have "size br \<le> size_list size branches" using br(1) by (intro size_list_estimation') auto
  finally show "(bs_branches b, branches) \<in> measure (size_list size)" by simp
qed simp

declare count_paths.simps [simp del]

text \<open>
  A branchset whose live branches have weights that sum to one, at every level; and one in which
  nothing is collapsed.
\<close>

inductive proper :: "'v bset \<Rightarrow> bool" where
  properI: "live_branches b = Inr brs \<Longrightarrow> sum_list (map br_weight brs) = 1 \<Longrightarrow>
     (\<And>br c. br \<in> set brs \<Longrightarrow> br_bset br = Some c \<Longrightarrow> proper c) \<Longrightarrow> proper b"

inductive_cases properE: "proper b"

inductive uncollapsed :: "'v bset \<Rightarrow> bool" where
  uncollapsedI: "\<not> bs_collapsed b \<Longrightarrow>
     (\<And>br c. br \<in> set (bs_branches b) \<Longrightarrow> br_bset br = Some c \<Longrightarrow> uncollapsed c) \<Longrightarrow> uncollapsed b"

inductive_cases uncollapsedE: "uncollapsed b"

lemma path_weight_Cons: "path_weight (br # p) = br_weight br * path_weight p"
proof -
  have "foldl (\<lambda>w br. w * br_weight br) (a * w) p = a * foldl (\<lambda>w br. w * br_weight br) w p" for a w
    by (induction p arbitrary: w) (auto simp: mult.assoc)
  from this [of "br_weight br" 1] show ?thesis by (simp add: path_weight_def)
qed

lemma path_weight_Nil [simp]: "path_weight [] = 1"
  by (simp add: path_weight_def)

lemma enum_paths_Inr:
  "enum_paths b pre = Inr ps \<longleftrightarrow> (\<exists>brs ls. live_branches b = Inr brs \<and> ps = concat ls \<and>
     list_all2 (\<lambda>br l. (case br_bset br of Some c \<Rightarrow> enum_paths c (br # pre)
       | None \<Rightarrow> Inr [br # pre]) = Inr l) brs ls)"
  by (subst enum_paths.simps) (auto simp: bindE_Inr_iff mapE_Inr_iff Let_def)

lemma enum_paths_weight:
  "proper b \<Longrightarrow> enum_paths b pre = Inr ps \<Longrightarrow> sum_list (map path_weight ps) = path_weight pre"
proof (induction b arbitrary: pre ps rule: proper.induct)
  case (properI b brs)
  obtain ls where ps: "ps = concat ls" and l: "list_all2 (\<lambda>br l. (case br_bset br of
      Some c \<Rightarrow> enum_paths c (br # pre) | None \<Rightarrow> Inr [br # pre]) = Inr l) brs ls"
    using properI.prems properI.hyps(1) by (auto simp: enum_paths_Inr)
  have "list_all2 (\<lambda>br l. sum_list (map path_weight l) = br_weight br * path_weight pre) brs ls"
    using l
  proof (rule list.rel_mono_strong)
    fix br l assume "br \<in> set brs" and "(case br_bset br of
      Some c \<Rightarrow> enum_paths c (br # pre) | None \<Rightarrow> Inr [br # pre]) = Inr l"
    then show "sum_list (map path_weight l) = br_weight br * path_weight pre"
      using properI.IH by (auto simp: path_weight_Cons split: option.splits)
  qed
  then have "sum_list (map path_weight (concat ls)) = sum_list (map br_weight brs) * path_weight pre"
    by (induction brs ls rule: list_all2_induct) (auto simp: distrib_right)
  then show ?case using properI.hyps(2) ps by simp
qed

lemma list_all2_lengths:
  "list_all2 (\<lambda>x l. length l = f x) xs ls \<Longrightarrow> length (concat ls) = sum_list (map f xs)"
  by (induction xs ls rule: list_all2_induct) auto

lemma enum_paths_length:
  "uncollapsed b \<Longrightarrow> enum_paths b pre = Inr ps \<Longrightarrow> length ps = count_paths (bs_branches b)"
proof (induction b arbitrary: pre ps rule: uncollapsed.induct)
  case (uncollapsedI b)
  obtain ls where ps: "ps = concat ls" and l: "list_all2 (\<lambda>br l. (case br_bset br of
      Some c \<Rightarrow> enum_paths c (br # pre) | None \<Rightarrow> Inr [br # pre]) = Inr l) (bs_branches b) ls"
    using uncollapsedI.prems uncollapsedI.hyps(1) by (auto simp: enum_paths_Inr live_branches_def)
  have "list_all2 (\<lambda>br l. length l = (case br_bset br of None \<Rightarrow> 1
     | Some c \<Rightarrow> count_paths (bs_branches c))) (bs_branches b) ls"
    using l by (rule list.rel_mono_strong) (auto dest: uncollapsedI.IH split: option.splits)
  then have "length (concat ls) = sum_list (map (\<lambda>br. case br_bset br of None \<Rightarrow> 1
     | Some c \<Rightarrow> count_paths (bs_branches c)) (bs_branches b))"
    by (rule list_all2_lengths)
  then show ?case unfolding ps by (subst count_paths.simps) simp
qed

section \<open>Values along a path\<close>

text \<open>\<open>bset[branch_id]\<close> and \<open>get_bset_values\<close>; the path is the list of its branch IDs.\<close>

definition bs_getitem :: "'v bset \<Rightarrow> string \<Rightarrow> 'v branch res" where
  "bs_getitem b bid = of_option KeyError (List.find (\<lambda>br. br_branch_id br = bid) (bs_branches b))"

fun get_bset_values :: "'v bset \<Rightarrow> string list \<Rightarrow> ('v bset \<times> 'v) list res" where
  "get_bset_values b [] = Inr []"
| "get_bset_values b (brid # ltpath) = bindE (bs_getitem b brid) (\<lambda>br.
     if is_leaf br then Inr [(b, br_value br)]
     else case br_bset br of None \<Rightarrow> Inr [(b, br_value br)]
       | Some c \<Rightarrow> bindE (get_bset_values c ltpath) (\<lambda>pairs. Inr ((b, br_value br) # pairs)))"

text \<open>A tree whose branchsets have distinct branch IDs and none of them is a dummy.\<close>

inductive plain :: "'v bset \<Rightarrow> bool" where
  plainI: "bs_utype b \<noteq> ''dummy'' \<Longrightarrow> \<not> bs_collapsed b \<Longrightarrow> distinct (map br_branch_id (bs_branches b)) \<Longrightarrow>
     (\<And>br c. br \<in> set (bs_branches b) \<Longrightarrow> br_bset br = Some c \<Longrightarrow> plain c) \<Longrightarrow> plain b"

inductive_cases plainE: "plain b"

lemma find_distinct:
  "distinct (map f xs) \<Longrightarrow> x \<in> set xs \<Longrightarrow> List.find (\<lambda>y. f y = f x) xs = Some x"
  by (induction xs) (auto simp: image_iff)

lemma enum_paths_mem:
  "enum_paths b pre = Inr ps \<Longrightarrow> p \<in> set ps \<Longrightarrow> \<exists>brs br. live_branches b = Inr brs \<and> br \<in> set brs \<and>
     (case br_bset br of None \<Rightarrow> p = br # pre
      | Some c \<Rightarrow> \<exists>qs. enum_paths c (br # pre) = Inr qs \<and> p \<in> set qs)"
proof -
  assume "enum_paths b pre = Inr ps" and p: "p \<in> set ps"
  then obtain brs ls where brs: "live_branches b = Inr brs" and ps: "ps = concat ls"
    and l: "list_all2 (\<lambda>br l. (case br_bset br of Some c \<Rightarrow> enum_paths c (br # pre)
       | None \<Rightarrow> Inr [br # pre]) = Inr l) brs ls"
    by (auto simp: enum_paths_Inr)
  obtain i where i: "i < length ls" "p \<in> set (ls ! i)"
    using p unfolding ps set_concat by (auto simp: in_set_conv_nth [of _ ls])
  with l have "i < length brs" and c: "(case br_bset (brs ! i) of Some c \<Rightarrow> enum_paths c (brs ! i # pre)
       | None \<Rightarrow> Inr [brs ! i # pre]) = Inr (ls ! i)"
    by (auto simp: list_all2_conv_all_nth)
  then show ?thesis using brs i(2)
    by (intro exI [of _ brs] exI [of _ "brs ! i"]) (auto simp del: in_set_conv_nth split: option.splits
      dest: sym [of "[_]"])
qed

lemma get_bset_values_path:
  "plain b \<Longrightarrow> enum_paths b pre = Inr ps \<Longrightarrow> p \<in> set ps \<Longrightarrow> \<exists>q. rev p = rev pre @ q \<and>
     (\<exists>pairs. get_bset_values b (map br_branch_id q) = Inr pairs \<and> map snd pairs = map br_value q)"
proof (induction b arbitrary: pre ps rule: plain.induct)
  case (plainI b)
  obtain brs br where br: "live_branches b = Inr brs" "br \<in> set brs" and
    p: "case br_bset br of None \<Rightarrow> p = br # pre
      | Some c \<Rightarrow> \<exists>qs. enum_paths c (br # pre) = Inr qs \<and> p \<in> set qs"
    using enum_paths_mem [OF plainI.prems] by auto
  have mem: "br \<in> set (bs_branches b)" using br plainI.hyps(2) by (simp add: live_branches_def)
  have get: "bs_getitem b (br_branch_id br) = Inr br"
    using find_distinct [OF plainI.hyps(3) mem] by (simp add: bs_getitem_def)
  show ?case
  proof (cases "br_bset br")
    case None
    then show ?thesis using p get by (intro exI [of _ "[br]"]) (simp add: is_leaf_def)
  next
    case (Some c)
    then obtain qs where "enum_paths c (br # pre) = Inr qs" "p \<in> set qs" using p by auto
    from plainI.IH [OF mem Some this] obtain q pairs where q: "rev p = rev (br # pre) @ q"
      "get_bset_values c (map br_branch_id q) = Inr pairs" "map snd pairs = map br_value q"
      by auto
    have "bs_utype c \<noteq> ''dummy''" using plainI.hyps(4) [OF mem Some] by (auto elim: plainE)
    then show ?thesis using Some q get by (intro exI [of _ "br # q"]) (simp add: is_leaf_def)
  qed
qed

section \<open>Sampling\<close>

text \<open>
  \<open>numpy.searchsorted(cdf, x)\<close> is the number of leading entries below \<open>x\<close>. The late methods compare
  with \<open>numpy.arange(1/n, 1, 1/n)\<close>, which is a parameter. The random numbers are given.
\<close>

fun cumsum_from :: "rat \<Rightarrow> rat list \<Rightarrow> rat list" where
  "cumsum_from a [] = []"
| "cumsum_from a (w # ws) = (a + w) # cumsum_from (a + w) ws"

definition cdf :: "('a \<Rightarrow> rat) \<Rightarrow> 'a list \<Rightarrow> rat list" where
  "cdf weight weighted_objects = cumsum_from 0 (map weight weighted_objects)"

definition searchsorted :: "rat list \<Rightarrow> rat \<Rightarrow> nat" where
  "searchsorted xs x = length (takeWhile (\<lambda>y. y < x) xs)"

definition sample :: "(nat \<Rightarrow> rat list) \<Rightarrow> ('a \<Rightarrow> rat) \<Rightarrow> 'a list \<Rightarrow> rat list \<Rightarrow> string \<Rightarrow> 'a list res" where
  "sample arange weight weighted_objects probs sampling_method =
     (if startswith sampling_method ''early'' then
        mapE (\<lambda>x. py_index weighted_objects (int (searchsorted (cdf weight weighted_objects) x))) probs
      else if startswith sampling_method ''late'' then
        (if weighted_objects = [] then Inl ZeroDivisionError else
         mapE (\<lambda>x. py_index weighted_objects
           (int (searchsorted (arange (length weighted_objects)) x))) probs)
      else Inl NameError)"

lemma sample_mem: "sample arange weight xs probs m = Inr ys \<Longrightarrow> set ys \<subseteq> set xs"
  by (auto simp: sample_def mapE_Inr_iff list_all2_conv_all_nth in_set_conv_nth split: if_splits)
    (metis in_set_conv_nth py_index_Inr_mem)+

text \<open>One sampled path; \<open>probs\<close> has a random number for each branchset, by its ordinal.\<close>

function sample_path :: "(nat \<Rightarrow> rat list) \<Rightarrow> string \<Rightarrow> rat list \<Rightarrow> 'v bset \<Rightarrow> 'v branch list res" where
  "sample_path arange sampling_method probs b =
     bindE (if bs_collapsed b then py_index (bs_branches b) 0
            else bindE (py_index probs (int (bs_ordinal b))) (\<lambda>x.
              bindE (sample arange br_weight (bs_branches b) [x] sampling_method) (\<lambda>l.
              py_index l 0)))
     (\<lambda>br. case br_bset br of None \<Rightarrow> Inr [br]
       | Some c \<Rightarrow> bindE (sample_path arange sampling_method probs c) (\<lambda>p. Inr (br # p)))"
  by pat_completeness auto
termination
  by (relation "measure (\<lambda>(a, m, p, b). size b)")
    (auto simp: bindE_Inr_iff split: if_splits dest!: sample_mem
      intro!: size_child dest: py_index_Inr_mem)

declare sample_path.simps [simp del]

definition bs_sample :: "(nat \<Rightarrow> rat list) \<Rightarrow> 'v bset \<Rightarrow> rat list list \<Rightarrow> string \<Rightarrow> 'v branch list list res" where
  "bs_sample arange b probs_list sampling_method =
     mapE (\<lambda>probs. sample_path arange sampling_method probs b) probs_list"

lemma cumsum_from_mono: "(\<And>w. w \<in> set ws \<Longrightarrow> 0 \<le> w) \<Longrightarrow> y \<in> set (cumsum_from a ws) \<Longrightarrow> a \<le> y"
  by (induction ws arbitrary: a) (auto, force)

lemma length_cumsum [simp]: "length (cumsum_from a ws) = length ws"
  by (induction ws arbitrary: a) auto

lemma cumsum_nth: "i < length ws \<Longrightarrow> cumsum_from a ws ! i = a + sum_list (take (Suc i) ws)"
proof (induction ws arbitrary: a i)
  case (Cons w ws)
  then show ?case by (cases i) (auto simp: add.assoc)
qed simp

lemma searchsorted_cumsum:
  assumes "\<And>w. w \<in> set ws \<Longrightarrow> 0 \<le> w" and "i < length ws"
  shows "searchsorted (cumsum_from a ws) x = i \<longleftrightarrow>
     (i = 0 \<or> a + sum_list (take i ws) < x) \<and> x \<le> a + sum_list (take (Suc i) ws)"
  using assms
proof (induction ws arbitrary: a i)
  case (Cons w ws)
  show ?case
  proof (cases i)
    case 0
    then show ?thesis by (auto simp: searchsorted_def not_less)
  next
    case (Suc j)
    have IH: "searchsorted (cumsum_from (a + w) ws) x = j \<longleftrightarrow>
       (j = 0 \<or> a + w + sum_list (take j ws) < x) \<and> x \<le> a + w + sum_list (take (Suc j) ws)"
      using Cons.prems Suc by (intro Cons.IH) auto
    have "0 \<le> sum_list (take j ws)"
      using Cons.prems(1) by (intro sum_list_nonneg) (auto dest: in_set_takeD)
    then show ?thesis using IH Suc
      by (auto simp: searchsorted_def add.assoc)
  qed
qed simp

lemma searchsorted_in_range:
  "a < x \<Longrightarrow> x \<le> a + sum_list ws \<Longrightarrow> searchsorted (cumsum_from a ws) x < length ws"
proof (induction ws arbitrary: a)
  case (Cons w ws)
  then show ?case by (cases "a + w < x") (auto simp: searchsorted_def add.assoc)
qed simp

lemma sample_early:
  assumes "sum_list (map weight ys) = 1" "0 < x" "x \<le> 1"
  shows "is_ok (sample arange weight ys [x] ''early_weights'')"
proof -
  have "searchsorted (cdf weight ys) x < length ys"
    unfolding cdf_def using searchsorted_in_range [of 0 x "map weight ys"] assms by simp
  then show ?thesis by (simp add: sample_def py_index_nonneg)
qed

lemma searchsorted_cdf:
  assumes "\<And>y. y \<in> set ys \<Longrightarrow> 0 \<le> weight y" "i < length ys" "0 < x"
  shows "searchsorted (cdf weight ys) x = i \<longleftrightarrow>
    sum_list (map weight (take i ys)) < x \<and> x \<le> sum_list (map weight (take i ys)) + weight (ys ! i)"
proof -
  have "searchsorted (cumsum_from 0 (map weight ys)) x = i \<longleftrightarrow>
     (i = 0 \<or> 0 + sum_list (take i (map weight ys)) < x) \<and> x \<le> 0 + sum_list (take (Suc i) (map weight ys))"
    by (rule searchsorted_cumsum) (use assms in auto)
  then show ?thesis
    using assms(2,3) by (auto simp: cdf_def take_map take_Suc_conv_app_nth)
qed

end
