(* ===== verification/Lt_Build.thy ===== *)
theory Lt_Build
  imports Lt Utils
begin

text \<open>
  How a logic tree is put together (openquake/hazardlib/lt.py): \<open>CompositeLogicTree\<close>, \<open>build\<close>,
  \<open>add_path\<close>, \<open>dummy_branchset\<close>. The code links mutable objects: one branchset is attached to many
  branches and links are overwritten, so the model has an explicit heap. An address of a branch
  or of a branchset is its position in the heap. \<open>read_bset\<close> unfolds the links into the tree of Lt;
  it has no value when the links go deeper than the number of branchsets, as on a cycle.
\<close>

section \<open>The heap\<close>

record 'v hbranch =
  hb_bs_id :: string
  hb_branch_id :: string
  hb_weight :: rat
  hb_value :: "'v option"
  hb_short_id :: string
  hb_bset :: "nat option"

record hbset =
  hs_utype :: string
  hs_ordinal :: nat
  hs_filters :: filters
  hs_collapsed :: bool
  hs_branches :: "nat list"

record 'v lt_heap =
  lh_branches :: "'v hbranch list"
  lh_bsets :: "hbset list"
  lh_dummies :: nat

definition hb_id :: "'v hbranch \<Rightarrow> string" where
  "hb_id br = (if length (hb_branch_id br) = 1 then hb_branch_id br else hb_short_id br)"

definition set_bset :: "nat \<Rightarrow> nat \<Rightarrow> 'v lt_heap \<Rightarrow> 'v lt_heap" where
  "set_bset a b h = h\<lparr>lh_branches := (lh_branches h)[a := (lh_branches h ! a)\<lparr>hb_bset := Some b\<rparr>]\<rparr>"

definition set_short :: "nat \<Rightarrow> string \<Rightarrow> 'v lt_heap \<Rightarrow> 'v lt_heap" where
  "set_short a s h = h\<lparr>lh_branches := (lh_branches h)[a := (lh_branches h ! a)\<lparr>hb_short_id := s\<rparr>]\<rparr>"

text \<open>\<open>dummy_branchset()\<close>: the addresses of the new branchset and of its branch.\<close>

definition dummy_branchset :: "'v lt_heap \<Rightarrow> 'v lt_heap \<times> nat \<times> nat" where
  "dummy_branchset h = (let a = length (lh_branches h); b = length (lh_bsets h) in
     (\<lparr>lh_branches = lh_branches h @ [\<lparr>hb_bs_id = ''dummy'' @ show_nat (lh_dummies h), hb_branch_id = ''.'',
          hb_weight = 1, hb_value = None, hb_short_id = ''.'', hb_bset = None\<rparr>],
       lh_bsets = lh_bsets h @ [\<lparr>hs_utype = ''dummy'', hs_ordinal = 0, hs_filters = [], hs_collapsed = False,
          hs_branches = [a]\<rparr>],
       lh_dummies = lh_dummies h + 1\<rparr>, b, a))"

definition base33489 :: "string list" where
  "base33489 = map (\<lambda>(a, b). [a, b]) (List.product base183 base183)"

definition base_of :: "hbset \<Rightarrow> string list" where
  "base_of bs = (if hs_utype bs = ''sourceModel'' then base33489 else map (\<lambda>c. [c]) base183)"

text \<open>\<open>add_path\<close>: short IDs for the branches and one base path for each.\<close>

definition add_path_step :: "string list \<Rightarrow> nat \<Rightarrow> nat \<Rightarrow> 'v lt_heap \<times> nat \<times> string list \<Rightarrow> nat \<Rightarrow>
    ('v lt_heap \<times> nat \<times> string list) res" where
  "add_path_step base bsno tot st a = (case st of (h, brno, paths) \<Rightarrow>
     bindE (py_index base (int brno)) (\<lambda>short.
       let h' = set_short a short h in
       Inr (h', brno + 1, paths @ [concat ((replicate tot ''*'')[bsno := hb_id (lh_branches h' ! a)])])))"

definition fval_len :: "fval \<Rightarrow> nat" where
  "fval_len v = (case v of FStr s \<Rightarrow> length s | FList l \<Rightarrow> length l)"

definition fval_list :: "fval \<Rightarrow> string list" where
  "fval_list v = (case v of FStr s \<Rightarrow> map (\<lambda>c. [c]) s | FList l \<Rightarrow> l)"

definition add_path :: "nat \<Rightarrow> nat \<Rightarrow> nat \<Rightarrow> nat \<Rightarrow> nat \<Rightarrow> 'v lt_heap \<times> string list \<Rightarrow>
    (nat \<times> 'v lt_heap \<times> string list) res" where
  "add_path b bsno brno num_prev tot hp = (case hp of (h, paths) \<Rightarrow> let bs = lh_bsets h ! b in
     bindE (foldE (add_path_step (base_of bs) bsno tot) (h, brno, paths) (hs_branches bs)) (\<lambda>(h', brno', paths').
       Inr (case map_of (hs_filters bs) ''applyToBranches'' of
              None \<Rightarrow> 0
            | Some v \<Rightarrow> if fval_len v = num_prev then 0 else brno', h', paths')))"

section \<open>Attaching the branchsets\<close>

type_synonym branchdic = "(string, nat) dict"

definition branch_ids :: "'v lt_heap \<Rightarrow> nat list \<Rightarrow> string list" where
  "branch_ids h as = map (\<lambda>a. hb_branch_id (lh_branches h ! a)) as"

definition register_step :: "'v lt_heap \<Rightarrow> branchdic \<Rightarrow> nat \<Rightarrow> branchdic res" where
  "register_step h branchdic a = (let i = hb_branch_id (lh_branches h ! a) in
     if i \<noteq> ''.'' \<and> has_key branchdic i then Inl NameError else Inr (AList.update i a branchdic))"

definition apply_to_step :: "nat \<Rightarrow> branchdic \<Rightarrow> 'v lt_heap \<Rightarrow> string \<Rightarrow> 'v lt_heap res" where
  "apply_to_step b branchdic h bid =
     bindE (dict_get branchdic bid) (\<lambda>a. Inr (set_bset a b h))"

definition dummy_step :: "string list \<Rightarrow> 'v lt_heap \<times> branchdic \<times> nat list \<Rightarrow> string \<Rightarrow>
    ('v lt_heap \<times> branchdic \<times> nat list) res" where
  "dummy_step app2brs st brid = (case st of (h, branchdic, dummies) \<Rightarrow>
     bindE (dict_get branchdic brid) (\<lambda>a.
       if brid \<notin> set app2brs then
         (case dummy_branchset h of (h', db, da) \<Rightarrow>
            Inr (set_bset a db h', AList.update ''.'' da branchdic, dummies @ [da]))
       else Inr (h, branchdic, dummies)))"

type_synonym 'v attach_state = "'v lt_heap \<times> branchdic \<times> nat list \<times> nat \<times> string list"

definition attach_step :: "nat \<Rightarrow> 'v attach_state \<Rightarrow> nat \<times> nat \<Rightarrow> 'v attach_state res" where
  "attach_step nb st ib = (case (st, ib) of ((h, branchdic, previous, brno, paths), (i, b)) \<Rightarrow>
     let bs = lh_bsets h ! b in
     bindE (foldE (register_step h) branchdic (hs_branches bs)) (\<lambda>branchdic.
     let prev_ids = branch_ids h previous;
         to = (case map_of (hs_filters bs) ''applyToBranches'' of None \<Rightarrow> [] | Some v \<Rightarrow> fval_list v);
         app2brs = (if to = [] then prev_ids else to) in
     bindE (if app2brs \<noteq> prev_ids then
              bindE (foldE (apply_to_step b branchdic) h app2brs) (\<lambda>h.
              foldE (dummy_step app2brs) (h, branchdic, []) prev_ids)
            else Inr (foldl (\<lambda>h a. set_bset a b h) h previous, branchdic, [])) (\<lambda>(h, branchdic, dummies).
     bindE (add_path b (i + 1) brno (length previous) nb (h, paths)) (\<lambda>(brno, h, paths).
       Inr (h, branchdic, hs_branches bs @ dummies, brno, paths)))))"

definition attach_to_branches :: "nat list \<Rightarrow> 'v lt_heap \<Rightarrow> ('v lt_heap \<times> string list) res" where
  "attach_to_branches branchsets h = (case branchsets of [] \<Rightarrow> Inl IndexError
     | b0 # rest \<Rightarrow> (let nb = length branchsets; prev = hs_branches (lh_bsets h ! b0) in
        bindE (add_path b0 0 0 0 nb (h, [])) (\<lambda>(brno, h, paths).
        let branchdic = foldl (\<lambda>d a. AList.update (hb_branch_id (lh_branches h ! a)) a d) [] prev in
        bindE (foldE (attach_step nb) (h, branchdic, prev, brno, paths) (enumerate 0 rest))
          (\<lambda>(h, branchdic, previous, brno, paths). Inr (h, paths)))))"

text \<open>\<open>CompositeLogicTree(branchsets)\<close>: the ordinals are set, repeated values are refused.\<close>

definition check_duplicates :: "'v lt_heap \<Rightarrow> hbset \<Rightarrow> unit res" where
  "check_duplicates h bs = checkE (distinct (map (\<lambda>a. hb_value (lh_branches h ! a)) (hs_branches bs))) ValueError"

definition composite_init :: "nat list \<Rightarrow> 'v lt_heap \<Rightarrow> ('v lt_heap \<times> string list) res" where
  "composite_init branchsets h =
     bindE (foldE (\<lambda>h (i, b). let h' = h\<lparr>lh_bsets := (lh_bsets h)[b := (lh_bsets h ! b)\<lparr>hs_ordinal := i\<rparr>]\<rparr> in
        bindE (check_duplicates h' (lh_bsets h' ! b)) (\<lambda>_. Inr h')) h (enumerate 0 branchsets))
     (attach_to_branches branchsets)"

text \<open>\<open>build\<close>: one description (uncertainty type, branches applied to, branches) for each branchset.\<close>

type_synonym 'v bslist = "string \<times> fval \<times> (string \<times> 'v \<times> rat) list"

definition build_step :: "string \<Rightarrow> 'v lt_heap \<Rightarrow> nat \<times> 'v bslist \<Rightarrow> 'v lt_heap" where
  "build_step applyToSources h x = (case x of (i, utype, applyto, brlists) \<Rightarrow>
     let n = length (lh_branches h); num = show_nat i;
         bsid = ''bs'' @ (if length num < 2 then CHR ''0'' # num else num);
         filters = [(''applyToBranches'', applyto)] @
           (if applyToSources \<noteq> [] \<and> endswith utype ''Absolute''
            then [(''applyToSources'', FList (split_ws applyToSources))] else []) in
     h\<lparr>lh_branches := lh_branches h @ map (\<lambda>(brid, value, weight).
          \<lparr>hb_bs_id = bsid, hb_branch_id = brid, hb_weight = weight, hb_value = Some value,
           hb_short_id = [], hb_bset = None\<rparr>) brlists,
       lh_bsets := lh_bsets h @ [\<lparr>hs_utype = utype, hs_ordinal = i, hs_filters = filters,
           hs_collapsed = False, hs_branches = [n..<n + length brlists]\<rparr>]\<rparr>)"

definition build_heap :: "'v bslist list \<Rightarrow> string \<Rightarrow> 'v lt_heap" where
  "build_heap bslists applyToSources = foldl (build_step applyToSources)
     \<lparr>lh_branches = [], lh_bsets = [], lh_dummies = 1\<rparr> (enumerate 0 bslists)"

definition build :: "'v bslist list \<Rightarrow> string \<Rightarrow> ('v lt_heap \<times> string list) res" where
  "build bslists applyToSources = composite_init [0..<length bslists] (build_heap bslists applyToSources)"

section \<open>Reading the tree\<close>

fun read_bset :: "nat \<Rightarrow> 'v lt_heap \<Rightarrow> nat \<Rightarrow> 'v option bset option" where
  "read_bset 0 h b = None"
| "read_bset (Suc n) h b = (let bs = lh_bsets h ! b in
     map_option (BSet (hs_utype bs) (hs_ordinal bs) (hs_filters bs) (hs_collapsed bs))
       (those (map (\<lambda>a. let br = lh_branches h ! a in
          (case hb_bset br of
             None \<Rightarrow> Some (Branch (hb_bs_id br) (hb_branch_id br) (hb_weight br) (hb_value br) (hb_short_id br) None)
           | Some c \<Rightarrow> map_option (\<lambda>t. Branch (hb_bs_id br) (hb_branch_id br) (hb_weight br) (hb_value br)
                (hb_short_id br) (Some t)) (read_bset n h c))) (hs_branches bs))))"

text \<open>The realizations of the composite tree: values, weight, ordinal and path, padded with dots.\<close>

definition ljust :: "nat \<Rightarrow> char \<Rightarrow> string \<Rightarrow> string" where
  "ljust n c s = s @ replicate (n - length s) c"

definition composite_iter :: "nat \<Rightarrow> 'v option bset \<Rightarrow> ('v option list \<times> rat \<times> nat \<times> string) list res" where
  "composite_iter nb b0 = bindE (enumerate_paths b0) (\<lambda>ps. Inr (map (\<lambda>(i, weight, branches).
     (map br_value branches, weight, i, ljust nb CHR ''.'' (concat (map br_id branches)))) (enumerate 0 ps)))"

definition get_all_paths :: "'v lt_heap \<Rightarrow> nat \<Rightarrow> string list res option" where
  "get_all_paths h nb = map_option (\<lambda>b. bindE (composite_iter nb b) (\<lambda>rlzs. Inr (map (\<lambda>(v, w, i, p). p) rlzs)))
     (read_bset (length (lh_bsets h)) h 0)"

section \<open>The weights of the realizations\<close>

text \<open>
  What every step of the construction keeps: the links lead to branchsets, and every branchset,
  dummies included, has branches whose weights sum to one.
\<close>

definition bset_ok :: "'v lt_heap \<Rightarrow> hbset \<Rightarrow> bool" where
  "bset_ok h bs \<longleftrightarrow> \<not> hs_collapsed bs \<and> (\<forall>a \<in> set (hs_branches bs). a < length (lh_branches h))
     \<and> sum_list (map (\<lambda>a. hb_weight (lh_branches h ! a)) (hs_branches bs)) = 1"

definition heap_ok :: "'v lt_heap \<Rightarrow> bool" where
  "heap_ok h \<longleftrightarrow> (\<forall>bs \<in> set (lh_bsets h). bset_ok h bs)
     \<and> (\<forall>br \<in> set (lh_branches h). \<forall>c. hb_bset br = Some c \<longrightarrow> c < length (lh_bsets h))"

text \<open>One heap grown from another: the same weights at the old addresses, the old branchsets kept.\<close>

definition grown :: "'v lt_heap \<Rightarrow> 'v lt_heap \<Rightarrow> bool" where
  "grown h h' \<longleftrightarrow> prefix (map hb_weight (lh_branches h)) (map hb_weight (lh_branches h'))
     \<and> prefix (lh_bsets h) (lh_bsets h')"

lemma grown_refl [simp]: "grown h h"
  by (simp add: grown_def)

lemma grown_trans: "grown a b \<Longrightarrow> grown b c \<Longrightarrow> grown a c"
  unfolding grown_def by (metis prefix_order.trans)

lemma grown_length:
  "grown h h' \<Longrightarrow> length (lh_bsets h) \<le> length (lh_bsets h')"
  by (auto simp: grown_def dest: prefix_length_le)

lemma set_bset_keeps [simp]:
  "map hb_weight (lh_branches (set_bset a b h)) = map hb_weight (lh_branches h)"
  "lh_bsets (set_bset a b h) = lh_bsets h"
proof -
  show "map hb_weight (lh_branches (set_bset a b h)) = map hb_weight (lh_branches h)"
    by (cases "a < length (lh_branches h)", rule nth_equalityI)
      (auto simp: set_bset_def nth_list_update list_update_beyond)
qed (simp add: set_bset_def)

lemma set_short_keeps [simp]:
  "map hb_weight (lh_branches (set_short a s h)) = map hb_weight (lh_branches h)"
  "lh_bsets (set_short a s h) = lh_bsets h"
proof -
  show "map hb_weight (lh_branches (set_short a s h)) = map hb_weight (lh_branches h)"
    by (cases "a < length (lh_branches h)", rule nth_equalityI)
      (auto simp: set_short_def nth_list_update list_update_beyond)
qed (simp add: set_short_def)

lemma grown_set_bset [simp]: "grown h (set_bset a b h)"
  by (simp add: grown_def)

lemma grown_set_short [simp]: "grown h (set_short a s h)"
  by (simp add: grown_def)

lemma bset_ok_same:
  assumes "map hb_weight (lh_branches h') = map hb_weight (lh_branches h)"
  shows "bset_ok h' bs = bset_ok h bs"
proof -
  have len: "length (lh_branches h') = length (lh_branches h)" using assms by (metis length_map)
  have w [simp]: "hb_weight (lh_branches h' ! a) = hb_weight (lh_branches h ! a)" if "a < length (lh_branches h)" for a
    using assms len that by (metis nth_map)
  have "map (\<lambda>a. hb_weight (lh_branches h' ! a)) (hs_branches bs) = map (\<lambda>a. hb_weight (lh_branches h ! a)) (hs_branches bs)"
    if "\<forall>a \<in> set (hs_branches bs). a < length (lh_branches h)"
    using that by (intro map_cong) auto
  then have "(\<Sum>a\<leftarrow>hs_branches bs. hb_weight (lh_branches h' ! a)) = (\<Sum>a\<leftarrow>hs_branches bs. hb_weight (lh_branches h ! a))"
    if "\<forall>a \<in> set (hs_branches bs). a < length (lh_branches h)"
    by (intro arg_cong [where f = sum_list] map_cong) (use that in auto)
  then show ?thesis by (auto simp: bset_ok_def len)
qed

lemma links_set_bset:
  "br \<in> set (lh_branches (set_bset a b h)) \<Longrightarrow> hb_bset br = Some c \<Longrightarrow>
     c = b \<or> (\<exists>br' \<in> set (lh_branches h). hb_bset br' = Some c)"
  by (cases "a < length (lh_branches h)")
    (auto simp: set_bset_def list_update_beyond set_update_distinct dest!: set_update_subset_insert [THEN subsetD]
      intro: nth_mem)

lemma links_set_short:
  "br \<in> set (lh_branches (set_short a s h)) \<Longrightarrow> hb_bset br = Some c \<Longrightarrow>
     \<exists>br' \<in> set (lh_branches h). hb_bset br' = Some c"
  by (cases "a < length (lh_branches h)")
    (auto simp: set_short_def list_update_beyond set_update_distinct dest!: set_update_subset_insert [THEN subsetD]
      intro: nth_mem)

lemma heap_ok_set_bset: "heap_ok h \<Longrightarrow> b < length (lh_bsets h) \<Longrightarrow> heap_ok (set_bset a b h)"
  using bset_ok_same [OF set_bset_keeps(1)] links_set_bset unfolding heap_ok_def set_bset_keeps(2) by blast

lemma heap_ok_set_short: "heap_ok h \<Longrightarrow> heap_ok (set_short a s h)"
  using bset_ok_same [OF set_short_keeps(1)] links_set_short unfolding heap_ok_def set_short_keeps(2) by blast

lemma dummy_branchset_ok:
  assumes "heap_ok h" and "dummy_branchset h = (h', b, a)"
  shows "heap_ok h'" and "grown h h'" and "b < length (lh_bsets h')"
proof -
  have bs: "lh_bsets h' = lh_bsets h @ [\<lparr>hs_utype = ''dummy'', hs_ordinal = 0, hs_filters = [],
        hs_collapsed = False, hs_branches = [length (lh_branches h)]\<rparr>]"
    and br: "\<exists>d. lh_branches h' = lh_branches h @ [d] \<and> hb_weight d = 1 \<and> hb_bset d = None"
    and b: "b = length (lh_bsets h)"
    using assms(2) by (auto simp: dummy_branchset_def Let_def)
  obtain d where d: "lh_branches h' = lh_branches h @ [d]" "hb_weight d = 1" "hb_bset d = None" using br by auto
  have old: "bset_ok h' x" if "bset_ok h x" for x
  proof -
    have "map (\<lambda>a. hb_weight (lh_branches h' ! a)) (hs_branches x) = map (\<lambda>a. hb_weight (lh_branches h ! a)) (hs_branches x)"
      using that by (intro map_cong) (auto simp: bset_ok_def d nth_append)
    then have "(\<Sum>a\<leftarrow>hs_branches x. hb_weight (lh_branches h' ! a)) = (\<Sum>a\<leftarrow>hs_branches x. hb_weight (lh_branches h ! a))"
      by (rule arg_cong [where f = sum_list])
    then show ?thesis using that by (auto simp: bset_ok_def d)
  qed
  show "heap_ok h'" using assms(1) old d by (auto simp: heap_ok_def bs) (auto simp: bset_ok_def d)
  show "grown h h'" by (simp add: grown_def bs d)
  show "b < length (lh_bsets h')" by (simp add: b bs)
qed

lemma add_path_ok:
  assumes "add_path b bsno brno n tot (h, paths) = Inr (brno', h', paths')" and "heap_ok h"
  shows "heap_ok h' \<and> grown h h' \<and> lh_bsets h' = lh_bsets h"
proof -
  obtain k where "foldE (add_path_step (base_of (lh_bsets h ! b)) bsno tot) (h, brno, paths)
      (hs_branches (lh_bsets h ! b)) = Inr (h', k, paths')"
    using assms(1) by (auto simp: add_path_def Let_def bindE_Inr_iff)
  then have "(\<lambda>(g, k, p). heap_ok g \<and> grown h g \<and> lh_bsets g = lh_bsets h) (h', k, paths')"
  proof (rule foldE_invariant)
    fix st a st'
    assume inv: "(\<lambda>(g, k, p). heap_ok g \<and> grown h g \<and> lh_bsets g = lh_bsets h) st"
      and step: "add_path_step (base_of (lh_bsets h ! b)) bsno tot st a = Inr st'"
    obtain g k p where st: "st = (g, k, p)" by (cases st)
    obtain sh q where "st' = (set_short a sh g, k + 1, q)"
      using step by (auto simp: add_path_step_def st bindE_Inr_iff Let_def)
    then show "(\<lambda>(g, k, p). heap_ok g \<and> grown h g \<and> lh_bsets g = lh_bsets h) st'"
      using inv grown_trans [OF _ grown_set_short [of g a sh], of h] by (simp add: st heap_ok_set_short)
  qed (use assms(2) in simp)
  then show ?thesis by simp
qed

text \<open>The invariant of the construction, from a first heap on.\<close>

definition built :: "'v lt_heap \<Rightarrow> 'v lt_heap \<Rightarrow> bool" where
  "built h0 h \<longleftrightarrow> heap_ok h \<and> length (lh_bsets h0) \<le> length (lh_bsets h)"

lemma built_refl: "heap_ok h \<Longrightarrow> built h h"
  by (simp add: built_def)

lemma built_set_bset: "built h0 h \<Longrightarrow> b < length (lh_bsets h0) \<Longrightarrow> built h0 (set_bset a b h)"
  by (simp add: built_def heap_ok_set_bset)

lemma built_dummy:
  assumes "built h0 h" and "dummy_branchset h = (h', db, da)"
  shows "built h0 (set_bset a db h')"
proof -
  note d = dummy_branchset_ok [OF _ assms(2)]
  have "heap_ok h" using assms(1) by (simp add: built_def)
  then show ?thesis using assms(1) d grown_length [OF d(2)]
    by (auto simp: built_def intro: heap_ok_set_bset)
qed

lemma built_apply_to:
  assumes "foldE (apply_to_step b dic) h ids = Inr h'" and "built h0 h" and "b < length (lh_bsets h0)"
  shows "built h0 h'"
  using assms(1,2)
  by (rule foldE_invariant) (auto simp: apply_to_step_def bindE_Inr_iff intro: built_set_bset assms(3))

lemma built_dummies:
  assumes "foldE (dummy_step app) (h, dic, ds) ids = Inr (h', dic', ds')" and "built h0 h"
  shows "built h0 h'"
proof -
  from assms(1) have "(\<lambda>(h, dic, ds). built h0 h) (h', dic', ds')"
  proof (rule foldE_invariant)
    fix st x st' assume "(\<lambda>(h, dic, ds). built h0 h) st" "dummy_step app st x = Inr st'"
    then show "(\<lambda>(h, dic, ds). built h0 h) st'"
      by (auto simp: dummy_step_def bindE_Inr_iff intro: built_dummy split: if_splits prod.splits)
  qed (use assms(2) in simp)
  then show ?thesis by simp
qed

lemma built_all: "built h0 h \<Longrightarrow> b < length (lh_bsets h0) \<Longrightarrow> built h0 (foldl (\<lambda>h a. set_bset a b h) h as)"
  by (induction as arbitrary: h) (auto intro: built_set_bset)

lemma built_add_path:
  "add_path b i n m k (h, p) = Inr (n', h', p') \<Longrightarrow> built h0 h \<Longrightarrow> built h0 h'"
  using add_path_ok by (fastforce simp: built_def)

lemma attach_step_built:
  assumes "attach_step nb (h, dic, prev, brno, paths) (i, b) = Inr (h', dic', prev', brno', paths')"
    and "built h0 h" and "b < length (lh_bsets h0)"
  shows "built h0 h'"
proof -
  let ?ids = "branch_ids h prev"
  obtain app d h1 d1 ds n where
    link: "(if app \<noteq> ?ids then bindE (foldE (apply_to_step b d) h app) (\<lambda>h. foldE (dummy_step app) (h, d, []) ?ids)
        else Inr (foldl (\<lambda>h a. set_bset a b h) h prev, d, [])) = Inr (h1, d1, ds)"
    and path: "add_path b (i + 1) brno (length prev) nb (h1, paths) = Inr (n, h', paths')"
    using assms(1) by (auto simp: attach_step_def Let_def bindE_Inr_iff)
  have "built h0 h1"
    using link assms(2,3)
    by (auto simp: bindE_Inr_iff intro: built_all dest!: built_apply_to built_dummies split: if_splits)
  then show ?thesis by (rule built_add_path [OF path])
qed

lemma composite_init_built:
  assumes "composite_init bs h = Inr (h', paths)" and "heap_ok h" and "set bs \<subseteq> {..<length (lh_bsets h)}"
  shows "heap_ok h' \<and> length (lh_bsets h) \<le> length (lh_bsets h')"
proof -
  let ?g = "\<lambda>h (i, b). let h' = h\<lparr>lh_bsets := (lh_bsets h)[b := (lh_bsets h ! b)\<lparr>hs_ordinal := i\<rparr>]\<rparr> in
        bindE (check_duplicates h' (lh_bsets h' ! b)) (\<lambda>_. Inr h')"
  obtain h1 where h1: "foldE ?g h (enumerate 0 bs) = Inr h1" and a: "attach_to_branches bs h1 = Inr (h', paths)"
    using assms(1) by (auto simp: composite_init_def bindE_Inr_iff)
  have len: "heap_ok h1 \<and> length (lh_bsets h1) = length (lh_bsets h)"
    using h1
  proof (rule foldE_invariant [where I = "\<lambda>g. heap_ok g \<and> length (lh_bsets g) = length (lh_bsets h)"])
    fix s x s' assume s: "heap_ok s \<and> length (lh_bsets s) = length (lh_bsets h)"
      and x: "x \<in> set (enumerate 0 bs)" and step: "?g s x = Inr s'"
    obtain i b where ib: "x = (i, b)" by (cases x)
    then have b: "b < length (lh_bsets s)"
      using x s assms(3) by (auto simp: in_set_enumerate_eq subset_iff)
    have s': "s' = s\<lparr>lh_bsets := (lh_bsets s)[b := (lh_bsets s ! b)\<lparr>hs_ordinal := i\<rparr>]\<rparr>"
      using step by (auto simp: ib Let_def bindE_Inr_iff)
    have "bset_ok s' c" if "c \<in> set (lh_bsets s')" for c
    proof -
      have "c = (lh_bsets s ! b)\<lparr>hs_ordinal := i\<rparr> \<or> c \<in> set (lh_bsets s)"
        using that set_update_subset_insert [of "lh_bsets s" b] by (auto simp: s')
      moreover have "bset_ok s (lh_bsets s ! b)" using s nth_mem [OF b] by (simp add: heap_ok_def)
      ultimately show ?thesis using s by (auto simp: heap_ok_def bset_ok_def s')
    qed
    then show "heap_ok s' \<and> length (lh_bsets s') = length (lh_bsets h)"
      using s by (auto simp: heap_ok_def s')
  qed (use assms(2) in simp)
  obtain b0 rest where bs: "bs = b0 # rest" using a by (cases bs) (auto simp: attach_to_branches_def)
  obtain n h2 p dic st where p: "add_path b0 0 0 0 (length bs) (h1, []) = Inr (n, h2, p)"
    and f: "foldE (attach_step (length bs)) (h2, dic, hs_branches (lh_bsets h1 ! b0), n, p) (enumerate 0 rest) = Inr st"
    and st: "fst st = h'"
    using a by (auto simp: attach_to_branches_def bs Let_def bindE_Inr_iff)
  have "built h1 h2" using built_add_path [OF p] len by (simp add: built_refl)
  from f have "built h1 (fst st)"
  proof (rule foldE_invariant [where I = "\<lambda>st. built h1 (fst st)"])
    fix s x s' assume s: "built h1 (fst s)" and x: "x \<in> set (enumerate 0 rest)"
      and step: "attach_step (length bs) s x = Inr s'"
    obtain i b where ib: "x = (i, b)" by (cases x)
    then have "b < length (lh_bsets h1)"
      using x len assms(3) bs by (auto simp: in_set_enumerate_eq subset_iff)
    then show "built h1 (fst s')" using attach_step_built [of "length bs"] s step
      by (cases s; cases s') (auto simp: ib)
  qed (use \<open>built h1 h2\<close> in simp)
  then show ?thesis using st len by (simp add: built_def)
qed

lemma those_map_iff: "those (map f xs) = Some ys \<longleftrightarrow> list_all2 (\<lambda>x y. f x = Some y) xs ys"
  by (induction xs arbitrary: ys) (auto simp: list_all2_Cons1 split: option.splits)

text \<open>The tree read from such a heap has weights that sum to one at every level.\<close>

lemma read_bset_both:
  "heap_ok h \<Longrightarrow> b < length (lh_bsets h) \<Longrightarrow> read_bset n h b = Some t \<Longrightarrow> proper t \<and> uncollapsed t"
proof (induction n h b arbitrary: t rule: read_bset.induct)
  case (2 n h b)
  let ?bs = "lh_bsets h ! b"
  have ok: "bset_ok h ?bs" using "2.prems" by (auto simp: heap_ok_def)
  define rd where "rd a = (let br = lh_branches h ! a in
          (case hb_bset br of
             None \<Rightarrow> Some (Branch (hb_bs_id br) (hb_branch_id br) (hb_weight br) (hb_value br) (hb_short_id br) None)
           | Some c \<Rightarrow> map_option (\<lambda>t. Branch (hb_bs_id br) (hb_branch_id br) (hb_weight br) (hb_value br)
                (hb_short_id br) (Some t)) (read_bset n h c)))" for a
  obtain brs where brs: "those (map rd (hs_branches ?bs)) = Some brs"
    and t: "t = BSet (hs_utype ?bs) (hs_ordinal ?bs) (hs_filters ?bs) (hs_collapsed ?bs) brs"
    using "2.prems"(3) by (auto simp: rd_def [abs_def] Let_def)
  have l: "list_all2 (\<lambda>a br. rd a = Some br) (hs_branches ?bs) brs"
    using brs by (simp only: those_map_iff)
  have live: "live_branches t = Inr brs" using ok by (simp add: t live_branches_def bset_ok_def)
  have weights: "sum_list (map br_weight brs) = 1"
  proof -
    have "list_all2 (\<lambda>a br. br_weight br = hb_weight (lh_branches h ! a)) (hs_branches ?bs) brs"
      using l by (rule list_all2_mono) (auto simp: rd_def Let_def split: option.splits)
    then have "map br_weight brs = map (\<lambda>a. hb_weight (lh_branches h ! a)) (hs_branches ?bs)"
      by (auto simp: list_all2_conv_all_nth intro!: nth_equalityI)
    then show ?thesis using ok by (simp add: bset_ok_def)
  qed
  have child: "proper c \<and> uncollapsed c" if "br \<in> set brs" and c: "br_bset br = Some c" for br c
  proof -
    obtain a where a: "a \<in> set (hs_branches ?bs)" "rd a = Some br"
    proof -
      obtain i where i: "i < length brs" "br = brs ! i"
        using \<open>br \<in> set brs\<close> by (auto simp: in_set_conv_nth)
      then have "rd (hs_branches ?bs ! i) = Some br" "hs_branches ?bs ! i \<in> set (hs_branches ?bs)"
        using l by (auto simp: list_all2_conv_all_nth)
      then show thesis by (rule that [rotated])
    qed
    then obtain d where d: "hb_bset (lh_branches h ! a) = Some d" "read_bset n h d = Some c"
      using c by (auto simp: rd_def Let_def split: option.splits)
    have "a < length (lh_branches h)" using ok a(1) by (auto simp: bset_ok_def)
    then have "d < length (lh_bsets h)" using "2.prems"(1) d(1) by (auto simp: heap_ok_def)
    then show ?thesis using "2.IH" a(1) d "2.prems"(1) by auto
  qed
  have "\<not> bs_collapsed t" "bs_branches t = brs" using ok by (simp_all add: t bset_ok_def)
  then show ?case using live weights child by (auto intro: properI uncollapsedI)
qed simp

lemmas read_bset_proper = read_bset_both [THEN conjunct1]

end
