(* ===== verification/Splitting.thy ===== *)
theory Splitting
  imports Seq_Blocks "HOL-Library.Multiset"
begin

text \<open>
  Cutting a sequence into blocks and a range into slices (openquake/baselib/general.py):
  \<open>block_splitter\<close>, \<open>split_in_slices\<close>, \<open>gen_slices\<close>, \<open>split_in_blocks\<close>. The locale \<open>splitter\<close> is
  what the users of a splitter rely on: the blocks hold the items of the sequence.
\<close>

section \<open>The contract of a splitter\<close>

locale splitter =
  fixes split :: "'a list \<Rightarrow> 'e + 'a list list"
    and keep :: "'a \<Rightarrow> bool"
  assumes lossless: "split xs = Inr bs \<Longrightarrow>
    filter_mset keep (mset (concat bs)) = filter_mset keep (mset xs)"
begin

lemma split_sum:
  fixes g :: "'a \<Rightarrow> 'n::comm_monoid_add"
  assumes "split xs = Inr bs"
  shows "sum_list (map (\<lambda>b. sum_list (map g (filter keep b))) bs) = sum_list (map g (filter keep xs))"
proof -
  have "sum_list (map (\<lambda>b. sum_list (map g (filter keep b))) bs) = sum_list (map g (filter keep (concat bs)))"
    by (induction bs) auto
  also have "\<dots> = sum_mset (image_mset g (filter_mset keep (mset (concat bs))))"
    by (metis mset_filter mset_map sum_mset_sum_list)
  also have "\<dots> = sum_mset (image_mset g (filter_mset keep (mset xs)))"
    by (simp only: lossless [OF assms])
  also have "\<dots> = sum_list (map g (filter keep xs))"
    by (metis mset_filter mset_map sum_mset_sum_list)
  finally show ?thesis .
qed

lemma split_covers:
  assumes "split xs = Inr bs" and "keep x"
  shows "x \<in> set xs \<longleftrightarrow> (\<exists>b \<in> set bs. x \<in> set b)"
proof -
  have "x \<in># filter_mset keep (mset (concat bs)) \<longleftrightarrow> x \<in># filter_mset keep (mset xs)"
    by (simp only: lossless [OF assms(1)])
  with assms(2) show ?thesis by simp
qed

end

section \<open>block_splitter\<close>

text \<open>
  The loop has the blocks yielded so far, the block being filled and the previous key; None is the
  key \<open>Unspecified\<close> that \<open>nokey\<close> returns. A negative weight raises when its item is reached.
\<close>

type_synonym ('a, 'w, 'k) bs_state = "('a, 'w) wseq list \<times> ('a, 'w) wseq \<times> 'k option"

definition bs_step :: "'w::linordered_idom \<Rightarrow> ('a \<Rightarrow> 'w) \<Rightarrow> ('a \<Rightarrow> 'k option) \<Rightarrow>
    ('a, 'w, 'k) bs_state \<Rightarrow> 'a \<Rightarrow> ('a, 'w, 'k) bs_state res" where
  "bs_step max_weight weight key st item = (case st of (out, ws, prev_key) \<Rightarrow>
     let w = weight item; k = key item in
     if w < 0 then Inl ValueError
     else if ws_weight ws + w > max_weight \<or> k \<noteq> prev_key then
       (let new_ws = ws_init [(item, w)] in
        Inr (if ws_len ws \<noteq> 0 then out @ [ws] else out, new_ws, k))
     else if w > 0 then Inr (out, ws_append ws (item, w), k)
     else Inr (out, ws, k))"

definition sorted_by_weight :: "('a \<Rightarrow> 'w::linorder) \<Rightarrow> 'a list \<Rightarrow> 'a list" where
  "sorted_by_weight weight items = rev (sort_key weight (rev items))"

definition block_splitter :: "'a list \<Rightarrow> 'w::linordered_idom \<Rightarrow> ('a \<Rightarrow> 'w) \<Rightarrow> ('a \<Rightarrow> 'k option) \<Rightarrow>
    bool \<Rightarrow> ('a, 'w) wseq list res" where
  "block_splitter items max_weight weight key sorting =
     (if max_weight \<le> 0 then Inl ValueError
      else bindE (foldE (bs_step max_weight weight key) ([], ws_init [], None)
                    (if sorting then sorted_by_weight weight items else items))
             (\<lambda>(out, ws, _). Inr (if ws_len ws \<noteq> 0 then out @ [ws] else out)))"

text \<open>
  What a block is: items of one key, with the sum of their weights, within the bound unless it is
  a single item. Two neighbours could not be one: the keys differ or the bound is exceeded.
\<close>

definition block_ok :: "'w::linordered_idom \<Rightarrow> ('a \<Rightarrow> 'w) \<Rightarrow> ('a \<Rightarrow> 'k option) \<Rightarrow> ('a, 'w) wseq \<Rightarrow> bool" where
  "block_ok m w key ws \<longleftrightarrow> ws_seq ws \<noteq> [] \<and> ws_weight ws = sum_list (map w (ws_seq ws))
     \<and> list_all (\<lambda>x. key x = key (hd (ws_seq ws))) (ws_seq ws)
     \<and> (ws_weight ws \<le> m \<or> length (ws_seq ws) = 1)"

definition full_before :: "'w::linordered_idom \<Rightarrow> ('a \<Rightarrow> 'w) \<Rightarrow> ('a \<Rightarrow> 'k option) \<Rightarrow>
    ('a, 'w) wseq \<Rightarrow> ('a, 'w) wseq \<Rightarrow> bool" where
  "full_before m w key a b \<longleftrightarrow> key (hd (ws_seq a)) \<noteq> key (hd (ws_seq b))
     \<or> m < ws_weight a + w (hd (ws_seq b))"

definition bs_inv :: "'w::linordered_idom \<Rightarrow> ('a \<Rightarrow> 'w) \<Rightarrow> ('a \<Rightarrow> 'k option) \<Rightarrow> 'a list \<Rightarrow>
    ('a, 'w, 'k) bs_state \<Rightarrow> bool" where
  "bs_inv m w key xs st \<longleftrightarrow> (case st of (out, ws, prev) \<Rightarrow>
     let blocks = (if ws_seq ws = [] then out else out @ [ws]) in
     list_all (block_ok m w key) blocks \<and> successively (full_before m w key) blocks
     \<and> filter (\<lambda>x. 0 < w x) (concat (map ws_seq blocks)) = filter (\<lambda>x. 0 < w x) xs
     \<and> subseq (concat (map ws_seq blocks)) xs
     \<and> (if ws_seq ws = [] then out = [] \<and> ws_weight ws = 0 \<and> prev = None
        else prev = key (hd (ws_seq ws))))"

lemma subseq_snoc: "subseq (a @ b) xs \<Longrightarrow> subseq (a @ b @ [x]) (xs @ [x])"
  by (metis append_assoc list_emb_append_mono subseq_order.refl)

lemma bs_step_inv:
  assumes "bs_inv m w key xs st" and "bs_step m w key st x = Inr st'"
  shows "bs_inv m w key (xs @ [x]) st'"
proof -
  obtain out ws prev where st: "st = (out, ws, prev)" by (cases st) auto
  note inv = assms(1) [unfolded bs_inv_def st prod.case Let_def]
  have nonneg: "0 \<le> w x"
    using assms(2) by (auto simp: bs_step_def st Let_def split: if_splits)
  show ?thesis
  proof (cases "ws_weight ws + w x > m \<or> key x \<noteq> prev")
    case True
    then have st': "st' = (if ws_len ws \<noteq> 0 then out @ [ws] else out, ws_init [(x, w x)], key x)"
      using assms(2) nonneg by (simp add: bs_step_def st Let_def)
    let ?ws = "ws_init [(x, w x)]"
    have ok: "block_ok m w key ?ws" by (simp add: block_ok_def)
    show ?thesis
    proof (cases "ws_seq ws = []")
      case True
      then have "out = []" "filter (\<lambda>x. 0 < w x) xs = []" using inv by auto
      with True show ?thesis using ok subseq_snoc [of "[]" "[]" xs x]
        by (simp add: bs_inv_def st' ws_len_def)
    next
      case ne: False
      have fb: "full_before m w key ws ?ws"
        using True inv ne by (auto simp: full_before_def)
      have "subseq (concat (map ws_seq out) @ ws_seq ws @ [x]) (xs @ [x])"
        using inv ne by (intro subseq_snoc) simp
      then show ?thesis using inv ne ok fb
        by (simp add: bs_inv_def st' ws_len_def successively_append_iff)
    qed
  next
    case False
    show ?thesis
    proof (cases "0 < w x")
      case True
      with False have st': "st' = (out, ws_append ws (x, w x), key x)"
        using assms(2) nonneg by (simp add: bs_step_def st Let_def)
      show ?thesis
      proof (cases "ws_seq ws = []")
        case True
        then show ?thesis using \<open>0 < w x\<close> False inv
          by (auto simp: bs_inv_def st' block_ok_def intro: list_emb_append_mono)
      next
        case ne: False
        let ?ws = "ws_append ws (x, w x)"
        have k: "key x = prev" "prev = key (hd (ws_seq ws))" "ws_weight ws + w x \<le> m"
          using False inv ne by auto
        have "block_ok m w key ws" using inv ne by simp
        moreover have "key x = key (hd (ws_seq ws))" using k by simp
        ultimately have ok: "block_ok m w key ?ws"
          using ne k(3) by (simp add: block_ok_def add.commute)
        have fb: "full_before m w key b ?ws = full_before m w key b ws" for b
          using ne by (simp add: full_before_def)
        have "subseq (concat (map ws_seq out) @ ws_seq ws @ [x]) (xs @ [x])"
          using inv ne by (intro subseq_snoc) simp
        then show ?thesis using inv ne ok k(1,2) \<open>0 < w x\<close>
          by (simp add: bs_inv_def st' successively_append_iff fb)
      qed
    next
      case w0: False
      with False have st': "st' = (out, ws, key x)"
        using assms(2) nonneg by (simp add: bs_step_def st Let_def)
      show ?thesis using w0 False inv
        by (auto simp: bs_inv_def st' Let_def split: if_splits)
    qed
  qed
qed

lemma bs_fold_inv:
  assumes "foldE (bs_step m w key) ([], ws_init [], None) xs = Inr st"
  shows "bs_inv m w key xs st"
  using assms
proof (induction xs arbitrary: st rule: rev_induct)
  case Nil
  then show ?case by (auto simp: bs_inv_def)
next
  case (snoc x xs)
  then show ?case by (auto simp: foldE_append bindE_Inr_iff intro: bs_step_inv)
qed

lemma bs_step_ok_iff: "is_ok (bs_step m w key st x) \<longleftrightarrow> 0 \<le> w x"
  by (auto simp: bs_step_def Let_def not_less split: prod.split)

lemma bs_fold_ok_iff: "is_ok (foldE (bs_step m w key) st xs) \<longleftrightarrow> (\<forall>x \<in> set xs. 0 \<le> w x)"
proof (induction xs arbitrary: st)
  case (Cons x xs)
  show ?case
  proof (cases "bs_step m w key st x")
    case (Inl e)
    then show ?thesis using bs_step_ok_iff [of m w key st x] by auto
  next
    case (Inr st')
    then show ?thesis using bs_step_ok_iff [of m w key st x] Cons.IH by auto
  qed
qed simp

lemma set_sorted_by_weight [simp]: "set (sorted_by_weight w xs) = set xs"
  by (simp add: sorted_by_weight_def)

lemma mset_sorted_by_weight [simp]: "mset (sorted_by_weight w xs) = mset xs"
  by (simp add: sorted_by_weight_def)

lemma sorted_by_weight_desc: "sorted (rev (map w (sorted_by_weight w xs)))"
  by (simp add: sorted_by_weight_def rev_map)

lemma sorted_by_weight_stable:
  "filter (\<lambda>x. w x = k) (sorted_by_weight w xs) = filter (\<lambda>x. w x = k) xs"
  unfolding sorted_by_weight_def
  by (metis rev_filter rev_rev_ident sort_key_stable)

lemma block_splitter_ok_iff:
  "is_ok (block_splitter xs m w key sorting) \<longleftrightarrow> 0 < m \<and> (\<forall>x \<in> set xs. 0 \<le> w x)"
proof (cases "0 < m")
  case True
  let ?ys = "if sorting then sorted_by_weight w xs else xs"
  show ?thesis
    using bs_fold_ok_iff [of m w key "([], ws_init [], None)" ?ys] True
    by (cases "foldE (bs_step m w key) ([], ws_init [], None) ?ys")
      (auto simp: block_splitter_def split: if_splits)
qed (simp add: block_splitter_def)

lemma block_splitter_Inr:
  assumes "block_splitter xs m w key sorting = Inr bs"
  shows "list_all (block_ok m w key) bs" and "successively (full_before m w key) bs"
    and "filter (\<lambda>x. 0 < w x) (concat (map ws_seq bs))
       = filter (\<lambda>x. 0 < w x) (if sorting then sorted_by_weight w xs else xs)"
    and "subseq (concat (map ws_seq bs)) (if sorting then sorted_by_weight w xs else xs)"
    and "0 < m"
proof -
  let ?ys = "if sorting then sorted_by_weight w xs else xs"
  obtain out ws p where st: "foldE (bs_step m w key) ([], ws_init [], None) ?ys = Inr (out, ws, p)"
    and bs: "bs = (if ws_seq ws = [] then out else out @ [ws])" and m: "0 < m"
    using assms by (auto simp: block_splitter_def ws_len_def bindE_Inr_iff split: if_splits)
  from bs_fold_inv [OF st] show "list_all (block_ok m w key) bs" "successively (full_before m w key) bs"
    "filter (\<lambda>x. 0 < w x) (concat (map ws_seq bs)) = filter (\<lambda>x. 0 < w x) ?ys"
    "subseq (concat (map ws_seq bs)) ?ys"
    unfolding bs_inv_def prod.case Let_def bs by blast+
  show "0 < m" by (rule m)
qed

lemma mset_eq_sum_list: "mset xs = mset ys \<Longrightarrow> sum_list xs = sum_list (ys :: 'w::comm_monoid_add list)"
  by (metis sum_mset_sum_list)

lemma sum_list_pos_filter:
  fixes w :: "'a \<Rightarrow> 'w::linordered_idom"
  shows "(\<And>x. x \<in> set xs \<Longrightarrow> 0 \<le> w x) \<Longrightarrow> sum_list (map w (filter (\<lambda>x. 0 < w x) xs)) = sum_list (map w xs)"
  by (induction xs) (auto simp: order.order_iff_strict)

lemma block_splitter_weight:
  fixes w :: "'a \<Rightarrow> 'w::linordered_idom"
  assumes "block_splitter xs m w key sorting = Inr bs"
  shows "sum_list (map ws_weight bs) = sum_list (map w xs)"
proof -
  note b = block_splitter_Inr [OF assms]
  let ?ys = "if sorting then sorted_by_weight w xs else xs"
  have nonneg: "\<And>x. x \<in> set ?ys \<Longrightarrow> 0 \<le> w x"
    using assms block_splitter_ok_iff [of xs m w key sorting] by (auto split: if_splits)
  have in_ys: "\<And>x. x \<in> set (concat (map ws_seq bs)) \<Longrightarrow> 0 \<le> w x"
    using nonneg list_emb_set [OF b(4)] by blast
  have "sum_list (map ws_weight bs) = sum_list (map w (concat (map ws_seq bs)))"
    using b(1) by (induction bs) (auto simp: block_ok_def)
  also have "\<dots> = sum_list (map w (filter (\<lambda>x. 0 < w x) (concat (map ws_seq bs))))"
    using in_ys by (intro sum_list_pos_filter [symmetric])
  also have "\<dots> = sum_list (map w (filter (\<lambda>x. 0 < w x) ?ys))" by (simp only: b(3))
  also have "\<dots> = sum_list (map w ?ys)" using nonneg by (intro sum_list_pos_filter)
  also have "\<dots> = sum_list (map w xs)"
  proof -
    have "mset (map w ?ys) = mset (map w xs)" by simp
    then show ?thesis by (rule mset_eq_sum_list)
  qed
  finally show ?thesis .
qed

lemma block_splitter_lossless:
  assumes "block_splitter xs m w key sorting = Inr bs"
  shows "filter_mset (\<lambda>x. 0 < w x) (mset (concat (map ws_seq bs))) = filter_mset (\<lambda>x. 0 < w x) (mset xs)"
proof -
  have "filter_mset (\<lambda>x. 0 < w x) (mset (concat (map ws_seq bs)))
      = mset (filter (\<lambda>x. 0 < w x) (if sorting then sorted_by_weight w xs else xs))"
    using block_splitter_Inr(3) [OF assms] by (metis mset_filter)
  then show ?thesis by (simp add: mset_filter)
qed

interpretation bs: splitter
  "\<lambda>xs. bindE (block_splitter xs m w key sorting) (\<lambda>bs. Inr (map ws_seq bs))" "\<lambda>x. 0 < w x"
  for m w key sorting
  by unfold_locales (auto simp: bindE_Inr_iff intro: block_splitter_lossless)

lemma groupby_lossless: "mset (concat (map snd (groupby xs f id))) = mset xs"
proof (rule multiset_eqI)
  fix x
  have "distinct (sorted_list_of_set (f ` set xs))" "set (sorted_list_of_set (f ` set xs)) = f ` set xs"
    by simp_all
  have "count (mset (concat (map (\<lambda>k. filter (\<lambda>y. f y = k) xs) ks))) x = (if f x \<in> set ks then count (mset xs) x else 0)"
    if "distinct ks" for ks
    using that by (induction ks) (auto simp: mset_filter)
  then show "count (mset (concat (map snd (groupby xs f id)))) x = count (mset xs) x"
    by (auto simp: groupby_eq comp_def count_eq_zero_iff)
qed

interpretation gb: splitter "\<lambda>xs. Inr (map snd (groupby xs f id))" "\<lambda>_. True" for f
  by unfold_locales (use groupby_lossless in \<open>auto simp: \<close>)

section \<open>Slices\<close>

type_synonym slice = "int \<times> int"

text \<open>The loop of \<open>split_in_slices\<close>; it may run forever, and then has no value.\<close>

partial_function (option) slices_loop :: "int \<Rightarrow> int \<Rightarrow> int \<Rightarrow> slice list \<Rightarrow> slice list option" where
  "slices_loop number blocksize start slices =
     (let stop = min (start + blocksize) number; slices' = slices @ [(start, stop)] in
      if stop = number then Some slices'
      else slices_loop number blocksize (start + blocksize) slices')"

definition split_in_slices :: "int \<Rightarrow> int \<Rightarrow> slice list res option" where
  "split_in_slices number num_slices =
     (if \<not> 0 < number then Some (Inl AssertionError)
      else if \<not> 0 < num_slices then Some (Inl AssertionError)
      else case bindE (int_truediv number num_slices) flt_ceil of
          Inl e \<Rightarrow> Some (Inl e)
        | Inr blocksize \<Rightarrow> map_option Inr (slices_loop number blocksize 0 []))"

text \<open>The loop of \<open>gen_slices\<close>, entered with a positive block size only.\<close>

function gen_loop :: "int \<Rightarrow> int \<Rightarrow> int \<Rightarrow> slice list" where
  "gen_loop start stop blocksize = (if blocksize \<le> 0 then []
     else (start, min (start + blocksize) stop) #
       (if stop \<le> start + blocksize then [] else gen_loop (start + blocksize) stop blocksize))"
  by pat_completeness auto
termination
  by (relation "measure (\<lambda>(start, stop, blocksize). nat (stop - start))") auto

declare gen_loop.simps [simp del]

definition gen_slices :: "int \<Rightarrow> int \<Rightarrow> int \<Rightarrow> slice list res" where
  "gen_slices start stop blocksize =
     (if \<not> start \<le> stop then Inl AssertionError
      else if \<not> 0 < blocksize then Inl AssertionError
      else Inr (gen_loop start stop blocksize))"

fun tiles :: "int \<Rightarrow> int \<Rightarrow> slice list \<Rightarrow> bool" where
  "tiles a b [] = (a = b)"
| "tiles a b ((s, t) # l) = (s = a \<and> s < t \<and> tiles t b l)"

lemma slices_loop_gen:
  "0 < bs \<Longrightarrow> start < number \<Longrightarrow> slices_loop number bs start acc = Some (acc @ gen_loop start number bs)"
proof (induction start number bs arbitrary: acc rule: gen_loop.induct)
  case (1 start number bs)
  show ?case
  proof (cases "number \<le> start + bs")
    case True
    then show ?thesis using "1.prems"
      by (subst slices_loop.simps, subst gen_loop.simps) (simp add: Let_def min_def)
  next
    case False
    have "slices_loop number bs (start + bs) (acc @ [(start, start + bs)])
        = Some ((acc @ [(start, start + bs)]) @ gen_loop (start + bs) number bs)"
      using False "1.prems" by (intro "1.IH") auto
    then show ?thesis using False "1.prems"
      by (subst slices_loop.simps, subst gen_loop.simps) (simp add: Let_def min_def)
  qed
qed

lemma gen_loop_tiles: "0 < bs \<Longrightarrow> start < stop \<Longrightarrow> tiles start stop (gen_loop start stop bs)"
proof (induction start stop bs rule: gen_loop.induct)
  case (1 start stop bs)
  then show ?case
    by (subst gen_loop.simps) (cases "stop \<le> start + bs", simp_all add: min_def)
qed

lemma gen_loop_sizes: "(s, t) \<in> set (gen_loop start stop bs) \<Longrightarrow> t - s \<le> bs \<and> (t = stop \<or> t - s = bs)"
proof (induction start stop bs rule: gen_loop.induct)
  case (1 start stop bs)
  then show ?case by (subst (asm) (2) gen_loop.simps) (auto split: if_splits)
qed

lemma gen_loop_length:
  "0 < bs \<Longrightarrow> start < stop \<Longrightarrow> int (length (gen_loop start stop bs)) * bs < stop - start + bs"
proof (induction start stop bs rule: gen_loop.induct)
  case (1 start stop bs)
  then show ?case
    by (subst gen_loop.simps) (cases "stop \<le> start + bs", simp_all add: algebra_simps)
qed

lemma tiles_covers: "tiles a b l \<Longrightarrow> a \<le> i \<Longrightarrow> i < b \<Longrightarrow> \<exists>!p. p \<in> set l \<and> fst p \<le> i \<and> i < snd p"
proof (induction a b l rule: tiles.induct)
  case (2 a b s t l)
  have le: "t \<le> fst p" if "p \<in> set l" "tiles t b l" for p t b
    using that by (induction t b l rule: tiles.induct) fastforce+
  show ?case
  proof (cases "i < t")
    case True
    then show ?thesis using 2 le [of _ t b] by (intro ex1I [of _ "(s, t)"]) force+
  next
    case False
    have "\<exists>!p. p \<in> set l \<and> fst p \<le> i \<and> i < snd p" using 2 False by simp
    moreover have "p \<in> set ((s, t) # l) \<and> fst p \<le> i \<and> i < snd p \<longleftrightarrow> p \<in> set l \<and> fst p \<le> i \<and> i < snd p" for p
      using False by auto
    ultimately show ?thesis by simp
  qed
qed simp

lemma split_in_slices_gen:
  assumes "0 < number" "number < 2 ^ 53" "0 < num_slices" "num_slices < 2 ^ 53"
  shows "split_in_slices number num_slices =
    Some (gen_slices 0 number \<lceil>of_int number / of_int num_slices :: rat\<rceil>)"
proof -
  have "0 < (of_int number / of_int num_slices :: rat)" using assms by simp
  then have "0 < \<lceil>of_int number / of_int num_slices :: rat\<rceil>" by (simp only: zero_less_ceiling)
  then show ?thesis
    using assms by (simp add: split_in_slices_def ceil_truediv slices_loop_gen gen_slices_def)
qed

lemma split_in_slices_length:
  assumes "0 < n" "0 < m" and "bs = \<lceil>of_int n / of_int m :: rat\<rceil>"
  shows "int (length (gen_loop 0 n bs)) \<le> m"
proof -
  have "0 < (of_int n / of_int m :: rat)" using assms by simp
  then have bs: "0 < bs" by (simp only: assms(3) zero_less_ceiling)
  have "(of_int n / of_int m :: rat) \<le> of_int bs" by (simp add: assms(3))
  then have "(of_int n :: rat) \<le> of_int (bs * m)" using assms(2) by (simp add: field_simps)
  then have n: "n \<le> bs * m" by (simp only: of_int_le_iff)
  have "int (length (gen_loop 0 n bs)) * bs < n + bs"
    using gen_loop_length [OF bs, of 0 n] assms(1) by simp
  also have "\<dots> \<le> (m + 1) * bs" using n by (simp add: algebra_simps)
  finally have "int (length (gen_loop 0 n bs)) < m + 1" using bs by (simp only: mult_less_cancel_right_pos)
  then show ?thesis by simp
qed

section \<open>split_in_blocks\<close>

text \<open>
  The argument is a number or a list of items (a pandas frame goes to \<open>numpy.array_split\<close> and is
  not modelled); the result holds slices, plain lists or weighted sequences. Weights are integers;
  their sum becomes a float and is divided by the hint.
\<close>

datatype 'a seqarg = Number int | Items "'a list"

datatype 'a blocks = Slices "slice list" | Raw "'a list list" | Weighted "('a, rat) wseq list"

definition key_of :: "('a \<Rightarrow> 'k) option \<Rightarrow> 'a \<Rightarrow> 'k option" where
  "key_of key x = map_option (\<lambda>f. f x) key"

definition float_of_int :: "int \<Rightarrow> pyfloat res" where
  "float_of_int n = int_truediv n 1"

definition max_weight_of :: "int \<Rightarrow> int \<Rightarrow> rat res" where
  "max_weight_of tot hint = bindE (float_of_int tot) (\<lambda>t. bindE (float_of_int hint) (\<lambda>h.
     case (t, h) of (Fin a, Fin b) \<Rightarrow>
       (case fl (a / b) of Fin q \<Rightarrow> Inr q | _ \<Rightarrow> Inl OverflowError) | _ \<Rightarrow> Inl OverflowError))"

definition split_in_blocks :: "'a seqarg \<Rightarrow> int \<Rightarrow> ('a \<Rightarrow> int) \<Rightarrow> ('a \<Rightarrow> 'k::linorder) option \<Rightarrow>
    'a blocks res option" where
  "split_in_blocks sequence hint weight key = (case sequence of
     Number n \<Rightarrow> map_option (\<lambda>r. bindE r (\<lambda>l. Inr (Slices l))) (split_in_slices n hint)
   | Items xs \<Rightarrow> Some (
       if hint \<in> {0, 1} \<and> key = None then Inr (Raw [xs])
       else if hint \<in> {0, 1} then
         Inr (Raw (map snd (groupby xs (key_of key) id)))
       else bindE (checkE (0 < hint) AssertionError) (\<lambda>_.
            bindE (checkE (xs \<noteq> []) AssertionError) (\<lambda>_.
            bindE (max_weight_of (sum_list (map weight xs)) hint) (\<lambda>q.
            bindE (block_splitter (sort_key (\<lambda>x. (key_of key x, weight x)) xs) q
                     (\<lambda>x. of_int (weight x)) (key_of key) False) (\<lambda>bs. Inr (Weighted bs)))))))"

fun block_lists :: "'a blocks \<Rightarrow> 'a list list" where
  "block_lists (Slices l) = []"
| "block_lists (Raw bs) = bs"
| "block_lists (Weighted bs) = map ws_seq bs"

definition split_items :: "int \<Rightarrow> ('a \<Rightarrow> int) \<Rightarrow> ('a \<Rightarrow> 'k::linorder) option \<Rightarrow> 'a list \<Rightarrow> 'a list list res" where
  "split_items hint weight key xs =
     (case split_in_blocks (Items xs) hint weight key of
        Some r \<Rightarrow> bindE r (\<lambda>b. Inr (block_lists b)) | None \<Rightarrow> Inl RuntimeError)"

lemma split_items_lossless:
  assumes "split_items hint weight key xs = Inr bs"
  shows "filter_mset (\<lambda>x. 0 < weight x) (mset (concat bs)) = filter_mset (\<lambda>x. 0 < weight x) (mset xs)"
proof -
  let ?ys = "sort_key (\<lambda>x. (key_of key x, weight x)) xs"
  consider (raw) "bs = [xs]" | (keyed) "bs = map snd (groupby xs (key_of key) id)"
    | (weighted) q :: rat and ws where "block_splitter ?ys q (\<lambda>x. of_int (weight x)) (key_of key) False = Inr ws"
        "bs = map ws_seq ws"
    using assms unfolding split_items_def split_in_blocks_def
    by (auto simp: bindE_Inr_iff split: if_splits)
  then show ?thesis
  proof cases
    case weighted
    then show ?thesis using block_splitter_lossless [OF weighted(1)] by simp
  qed (simp_all add: groupby_lossless)
qed

interpretation sb: splitter "split_items hint weight key" "\<lambda>x. 0 < weight x" for hint weight key
  by unfold_locales (rule split_items_lossless)

end
