(* ===== verification/Logictree.thy ===== *)
theory Logictree
  imports Lt_Build Splitting
begin

text \<open>
  Realizations and their bookkeeping (openquake/hazardlib/logictree.py): effective realizations,
  short paths, clusters of paths, the full logic tree as the composition of a source model and a
  GSIM logic tree, and the index \<open>trt_smr\<close> under which the realizations of a source group are
  found. Weights are exact rationals.
\<close>

section \<open>Realizations\<close>

record 'v realization =
  rz_value :: 'v
  rz_weight :: rat
  rz_ordinal :: nat
  rz_lt_path :: "string list"
  rz_samples :: nat

definition rz_pid :: "'v realization \<Rightarrow> string" where
  "rz_pid r = join ''~'' (rz_lt_path r)"

text \<open>\<open>unique(objects)\<close>: the objects that occur more than once are refused.\<close>

definition unique :: "('a::linorder) list \<Rightarrow> 'a list res" where
  "unique objects =
     (let dupl = map fst (filter (\<lambda>(k, group). 1 < length group) (consec id (sort objects))) in
      if dupl \<noteq> [] then Inl ValueError else Inr objects)"

definition get_effective_rlzs :: "'v realization list \<Rightarrow> 'v realization list" where
  "get_effective_rlzs rlzs = map (\<lambda>(i, k, group).
     \<lparr>rz_value = rz_value (hd group), rz_weight = sum_list (map rz_weight group), rz_ordinal = i,
      rz_lt_path = rz_lt_path (hd group), rz_samples = length group\<rparr>)
     (enumerate 0 (groupby rlzs rz_pid id))"

text \<open>
  A realization of the GSIM logic tree has a value for each region and a weight for each column;
  an \<open>LtRealization\<close> joins a source model path to one of them.
\<close>

record 'g gs_rlz =
  gs_value :: "'g list"
  gs_weight :: "rat list"
  gs_ordinal :: nat
  gs_lt_path :: "string list"

record 'g lt_rlz =
  lr_ordinal :: nat
  lr_sm_lt_path :: "string list"
  lr_gsim_rlz :: "'g gs_rlz"
  lr_weight :: "rat list"

definition gs_pid :: "'g gs_rlz \<Rightarrow> string" where
  "gs_pid r = join ''~'' (gs_lt_path r)"

text \<open>\<open>LtRealization.__lt__\<close>.\<close>

instantiation lt_rlz_ext :: (type, type) preorder
begin

definition less_lt_rlz_ext :: "('a, 'b) lt_rlz_ext \<Rightarrow> ('a, 'b) lt_rlz_ext \<Rightarrow> bool" where
  "less_lt_rlz_ext a b = (lr_ordinal a < lr_ordinal b)"

definition less_eq_lt_rlz_ext :: "('a, 'b) lt_rlz_ext \<Rightarrow> ('a, 'b) lt_rlz_ext \<Rightarrow> bool" where
  "less_eq_lt_rlz_ext a b = (lr_ordinal a \<le> lr_ordinal b)"

instance
  by standard (auto simp: less_lt_rlz_ext_def less_eq_lt_rlz_ext_def)

end

definition get_eff_rlzs :: "'v realization list \<Rightarrow> 'g gs_rlz list \<Rightarrow> 'g lt_rlz list" where
  "get_eff_rlzs sm_rlzs gsim_rlzs =
     (let triples = map (\<lambda>(s, g). (rz_pid s @ ''~'' @ gs_pid g, s, g)) (zip sm_rlzs gsim_rlzs) in
      map (\<lambda>(i, k, rows). \<lparr>lr_ordinal = i, lr_sm_lt_path = rz_lt_path (fst (snd (hd rows))),
         lr_gsim_rlz = snd (snd (hd rows)),
         lr_weight = [of_nat (length rows) / of_nat (length triples)]\<rparr>)
       (enumerate 0 (groupby triples fst id)))"

definition reduce_fnames :: "string list \<Rightarrow> string \<Rightarrow> string list" where
  "reduce_fnames fnames src_id = (case split_on CHR ''!'' src_id of
     [_, fname] \<Rightarrow> filter (\<lambda>f. contains f fname) fnames
   | _ \<Rightarrow> fnames)"

lemma consec_groups: "sorted (map f xs) \<Longrightarrow> (k, g) \<in> set (consec f xs) \<Longrightarrow> g = filter (\<lambda>x. f x = k) xs"
  using consec_facts [of f xs] by auto

lemma consec_counts:
  assumes "sorted xs"
  shows "(\<exists>g. (k, g) \<in> set (consec id xs) \<and> 1 < length g) \<longleftrightarrow> 1 < count_list xs k"
proof -
  have s: "sorted (map id xs)" using assms by simp
  have len: "length (filter (\<lambda>x. id x = k) xs) = count_list xs k"
    unfolding count_list_eq_length_filter by (rule arg_cong [where f = length], rule filter_cong) auto
  have "\<exists>g. (k, g) \<in> set (consec id xs)" if "1 < count_list xs k"
  proof -
    have "k \<in> set xs" using that by (metis count_notin not_one_less_zero)
    then have "k \<in> set (map fst (consec id xs))" using consec_facts [OF s] by simp
    then show ?thesis by auto
  qed
  moreover have "length g = count_list xs k" if "(k, g) \<in> set (consec id xs)" for g
    using consec_groups [OF s that] len by (simp only:)
  ultimately show ?thesis by metis
qed

lemma unique_Inr_iff: "unique xs = Inr ys \<longleftrightarrow> ys = xs \<and> distinct xs"
proof -
  have c: "count_list (sort xs) k = count_list xs k" for k
    by (simp add: count_list_eq_length_filter filter_sort)
  have "(map fst (filter (\<lambda>(k, group). 1 < length group) (consec id (sort xs))) = []) \<longleftrightarrow>
      (\<forall>k. \<not> (\<exists>g. (k, g) \<in> set (consec id (sort xs)) \<and> 1 < length g))"
    by (auto simp: filter_empty_conv)
  also have "\<dots> \<longleftrightarrow> (\<forall>k. \<not> 1 < count_list xs k)"
    by (simp only: consec_counts [OF sorted_sort] c)
  also have "\<dots> \<longleftrightarrow> set (duplicated xs) = {}"
    by (simp only: duplicated_iff [symmetric] ball_simps(5) set_eq_iff empty_iff simp_thms)
  also have "\<dots> \<longleftrightarrow> distinct xs"
    by (simp only: set_empty duplicated_Nil_iff)
  finally show ?thesis unfolding unique_def Let_def by auto
qed

lemma groupby_nonempty: "(k, g) \<in> set (groupby xs f id) \<Longrightarrow> g \<noteq> [] \<and> g = filter (\<lambda>x. f x = k) xs \<and> f (hd g) = k"
proof -
  assume "(k, g) \<in> set (groupby xs f id)"
  then have g: "g = filter (\<lambda>x. f x = k) xs" and "k \<in> f ` set xs"
    by (auto simp: groupby_eq)
  then have "g \<noteq> []" by (auto simp: filter_empty_conv)
  then have "hd g \<in> set (filter (\<lambda>x. f x = k) xs)" using g hd_in_set by metis
  then show ?thesis using g \<open>g \<noteq> []\<close> by simp
qed

lemma sum_groupby:
  fixes w :: "'a \<Rightarrow> 'w::comm_monoid_add"
  shows "sum_list (map (\<lambda>(k, g). sum_list (map w g)) (groupby xs f id)) = sum_list (map w xs)"
proof -
  have "sum_list (map (\<lambda>(k, g). sum_list (map w g)) l) = sum_list (map w (concat (map snd l)))" for l :: "('b \<times> 'a list) list"
    by (induction l) auto
  moreover have "mset (map w (concat (map snd (groupby xs f id)))) = mset (map w xs)"
    by (simp only: mset_map groupby_lossless)
  ultimately show ?thesis by (metis mset_eq_sum_list)
qed

lemma get_effective_rlzs_facts:
  "map rz_ordinal (get_effective_rlzs rlzs) = [0..<length (get_effective_rlzs rlzs)]"
  "map rz_pid (get_effective_rlzs rlzs) = sorted_list_of_set (rz_pid ` set rlzs)"
  "sum_list (map rz_weight (get_effective_rlzs rlzs)) = sum_list (map rz_weight rlzs)"
  "sum_list (map rz_samples (get_effective_rlzs rlzs)) = length rlzs"
proof -
  let ?gs = "groupby rlzs rz_pid id"
  let ?mk = "\<lambda>(i, k, group). \<lparr>rz_value = rz_value (hd group), rz_weight = sum_list (map rz_weight group), rz_ordinal = i,
      rz_lt_path = rz_lt_path (hd group), rz_samples = length group\<rparr>"
  have eff: "get_effective_rlzs rlzs = map ?mk (enumerate 0 ?gs)" by (simp add: get_effective_rlzs_def)
  have ord: "map rz_ordinal (map ?mk (enumerate n gs)) = [n..<n + length gs]" for n gs
    by (simp add: comp_def split_beta enumerate_eq_zip flip: map_fst_zip_take)
  show "map rz_ordinal (get_effective_rlzs rlzs) = [0..<length (get_effective_rlzs rlzs)]"
    unfolding eff ord by simp
  have "map rz_pid (map ?mk (enumerate n gs)) = map (\<lambda>(k, g). rz_pid (hd g)) gs"
    for n and gs :: "(string \<times> 'a realization list) list"
    by (induction gs arbitrary: n) (auto simp: rz_pid_def)
  then have "map rz_pid (get_effective_rlzs rlzs) = map (\<lambda>(k, g). rz_pid (hd g)) ?gs" by (simp only: eff)
  also have "\<dots> = map fst ?gs" using groupby_nonempty [of _ _ rlzs rz_pid] by (auto intro!: map_cong)
  also have "\<dots> = sorted_list_of_set (rz_pid ` set rlzs)" by (simp add: groupby_eq comp_def)
  finally show "map rz_pid (get_effective_rlzs rlzs) = sorted_list_of_set (rz_pid ` set rlzs)" .
  have "map rz_weight (map ?mk (enumerate n gs)) = map (\<lambda>(k, g). sum_list (map rz_weight g)) gs"
    "map rz_samples (map ?mk (enumerate n gs)) = map (\<lambda>(k, g). sum_list (map (\<lambda>_. 1) g)) gs"
    for n and gs :: "(string \<times> 'a realization list) list"
    by (induction gs arbitrary: n) (auto simp: sum_list_triv)
  then show "sum_list (map rz_weight (get_effective_rlzs rlzs)) = sum_list (map rz_weight rlzs)"
    "sum_list (map rz_samples (get_effective_rlzs rlzs)) = length rlzs"
    by (simp_all only: eff sum_groupby) (simp add: sum_list_triv)
qed

end
