(* ===== verification/Gsim_Lt.thy ===== *)
theory Gsim_Lt
  imports Logictree Utils
begin

text \<open>
  The GSIM logic tree (openquake/hazardlib/gsim_lt.py): weights by intensity measure type, the
  construction of the branches from the nodes of the file, its enumeration and its sampling.
  The nodes are given, as is \<open>valid.gsim\<close>, which instantiates a class of the registry. Weights are
  exact rationals.
\<close>

section \<open>Weights by intensity measure type\<close>

type_synonym imt_weight = "(string, rat) dict"

text \<open>\<open>ImtWeight.__init__\<close>: the nodes as pairs of the attribute \<open>imt\<close> and the number.\<close>

definition imt_weight_init :: "(string option \<times> rat) list \<Rightarrow> imt_weight res" where
  "imt_weight_init nodes = (case nodes of [] \<Rightarrow> Inl IndexError
     | (attr, v0) # rest \<Rightarrow>
       if attr \<noteq> None then Inl InvalidLogicTree else
       bindE (mapE (\<lambda>(attr, v). bindE (of_option KeyError attr) (\<lambda>imt. Inr (imt, v))) rest) (\<lambda>rows.
       bindE (checkE (distinct (map fst rows)) InvalidLogicTree) (\<lambda>_.
       Inr (dict_update [(''weight'', v0)] rows))))"

definition iw_getitem :: "imt_weight \<Rightarrow> string \<Rightarrow> rat res" where
  "iw_getitem dic imt = (case map_of dic imt of Some w \<Rightarrow> Inr w | None \<Rightarrow> dict_get dic ''weight'')"

text \<open>\<open>__add__\<close> with another weight and with a number.\<close>

definition iw_add :: "imt_weight \<Rightarrow> imt_weight \<Rightarrow> imt_weight res" where
  "iw_add dic other = mapE (\<lambda>(k, v). bindE (iw_getitem other k) (\<lambda>w. Inr (k, v + w))) dic"

definition iw_add_number :: "imt_weight \<Rightarrow> rat \<Rightarrow> imt_weight" where
  "iw_add_number dic x = map (\<lambda>(k, v). (k, v + x)) dic"

definition iw_is_one :: "imt_weight \<Rightarrow> bool" where
  "iw_is_one dic = list_all (\<lambda>(k, v). v = 0 \<or> \<bar>v - 1\<bar> < 1 / 10 ^ 7) dic"

text \<open>\<open>sum(weights)\<close> starts from the number 0; \<open>(0).is_one\<close> is an attribute error.\<close>

definition iw_sum :: "imt_weight list \<Rightarrow> imt_weight res" where
  "iw_sum ws0 = (case ws0 of [] \<Rightarrow> Inl AttributeError
     | w # ws \<Rightarrow> foldE iw_add (iw_add_number w 0) ws)"

definition keyno :: "string \<Rightarrow> nat \<Rightarrow> nat \<Rightarrow> string \<Rightarrow> string res" where
  "keyno brid bsno brno base = bindE (py_index base (int brno)) (\<lambda>c. Inr (c # show_nat bsno))"

section \<open>The nodes of the file\<close>

record um_branch =
  um_weights :: "(string option \<times> rat) list"
  um_model :: string

record um_branchset =
  ub_utype :: string
  ub_id :: string
  ub_trt :: "string option"
  ub_branches :: "um_branch list"

datatype lt_level = BranchingLevel "um_branchset list" | BranchSetNode um_branchset | OtherNode

definition bsnodes :: "lt_level \<Rightarrow> um_branchset list res" where
  "bsnodes branchinglevel = (case branchinglevel of
     BranchingLevel nodes \<Rightarrow> if 1 < length nodes then Inl InvalidLogicTree else Inr nodes
   | BranchSetNode n \<Rightarrow> Inr [n]
   | OtherNode \<Rightarrow> Inl ValueError)"

text \<open>\<open>[branchset] = bsnodes(...)\<close>.\<close>

definition the_bsnode :: "lt_level \<Rightarrow> um_branchset res" where
  "the_bsnode l = bindE (bsnodes l) (\<lambda>ns. case ns of [n] \<Rightarrow> Inr n | _ \<Rightarrow> Inl ValueError)"

section \<open>Building the branches\<close>

record 'g gsim_branch =
  gb_trt :: string
  gb_id :: string
  gb_gsim :: 'g
  gb_weight :: imt_weight
  gb_effective :: bool

record 'g gsim_lt =
  gl_values :: "(string, 'g list) dict"
  gl_bsetdict :: "(string, string) dict"
  gl_shortener :: "(string, string) dict"
  gl_branches :: "'g gsim_branch list"

definition gl_empty :: "'g gsim_lt" where
  "gl_empty = \<lparr>gl_values = [], gl_bsetdict = [], gl_shortener = [], gl_branches = []\<rparr>"

definition trt_values :: "'g gsim_lt \<Rightarrow> string \<Rightarrow> 'g list" where
  "trt_values lt trt = (case map_of (gl_values lt) trt of None \<Rightarrow> [] | Some vs \<Rightarrow> vs)"

text \<open>
  One branch: its weight, its ID \<open>g<char><bsno>\<close>, its GSIM. \<open>self.values[trt]\<close> of a branchset without
  \<open>applyToTectonicRegionType\<close> is the empty list, until the attribute is read and is missing.
\<close>

definition add_gsim_branch :: "(string \<Rightarrow> 'g res) \<Rightarrow> bool \<Rightarrow> nat \<Rightarrow> bool \<Rightarrow> string option \<Rightarrow>
    'g gsim_lt \<times> imt_weight list \<times> string list \<Rightarrow> nat \<times> um_branch \<Rightarrow>
    ('g gsim_lt \<times> imt_weight list \<times> string list) res" where
  "add_gsim_branch valid_gsim oq_reduce bsno effective trt_opt st br = (case (st, br) of
     ((lt, ws, brids), (brno, b)) \<Rightarrow>
       bindE (imt_weight_init (um_weights b)) (\<lambda>w.
       bindE (py_index base183 (int brno)) (\<lambda>c.
       let brid = ''g'' @ c # show_nat bsno; w' = (if oq_reduce then AList.update ''weight'' 1 w else w) in
       bindE (case valid_gsim (um_model b) of Inl e \<Rightarrow> Inl ValueError | Inr g \<Rightarrow> Inr g) (\<lambda>g.
       bindE (case trt_opt of None \<Rightarrow> Inl KeyError
         | Some trt \<Rightarrow> checkE (g \<notin> set (trt_values lt trt)) InvalidLogicTree) (\<lambda>_.
       let trt = (case trt_opt of Some t \<Rightarrow> t | None \<Rightarrow> '''');
           bt = \<lparr>gb_trt = trt, gb_id = brid, gb_gsim = g, gb_weight = w', gb_effective = effective\<rparr>;
           lt1 = lt\<lparr>gl_values := AList.update trt (trt_values lt trt @ [g]) (gl_values lt)\<rparr> in
       if effective then
         bindE (keyno brid bsno brno base183) (\<lambda>short.
         Inr (lt1\<lparr>gl_branches := gl_branches lt1 @ [bt],
                  gl_shortener := AList.update brid short (gl_shortener lt1)\<rparr>, ws @ [w'], brids @ [brid]))
       else Inr (lt1, ws @ [w'], brids @ [brid]))))))"

text \<open>One branchset; \<open>used\<close> are the branchset IDs seen and \<open>trts\<close> the tectonic region types seen.\<close>

definition add_gsim_branchset :: "(string \<Rightarrow> 'g res) \<Rightarrow> bool \<Rightarrow> string list \<Rightarrow>
    'g gsim_lt \<times> string list \<times> string list \<Rightarrow> nat \<times> lt_level \<Rightarrow>
    ('g gsim_lt \<times> string list \<times> string list) res" where
  "add_gsim_branchset valid_gsim oq_reduce regions st level = (case (st, level) of
     ((lt, used, trts), (bsno, blnode)) \<Rightarrow>
       bindE (the_bsnode blnode) (\<lambda>branchset.
       bindE (checkE (ub_utype branchset = ''gmpeModel'') InvalidLogicTree) (\<lambda>_.
       bindE (checkE (ub_id branchset \<notin> set used) InvalidLogicTree) (\<lambda>_.
       let trt_opt = ub_trt branchset;
           named = (case trt_opt of None \<Rightarrow> [] | Some t \<Rightarrow> if t = '''' then [] else [t]);
           lt1 = (case trt_opt of None \<Rightarrow> lt
             | Some t \<Rightarrow> lt\<lparr>gl_bsetdict := AList.update t (ub_id branchset) (gl_bsetdict lt)\<rparr>);
           effective = (regions = [''*''] \<or> (case trt_opt of None \<Rightarrow> False | Some t \<Rightarrow> t \<in> set regions));
           brs = (if oq_reduce then take 1 (ub_branches branchset) else ub_branches branchset) in
       bindE (foldE (add_gsim_branch valid_gsim oq_reduce bsno effective trt_opt) (lt1, [], [])
         (enumerate 0 brs)) (\<lambda>(lt2, ws, brids).
       bindE (iw_sum ws) (\<lambda>tot.
       bindE (checkE (iw_is_one tot) AssertionError) (\<lambda>_.
       bindE (checkE (duplicated brids = []) InvalidLogicTree) (\<lambda>_.
       Inr (lt2, used @ [ub_id branchset], trts @ named)))))))))"

definition build_branches :: "(string \<Rightarrow> 'g res) \<Rightarrow> bool \<Rightarrow> string list \<Rightarrow> lt_level list \<Rightarrow> 'g gsim_lt res" where
  "build_branches valid_gsim oq_reduce regions ltnode =
     bindE (foldE (add_gsim_branchset valid_gsim oq_reduce regions) (gl_empty, [], [])
       (enumerate 0 ltnode)) (\<lambda>(lt, used, trts).
     bindE (checkE (distinct trts) InvalidLogicTree) (\<lambda>_.
     Inr (lt\<lparr>gl_branches := sort_key gb_trt (gl_branches lt)\<rparr>)))"

text \<open>
  \<open>__init__\<close>; the sorted list of the given regions has to be distinct, and unless it is \<open>['*']\<close> the
  values are reduced to them.
\<close>

definition gsim_lt_init :: "(string \<Rightarrow> 'g res) \<Rightarrow> bool \<Rightarrow> string list \<Rightarrow> lt_level list \<Rightarrow> 'g gsim_lt res" where
  "gsim_lt_init valid_gsim oq_reduce regions ltnode = (let trts = sort regions in
     bindE (checkE (distinct trts) ValueError) (\<lambda>_.
     bindE (build_branches valid_gsim oq_reduce trts ltnode) (\<lambda>lt.
     bindE (if trts \<noteq> [''*''] then
         bindE (mapE the_bsnode ltnode) (\<lambda>bsets.
         bindE (checkE (list_all (\<lambda>b. ub_trt b \<noteq> None) bsets) KeyError) (\<lambda>_.
         bindE (mapE (\<lambda>trt. bindE (checkE (trt_values lt trt \<noteq> []) InvalidLogicTree) (\<lambda>_.
           Inr (trt, trt_values lt trt))) trts) (\<lambda>vals.
         Inr (lt\<lparr>gl_values := vals\<rparr>))))
       else Inr lt) (\<lambda>lt1.
     bindE (checkE (trts = [] \<or> gl_branches lt1 \<noteq> []) InvalidLogicTree) (\<lambda>_. Inr lt1)))))"

section \<open>Paths\<close>

definition get_num_branches :: "'g gsim_lt \<Rightarrow> (string, nat) dict" where
  "get_num_branches lt = dict_update [] (map (\<lambda>(trt, brs). (trt, length (filter gb_effective brs)))
     (consec gb_trt (gl_branches lt)))"

definition gsim_num_paths :: "'g gsim_lt \<Rightarrow> nat" where
  "gsim_num_paths lt = (let nums = map snd (get_num_branches lt) in
     if sum_list nums = 0 then 0 else prod_list (filter (\<lambda>n. n \<noteq> 0) nums))"

definition imti :: "'g gsim_lt \<Rightarrow> (string, nat) dict" where
  "imti lt = map (\<lambda>(i, imt). (imt, i))
     (enumerate 0 (sorted_list_of_set (set (concat (map (\<lambda>b. keys (gb_weight b)) (gl_branches lt))))))"

text \<open>\<open>wget\<close>: the column of the array of weights that is read for an intensity measure type.\<close>

definition wget :: "'g gsim_lt \<Rightarrow> rat list list \<Rightarrow> string \<Rightarrow> rat list res" where
  "wget lt ws imt = (let i = (case map_of (imti lt) imt of Some j \<Rightarrow> int j
       | None \<Rightarrow> int (length (imti lt)) - 1) in
     mapE (\<lambda>row. py_index row i) ws)"

definition branches_of :: "'g gsim_lt \<Rightarrow> string \<Rightarrow> 'g gsim_branch list" where
  "branches_of lt trt = filter (\<lambda>b. gb_trt b = trt) (gl_branches lt)"

definition uid_of :: "'g gsim_branch \<Rightarrow> string" where
  "uid_of b = (if gb_effective b then gb_id b else ''.'')"

text \<open>
  The weights of a path: the entries of a branch multiply the columns of their own intensity
  measure types and no other. The variable \<open>i\<close> of this loop is the one that numbers the paths.
\<close>

definition mul_weight :: "(string, nat) dict \<Rightarrow> rat list \<times> nat \<Rightarrow> string \<times> rat \<Rightarrow> (rat list \<times> nat) res" where
  "mul_weight idx st kv = (case (st, kv) of ((ws, i0), (imt, w)) \<Rightarrow>
     let i = (case map_of idx imt of Some j \<Rightarrow> j | None \<Rightarrow> length idx) in
     bindE (py_index ws (int i)) (\<lambda>old. Inr (ws[i := old * w], i)))"

definition path_weights :: "'g gsim_lt \<Rightarrow> nat \<Rightarrow> 'g gsim_branch list \<Rightarrow> (rat list \<times> nat) res" where
  "path_weights lt i brs = foldE (mul_weight (imti lt)) (replicate (length (imti lt)) 1, i)
     (concat (map gb_weight brs))"

definition gsim_iter :: "'g gsim_lt \<Rightarrow> 'g gs_rlz list res" where
  "gsim_iter lt = mapE (\<lambda>(i, brs). bindE (path_weights lt i brs) (\<lambda>(ws, i').
       Inr \<lparr>gs_value = map gb_gsim brs, gs_weight = ws, gs_ordinal = i', gs_lt_path = map uid_of brs\<rparr>))
     (enumerate 0 (itertools_product (map (branches_of lt) (keys (gl_values lt)))))"

text \<open>\<open>sample\<close>, for a matrix of random numbers with a row per sample and a column per region.\<close>

definition default_weight :: "'g gsim_branch \<Rightarrow> rat" where
  "default_weight b = (case map_of (gb_weight b) ''weight'' of Some w \<Rightarrow> w | None \<Rightarrow> 0)"

definition gsim_sample :: "(nat \<Rightarrow> rat list) \<Rightarrow> 'g gsim_lt \<Rightarrow> nat \<Rightarrow> rat list list \<Rightarrow> string \<Rightarrow> 'g gs_rlz list res" where
  "gsim_sample arange lt n probs sampling_method =
     bindE (mapE (\<lambda>(i, trt). Lt.sample arange default_weight (branches_of lt trt)
         (map (\<lambda>row. row ! i) probs) sampling_method) (enumerate 0 (keys (gl_values lt)))) (\<lambda>brlists.
     mapE (\<lambda>i. bindE (mapE (\<lambda>brlist. py_index brlist (int i)) brlists) (\<lambda>brs.
       Inr \<lparr>gs_value = map gb_gsim brs, gs_weight = [foldl (\<lambda>w b. w * default_weight b) 1 brs],
            gs_ordinal = i, gs_lt_path = map uid_of brs\<rparr>)) [0..<n])"

text \<open>\<open>GsimLogicTree.get_rlzs_by_gsim_dic\<close>, given the realizations.\<close>

definition gsim_rlzs_dic :: "'g gsim_lt \<Rightarrow> 'g gs_rlz list \<Rightarrow> (nat, ('g, nat list) dict) dict" where
  "gsim_rlzs_dic lt rlzs = map (\<lambda>(i, trt, gsims). (i * 2 ^ 24,
       dict_update [] (map (\<lambda>g. (g, map gs_ordinal (filter (\<lambda>r. gs_value r ! i = g) rlzs))) gsims)))
     (enumerate 0 (gl_values lt))"

text \<open>\<open>reduce(trts)\<close>: the regions are given as a list, the set in the order it is iterated.\<close>

definition gsim_reduce :: "string list \<Rightarrow> 'g gsim_lt \<Rightarrow> 'g gsim_lt res" where
  "gsim_reduce trts lt = bindE (mapE (\<lambda>t. bindE (dict_get (gl_values lt) t) (\<lambda>v. Inr (t, v))) trts)
     (\<lambda>vals. Inr (lt\<lparr>gl_bsetdict := filter (\<lambda>(t, b). t \<in> set trts) (gl_bsetdict lt), gl_values := vals,
        gl_branches := (if set trts = {''*''} then gl_branches lt else
          map (gb_effective_update (\<lambda>_. True)) (filter (\<lambda>b. gb_trt b \<in> set trts) (gl_branches lt)))\<rparr>))"

definition gsim_get_weight :: "('g \<Rightarrow> string) \<Rightarrow> 'g gsim_lt \<Rightarrow> string \<Rightarrow> 'g \<Rightarrow> string \<Rightarrow> rat option res" where
  "gsim_get_weight gsim_toml lt trt gsim imt =
     (case List.find (\<lambda>b. gb_trt b = trt \<and> gsim_toml (gb_gsim b) = gsim_toml gsim) (gl_branches lt) of
        None \<Rightarrow> Inr None
      | Some b \<Rightarrow> bindE (iw_getitem (gb_weight b) imt) (\<lambda>w. Inr (Some w)))"

section \<open>What a path weighs\<close>

text \<open>The factor with which a branch enters the column of an intensity measure type.\<close>

definition factor :: "string \<Rightarrow> 'g gsim_branch \<Rightarrow> rat" where
  "factor imt b = (case map_of (gb_weight b) imt of Some w \<Rightarrow> w | None \<Rightarrow> 1)"

lemma map_of_enumerated:
  "map_of (map (\<lambda>(i, x). (x, i)) (enumerate n xs)) y = Some j \<Longrightarrow> n \<le> j \<and> j < n + length xs \<and> xs ! (j - n) = y"
proof (induction xs arbitrary: n)
  case (Cons x xs)
  show ?case
  proof (cases "x = y")
    case False
    then have "map_of (map (\<lambda>(i, x). (x, i)) (enumerate (Suc n) xs)) y = Some j" using Cons.prems by simp
    from Cons.IH [OF this] show ?thesis by (auto simp: nth_Cons' Suc_diff_Suc)
  qed (use Cons.prems in auto)
qed simp

lemma map_of_enumerated_inj:
  "map_of (map (\<lambda>(i, x). (x, i)) (enumerate n xs)) y = Some j \<Longrightarrow>
   map_of (map (\<lambda>(i, x). (x, i)) (enumerate n xs)) z = Some j \<Longrightarrow> y = z"
  using map_of_enumerated by metis

lemma imti_inj: "map_of (imti lt) a = Some j \<Longrightarrow> map_of (imti lt) b = Some j \<Longrightarrow> a = b"
  unfolding imti_def by (rule map_of_enumerated_inj)

lemma imti_lt: "map_of (imti lt) a = Some j \<Longrightarrow> j < length (imti lt)"
  unfolding imti_def by (drule map_of_enumerated) simp

lemma keys_enumerated: "keys (map (\<lambda>(i, x). (x, i)) (enumerate n xs)) = xs"
  by (induction xs arbitrary: n) simp_all

lemma imti_total: "b \<in> set (gl_branches lt) \<Longrightarrow> imt \<in> set (keys (gb_weight b)) \<Longrightarrow> \<exists>j. map_of (imti lt) imt = Some j"
proof -
  assume "b \<in> set (gl_branches lt)" "imt \<in> set (keys (gb_weight b))"
  then have "imt \<in> set (keys (imti lt))" unfolding imti_def keys_enumerated by auto
  then show ?thesis using map_of_eq_None_iff [of "imti lt" imt] by (cases "map_of (imti lt) imt") auto
qed

lemma mul_weight_step:
  assumes "map_of idx imt = Some i" "i < length ws"
  shows "mul_weight idx (ws, i0) (imt, w) = Inr (ws[i := ws ! i * w], i)"
  using assms by (simp add: mul_weight_def py_index_nonneg)

lemma path_weights_fold:
  assumes "\<And>imt. imt \<in> set (keys kvs) \<Longrightarrow> \<exists>i. map_of (imti lt) imt = Some i" "length ws = length (imti lt)"
  shows "\<exists>ws' i'. foldE (mul_weight (imti lt)) (ws, i0) kvs = Inr (ws', i') \<and> length ws' = length ws \<and>
     (\<forall>imt j. map_of (imti lt) imt = Some j \<longrightarrow>
        ws' ! j = ws ! j * prod_list (map snd (filter (\<lambda>kv. fst kv = imt) kvs)))"
  using assms
proof (induction kvs arbitrary: ws i0)
  case (Cons kv kvs)
  obtain imt w where kv: "kv = (imt, w)" by (cases kv)
  obtain i where i: "map_of (imti lt) imt = Some i" using Cons.prems(1) kv by auto
  have "i < length ws" using imti_lt [OF i] Cons.prems(2) by simp
  then have step: "mul_weight (imti lt) (ws, i0) kv = Inr (ws[i := ws ! i * w], i)"
    using mul_weight_step [OF i] kv by simp
  let ?u = "ws[i := ws ! i * w]"
  have L: "length ?u = length (imti lt)" using Cons.prems(2) by simp
  have K: "\<exists>i. map_of (imti lt) m = Some i" if "m \<in> set (keys kvs)" for m
    using Cons.prems(1) [of m] that by simp
  have "\<exists>ws' i'. foldE (mul_weight (imti lt)) (?u, i) kvs = Inr (ws', i') \<and> length ws' = length ?u \<and>
     (\<forall>imt j. map_of (imti lt) imt = Some j \<longrightarrow>
        ws' ! j = ?u ! j * prod_list (map snd (filter (\<lambda>kv. fst kv = imt) kvs)))"
    by (rule Cons.IH) (use K L in auto)
  then obtain ws' i' where
    f: "foldE (mul_weight (imti lt)) (?u, i) kvs = Inr (ws', i')" and
    l: "length ws' = length ?u" and
    v: "\<And>m j. map_of (imti lt) m = Some j \<Longrightarrow>
        ws' ! j = ?u ! j * prod_list (map snd (filter (\<lambda>kv. fst kv = m) kvs))"
    by blast
  have "ws' ! j = ws ! j * prod_list (map snd (filter (\<lambda>kv. fst kv = m) (kv # kvs)))"
    if m: "map_of (imti lt) m = Some j" for m j
  proof (cases "m = imt")
    case True
    then show ?thesis using v [OF m] m i kv \<open>i < length ws\<close> by (simp add: mult.assoc)
  next
    case False
    then have "j \<noteq> i" using imti_inj [OF m] i by blast
    then show ?thesis using v [OF m] False kv by auto
  qed
  moreover have "foldE (mul_weight (imti lt)) (ws, i0) (kv # kvs) = Inr (ws', i')" using f step by simp
  moreover have "length ws' = length ws" using l by simp
  ultimately show ?case by blast
qed simp

lemma filter_key_distinct:
  "distinct (keys d) \<Longrightarrow> prod_list (map snd (filter (\<lambda>kv. fst kv = k) d)) = (case map_of d k of Some w \<Rightarrow> w | None \<Rightarrow> 1)"
  by (induction d) (auto simp: filter_empty_conv image_iff split: option.splits
    dest: map_of_SomeD intro!: arg_cong [where f = prod_list] cong: filter_cong)

lemma path_weights_Inr:
  assumes "set brs \<subseteq> set (gl_branches lt)" "\<And>b. b \<in> set brs \<Longrightarrow> distinct (keys (gb_weight b))"
  shows "\<exists>ws i'. path_weights lt i brs = Inr (ws, i') \<and> length ws = length (imti lt) \<and>
     (\<forall>imt j. map_of (imti lt) imt = Some j \<longrightarrow> ws ! j = prod_list (map (factor imt) brs))"
proof -
  let ?kvs = "concat (map gb_weight brs)"
  have "\<exists>i. map_of (imti lt) imt = Some i" if "imt \<in> set (keys ?kvs)" for imt
    using that assms(1) imti_total [of _ lt imt] by fastforce
  then obtain ws i' where f: "foldE (mul_weight (imti lt)) (replicate (length (imti lt)) 1, i) ?kvs = Inr (ws, i')"
    and l: "length ws = length (imti lt)"
    and v: "\<And>imt j. map_of (imti lt) imt = Some j \<Longrightarrow>
      ws ! j = replicate (length (imti lt)) 1 ! j * prod_list (map snd (filter (\<lambda>kv. fst kv = imt) ?kvs))"
    using path_weights_fold [of ?kvs lt "replicate (length (imti lt)) 1" i] by auto
  have "prod_list (map snd (filter (\<lambda>kv. fst kv = imt) ?kvs)) = prod_list (map (factor imt) brs)" for imt
    using assms(2) by (induction brs) (simp_all add: filter_key_distinct factor_def)
  then have "ws ! j = prod_list (map (factor imt) brs)" if "map_of (imti lt) imt = Some j" for imt j
    using v [OF that] imti_lt [OF that] by simp
  then show ?thesis using f l by (auto simp: path_weights_def)
qed

lemma sum_product_lists:
  "sum_list (map (\<lambda>bs. prod_list (map f bs)) (product_lists xss)) = prod_list (map (\<lambda>xs. sum_list (map f xs)) xss)"
  for f :: "'a \<Rightarrow> rat"
proof (induction xss)
  case (Cons xs xss)
  let ?P = "map (\<lambda>bs. prod_list (map f bs)) (product_lists xss)"
  have "sum_list (map (\<lambda>bs. prod_list (map f bs)) (concat (map (\<lambda>x. map ((#) x) (product_lists xss)) xs)))
      = sum_list (map f xs) * sum_list ?P"
    by (induction xs) (simp_all add: comp_def sum_list_const_mult distrib_right)
  then show ?case using Cons.IH by simp
qed simp

lemma length_product_lists_prod: "length (product_lists xss) = prod_list (map length xss)"
  by (induction xss) (simp_all add: length_concat comp_def sum_list_triv)

lemma product_lists_mem: "bs \<in> set (product_lists xss) \<Longrightarrow> set bs \<subseteq> \<Union> (set (map set xss))"
  by (induction xss arbitrary: bs) (auto, fastforce)

section \<open>What the constructor guarantees\<close>

text \<open>
  The well-formed trees: the values of a region are the distinct GSIMs of its branches, in their
  order, every branch is effective and has the default weight.
\<close>

definition branch_ok :: "'g gsim_branch \<Rightarrow> bool" where
  "branch_ok b = (gb_effective b \<and> distinct (keys (gb_weight b)) \<and> has_key (gb_weight b) ''weight'')"

definition gsim_ok :: "'g gsim_lt \<Rightarrow> bool" where
  "gsim_ok lt = (sorted (map gb_trt (gl_branches lt)) \<and> dict_wf (gl_values lt) \<and>
     list_all branch_ok (gl_branches lt) \<and>
     list_all (\<lambda>b. has_key (gl_values lt) (gb_trt b)) (gl_branches lt) \<and>
     list_all (\<lambda>(t, vs). vs \<noteq> [] \<and> distinct vs \<and> map gb_gsim (branches_of lt t) = vs) (gl_values lt))"

definition building :: "(string \<Rightarrow> bool) \<Rightarrow> 'g gsim_lt \<Rightarrow> bool" where
  "building eff lt = (dict_wf (gl_values lt) \<and> list_all (\<lambda>(t, vs). vs \<noteq> []) (gl_values lt) \<and>
     list_all branch_ok (gl_branches lt) \<and> list_all (\<lambda>b. eff (gb_trt b)) (gl_branches lt) \<and>
     (\<forall>t. distinct (trt_values lt t) \<and> (eff t \<longrightarrow> map gb_gsim (branches_of lt t) = trt_values lt t)))"

definition is_effective :: "string list \<Rightarrow> string \<Rightarrow> bool" where
  "is_effective regions t = (regions = [''*''] \<or> t \<in> set regions)"

lemma imt_weight_init_ok:
  "imt_weight_init nodes = Inr w \<Longrightarrow> distinct (keys w) \<and> has_key w ''weight''"
proof -
  assume "imt_weight_init nodes = Inr w"
  then obtain v rows where w: "w = dict_update [(''weight'', v)] rows"
    by (auto simp: imt_weight_init_def bindE_Inr_iff split: list.splits if_splits)
  have "dict_wf w" unfolding w by (rule dict_wf_dict_update) (simp add: dict_wf_def)
  moreover have "map_of w ''weight'' \<noteq> None" by (simp add: w map_of_dict_update map_add_None)
  ultimately show ?thesis by (metis dict_wf_def map_of_eq_None_iff set_map)
qed

lemma trt_values_nonkey: "t \<notin> set (keys (gl_values lt)) \<Longrightarrow> trt_values lt t = []"
  by (simp add: trt_values_def map_of_eq_None_iff [THEN iffD2] split: option.splits)

lemma trt_values_update:
  "trt_values (lt\<lparr>gl_values := AList.update t vs (gl_values lt)\<rparr>) u = (if u = t then vs else trt_values lt u)"
  by (simp add: trt_values_def map_of_update)

lemma trt_values_other [simp]:
  "trt_values (lt\<lparr>gl_branches := bs\<rparr>) t = trt_values lt t"
  "trt_values (lt\<lparr>gl_shortener := sh\<rparr>) t = trt_values lt t"
  "trt_values (lt\<lparr>gl_bsetdict := bd\<rparr>) t = trt_values lt t"
  by (simp_all add: trt_values_def)

lemma branches_of_other [simp]:
  "branches_of (lt\<lparr>gl_values := vs\<rparr>) t = branches_of lt t"
  "branches_of (lt\<lparr>gl_shortener := sh\<rparr>) t = branches_of lt t"
  "branches_of (lt\<lparr>gl_bsetdict := bd\<rparr>) t = branches_of lt t"
  by (simp_all add: branches_of_def)

lemma building_other [simp]:
  "building eff (lt\<lparr>gl_shortener := sh\<rparr>) = building eff lt"
  "building eff (lt\<lparr>gl_bsetdict := bd\<rparr>) = building eff lt"
  by (simp_all add: building_def)

lemma list_all_update: "list_all P d \<Longrightarrow> P (k, v) \<Longrightarrow> list_all P (AList.update k v d)"
  by (induction d) auto

text \<open>Adding a GSIM to a region, with its branch when the region is an effective one.\<close>

lemma building_values:
  assumes "building eff lt" "g \<notin> set (trt_values lt t)" "\<not> eff t"
  shows "building eff (lt\<lparr>gl_values := AList.update t (trt_values lt t @ [g]) (gl_values lt)\<rparr>)"
  using assms unfolding building_def by (auto simp: trt_values_update intro: list_all_update)

lemma building_branch:
  assumes "building eff lt" "gb_gsim b \<notin> set (trt_values lt t)" "eff t" "gb_trt b = t" "branch_ok b"
  shows "building eff (lt\<lparr>gl_values := AList.update t (trt_values lt t @ [gb_gsim b]) (gl_values lt),
     gl_branches := gl_branches lt @ [b]\<rparr>)" (is "building eff ?lt")
proof -
  have br: "branches_of ?lt u = branches_of lt u @ (if u = t then [b] else [])" for u
    using assms(4) by (simp add: branches_of_def)
  have v: "trt_values ?lt u = (if u = t then trt_values lt t @ [gb_gsim b] else trt_values lt u)" for u
    by (simp add: trt_values_update)
  show ?thesis using assms unfolding building_def br v by (auto intro: list_all_update)
qed

lemma add_gsim_branch_Inr:
  assumes "add_gsim_branch valid_gsim oq bsno eff trt_opt (lt, ws, ids) (brno, b) = Inr (lt', ws', ids')"
  shows "\<exists>w c g t short. imt_weight_init (um_weights b) = Inr w \<and> trt_opt = Some t \<and>
    g \<notin> set (trt_values lt t) \<and>
    lt' = (let lt1 = lt\<lparr>gl_values := AList.update t (trt_values lt t @ [g]) (gl_values lt)\<rparr> in
      if eff then lt1\<lparr>gl_branches := gl_branches lt @ [\<lparr>gb_trt = t, gb_id = ''g'' @ c # show_nat bsno,
          gb_gsim = g, gb_weight = (if oq then AList.update ''weight'' 1 w else w), gb_effective = eff\<rparr>],
        gl_shortener := short\<rparr> else lt1)"
  using assms unfolding add_gsim_branch_def Let_def prod.case
  by (auto simp only: bindE_Inr_iff checkE_Inr_iff split: option.splits if_splits sum.splits) auto

lemma add_gsim_branch_building:
  assumes "add_gsim_branch valid_gsim oq bsno eff trt_opt (lt, ws, ids) (brno, b) = Inr (lt', ws', ids')"
    "building p lt" "\<And>t. trt_opt = Some t \<Longrightarrow> eff = p t"
  shows "building p lt'"
proof -
  obtain w c g t short where w: "imt_weight_init (um_weights b) = Inr w" and t: "trt_opt = Some t"
    and g: "g \<notin> set (trt_values lt t)"
    and lt': "lt' = (let lt1 = lt\<lparr>gl_values := AList.update t (trt_values lt t @ [g]) (gl_values lt)\<rparr> in
      if eff then lt1\<lparr>gl_branches := gl_branches lt @ [\<lparr>gb_trt = t, gb_id = ''g'' @ c # show_nat bsno,
          gb_gsim = g, gb_weight = (if oq then AList.update ''weight'' 1 w else w), gb_effective = eff\<rparr>],
        gl_shortener := short\<rparr> else lt1)"
    using add_gsim_branch_Inr [OF assms(1)] by blast
  show ?thesis
  proof (cases eff)
    case True
    let ?w = "if oq then AList.update ''weight'' 1 w else w"
    let ?b = "\<lparr>gb_trt = t, gb_id = ''g'' @ c # show_nat bsno, gb_gsim = g, gb_weight = ?w, gb_effective = eff\<rparr>"
    have "branch_ok ?b"
      using imt_weight_init_ok [OF w] True by (simp add: branch_ok_def distinct_update del: set_map)
    then have "building p (lt\<lparr>gl_values := AList.update t (trt_values lt t @ [gb_gsim ?b]) (gl_values lt),
       gl_branches := gl_branches lt @ [?b]\<rparr>)"
      using assms(2) assms(3) [OF t] g True by (intro building_branch) simp_all
    then show ?thesis using True by (simp add: lt' Let_def)
  next
    case False
    then show ?thesis using assms(2) assms(3) [OF t] g by (simp add: lt' Let_def building_values)
  qed
qed

lemma foldE_branches_building:
  assumes "foldE (add_gsim_branch valid_gsim oq bsno eff trt_opt) (lt, ws, ids) brs = Inr (lt', ws', ids')"
    "building p lt" "\<And>t. trt_opt = Some t \<Longrightarrow> eff = p t"
  shows "building p lt'"
  using assms(1,2)
proof (induction brs arbitrary: lt ws ids)
  case (Cons b brs)
  obtain lt1 ws1 ids1 where s: "add_gsim_branch valid_gsim oq bsno eff trt_opt (lt, ws, ids) b = Inr (lt1, ws1, ids1)"
    "foldE (add_gsim_branch valid_gsim oq bsno eff trt_opt) (lt1, ws1, ids1) brs = Inr (lt', ws', ids')"
    using Cons.prems(1) by (auto simp: bindE_Inr_iff)
  obtain brno b1 where "b = (brno, b1)" by (cases b)
  then have "building p lt1" using s(1) Cons.prems(2) assms(3) by (auto intro: add_gsim_branch_building)
  then show ?case using Cons.IH s(2) by blast
qed simp

lemma add_gsim_branchset_building:
  assumes "add_gsim_branchset valid_gsim oq regions (lt, used, trts) (bsno, level) = Inr (lt', used', trts')"
    "building (is_effective regions) lt"
  shows "building (is_effective regions) lt'"
proof -
  obtain bs :: um_branchset and ws ids where f: "foldE (add_gsim_branch valid_gsim oq bsno
      (regions = [''*''] \<or> (case ub_trt bs of None \<Rightarrow> False | Some t \<Rightarrow> t \<in> set regions)) (ub_trt bs))
      (case ub_trt bs of None \<Rightarrow> lt
        | Some t \<Rightarrow> lt\<lparr>gl_bsetdict := AList.update t (ub_id bs) (gl_bsetdict lt)\<rparr>, [], [])
      (enumerate 0 (if oq then take 1 (ub_branches bs) else ub_branches bs)) = Inr (lt', ws, ids)"
    using assms(1) unfolding add_gsim_branchset_def Let_def prod.case
    by (auto simp: bindE_Inr_iff)
  show ?thesis
    by (rule foldE_branches_building [OF f])
      (use assms(2) in \<open>auto simp: is_effective_def split: option.splits\<close>)
qed

lemma foldE_branchsets_building:
  assumes "foldE (add_gsim_branchset valid_gsim oq regions) (lt, used, trts) levels = Inr (lt', used', trts')"
    "building (is_effective regions) lt"
  shows "building (is_effective regions) lt'"
  using assms
proof (induction levels arbitrary: lt used trts)
  case (Cons l levels)
  obtain lt1 used1 trts1 where s: "add_gsim_branchset valid_gsim oq regions (lt, used, trts) l = Inr (lt1, used1, trts1)"
    "foldE (add_gsim_branchset valid_gsim oq regions) (lt1, used1, trts1) levels = Inr (lt', used', trts')"
    using Cons.prems(1) by (auto simp: bindE_Inr_iff)
  obtain n l1 where "l = (n, l1)" by (cases l)
  then have "building (is_effective regions) lt1"
    using s(1) Cons.prems(2) add_gsim_branchset_building by blast
  then show ?case using Cons.IH s(2) by blast
qed simp

lemma build_branches_ok:
  assumes "build_branches valid_gsim oq regions ltnode = Inr lt"
  shows "building (is_effective regions) lt \<and> sorted (map gb_trt (gl_branches lt))"
proof -
  obtain lt0 used trts where f: "foldE (add_gsim_branchset valid_gsim oq regions) (gl_empty, [], [])
      (enumerate 0 ltnode) = Inr (lt0, used, trts)"
    and lt: "lt = lt0\<lparr>gl_branches := sort_key gb_trt (gl_branches lt0)\<rparr>"
    using assms by (auto simp: build_branches_def bindE_Inr_iff)
  have "building (is_effective regions) gl_empty"
    by (simp add: building_def gl_empty_def trt_values_def branches_of_def)
  from foldE_branchsets_building [OF f this] have b: "building (is_effective regions) lt0" .
  have "branches_of lt t = branches_of lt0 t" for t
    unfolding branches_of_def lt by (simp add: sort_key_stable)
  then show ?thesis using b unfolding building_def lt by (simp add: list_all_iff)
qed

lemma effective_key:
  assumes "building p lt" "b \<in> set (gl_branches lt)"
  shows "has_key (gl_values lt) (gb_trt b) \<and> p (gb_trt b)"
proof -
  have p: "p (gb_trt b)" using assms by (auto simp: building_def list_all_iff)
  have "b \<in> set (branches_of lt (gb_trt b))" using assms(2) by (simp add: branches_of_def)
  then have "trt_values lt (gb_trt b) \<noteq> []" using assms(1) p unfolding building_def
    by (metis empty_iff list.set(1) map_is_Nil_conv)
  then show ?thesis using p trt_values_nonkey by blast
qed

lemma map_of_pairs: "distinct ks \<Longrightarrow> map_of (map (\<lambda>k. (k, f k)) ks) k = (if k \<in> set ks then Some (f k) else None)"
  by (induction ks) auto

lemma reduce_values_Inr:
  "mapE (\<lambda>t. bindE (checkE (vals t \<noteq> []) e) (\<lambda>_. Inr (t, vals t))) ts = Inr vs \<longleftrightarrow>
     (\<forall>t \<in> set ts. vals t \<noteq> []) \<and> vs = map (\<lambda>t. (t, vals t)) ts"
  by (induction ts arbitrary: vs) (auto simp: bindE_Inr_iff)

lemma gsim_lt_init_Inr:
  assumes "gsim_lt_init valid_gsim oq regions ltnode = Inr lt"
  obtains lt0 where "build_branches valid_gsim oq (sort regions) ltnode = Inr lt0" "distinct (sort regions)"
    "lt = (if sort regions = [''*''] then lt0 else
        lt0\<lparr>gl_values := map (\<lambda>t. (t, trt_values lt0 t)) (sort regions)\<rparr>)"
    "sort regions \<noteq> [''*''] \<Longrightarrow> \<forall>t \<in> set (sort regions). trt_values lt0 t \<noteq> []"
    "sort regions = [] \<or> gl_branches lt \<noteq> []"
proof -
  obtain lt0 where d: "distinct (sort regions)" and b: "build_branches valid_gsim oq (sort regions) ltnode = Inr lt0"
    and m: "(if sort regions \<noteq> [''*''] then
         bindE (mapE the_bsnode ltnode) (\<lambda>bsets.
         bindE (checkE (list_all (\<lambda>b. ub_trt b \<noteq> None) bsets) KeyError) (\<lambda>_.
         bindE (mapE (\<lambda>trt. bindE (checkE (trt_values lt0 trt \<noteq> []) InvalidLogicTree) (\<lambda>_.
           Inr (trt, trt_values lt0 trt))) (sort regions)) (\<lambda>vals.
         Inr (lt0\<lparr>gl_values := vals\<rparr>)))) else Inr lt0) = Inr lt"
    and nb: "sort regions = [] \<or> gl_branches lt \<noteq> []"
    using assms unfolding gsim_lt_init_def Let_def bindE_Inr_iff checkE_Inr_iff by force
  show thesis
  proof (rule that [OF b d _ _ nb])
    show "lt = (if sort regions = [''*''] then lt0 else
        lt0\<lparr>gl_values := map (\<lambda>t. (t, trt_values lt0 t)) (sort regions)\<rparr>)"
      using m by (simp add: bindE_Inr_iff reduce_values_Inr split: if_splits) blast
    show "\<forall>t \<in> set (sort regions). trt_values lt0 t \<noteq> []" if "sort regions \<noteq> [''*'']"
      using m that by (simp add: bindE_Inr_iff reduce_values_Inr del: set_sort) blast
  qed
qed

lemma gsim_lt_init_ok:
  assumes "gsim_lt_init valid_gsim oq regions ltnode = Inr lt"
  shows "gsim_ok lt \<and> (regions \<noteq> [] \<longrightarrow> gl_branches lt \<noteq> [])"
proof -
  let ?trts = "sort regions"
  obtain lt0 where b: "build_branches valid_gsim oq ?trts ltnode = Inr lt0" and d: "distinct ?trts"
    and lt: "lt = (if ?trts = [''*''] then lt0 else
        lt0\<lparr>gl_values := map (\<lambda>t. (t, trt_values lt0 t)) ?trts\<rparr>)"
    and ne: "?trts \<noteq> [''*''] \<Longrightarrow> \<forall>t \<in> set ?trts. trt_values lt0 t \<noteq> []"
    and nb: "?trts = [] \<or> gl_branches lt \<noteq> []"
    using gsim_lt_init_Inr [OF assms] by blast
  have ok: "building (is_effective ?trts) lt0" "sorted (map gb_trt (gl_branches lt0))"
    using build_branches_ok [OF b] by auto
  have wf: "dict_wf (gl_values lt0)" using ok(1) by (simp add: building_def)
  have brs: "gl_branches lt = gl_branches lt0" by (simp add: lt)
  have allt: "distinct (trt_values lt0 t) \<and> (is_effective ?trts t \<longrightarrow> map gb_gsim (branches_of lt t) = trt_values lt0 t)" for t
    using ok(1) unfolding building_def branches_of_def brs by blast
  have vals: "vs \<noteq> [] \<and> vs = trt_values lt0 t \<and> is_effective ?trts t" if "(t, vs) \<in> set (gl_values lt)" for t vs
  proof (cases "?trts = [''*'']")
    case True
    then have "map_of (gl_values lt0) t = Some vs" using that wf by (simp add: lt dict_wf_def)
    then show ?thesis using that ok(1) True
      by (auto simp: building_def list_all_iff trt_values_def is_effective_def lt)
  next
    case False
    then show ?thesis using that ne by (auto simp: lt is_effective_def)
  qed
  have "list_all (\<lambda>(t, vs). vs \<noteq> [] \<and> distinct vs \<and> map gb_gsim (branches_of lt t) = vs) (gl_values lt)"
    unfolding list_all_iff
  proof (clarify, intro conjI)
    fix t vs assume m: "(t, vs) \<in> set (gl_values lt)"
    have eq: "vs = trt_values lt0 t" and e: "is_effective ?trts t" and "vs \<noteq> []" using vals [OF m] by blast+
    show "vs \<noteq> []" by fact
    show "distinct vs" using allt [of t] eq by simp
    show "map gb_gsim (branches_of lt t) = vs" using allt [of t] eq e by simp
  qed
  moreover have "list_all (\<lambda>b. has_key (gl_values lt) (gb_trt b)) (gl_branches lt)"
    unfolding list_all_iff
  proof
    fix b assume "b \<in> set (gl_branches lt)"
    then have "has_key (gl_values lt0) (gb_trt b)" "is_effective ?trts (gb_trt b)"
      using effective_key [OF ok(1)] brs by auto
    then show "has_key (gl_values lt) (gb_trt b)"
      by (cases "?trts = [''*'']") (simp_all add: lt is_effective_def comp_def)
  qed
  moreover have "dict_wf (gl_values lt)" using wf d by (simp add: lt dict_wf_def comp_def)
  moreover have "regions \<noteq> [] \<longrightarrow> gl_branches lt \<noteq> []"
    using nb by (metis length_0_conv length_sort)
  ultimately show ?thesis using ok by (simp add: gsim_ok_def building_def brs)
qed

section \<open>Enumeration\<close>

lemma gsim_ok_facts:
  assumes "gsim_ok lt"
  shows "b \<in> set (branches_of lt t) \<Longrightarrow> b \<in> set (gl_branches lt) \<and> branch_ok b \<and> gb_trt b = t"
    and "gb_trt ` set (gl_branches lt) = set (keys (gl_values lt))"
    and "distinct (keys (gl_values lt))"
proof -
  show "b \<in> set (branches_of lt t) \<Longrightarrow> b \<in> set (gl_branches lt) \<and> branch_ok b \<and> gb_trt b = t"
    using assms by (auto simp: branches_of_def gsim_ok_def list_all_iff)
  have "t \<in> gb_trt ` set (gl_branches lt)" if "(t, vs) \<in> set (gl_values lt)" for t vs
  proof -
    have "branches_of lt t \<noteq> []" using assms that by (auto simp: gsim_ok_def list_all_iff)
    then show ?thesis by (auto simp: branches_of_def filter_empty_conv)
  qed
  then show "gb_trt ` set (gl_branches lt) = set (keys (gl_values lt))"
    using assms by (auto simp: gsim_ok_def list_all_iff)
  show "distinct (keys (gl_values lt))" using assms by (simp add: gsim_ok_def dict_wf_def)
qed

lemma get_num_branches_eq:
  assumes "gsim_ok lt"
  shows "get_num_branches lt = map (\<lambda>t. (t, length (branches_of lt t))) (sorted_list_of_set (set (keys (gl_values lt))))"
proof -
  let ?c = "consec gb_trt (gl_branches lt)"
  have s: "sorted (map gb_trt (gl_branches lt))" using assms by (simp add: gsim_ok_def)
  note c = consec_facts [OF s]
  have "map fst ?c = sorted_list_of_set (set (map fst ?c))"
    using c by (metis sorted_list_of_set.idem_if_sorted_distinct)
  also have "set (map fst ?c) = set (keys (gl_values lt))"
    using c gsim_ok_facts(2) [OF assms] by simp
  finally have k: "map fst ?c = sorted_list_of_set (set (keys (gl_values lt)))" .
  have g: "length (filter gb_effective brs) = length (branches_of lt t)" if "(t, brs) \<in> set ?c" for t brs
  proof -
    have "brs = branches_of lt t" using c that by (auto simp: branches_of_def)
    moreover have "filter gb_effective (branches_of lt t) = branches_of lt t"
      using gsim_ok_facts(1) [OF assms] by (auto simp: filter_id_conv branch_ok_def)
    ultimately show ?thesis by simp
  qed
  have "get_num_branches lt = map (\<lambda>(t, brs). (t, length (filter gb_effective brs))) ?c"
    unfolding get_num_branches_def using c by (subst dict_update_distinct) (auto simp: comp_def split_beta)
  also have "\<dots> = map (\<lambda>p. (fst p, length (branches_of lt (fst p)))) ?c"
    using g by (auto simp: split_beta intro!: map_cong)
  also have "\<dots> = map (\<lambda>t. (t, length (branches_of lt t))) (map fst ?c)" by simp
  finally show ?thesis unfolding k .
qed

lemma prod_list_mset: "prod_list xs = prod_mset (mset xs)" for xs :: "'a::comm_monoid_mult list"
  by (induction xs) auto

lemma prod_list_perm:
  fixes f :: "'b \<Rightarrow> 'a::comm_monoid_mult"
  shows "distinct xs \<Longrightarrow> distinct ys \<Longrightarrow> set xs = set ys \<Longrightarrow> prod_list (map f xs) = prod_list (map f ys)"
  by (metis mset_map prod_list_mset set_eq_iff_mset_eq_distinct)

lemma gsim_num_paths_eq:
  assumes "gsim_ok lt" "gl_branches lt \<noteq> []"
  shows "gsim_num_paths lt = prod_list (map (\<lambda>t. length (branches_of lt t)) (keys (gl_values lt)))"
proof -
  let ?ks = "sorted_list_of_set (set (keys (gl_values lt)))"
  have n: "map snd (get_num_branches lt) = map (\<lambda>t. length (branches_of lt t)) ?ks"
    by (simp add: get_num_branches_eq [OF assms(1)] comp_def)
  have pos: "length (branches_of lt t) \<noteq> 0" if "t \<in> set (keys (gl_values lt))" for t
    using that assms(1) by (auto simp: gsim_ok_def list_all_iff)
  obtain b where "b \<in> set (gl_branches lt)" using assms(2) by (cases "gl_branches lt") auto
  then have t: "gb_trt b \<in> set (keys (gl_values lt))" using gsim_ok_facts(2) [OF assms(1)] by blast
  then have "length (branches_of lt (gb_trt b)) \<in> set (map (\<lambda>t. length (branches_of lt t)) ?ks)"
    unfolding set_map [of "\<lambda>t. length (branches_of lt t)"] set_sorted_list_of_set [OF finite_set] by (rule imageI)
  then have "sum_list (map (\<lambda>t. length (branches_of lt t)) ?ks) \<noteq> 0"
    using pos [OF t] by (metis sum_list_eq_0_iff)
  moreover have "filter (\<lambda>n. n \<noteq> 0) (map (\<lambda>t. length (branches_of lt t)) ?ks) = map (\<lambda>t. length (branches_of lt t)) ?ks"
    using pos by (auto simp: filter_id_conv)
  ultimately have "gsim_num_paths lt = prod_list (map (\<lambda>t. length (branches_of lt t)) ?ks)"
    unfolding gsim_num_paths_def n Let_def by (simp only: if_False)
  also have "\<dots> = prod_list (map (\<lambda>t. length (branches_of lt t)) (keys (gl_values lt)))"
    by (rule prod_list_perm) (use gsim_ok_facts(3) [OF assms(1)] in simp_all)
  finally show ?thesis .
qed

definition gsim_paths :: "'g gsim_lt \<Rightarrow> 'g gsim_branch list list" where
  "gsim_paths lt = itertools_product (map (branches_of lt) (keys (gl_values lt)))"

lemma gsim_paths_mem:
  assumes "gsim_ok lt" "brs \<in> set (gsim_paths lt)"
  shows "set brs \<subseteq> set (gl_branches lt)" and "b \<in> set brs \<Longrightarrow> branch_ok b"
proof -
  have "set brs \<subseteq> \<Union> (set (map set (map (branches_of lt) (keys (gl_values lt)))))"
    using assms(2) unfolding gsim_paths_def itertools_product_def by (rule product_lists_mem)
  then have m: "\<exists>t. b \<in> set (branches_of lt t)" if "b \<in> set brs" for b using that by auto
  then show "set brs \<subseteq> set (gl_branches lt)" and "b \<in> set brs \<Longrightarrow> branch_ok b"
    using gsim_ok_facts(1) [OF assms(1)] by blast+
qed

text \<open>The enumeration never fails, and its rows are the paths with the products of their factors.\<close>

lemma gsim_iter_rows:
  assumes "gsim_ok lt"
  shows "\<exists>rlzs. gsim_iter lt = Inr rlzs \<and> list_all2 (\<lambda>brs r. gs_value r = map gb_gsim brs \<and>
     gs_lt_path r = map gb_id brs \<and> (\<forall>imt j. map_of (imti lt) imt = Some j \<longrightarrow>
       gs_weight r ! j = prod_list (map (factor imt) brs))) (gsim_paths lt) rlzs"
proof -
  let ?row = "\<lambda>(i, brs). bindE (path_weights lt i brs) (\<lambda>(ws, i').
       Inr \<lparr>gs_value = map gb_gsim brs, gs_weight = ws, gs_ordinal = i', gs_lt_path = map uid_of brs\<rparr>)"
  let ?R = "\<lambda>brs r. gs_value r = map gb_gsim brs \<and> gs_lt_path r = map gb_id brs \<and>
     (\<forall>imt j. map_of (imti lt) imt = Some j \<longrightarrow> gs_weight r ! j = prod_list (map (factor imt) brs))"
  have row: "\<exists>r. ?row (i, brs) = Inr r \<and> ?R brs r" if "brs \<in> set (gsim_paths lt)" for i brs
  proof -
    have ok: "\<And>b. b \<in> set brs \<Longrightarrow> branch_ok b" and sub: "set brs \<subseteq> set (gl_branches lt)"
      using gsim_paths_mem [OF assms that] by auto
    then have "map uid_of brs = map gb_id brs" by (auto simp: uid_of_def branch_ok_def)
    moreover obtain ws i' where "path_weights lt i brs = Inr (ws, i')"
      "\<forall>imt j. map_of (imti lt) imt = Some j \<longrightarrow> ws ! j = prod_list (map (factor imt) brs)"
      using path_weights_Inr [OF sub, of i] ok by (auto simp: branch_ok_def)
    ultimately show ?thesis by auto
  qed
  have "\<exists>rlzs. mapE ?row (enumerate n ps) = Inr rlzs \<and> list_all2 ?R ps rlzs"
    if "set ps \<subseteq> set (gsim_paths lt)" for n ps
    using that
  proof (induction ps arbitrary: n)
    case (Cons p ps)
    then obtain r where "?row (n, p) = Inr r" "?R p r" using row [of p n] by auto
    moreover obtain rlzs where "mapE ?row (enumerate (Suc n) ps) = Inr rlzs" "list_all2 ?R ps rlzs"
      using Cons.IH [of "Suc n"] Cons.prems by auto
    ultimately show ?case by (intro exI [of _ "r # rlzs"]) (simp add: bindE_def)
  qed simp
  then show ?thesis unfolding gsim_iter_def gsim_paths_def [symmetric] by blast
qed

lemma gsim_iter_length:
  assumes "gsim_ok lt" "gl_branches lt \<noteq> []"
  shows "\<exists>rlzs. gsim_iter lt = Inr rlzs \<and> length rlzs = gsim_num_paths lt"
  using gsim_iter_rows [OF assms(1)]
  by (auto dest!: list_all2_lengthD simp: gsim_num_paths_eq [OF assms] gsim_paths_def itertools_product_def
    length_product_lists_prod comp_def)

lemma gsim_iter_column:
  assumes "gsim_ok lt" "gsim_iter lt = Inr rlzs" "map_of (imti lt) imt = Some j"
  shows "sum_list (map (\<lambda>r. gs_weight r ! j) rlzs) =
     prod_list (map (\<lambda>t. sum_list (map (factor imt) (branches_of lt t))) (keys (gl_values lt)))"
proof -
  have "list_all2 (\<lambda>brs r. gs_weight r ! j = prod_list (map (factor imt) brs)) (gsim_paths lt) rlzs"
    using gsim_iter_rows [OF assms(1)] assms(2,3) by (auto elim: list.rel_mono_strong)
  then have "map (\<lambda>r. gs_weight r ! j) rlzs = map (\<lambda>brs. prod_list (map (factor imt) brs)) (gsim_paths lt)"
    by (induction rule: list_all2_induct) auto
  then show ?thesis
    by (simp add: gsim_paths_def itertools_product_def sum_product_lists comp_def)
qed

text \<open>With one column the loop variable of the weights is always 0, and so is every ordinal.\<close>

lemma mul_weight_ordinal: "foldE (mul_weight idx) (ws, i) kvs = Inr (ws', i') \<Longrightarrow> kvs \<noteq> [] \<Longrightarrow>
    i' = (case map_of idx (fst (last kvs)) of Some j \<Rightarrow> j | None \<Rightarrow> length idx)"
proof (induction kvs arbitrary: ws i)
  case (Cons kv kvs)
  obtain k w where kv: "kv = (k, w)" by (cases kv)
  obtain ws1 i1 where s: "mul_weight idx (ws, i) kv = Inr (ws1, i1)" "foldE (mul_weight idx) (ws1, i1) kvs = Inr (ws', i')"
    using Cons.prems(1) by (auto simp: bindE_Inr_iff)
  show ?case
  proof (cases "kvs = []")
    case True
    then show ?thesis using s kv by (auto simp: mul_weight_def Let_def bindE_Inr_iff)
  qed (use Cons.IH [OF s(2)] in simp)
qed simp

lemma gsim_iter_ordinals:
  assumes "gsim_ok lt" "gsim_iter lt = Inr rlzs" "\<forall>b \<in> set (gl_branches lt). keys (gb_weight b) = [''weight'']"
    "gl_branches lt \<noteq> []" "r \<in> set rlzs"
  shows "gs_ordinal r = 0"
proof -
  have i: "imti lt = [(''weight'', 0)]"
  proof -
    have "set (concat (map (\<lambda>b. keys (gb_weight b)) (gl_branches lt))) = {''weight''}"
      using assms(3,4) by (cases "gl_branches lt") auto
    then show ?thesis unfolding imti_def by simp
  qed
  obtain n brs where p: "(n, brs) \<in> set (enumerate 0 (gsim_paths lt))" and
    w: "path_weights lt n brs = Inr (gs_weight r, gs_ordinal r)"
    using mapE_mem [OF assms(2) [unfolded gsim_iter_def gsim_paths_def [symmetric]] assms(5)]
    by (auto simp: bindE_Inr_iff)
  have m: "brs \<in> set (gsim_paths lt)" using p by (force simp: enumerate_eq_zip dest: set_zip_rightD)
  have sub: "set brs \<subseteq> set (gl_branches lt)" using gsim_paths_mem [OF assms(1) m] by auto
  have k: "fst ` set (concat (map gb_weight brs)) \<subseteq> {''weight''}"
    using sub assms(3) by (force simp flip: set_map [of fst])
  obtain b where "b \<in> set (gl_branches lt)" using assms(4) by (cases "gl_branches lt") auto
  then have "keys (gl_values lt) \<noteq> []" using gsim_ok_facts(2) [OF assms(1)] by fastforce
  then have "brs \<noteq> []" using m by (cases "keys (gl_values lt)") (auto simp: gsim_paths_def itertools_product_def)
  then have "concat (map gb_weight brs) \<noteq> []" using sub assms(3) by (cases brs) auto
  moreover from this have "fst (last (concat (map gb_weight brs))) = ''weight''"
    using k last_in_set by blast
  ultimately show ?thesis using mul_weight_ordinal w unfolding path_weights_def i by fastforce
qed

end
