(* ===== verification/Full_Lt.thy ===== *)
theory Full_Lt
  imports Gsim_Lt Params
begin

text \<open>
  The full logic tree (\<open>FullLogicTree\<close> of openquake/hazardlib/logictree.py): the composition of
  the realizations of a source model logic tree with a GSIM logic tree, the realizations and their
  ordinals, and the index \<open>trt_smr = trti * 2 ** 24 + smr\<close> under which the realizations of a source
  group are found. The realizations of the source model logic tree and those that the GSIM logic
  tree samples are given. Weights are exact rationals; the conversion of ordinals to 32-bit arrays
  is the identity on them.
\<close>

definition TWO24 :: int where
  "TWO24 = 16777216"

definition trt_smr :: "nat \<Rightarrow> nat \<Rightarrow> int" where
  "trt_smr trti smr = int trti * TWO24 + int smr"

type_synonym source_row = "string \<times> string \<times> string \<times> string"

text \<open>
  The state of a full logic tree: the parameters of its source model logic tree (number of
  samples, sampling method, whether it is the fake one of a scenario, its \<open>source_id\<close> and the rows
  \<open>(branch, trt, fname, source)\<close> of its \<open>source_data\<close>), the GSIM logic tree, and what \<open>init\<close> sets.
\<close>

record 'g full_lt =
  fl_num_samples :: nat
  fl_method :: string
  fl_fake :: bool
  fl_source_id :: string
  fl_source_data :: "source_row list"
  fl_gsim :: "'g gsim_lt"
  fl_sm_rlzs :: "string realization list"
  fl_trti :: "(string, nat) dict"
  fl_trts :: "string list"

section \<open>Initialisation and realizations\<close>

text \<open>\<open>init\<close> up to the weights; \<open>sm_lt\<close> are the realizations of the source model logic tree.\<close>

definition full_init :: "string realization list \<Rightarrow> 'g full_lt \<Rightarrow> 'g full_lt res" where
  "full_init sm_lt full = (let sm_rlzs = (if fl_num_samples full \<noteq> 0 then get_effective_rlzs sm_lt
       else map (rz_samples_update (\<lambda>_. gsim_num_paths (fl_gsim full))) sm_lt);
     trts = keys (gl_values (fl_gsim full)) in
     bindE (checkE (int (length sm_rlzs) \<le> TWO24) AssertionError) (\<lambda>_.
     Inr (full\<lparr>fl_sm_rlzs := sm_rlzs, fl_trts := trts,
             fl_trti := map (\<lambda>(i, trt). (trt, i)) (enumerate 0 trts)\<rparr>)))"

definition full_num_paths :: "'g full_lt \<Rightarrow> nat" where
  "full_num_paths full = (if fl_num_samples full \<noteq> 0 then fl_num_samples full
     else length (fl_sm_rlzs full) * gsim_num_paths (fl_gsim full))"

definition scale_weight :: "rat \<Rightarrow> rat list \<Rightarrow> rat list" where
  "scale_weight c ws = map (\<lambda>w. c * w) ws"

text \<open>The two ways of building the realizations, before the weights are rescaled.\<close>

definition sampled_rlzs :: "'g full_lt \<Rightarrow> 'g gs_rlz list \<Rightarrow> 'g lt_rlz list res" where
  "sampled_rlzs full gsim_rlzs =
     (let sm_rlzs = concat (map (\<lambda>sm. replicate (rz_samples sm) sm) (fl_sm_rlzs full)) in
      bindE (mapE (\<lambda>(i, g). bindE (py_index sm_rlzs (int i)) (\<lambda>sm.
        Inr \<lparr>lr_ordinal = i, lr_sm_lt_path = rz_lt_path sm, lr_gsim_rlz = g,
             lr_weight = scale_weight (rz_weight sm) (gs_weight g)\<rparr>)) (enumerate 0 gsim_rlzs)) (\<lambda>rlzs.
      Inr (if startswith (fl_method full) ''early_''
        then map (lr_weight_update (map (\<lambda>_. 1 / of_nat (fl_num_samples full)))) rlzs else rlzs)))"

definition enumerated_rlzs :: "'g full_lt \<Rightarrow> 'g gs_rlz list \<Rightarrow> 'g lt_rlz list" where
  "enumerated_rlzs full gsim_rlzs = map (\<lambda>(i, sm, g). \<lparr>lr_ordinal = i, lr_sm_lt_path = rz_lt_path sm,
       lr_gsim_rlz = g, lr_weight = scale_weight (rz_weight sm) (gs_weight g)\<rparr>)
     (enumerate 0 (List.product (fl_sm_rlzs full) gsim_rlzs))"

text \<open>
  The weights are divided by their total in the last column unless it is one. The sum of no
  realization is the number 0, which has no last column; a division by a total of zero, which
  numpy turns into NaN, is an error value here.
\<close>

definition last_column :: "rat list \<Rightarrow> rat res" where
  "last_column ws = py_index ws (- 1)"

definition rescale :: "'g lt_rlz list \<Rightarrow> 'g lt_rlz list res" where
  "rescale rlzs = (if rlzs = [] then Inl TypeError else
     bindE (mapE (last_column \<circ> lr_weight) rlzs) (\<lambda>col. let tot_weight = sum_list col in
     if tot_weight = 1 then Inr rlzs
     else if tot_weight = 0 then Inl ZeroDivisionError
     else Inr (map (lr_weight_update (map (\<lambda>w. w / tot_weight))) rlzs)))"

text \<open>\<open>get_realizations\<close>; \<open>sampled\<close> are the realizations drawn from the GSIM logic tree.\<close>

definition get_realizations :: "'g gs_rlz list \<Rightarrow> 'g full_lt \<Rightarrow> 'g lt_rlz list res" where
  "get_realizations sampled full =
     bindE (if fl_num_samples full \<noteq> 0 then sampled_rlzs full sampled
            else bindE (gsim_iter (fl_gsim full)) (\<lambda>gs. Inr (enumerated_rlzs full gs))) rescale"

section \<open>Realizations by GSIM\<close>

type_synonym 'g rlzs_by = "(int, ('g, nat list) dict) dict"

definition rbg_add :: "nat \<Rightarrow> ('g, nat list) dict \<Rightarrow> 'g lt_rlz \<Rightarrow> ('g, nat list) dict res" where
  "rbg_add trti rbg rlz = bindE (py_index (gs_value (lr_gsim_rlz rlz)) (int trti)) (\<lambda>g.
     Inr (AList.update g ((case map_of rbg g of None \<Rightarrow> [] | Some os \<Rightarrow> os) @ [lr_ordinal rlz]) rbg))"

definition sort_keys :: "('g::linorder, 'v) dict \<Rightarrow> ('g, 'v) dict" where
  "sort_keys d = sort_key fst d"

text \<open>
  \<open>_ddic(trtis, smrs, get_rlzs)\<close>. A key met a second time holds a plain dictionary of arrays, to
  which nothing can be appended.
\<close>

definition ddic_add :: "'g::linorder lt_rlz list \<Rightarrow> nat \<Rightarrow> 'g rlzs_by \<Rightarrow> nat \<Rightarrow> 'g rlzs_by res" where
  "ddic_add rlzs_sm smr acc trti = (let key = int smr + TWO24 * int trti in
     case map_of acc key of
       None \<Rightarrow> bindE (foldE (rbg_add trti) [] rlzs_sm) (\<lambda>rbg. Inr (AList.update key (sort_keys rbg) acc))
     | Some old \<Rightarrow> (case rlzs_sm of [] \<Rightarrow> Inr (AList.update key (sort_keys old) acc)
         | rlz # _ \<Rightarrow> bindE (py_index (gs_value (lr_gsim_rlz rlz)) (int trti)) (\<lambda>g.
             Inl (if has_key old g then AttributeError else KeyError))))"

definition ddic :: "nat list \<Rightarrow> nat list \<Rightarrow> (nat \<Rightarrow> 'g::linorder lt_rlz list res) \<Rightarrow> 'g rlzs_by res" where
  "ddic trtis smrs get_rlzs = foldE (\<lambda>acc smr. bindE (get_rlzs smr) (\<lambda>rlzs_sm.
     foldE (ddic_add rlzs_sm smr) acc trtis)) [] smrs"

text \<open>The slice of the realizations of each source model realization.\<close>

fun sm_slices :: "nat \<Rightarrow> string realization list \<Rightarrow> (nat \<times> nat) list" where
  "sm_slices start [] = []"
| "sm_slices start (sm # sms) = (start, start + rz_samples sm) # sm_slices (start + rz_samples sm) sms"

text \<open>\<open>get_rlzs_by_gsim_dic\<close>, given the realizations.\<close>

definition rlzs_by_gsim_dic :: "'g full_lt \<Rightarrow> 'g::linorder lt_rlz list \<Rightarrow> 'g rlzs_by res" where
  "rlzs_by_gsim_dic full rlzs = (let trtis = [0..<length (gl_values (fl_gsim full))];
       smrs = map rz_ordinal (fl_sm_rlzs full) in
     if fl_fake full then
       let smr_by_ltp = dict_update [] (map (\<lambda>(i, sm). (join ''~'' (rz_lt_path sm), i)) (enumerate 0 (fl_sm_rlzs full))) in
       bindE (mapE (\<lambda>rlz. dict_get smr_by_ltp (join ''~'' (lr_sm_lt_path rlz))) rlzs) (\<lambda>smidx.
       ddic trtis smrs (\<lambda>smr. Inr (map fst (filter (\<lambda>(rlz, i). i = smr) (zip rlzs smidx)))))
     else let slices = sm_slices 0 (fl_sm_rlzs full) in
       ddic trtis smrs (\<lambda>smr. bindE (py_index slices (int smr)) (\<lambda>(a, b). Inr (py_slice a b rlzs))))"

text \<open>
  \<open>get_rlzs_by_gsim\<close> for one index and for a list of them. The dictionary has an accumulator: a key
  that is not there reads as the empty dictionary.
\<close>

definition rlzs_by_gsim_of :: "'g rlzs_by \<Rightarrow> int \<Rightarrow> ('g, nat list) dict" where
  "rlzs_by_gsim_of dic t = (case map_of dic t of None \<Rightarrow> [] | Some rbg \<Rightarrow> rbg)"

definition get_rlzs_by_gsim :: "'g rlzs_by \<Rightarrow> int list \<Rightarrow> ('g, nat list) dict" where
  "get_rlzs_by_gsim dic trt_smrs = foldl (\<lambda>acc t. foldl (\<lambda>acc (g, rlzs).
       AList.update g ((case map_of acc g of None \<Rightarrow> [] | Some os \<Rightarrow> os) @ rlzs) acc)
     acc (rlzs_by_gsim_of dic t)) [] trt_smrs"

section \<open>Group indices\<close>

text \<open>\<open>trt_by\<close>, \<open>gfull\<close>, \<open>get_gids\<close>, \<open>get_trt_rlzs\<close> and \<open>g_weights\<close>.\<close>

definition trt_by :: "'g full_lt \<Rightarrow> int \<Rightarrow> string res" where
  "trt_by full t = (if length (fl_trts full) = 1 then py_index (fl_trts full) 0
     else py_index (fl_trts full) (t div TWO24))"

definition gfull :: "'g full_lt \<Rightarrow> int list list \<Rightarrow> nat res" where
  "gfull full all_trt_smrs = foldE (\<lambda>gt trt_smrs.
     bindE (py_index trt_smrs 0) (\<lambda>t. bindE (py_index (fl_trts full) (t div TWO24)) (\<lambda>trt.
     bindE (dict_get (gl_values (fl_gsim full)) trt) (\<lambda>gsims. Inr (gt + length gsims))))) 0 all_trt_smrs"

fun get_gids :: "'g rlzs_by \<Rightarrow> nat \<Rightarrow> int list list \<Rightarrow> nat list list" where
  "get_gids dic g [] = []"
| "get_gids dic g (trt_smrs # rest) = (let n = length (get_rlzs_by_gsim dic trt_smrs) in
     [g..<g + n] # get_gids dic (g + n) rest)"

definition get_trt_rlzs :: "'g rlzs_by \<Rightarrow> int list list \<Rightarrow> int list list res" where
  "get_trt_rlzs dic all_trt_smrs = bindE (mapE (\<lambda>trt_smrs.
     let rbg = get_rlzs_by_gsim dic trt_smrs in
     if rbg = [] then Inr [] else bindE (py_index trt_smrs 0) (\<lambda>t.
       Inr (map (\<lambda>(g, rlzs). map (\<lambda>r. int r + TWO24 * (t div TWO24)) rlzs) rbg))) all_trt_smrs) (\<lambda>ls.
     Inr (concat ls))"

definition g_weights :: "'g rlzs_by \<Rightarrow> rat list \<Rightarrow> int list list \<Rightarrow> rat list" where
  "g_weights dic ws all_trt_smrs = concat (map (\<lambda>trt_smrs.
     map (\<lambda>(g, rlzs). sum_list (map (\<lambda>r. ws ! r) rlzs)) (get_rlzs_by_gsim dic trt_smrs)) all_trt_smrs)"

definition gsim_by_trt :: "'g full_lt \<Rightarrow> 'g lt_rlz \<Rightarrow> (string, 'g) dict" where
  "gsim_by_trt full rlz = dict_update [] (zip (keys (gl_values (fl_gsim full))) (gs_value (lr_gsim_rlz rlz)))"

section \<open>The realizations of a source\<close>

text \<open>
  \<open>group_array(source_data, 'source')\<close> looked up at a source ID, and the indices of a source: those of
  the realizations whose path meets the branches in which the source is found. Without a source ID
  the loop runs over the names of the regions and multiplies a string by a number; adding an
  integer to it is a type error.
\<close>

definition sd_of :: "'g full_lt \<Rightarrow> string \<Rightarrow> source_row list res" where
  "sd_of full src_id = (let rows = filter (\<lambda>(brid, trt, fname, src). src = src_id) (fl_source_data full) in
     if rows = [] then Inl KeyError else Inr rows)"

definition smrs_of_branches :: "'g full_lt \<Rightarrow> nat \<Rightarrow> string set \<Rightarrow> int list" where
  "smrs_of_branches full trti brids = map (\<lambda>sm. trt_smr trti (rz_ordinal sm))
     (filter (\<lambda>sm. set (rz_lt_path sm) \<inter> brids \<noteq> {}) (fl_sm_rlzs full))"

definition get_trt_smrs :: "'g full_lt \<Rightarrow> string option \<Rightarrow> int list res" where
  "get_trt_smrs full src = (case src of
     None \<Rightarrow> if fl_sm_rlzs full \<noteq> [] \<and> fl_trti full \<noteq> [] then Inl TypeError else Inr []
   | Some src_id \<Rightarrow> bindE (sd_of full src_id) (\<lambda>sd.
       let trt = fst (snd (hd sd)) in
       bindE (if trt = ''*'' then Inr 0 else dict_get (fl_trti full) trt) (\<lambda>trti.
       Inr (smrs_of_branches full trti (fst ` set sd)))))"

text \<open>
  A source object: its ID, its tectonic region type and the attribute \<open>trt_smr\<close>, a tuple of indices
  or a single one.
\<close>

datatype smr_attr = Unset | Tup "int list" | One int

record src_obj =
  sr_source_id :: string
  sr_trt :: string
  sr_trt_smr :: smr_attr

text \<open>\<open>_get_smr\<close>: the number after the semicolon.\<close>

definition get_smr :: "string \<Rightarrow> int res" where
  "get_smr src_id = bindE (py_index (split_on CHR '';'' src_id) 1) (\<lambda>suffix.
     bindE (py_index (split_on CHR ''.'' suffix) 0) py_int)"

text \<open>\<open>srcid, fname = srcid.rsplit('!')\<close>: an ambiguous ID has two parts.\<close>

definition tup_of :: "'g full_lt \<Rightarrow> nat \<Rightarrow> string \<Rightarrow> smr_attr res" where
  "tup_of full trti srcid = (let base = hd (split_on CHR ''@'' srcid) in
     (case split_on CHR ''!'' base of
        [sid, fname] \<Rightarrow> bindE (sd_of full sid) (\<lambda>sd.
          Inr (Tup (smrs_of_branches full trti (fst ` set (filter (\<lambda>(b, t, f, s). contains f fname) sd)))))
      | _ \<Rightarrow> bindE (sd_of full base) (\<lambda>sd. Inr (Tup (smrs_of_branches full trti (fst ` set sd))))))"

text \<open>
  One round of the loop of \<open>set_trt_smr\<close>. The number read from the ID of a source is assigned to
  the parameter \<open>smr\<close>, so it is in force for the sources that follow.
\<close>

definition set_trt_step :: "'g full_lt \<Rightarrow> string \<Rightarrow> int option \<times> src_obj list \<Rightarrow> src_obj \<Rightarrow>
    (int option \<times> src_obj list) res" where
  "set_trt_step full filt st src = (case st of (smr, out) \<Rightarrow>
     let srcid = corename (sr_source_id src) in
     if filt \<noteq> [] \<and> srcid \<noteq> filt then Inr (smr, out) else
     bindE (if fl_trti full = [(''*'', 0)] then Inr 0 else dict_get (fl_trti full) (sr_trt src)) (\<lambda>trti.
     bindE (if smr = None \<and> CHR '';'' \<in> set (sr_source_id src)
            then bindE (get_smr (sr_source_id src)) (\<lambda>n. Inr (Some n)) else Inr smr) (\<lambda>smr'.
     bindE (case smr' of None \<Rightarrow> tup_of full trti srcid | Some n \<Rightarrow> Inr (One (int trti * TWO24 + n))) (\<lambda>tup.
     Inr (smr', out @ [src\<lparr>sr_trt_smr := tup\<rparr>])))))"

definition set_trt_smr :: "'g full_lt \<Rightarrow> src_obj list \<Rightarrow> string \<Rightarrow> int option \<Rightarrow> src_obj list res" where
  "set_trt_smr full srcs filt smr = (if fl_trti full = [] then Inr srcs else
     bindE (foldE (set_trt_step full filt) (smr, []) srcs) (\<lambda>(smr', out). Inr out))"

definition reduce_groups :: "'g full_lt \<Rightarrow> src_obj list list \<Rightarrow> src_obj list list res" where
  "reduce_groups full src_groups =
     bindE (mapE (\<lambda>sg. set_trt_smr full sg (fl_source_id full) None) src_groups) (\<lambda>oks.
     Inr (filter (\<lambda>ok. ok \<noteq> []) oks))"

section \<open>The realizations\<close>

lemma map_fst_enumerate_upt: "map fst (enumerate n xs) = [n..<n + length xs]"
  by (simp add: enumerate_eq_zip)

lemma enumerated_ordinals: "map lr_ordinal (enumerated_rlzs full gs) = [0..<length (fl_sm_rlzs full) * length gs]"
proof -
  have "map lr_ordinal (enumerated_rlzs full gs) = map fst (enumerate 0 (List.product (fl_sm_rlzs full) gs))"
    by (simp add: enumerated_rlzs_def split_beta comp_def)
  then show ?thesis by (simp add: map_fst_enumerate_upt)
qed

lemma mapE_enumerate_ordinals:
  assumes "mapE f (enumerate n xs) = Inr ys" "\<And>i x y. f (i, x) = Inr y \<Longrightarrow> lr_ordinal y = i"
  shows "map lr_ordinal ys = [n..<n + length xs]"
  using assms(1)
proof (induction xs arbitrary: n ys)
  case (Cons x xs)
  then obtain y zs where "ys = y # zs" "f (n, x) = Inr y" "mapE f (enumerate (Suc n) xs) = Inr zs"
    by (auto simp: bindE_Inr_iff)
  then have "map lr_ordinal ys = n # [Suc n..<Suc n + length xs]" using Cons.IH [of "Suc n" zs] assms(2) by simp
  then show ?case by (simp add: upt_conv_Cons del: upt_Suc)
qed simp

lemma map_ordinal_weights: "map lr_ordinal (map (lr_weight_update f) rlzs) = map lr_ordinal rlzs"
  by simp

lemma sampled_ordinals:
  assumes "sampled_rlzs full gs = Inr rlzs" shows "map lr_ordinal rlzs = [0..<length gs]"
proof -
  obtain rlzs0 where r: "mapE (\<lambda>(i, g). bindE (py_index (concat (map (\<lambda>sm. replicate (rz_samples sm) sm)
        (fl_sm_rlzs full))) (int i)) (\<lambda>sm. Inr \<lparr>lr_ordinal = i, lr_sm_lt_path = rz_lt_path sm, lr_gsim_rlz = g,
             lr_weight = scale_weight (rz_weight sm) (gs_weight g)\<rparr>)) (enumerate 0 gs) = Inr rlzs0"
    and "map lr_ordinal rlzs = map lr_ordinal rlzs0"
    using assms by (auto simp: sampled_rlzs_def Let_def bindE_Inr_iff split: if_splits)
  moreover have "map lr_ordinal rlzs0 = [0..<0 + length gs]"
    by (rule mapE_enumerate_ordinals [OF r]) (auto simp: bindE_Inr_iff)
  ultimately show ?thesis by simp
qed

lemma rescale_ordinals: "rescale rlzs = Inr rlzs' \<Longrightarrow> map lr_ordinal rlzs' = map lr_ordinal rlzs
    \<and> map lr_gsim_rlz rlzs' = map lr_gsim_rlz rlzs \<and> map lr_sm_lt_path rlzs' = map lr_sm_lt_path rlzs"
  by (auto simp: rescale_def Let_def bindE_Inr_iff split: if_splits)

lemma last_column_Inr: "last_column ws = Inr x \<longleftrightarrow> ws \<noteq> [] \<and> x = last ws"
proof (cases ws rule: rev_cases)
  case (snoc ys y)
  then show ?thesis by (auto simp: last_column_def py_index_def norm_index_def)
qed (simp add: last_column_def py_index_def norm_index_def)

text \<open>After the rescaling the weights of the last column sum to one.\<close>

lemma rescale_total:
  assumes "rescale rlzs = Inr rlzs'"
  shows "sum_list (map (\<lambda>r. last (lr_weight r)) rlzs') = 1"
proof -
  obtain col where col: "mapE (last_column \<circ> lr_weight) rlzs = Inr col"
    and c: "(if sum_list col = 1 then Inr rlzs else if sum_list col = 0 then Inl ZeroDivisionError
      else Inr (map (lr_weight_update (map (\<lambda>w. w / sum_list col))) rlzs)) = (Inr rlzs' :: 'a lt_rlz list res)"
    using assms by (auto simp: rescale_def Let_def bindE_Inr_iff split: if_splits)
  have l: "list_all2 (\<lambda>r x. lr_weight r \<noteq> [] \<and> x = last (lr_weight r)) rlzs col"
    using col by (simp add: mapE_Inr_iff last_column_Inr)
  then have e: "col = map (\<lambda>r. last (lr_weight r)) rlzs" "list_all (\<lambda>r. lr_weight r \<noteq> []) rlzs"
    by (induction rule: list_all2_induct) auto
  show ?thesis
  proof (cases "sum_list col = 1")
    case False
    then have z: "sum_list col \<noteq> 0" and r: "rlzs' = map (lr_weight_update (map (\<lambda>w. w / sum_list col))) rlzs"
      using c by (auto split: if_splits)
    have "map (\<lambda>r. last (lr_weight r)) rlzs' = map (\<lambda>r. last (lr_weight r) * (1 / sum_list col)) rlzs"
      using e(2) unfolding r by (auto simp: list_all_iff last_map)
    then have "sum_list (map (\<lambda>r. last (lr_weight r)) rlzs') = sum_list col * (1 / sum_list col)"
      by (simp only: e(1) sum_list_mult_const)
    then show ?thesis using z by simp
  qed (use c e(1) in simp)
qed

section \<open>The realizations found under an index\<close>

text \<open>The ordinals of the realizations whose GSIM for the region is the given one.\<close>

definition ordinals_of :: "nat \<Rightarrow> 'g \<Rightarrow> 'g lt_rlz list \<Rightarrow> nat list" where
  "ordinals_of trti g rlzs = map lr_ordinal (filter (\<lambda>r. gs_value (lr_gsim_rlz r) ! trti = g) rlzs)"

lemma rbg_fold:
  assumes "\<And>r. r \<in> set rlzs \<Longrightarrow> trti < length (gs_value (lr_gsim_rlz r))" "dict_wf rbg"
  shows "\<exists>rbg'. foldE (rbg_add trti) rbg rlzs = Inr rbg' \<and> dict_wf rbg' \<and> (\<forall>g. map_of rbg' g =
    (case map_of rbg g of Some os \<Rightarrow> Some (os @ ordinals_of trti g rlzs)
     | None \<Rightarrow> if ordinals_of trti g rlzs = [] then None else Some (ordinals_of trti g rlzs)))"
  using assms
proof (induction rlzs arbitrary: rbg)
  case (Cons r rlzs)
  let ?g = "gs_value (lr_gsim_rlz r) ! trti"
  let ?rbg = "AList.update ?g ((case map_of rbg ?g of None \<Rightarrow> [] | Some os \<Rightarrow> os) @ [lr_ordinal r]) rbg"
  have step: "rbg_add trti rbg r = Inr ?rbg"
    using Cons.prems(1) [of r] by (simp add: rbg_add_def py_index_nonneg)
  have "dict_wf ?rbg" using Cons.prems(2) by simp
  then obtain rbg' where f: "foldE (rbg_add trti) ?rbg rlzs = Inr rbg'" "dict_wf rbg'" and
    m: "\<And>g. map_of rbg' g = (case map_of ?rbg g of Some os \<Rightarrow> Some (os @ ordinals_of trti g rlzs)
     | None \<Rightarrow> if ordinals_of trti g rlzs = [] then None else Some (ordinals_of trti g rlzs))"
    using Cons.IH [of ?rbg] Cons.prems(1) by auto
  have o: "ordinals_of trti g (r # rlzs) = (if g = ?g then [lr_ordinal r] else []) @ ordinals_of trti g rlzs" for g
    by (simp add: ordinals_of_def)
  have "map_of rbg' g = (case map_of rbg g of Some os \<Rightarrow> Some (os @ ordinals_of trti g (r # rlzs))
     | None \<Rightarrow> if ordinals_of trti g (r # rlzs) = [] then None else Some (ordinals_of trti g (r # rlzs)))" for g
    unfolding m o by (auto simp: map_of_update split: option.split)
  then show ?case using f step by (intro exI [of _ rbg']) simp
qed (auto simp: ordinals_of_def split: option.split)

lemma map_of_sort_keys: "dict_wf d \<Longrightarrow> map_of (sort_keys d) k = map_of d k"
proof -
  assume "dict_wf d"
  then have d: "distinct (map fst d)" by (simp add: dict_wf_def)
  have "distinct (map fst (sort_keys d))"
    using d unfolding sort_keys_def by (metis distinct_map set_sort distinct_sort)
  then have "map_of (sort_keys d) = map_of d" using d by (simp add: map_of_inject_set sort_keys_def)
  then show ?thesis by simp
qed

lemma trt_smr_inj:
  assumes "int smr < TWO24" "int smr' < TWO24" "int smr + TWO24 * int trti = int smr' + TWO24 * int trti'"
  shows "smr = smr' \<and> trti = trti'"
proof -
  have "(int smr + TWO24 * int trti) mod TWO24 = int smr" "(int smr' + TWO24 * int trti') mod TWO24 = int smr'"
    using assms(1,2) by (simp_all add: TWO24_def)
  then have "smr = smr'" using assms(3) by simp
  then show ?thesis using assms(3) by (simp add: TWO24_def)
qed

lemma trt_smr_decode:
  assumes "int smr < TWO24"
  shows "trt_smr trti smr div TWO24 = int trti" "trt_smr trti smr mod TWO24 = int smr"
  using assms by (simp_all add: trt_smr_def TWO24_def)

lemma ddic_inner:
  assumes "\<And>trti r. trti \<in> set trtis \<Longrightarrow> r \<in> set rlzs \<Longrightarrow> trti < length (gs_value (lr_gsim_rlz r))"
    "distinct trtis" "\<And>trti. trti \<in> set trtis \<Longrightarrow> map_of acc (int smr + TWO24 * int trti) = None"
  shows "\<exists>acc'. foldE (ddic_add rlzs smr) acc trtis = Inr acc' \<and>
    (\<forall>k. (\<forall>trti \<in> set trtis. k \<noteq> int smr + TWO24 * int trti) \<longrightarrow> map_of acc' k = map_of acc k) \<and>
    (\<forall>trti \<in> set trtis. \<exists>rbg. map_of acc' (int smr + TWO24 * int trti) = Some rbg \<and>
       (\<forall>g. map_of rbg g = (if ordinals_of trti g rlzs = [] then None else Some (ordinals_of trti g rlzs))))"
  using assms
proof (induction trtis arbitrary: acc)
  case (Cons t ts)
  obtain rbg where rbg: "foldE (rbg_add t) [] rlzs = Inr rbg" "dict_wf rbg"
    "\<And>g. map_of rbg g = (if ordinals_of t g rlzs = [] then None else Some (ordinals_of t g rlzs))"
    using rbg_fold [of rlzs t "[]"] Cons.prems(1) by auto
  let ?key = "int smr + TWO24 * int t" and ?acc = "AList.update (int smr + TWO24 * int t) (sort_keys rbg) acc"
  have step: "ddic_add rlzs smr acc t = Inr ?acc"
    using Cons.prems(3) [of t] rbg(1) by (simp add: ddic_add_def Let_def)
  have new: "map_of ?acc (int smr + TWO24 * int u) = None" if "u \<in> set ts" for u
    using Cons.prems(2,3) that by (auto simp: map_of_update TWO24_def)
  obtain acc' where f: "foldE (ddic_add rlzs smr) ?acc ts = Inr acc'" and
    other: "\<And>k. (\<forall>trti \<in> set ts. k \<noteq> int smr + TWO24 * int trti) \<Longrightarrow> map_of acc' k = map_of ?acc k" and
    here: "\<And>trti. trti \<in> set ts \<Longrightarrow> \<exists>rbg. map_of acc' (int smr + TWO24 * int trti) = Some rbg \<and>
       (\<forall>g. map_of rbg g = (if ordinals_of trti g rlzs = [] then None else Some (ordinals_of trti g rlzs)))"
    using Cons.IH [of ?acc] Cons.prems(1,2) new by auto
  have "map_of acc' ?key = Some (sort_keys rbg)"
    using other [of ?key] Cons.prems(2) by (auto simp: TWO24_def map_of_update)
  moreover have "map_of acc' k = map_of acc k" if "\<forall>trti \<in> set (t # ts). k \<noteq> int smr + TWO24 * int trti" for k
    using other [of k] that by (simp add: map_of_update)
  ultimately show ?case
    using f step here rbg(2,3) by (intro exI [of _ acc']) (auto simp: map_of_sort_keys)
qed auto

lemma ddic_outer:
  assumes "\<And>smr r trti. smr \<in> set smrs \<Longrightarrow> r \<in> set (rl smr) \<Longrightarrow> trti \<in> set trtis \<Longrightarrow>
      trti < length (gs_value (lr_gsim_rlz r))"
    "distinct trtis" "distinct smrs" "\<And>smr. smr \<in> set smrs \<Longrightarrow> int smr < TWO24"
    "\<And>smr. smr \<in> set smrs \<Longrightarrow> get_rlzs smr = Inr (rl smr)"
    "\<And>smr trti. smr \<in> set smrs \<Longrightarrow> trti \<in> set trtis \<Longrightarrow> map_of acc (int smr + TWO24 * int trti) = None"
  shows "\<exists>acc'. foldE (\<lambda>acc smr. bindE (get_rlzs smr) (\<lambda>rlzs_sm. foldE (ddic_add rlzs_sm smr) acc trtis)) acc smrs
      = Inr acc' \<and>
    (\<forall>k. (\<forall>smr \<in> set smrs. \<forall>trti \<in> set trtis. k \<noteq> int smr + TWO24 * int trti) \<longrightarrow> map_of acc' k = map_of acc k) \<and>
    (\<forall>smr \<in> set smrs. \<forall>trti \<in> set trtis. \<exists>rbg. map_of acc' (int smr + TWO24 * int trti) = Some rbg \<and>
       (\<forall>g. map_of rbg g = (if ordinals_of trti g (rl smr) = [] then None else Some (ordinals_of trti g (rl smr)))))"
  using assms
proof (induction smrs arbitrary: acc)
  case (Cons s ss)
  let ?P = "\<lambda>acc' smr trti. \<exists>rbg. map_of acc' (int smr + TWO24 * int trti) = Some rbg \<and>
       (\<forall>g. map_of rbg g = (if ordinals_of trti g (rl smr) = [] then None else Some (ordinals_of trti g (rl smr))))"
  have "\<exists>acc1. foldE (ddic_add (rl s) s) acc trtis = Inr acc1 \<and>
    (\<forall>k. (\<forall>trti \<in> set trtis. k \<noteq> int s + TWO24 * int trti) \<longrightarrow> map_of acc1 k = map_of acc k) \<and>
    (\<forall>trti \<in> set trtis. ?P acc1 s trti)"
    by (rule ddic_inner) (use Cons.prems in auto)
  then obtain acc1 where f1: "foldE (ddic_add (rl s) s) acc trtis = Inr acc1"
    and o1: "\<And>k. (\<forall>trti \<in> set trtis. k \<noteq> int s + TWO24 * int trti) \<Longrightarrow> map_of acc1 k = map_of acc k"
    and h1: "\<And>trti. trti \<in> set trtis \<Longrightarrow> ?P acc1 s trti" by blast
  have ne: "int smr + TWO24 * int t \<noteq> int s + TWO24 * int u" if "smr \<in> set ss" for smr t u
  proof
    assume e: "int smr + TWO24 * int t = int s + TWO24 * int u"
    have "int smr < TWO24" "int s < TWO24" using Cons.prems(4) that by auto
    from trt_smr_inj [OF this e] show False using Cons.prems(3) that by auto
  qed
  have new: "map_of acc1 (int smr + TWO24 * int t) = None" if "smr \<in> set ss" "t \<in> set trtis" for smr t
    using o1 [of "int smr + TWO24 * int t"] ne [OF that(1)] Cons.prems(6) [of smr t] that by simp
  have "\<exists>acc2. foldE (\<lambda>acc smr. bindE (get_rlzs smr) (\<lambda>rlzs_sm. foldE (ddic_add rlzs_sm smr) acc trtis)) acc1 ss = Inr acc2 \<and>
    (\<forall>k. (\<forall>smr \<in> set ss. \<forall>trti \<in> set trtis. k \<noteq> int smr + TWO24 * int trti) \<longrightarrow> map_of acc2 k = map_of acc1 k) \<and>
    (\<forall>smr \<in> set ss. \<forall>trti \<in> set trtis. ?P acc2 smr trti)"
    by (rule Cons.IH) (use Cons.prems new in auto)
  then obtain acc2 where f2: "foldE (\<lambda>acc smr. bindE (get_rlzs smr) (\<lambda>rlzs_sm. foldE (ddic_add rlzs_sm smr) acc trtis)) acc1 ss = Inr acc2"
    and o2: "\<And>k. (\<forall>smr \<in> set ss. \<forall>trti \<in> set trtis. k \<noteq> int smr + TWO24 * int trti) \<Longrightarrow> map_of acc2 k = map_of acc1 k"
    and h2: "\<And>smr trti. smr \<in> set ss \<Longrightarrow> trti \<in> set trtis \<Longrightarrow> ?P acc2 smr trti"
    by blast
  have "?P acc2 s trti" if "trti \<in> set trtis" for trti
  proof -
    have "map_of acc2 (int s + TWO24 * int trti) = map_of acc1 (int s + TWO24 * int trti)"
      by (rule o2) (use ne in metis)
    then show ?thesis using h1 [OF that] by simp
  qed
  then have "\<forall>smr \<in> set (s # ss). \<forall>trti \<in> set trtis. ?P acc2 smr trti" using h2 by auto
  moreover have "map_of acc2 k = map_of acc k"
    if "\<forall>smr \<in> set (s # ss). \<forall>trti \<in> set trtis. k \<noteq> int smr + TWO24 * int trti" for k
    using o1 [of k] o2 [of k] that by simp
  moreover have "get_rlzs s = Inr (rl s)" using Cons.prems(5) by simp
  ultimately show ?case using f1 f2 by (intro exI [of _ acc2]) simp
qed auto

text \<open>Where the realizations of a source model realization start.\<close>

definition smr_start :: "string realization list \<Rightarrow> nat \<Rightarrow> nat" where
  "smr_start sms i = sum_list (map rz_samples (take i sms))"

lemma length_sm_slices [simp]: "length (sm_slices n sms) = length sms"
  by (induction sms arbitrary: n) auto

lemma sm_slices_nth:
  "i < length sms \<Longrightarrow> sm_slices n sms ! i = (n + smr_start sms i, n + smr_start sms (Suc i))"
proof (induction sms arbitrary: n i)
  case (Cons sm sms)
  then show ?case by (cases i) (auto simp: smr_start_def)
qed simp

lemma smr_start_mono: "i \<le> j \<Longrightarrow> smr_start sms i \<le> smr_start sms j"
proof -
  assume "i \<le> j"
  then have "take j sms = take i sms @ take (j - i) (drop i sms)" by (metis le_add_diff_inverse take_add)
  then show ?thesis by (simp add: smr_start_def)
qed

lemma ordinals_slice:
  assumes "map lr_ordinal rlzs = [0..<length rlzs]" "b \<le> length rlzs"
  shows "ordinals_of t g (py_slice a b rlzs) = filter (\<lambda>r. gs_value (lr_gsim_rlz (rlzs ! r)) ! t = g) [a..<b]"
proof -
  have sl: "py_slice a b rlzs = map ((!) rlzs) [a..<b]"
    using assms(2) by (auto simp: py_slice_def intro!: nth_equalityI)
  have "lr_ordinal (rlzs ! r) = r" if "r < length rlzs" for r
    using arg_cong [OF assms(1), of "\<lambda>l. l ! r"] that by simp
  then show ?thesis unfolding ordinals_of_def sl filter_map map_map
    using assms(2) by (auto simp: comp_def intro!: map_idI)
qed

lemma rlzs_by_gsim_dic_lookup:
  assumes "\<not> fl_fake full" "map rz_ordinal (fl_sm_rlzs full) = [0..<length (fl_sm_rlzs full)]"
    "int (length (fl_sm_rlzs full)) \<le> TWO24" "map lr_ordinal rlzs = [0..<length rlzs]"
    "smr_start (fl_sm_rlzs full) (length (fl_sm_rlzs full)) \<le> length rlzs"
    "\<And>r. r \<in> set rlzs \<Longrightarrow> length (gs_value (lr_gsim_rlz r)) = length (gl_values (fl_gsim full))"
  shows "\<exists>dic. rlzs_by_gsim_dic full rlzs = Inr dic \<and> (\<forall>i t g. i < length (fl_sm_rlzs full) \<longrightarrow>
    t < length (gl_values (fl_gsim full)) \<longrightarrow> map_of (rlzs_by_gsim_of dic (trt_smr t i)) g =
     (let rs = filter (\<lambda>r. gs_value (lr_gsim_rlz (rlzs ! r)) ! t = g)
        [smr_start (fl_sm_rlzs full) i..<smr_start (fl_sm_rlzs full) (Suc i)] in
      if rs = [] then None else Some rs))"
proof -
  let ?sms = "fl_sm_rlzs full" and ?T = "length (gl_values (fl_gsim full))"
  let ?rl = "\<lambda>i. py_slice (smr_start ?sms i) (smr_start ?sms (Suc i)) rlzs"
  let ?get = "\<lambda>smr. bindE (py_index (sm_slices 0 ?sms) (int smr)) (\<lambda>(a, b). Inr (py_slice a b rlzs))"
  have "\<exists>acc'. foldE (\<lambda>acc smr. bindE (?get smr) (\<lambda>rlzs_sm. foldE (ddic_add rlzs_sm smr) acc [0..<?T])) []
       [0..<length ?sms] = Inr acc' \<and>
    (\<forall>k. (\<forall>smr \<in> set [0..<length ?sms]. \<forall>trti \<in> set [0..<?T]. k \<noteq> int smr + TWO24 * int trti) \<longrightarrow> map_of acc' k = map_of [] k) \<and>
    (\<forall>smr \<in> set [0..<length ?sms]. \<forall>trti \<in> set [0..<?T]. \<exists>rbg. map_of acc' (int smr + TWO24 * int trti) = Some rbg \<and>
       (\<forall>g. map_of rbg g = (if ordinals_of trti g (?rl smr) = [] then None else Some (ordinals_of trti g (?rl smr)))))"
  proof (rule ddic_outer)
    fix smr r trti assume "r \<in> set (?rl smr)" "trti \<in> set [0..<?T]"
    moreover from this have "r \<in> set rlzs" by (auto simp: py_slice_def dest: in_set_takeD in_set_dropD)
    ultimately show "trti < length (gs_value (lr_gsim_rlz r))" using assms(6) by simp
  next
    fix smr assume "smr \<in> set [0..<length ?sms]"
    then show "?get smr = Inr (?rl smr)" by (simp add: py_index_nonneg sm_slices_nth)
  qed (use assms(3) in auto)
  then obtain dic where d: "rlzs_by_gsim_dic full rlzs = Inr dic" and
    h: "\<And>i t. i < length ?sms \<Longrightarrow> t < ?T \<Longrightarrow> \<exists>rbg. map_of dic (int i + TWO24 * int t) = Some rbg \<and>
       (\<forall>g. map_of rbg g = (if ordinals_of t g (?rl i) = [] then None else Some (ordinals_of t g (?rl i))))"
    using assms(1,2) by (fastforce simp: rlzs_by_gsim_dic_def ddic_def Let_def)
  have "map_of (rlzs_by_gsim_of dic (trt_smr t i)) g = (let rs = filter (\<lambda>r. gs_value (lr_gsim_rlz (rlzs ! r)) ! t = g)
        [smr_start ?sms i..<smr_start ?sms (Suc i)] in if rs = [] then None else Some rs)"
    if it: "i < length ?sms" "t < ?T" for i t g
  proof -
    have "smr_start ?sms (Suc i) \<le> length rlzs"
      using smr_start_mono [of "Suc i" "length ?sms" ?sms] it(1) assms(5) by simp
    note o = ordinals_slice [OF assms(4) this, of t g "smr_start ?sms i"]
    obtain rbg where r: "map_of dic (int i + TWO24 * int t) = Some rbg" and
      m: "\<And>g. map_of rbg g = (if ordinals_of t g (?rl i) = [] then None else Some (ordinals_of t g (?rl i)))"
      using h [OF it] by blast
    have "rlzs_by_gsim_of dic (trt_smr t i) = rbg" using r by (simp add: rlzs_by_gsim_of_def trt_smr_def algebra_simps)
    then show ?thesis using m [of g] unfolding o Let_def by simp
  qed
  then show ?thesis using d by blast
qed

section \<open>Full enumeration\<close>

lemma list_all2_mem2: "list_all2 P xs ys \<Longrightarrow> y \<in> set ys \<Longrightarrow> \<exists>x \<in> set xs. P x y"
  by (induction rule: list_all2_induct) auto

lemma gsim_iter_values:
  assumes "gsim_ok lt" "gsim_iter lt = Inr gs" "r \<in> set gs"
  shows "length (gs_value r) = length (gl_values lt)"
proof -
  have "list_all2 (\<lambda>brs r. gs_value r = map gb_gsim brs) (gsim_paths lt) gs"
    using gsim_iter_rows [OF assms(1)] assms(2) by (auto elim: list.rel_mono_strong)
  then obtain brs where "brs \<in> set (gsim_paths lt)" "gs_value r = map gb_gsim brs"
    using assms(3) by (auto dest: list_all2_mem2)
  moreover from this have "length brs = length (gl_values lt)"
    using in_set_product_lists_length by (fastforce simp: gsim_paths_def itertools_product_def)
  ultimately show ?thesis by simp
qed

lemma full_init_Inr:
  assumes "full_init sm_lt full0 = Inr full"
  shows "fl_gsim full = fl_gsim full0" "fl_num_samples full = fl_num_samples full0" "fl_fake full = fl_fake full0"
    "fl_sm_rlzs full = (if fl_num_samples full0 \<noteq> 0 then get_effective_rlzs sm_lt
       else map (rz_samples_update (\<lambda>_. gsim_num_paths (fl_gsim full0))) sm_lt)"
    "int (length (fl_sm_rlzs full)) \<le> TWO24" "fl_trts full = keys (gl_values (fl_gsim full0))"
    "fl_trti full = map (\<lambda>(i, trt). (trt, i)) (enumerate 0 (fl_trts full))"
  using assms by (auto simp: full_init_def Let_def bindE_Inr_iff)

lemma enumerated_smr_start:
  "i \<le> length sm_lt \<Longrightarrow> smr_start (map (rz_samples_update (\<lambda>_. n)) sm_lt) i = i * n"
  by (simp add: smr_start_def take_map comp_def sum_list_triv min_def)

lemma length_enumerated: "length (enumerated_rlzs full gs) = length (fl_sm_rlzs full) * length gs"
  by (simp add: enumerated_rlzs_def)

lemma enumerated_gsims: "lr_gsim_rlz ` set (enumerated_rlzs full gs) \<subseteq> set gs"
  by (auto simp: enumerated_rlzs_def enumerate_eq_zip dest!: set_zip_rightD)

lemma length_eq_ordinals: "map lr_ordinal xs = [0..<n] \<Longrightarrow> length xs = n"
  by (metis length_map length_upt minus_nat.diff_0)

text \<open>
  The realizations in full enumeration: as many as the paths, numbered from 0, with weights that
  sum to one, and found by source model realization and region under their indices.
\<close>

lemma full_enumeration:
  assumes "full_init sm_lt full0 = Inr full" "fl_num_samples full0 = 0" "gsim_ok (fl_gsim full0)"
    "gl_branches (fl_gsim full0) \<noteq> []" "get_realizations [] full = Inr rlzs"
  shows "length rlzs = full_num_paths full" "map lr_ordinal rlzs = [0..<full_num_paths full]"
    "sum_list (map (\<lambda>r. last (lr_weight r)) rlzs) = 1"
    "\<And>r. r \<in> set rlzs \<Longrightarrow> length (gs_value (lr_gsim_rlz r)) = length (gl_values (fl_gsim full))"
proof -
  note i = full_init_Inr [OF assms(1)]
  obtain gs where gs: "gsim_iter (fl_gsim full) = Inr gs" and r: "rescale (enumerated_rlzs full gs) = Inr rlzs"
    using assms(2,5) i by (auto simp: get_realizations_def bindE_Inr_iff)
  have n: "length gs = gsim_num_paths (fl_gsim full)"
    using gsim_iter_length [OF assms(3,4)] gs i(1) by auto
  show o: "map lr_ordinal rlzs = [0..<full_num_paths full]"
    using rescale_ordinals [OF r] enumerated_ordinals [of full gs] n i assms(2) by (simp add: full_num_paths_def)
  show "length rlzs = full_num_paths full" by (rule length_eq_ordinals [OF o])
  show "sum_list (map (\<lambda>r. last (lr_weight r)) rlzs) = 1" by (rule rescale_total [OF r])
  have "map lr_gsim_rlz rlzs = map lr_gsim_rlz (enumerated_rlzs full gs)" using rescale_ordinals [OF r] by simp
  then have "lr_gsim_rlz ` set rlzs \<subseteq> set gs" using enumerated_gsims [of full gs] by (metis set_map)
  then show "length (gs_value (lr_gsim_rlz r)) = length (gl_values (fl_gsim full))" if "r \<in> set rlzs" for r
    using gsim_iter_values [OF assms(3) gs [unfolded i(1)]] that i(1) by auto
qed

section \<open>Alignment of the group indices\<close>

lemma get_gids_concat:
  "concat (get_gids dic g all_smrs) = [g..<g + sum_list (map (\<lambda>s. length (get_rlzs_by_gsim dic s)) all_smrs)]"
proof (induction dic g all_smrs rule: get_gids.induct)
  case (2 dic g t rest)
  let ?n = "length (get_rlzs_by_gsim dic t)" and ?m = "sum_list (map (\<lambda>s. length (get_rlzs_by_gsim dic s)) rest)"
  have "[g..<g + (?n + ?m)] = [g..<g + ?n] @ [g + ?n..<g + ?n + ?m]"
    using upt_add_eq_append [of g "g + ?n" ?m] by (simp add: add.assoc)
  then show ?case using 2 by (simp add: Let_def)
qed simp

lemma length_g_weights:
  "length (g_weights dic ws all_smrs) = sum_list (map (\<lambda>s. length (get_rlzs_by_gsim dic s)) all_smrs)"
  by (induction all_smrs) (simp_all add: g_weights_def)

lemma length_get_trt_rlzs:
  "get_trt_rlzs dic all_smrs = Inr data \<Longrightarrow> length data = sum_list (map (\<lambda>s. length (get_rlzs_by_gsim dic s)) all_smrs)"
proof (induction all_smrs arbitrary: data)
  case (Cons t rest)
  then obtain xs ys where "data = xs @ concat ys" "length xs = length (get_rlzs_by_gsim dic t)"
    "get_trt_rlzs dic rest = Inr (concat ys)"
    by (fastforce simp: get_trt_rlzs_def Let_def bindE_Inr_iff split: if_splits)
  then show ?case using Cons.IH by simp
qed (simp add: get_trt_rlzs_def)

section \<open>Source IDs\<close>

text \<open>\<open>corename\<close> cuts at the exclamation mark, so the file name of an ambiguous ID is never seen.\<close>

lemma tup_of_corename:
  "tup_of full trti (corename s) = bindE (sd_of full (hd (split_on CHR ''@'' (corename s))))
     (\<lambda>sd. Inr (Tup (smrs_of_branches full trti (fst ` set sd))))"
proof -
  have "CHR ''!'' \<notin> set (corename s)" by (auto simp: corename_def dest: set_takeWhileD)
  moreover have "set (hd (split_on c w)) \<subseteq> set w" for c :: char and w
    by (induction w rule: split_on.induct) (auto split: list.splits if_splits)
  ultimately have "CHR ''!'' \<notin> set (hd (split_on CHR ''@'' (corename s)))" by blast
  from split_on_plain [OF this] show ?thesis by (simp add: tup_of_def Let_def)
qed

end
