(* ===== verification/Modify.thy ===== *)
theory Modify
  imports Lt
begin

text \<open>
  Applying the uncertainties of a logic tree to the sources: \<open>apply_uncertainty\<close> and
  \<open>apply_uncertainties\<close> (openquake/hazardlib/lt.py), \<open>BranchSet.filter_source\<close>, and the dispatch of
  \<open>modify\<close> in openquake/hazardlib/source and openquake/hazardlib/mfd: which modifications a class
  supports and with which keyword arguments its methods can be called. A source keeps the list
  of modifications made to it; what a modification does to geometry and magnitudes is numeric
  and is not modelled, nor are the constraints checked after it.
\<close>

section \<open>Sources and their modifications\<close>

datatype source_class = AreaSource | CharacteristicFaultSource | ComplexFaultSource | KiteFaultSource
  | MultiFaultSource | MultiPointSource | NonParametricSeismicSource | PointSource
  | CollapsedPointSource | SimpleFaultSource

datatype mfd_class = ArbitraryMFD | EvenlyDiscretizedMFD | MultiMFD | TaperedGRMFD | TruncatedGRMFD
  | YoungsCoppersmith1985MFD

datatype uval = UNum pyfloat | UStr string | USeq "uval list" | UObj string "uval list"

type_synonym kwargs = "(string, uval) dict"

record source =
  so_class :: source_class
  so_source_id :: string
  so_trt :: string
  so_mfd :: mfd_class
  so_scaling_rate :: rat
  so_log :: "(string \<times> kwargs) list"

fun source_code :: "source_class \<Rightarrow> char" where
  "source_code AreaSource = CHR ''A''"
| "source_code CharacteristicFaultSource = CHR ''X''"
| "source_code ComplexFaultSource = CHR ''C''"
| "source_code KiteFaultSource = CHR ''K''"
| "source_code MultiFaultSource = CHR ''F''"
| "source_code MultiPointSource = CHR ''M''"
| "source_code NonParametricSeismicSource = CHR ''N''"
| "source_code PointSource = CHR ''P''"
| "source_code CollapsedPointSource = CHR ''p''"
| "source_code SimpleFaultSource = CHR ''S''"

fun MODIFICATIONS :: "source_class \<Rightarrow> string list" where
  "MODIFICATIONS AreaSource = [''set_geometry'', ''set_lower_seismogenic_depth'', ''set_upper_seismogenic_depth'']"
| "MODIFICATIONS CharacteristicFaultSource = [''set_geometry'', ''adjust_mfd_from_slip'']"
| "MODIFICATIONS ComplexFaultSource = [''set_geometry'', ''adjust_mfd_from_slip'']"
| "MODIFICATIONS KiteFaultSource = [''adjust_mfd_from_slip'']"
| "MODIFICATIONS MultiFaultSource = []"
| "MODIFICATIONS MultiPointSource = [''set_lower_seismogenic_depth'', ''set_upper_seismogenic_depth'']"
| "MODIFICATIONS NonParametricSeismicSource = []"
| "MODIFICATIONS PointSource = [''set_lower_seismogenic_depth'', ''set_upper_seismogenic_depth'']"
| "MODIFICATIONS CollapsedPointSource = []"
| "MODIFICATIONS SimpleFaultSource = [''adjust_dip'', ''adjust_mfd_from_slip'', ''set_bGR'', ''set_dip'',
     ''set_geometry'', ''set_lower_seismogenic_depth'', ''set_msr'', ''set_slip_rate'',
     ''set_mmax_truncatedGR'', ''recompute_mmax'']"

text \<open>The parameters of a method: those that must be given and those with a default.\<close>

type_synonym signature = "string list \<times> string list"

definition parametric_methods :: "(string, signature) dict" where
  "parametric_methods = [(''set_msr'', [''new_msr''], []), (''set_slip_rate'', [''slip_rate''], []),
     (''set_mmax_truncatedGR'', [''mmax''], []), (''recompute_mmax'', [], [''epsilon'']),
     (''adjust_mfd_from_slip'', [''slip_rate'', ''rigidity''], [''constant_term'', ''recompute_mmax''])]"

fun own_methods :: "source_class \<Rightarrow> (string, signature) dict" where
  "own_methods AreaSource = [(''set_geometry'', [''polygon''], []),
     (''set_lower_seismogenic_depth'', [''lsd''], []), (''set_upper_seismogenic_depth'', [''usd''], [])]"
| "own_methods CharacteristicFaultSource = [(''set_geometry'', [''surface''], [''surface_node''])]"
| "own_methods ComplexFaultSource = [(''set_geometry'', [''edges'', ''spacing''], [])]"
| "own_methods MultiPointSource = [(''set_lower_seismogenic_depth'', [''lsd''], []),
     (''set_upper_seismogenic_depth'', [''usd''], [])]"
| "own_methods PointSource = [(''set_lower_seismogenic_depth'', [''lsd''], []),
     (''set_upper_seismogenic_depth'', [''usd''], [])]"
| "own_methods CollapsedPointSource = [(''set_lower_seismogenic_depth'', [''lsd''], []),
     (''set_upper_seismogenic_depth'', [''usd''], [])]"
| "own_methods SimpleFaultSource = [(''set_geometry'', [''fault_trace'', ''upper_seismogenic_depth'',
       ''lower_seismogenic_depth'', ''dip'', ''spacing''], []), (''adjust_dip'', [''increment''], []),
     (''set_lower_seismogenic_depth'', [''lsd''], []), (''set_dip'', [''dip''], [])]"
| "own_methods _ = []"

definition is_parametric :: "source_class \<Rightarrow> bool" where
  "is_parametric c \<longleftrightarrow> c \<noteq> MultiFaultSource \<and> c \<noteq> NonParametricSeismicSource"

definition source_methods :: "source_class \<Rightarrow> (string, signature) dict" where
  "source_methods c = own_methods c @ (if is_parametric c then parametric_methods else [])"

text \<open>Calling a method with keyword arguments.\<close>

definition call_ok :: "signature \<Rightarrow> kwargs \<Rightarrow> bool" where
  "call_ok sig kw = (set (fst sig) \<subseteq> set (keys kw) \<and> set (keys kw) \<subseteq> set (fst sig @ snd sig))"

definition modify :: "string \<Rightarrow> kwargs \<Rightarrow> source \<Rightarrow> source res" where
  "modify modification parameters src =
     (if modification \<notin> set (MODIFICATIONS (so_class src)) then Inl ValueError
      else case map_of (source_methods (so_class src)) modification of
        None \<Rightarrow> Inl AttributeError
      | Some sig \<Rightarrow> if call_ok sig parameters
          then Inr (src\<lparr>so_log := so_log src @ [(modification, parameters)]\<rparr>) else Inl TypeError)"

definition truncated_gr_methods :: "(string, signature) dict" where
  "truncated_gr_methods = [(''increment_max_mag'', [''value''], []), (''set_max_mag'', [''value''], []),
     (''increment_b'', [''value''], []), (''set_ab'', [''a_val'', ''b_val''], []),
     (''set_bGR'', [''b_val''], []), (''increment_max_mag_no_mo_balance'', [''value''], [])]"

fun mfd_methods :: "mfd_class \<Rightarrow> (string, signature) dict" where
  "mfd_methods ArbitraryMFD = [(''set_mfd'', [''magnitudes'', ''occurrence_rates''], [])]"
| "mfd_methods EvenlyDiscretizedMFD = [(''set_mfd'', [''min_mag'', ''bin_width'', ''occurrence_rates''], [])]"
| "mfd_methods TruncatedGRMFD = truncated_gr_methods"
| "mfd_methods _ = []"

text \<open>A \<open>MultiMFD\<close> only records the modification, to pass it on to its point sources.\<close>

definition mfd_modify :: "string \<Rightarrow> kwargs \<Rightarrow> source \<Rightarrow> source res" where
  "mfd_modify modification parameters src =
     (if so_mfd src = MultiMFD then Inr (src\<lparr>so_log := so_log src @ [(modification, parameters)]\<rparr>)
      else case map_of (mfd_methods (so_mfd src)) modification of
        None \<Rightarrow> Inl ValueError
      | Some sig \<Rightarrow> if call_ok sig parameters
          then Inr (src\<lparr>so_log := so_log src @ [(modification, parameters)]\<rparr>) else Inl TypeError)"

section \<open>apply_uncertainty\<close>

definition u_float :: "uval \<Rightarrow> pyfloat res" where
  "u_float v = (case v of UNum x \<Rightarrow> Inr x | UStr s \<Rightarrow> py_float s | _ \<Rightarrow> Inl TypeError)"

text \<open>Unpacking a value into n variables.\<close>

definition unpack :: "nat \<Rightarrow> uval \<Rightarrow> uval list res" where
  "unpack n v = (case v of USeq l \<Rightarrow> if length l = n then Inr l else Inl ValueError | _ \<Rightarrow> Inl TypeError)"

definition points_of :: "uval \<Rightarrow> uval list res" where
  "points_of v = (case v of USeq l \<Rightarrow>
       mapE (\<lambda>p. case p of USeq c \<Rightarrow> Inr (UObj ''Point'' c) | _ \<Rightarrow> Inl TypeError) l
     | _ \<Rightarrow> Inl TypeError)"

definition edges_of :: "uval \<Rightarrow> uval list res" where
  "edges_of v = (case v of USeq l \<Rightarrow> mapE (\<lambda>c. bindE (points_of c) (\<lambda>ps. Inr (UObj ''Line'' ps))) l
     | _ \<Rightarrow> Inl TypeError)"

definition apply_uncertainty :: "string \<Rightarrow> source \<Rightarrow> uval \<Rightarrow> source res" where
  "apply_uncertainty utype src value =
    (if utype = ''areaSourceGeometryAbsolute'' then
       bindE (unpack 3 value) (\<lambda>l. bindE (points_of (l ! 0)) (\<lambda>ps.
         modify ''set_geometry'' [(''polygon'', UObj ''Polygon'' ps)] src))
     else if utype = ''simpleFaultDipRelative'' then modify ''adjust_dip'' [(''increment'', value)] src
     else if utype = ''simpleFaultDipAbsolute'' then modify ''set_dip'' [(''dip'', value)] src
     else if utype = ''simpleFaultGeometryAbsolute'' then
       bindE (unpack 5 value) (\<lambda>l. bindE (points_of (l ! 0)) (\<lambda>ps.
         modify ''set_geometry'' [(''fault_trace'', UObj ''Line'' ps), (''upper_seismogenic_depth'', l ! 1),
           (''lower_seismogenic_depth'', l ! 2), (''dip'', l ! 3), (''spacing'', l ! 4)] src))
     else if utype = ''complexFaultGeometryAbsolute'' then
       bindE (unpack 2 value) (\<lambda>l. bindE (edges_of (l ! 0)) (\<lambda>es.
         modify ''set_geometry'' [(''edges'', USeq es), (''spacing'', l ! 1)] src))
     else if utype = ''characteristicFaultGeometryAbsolute'' then
       modify ''set_geometry'' [(''surface'', UObj ''surface'' [value])] src
     else if utype = ''abGRAbsolute'' then
       bindE (unpack 2 value) (\<lambda>l. mfd_modify ''set_ab'' [(''a_val'', l ! 0), (''b_val'', l ! 1)] src)
     else if utype = ''bGRAbsolute'' then
       bindE (u_float value) (\<lambda>b. mfd_modify ''set_bGR'' [(''b_val'', UNum b)] src)
     else if utype = ''bGRRelative'' then mfd_modify ''increment_b'' [(''value'', value)] src
     else if utype = ''maxMagGRRelative'' then mfd_modify ''increment_max_mag'' [(''value'', value)] src
     else if utype = ''maxMagGRRelativeNoMoBalance'' then
       mfd_modify ''increment_max_mag_no_mo_balance'' [(''value'', value)] src
     else if utype = ''maxMagGRAbsolute'' then mfd_modify ''set_max_mag'' [(''value'', value)] src
     else if utype = ''incrementalMFDAbsolute'' then
       bindE (unpack 3 value) (\<lambda>l. mfd_modify ''set_mfd''
         [(''min_mag'', l ! 0), (''bin_width'', l ! 1), (''occurrence_rates'', l ! 2)] src)
     else if utype = ''truncatedGRFromSlipAbsolute'' then
       bindE (unpack 3 value) (\<lambda>l. modify ''adjust_mfd_from_slip''
         [(''slip_rate'', l ! 0), (''rigidity'', l ! 1), (''constant_term'', l ! 2)] src)
     else if utype = ''setMSRAbsolute'' then modify ''set_msr'' [(''new_msr'', value)] src
     else if utype = ''recomputeMmax'' then modify ''recompute_mmax'' [(''epsilon'', value)] src
     else if utype = ''setLowerSeismDepthAbsolute'' then
       bindE (u_float value) (\<lambda>d. modify ''set_lower_seismogenic_depth'' [(''lsd'', UNum d)] src)
     else if utype = ''setUpperSeismDepthAbsolute'' then
       bindE (u_float value) (\<lambda>d. modify ''set_upper_seismogenic_depth'' [(''lsd'', UNum d)] src)
     else if utype = ''dummy'' then Inr src
     else Inl KeyError)"

section \<open>Filters and groups\<close>

text \<open>
  \<open>filter_source\<close>. For a list of sources membership is meant, for a string a substring; a source
  with no length (\<open>__len__\<close> zero) would be false in \<open>if source\<close>, which no source has here.
\<close>

fun filter_source :: "filters \<Rightarrow> source \<Rightarrow> bool res" where
  "filter_source [] src = Inr True"
| "filter_source ((key, value) # rest) src =
     (if key = ''applyToTectonicRegionType'' then
        (if value \<noteq> FStr (so_trt src) then Inr False else filter_source rest src)
      else if key = ''applyToSources'' then
        (if \<not> (case value of FList l \<Rightarrow> so_source_id src \<in> set l | FStr s \<Rightarrow> contains s (so_source_id src))
         then Inr False else filter_source rest src)
      else if key = ''applyToBranches'' then filter_source rest src
      else Inl AssertionError)"

record src_group =
  sg_sources :: "source list"
  sg_changes :: nat

definition collapse_step :: "uval bset \<Rightarrow> source \<Rightarrow> source list res" where
  "collapse_step b src = mapE (\<lambda>br.
     apply_uncertainty (bs_utype b) (src\<lparr>so_scaling_rate := br_weight br\<rparr>) (br_value br)) (bs_branches b)"

text \<open>
  The loop over the branchsets for one source. The state is the copied source, whether it is the
  head of the output, the new sources made for collapsed branchsets, and the changes. The copy is
  appended only when nothing has been appended before; then its later changes are seen there.
\<close>

type_synonym apply_state = "source \<times> bool \<times> source list \<times> nat"

definition apply_step :: "apply_state \<Rightarrow> (uval bset \<times> uval) \<times> bool \<Rightarrow> apply_state res" where
  "apply_step st x = (case (st, x) of ((src, hd_in, news, changes), ((b, value), ok)) \<Rightarrow>
     if ok \<and> bs_collapsed b then
       (if so_class src = NonParametricSeismicSource then Inl NotImplementedError
        else bindE (collapse_step b src) (\<lambda>new. let news' = news @ new in
          Inr (src, hd_in, news', changes + (if hd_in then 1 else 0) + length news')))
     else if ok then
       bindE (apply_uncertainty (bs_utype b) src value) (\<lambda>src'.
         Inr (src', hd_in \<or> news = [], news, changes + 1))
     else Inr (src, hd_in, news, changes))"

definition apply_source :: "(uval bset \<times> uval) list \<Rightarrow> source \<Rightarrow> (source list \<times> nat) res" where
  "apply_source bset_values src =
     bindE (mapE (\<lambda>(b, v). filter_source (bs_filters b) src) bset_values) (\<lambda>oks.
     if list_ex id oks then
       bindE (foldE apply_step (src, False, [], 0) (zip bset_values oks)) (\<lambda>(src', hd_in, news, changes).
         Inr ((if hd_in then [src'] else []) @ news, changes))
     else Inr ([src], 0))"

definition apply_uncertainties :: "(uval bset \<times> uval) list \<Rightarrow> src_group \<Rightarrow> src_group res" where
  "apply_uncertainties bset_values sg = foldE (\<lambda>new src.
     bindE (apply_source bset_values src) (\<lambda>(srcs, changes).
       Inr \<lparr>sg_sources = sg_sources new @ srcs, sg_changes = sg_changes new + changes\<rparr>))
     \<lparr>sg_sources = [], sg_changes = 0\<rparr> (sg_sources sg)"

section \<open>What the modifications keep\<close>

text \<open>The same source, with more entries in its list of modifications.\<close>

definition same_source :: "source \<Rightarrow> source \<Rightarrow> bool" where
  "same_source a b \<longleftrightarrow> so_class b = so_class a \<and> so_source_id b = so_source_id a \<and> so_trt b = so_trt a
     \<and> so_mfd b = so_mfd a \<and> prefix (so_log a) (so_log b)"

lemma same_source_refl [simp]: "same_source a a"
  by (simp add: same_source_def)

lemma same_source_trans: "same_source a b \<Longrightarrow> same_source b c \<Longrightarrow> same_source a c"
  by (auto simp: same_source_def intro: prefix_order.trans)

lemma modify_same: "modify m kw src = Inr src' \<Longrightarrow> same_source src src' \<and> so_scaling_rate src' = so_scaling_rate src"
  by (auto simp: modify_def same_source_def split: if_splits option.splits)

lemma mfd_modify_same: "mfd_modify m kw src = Inr src' \<Longrightarrow> same_source src src' \<and> so_scaling_rate src' = so_scaling_rate src"
  by (auto simp: mfd_modify_def same_source_def split: if_splits option.splits)

lemma apply_uncertainty_same:
  assumes "apply_uncertainty utype src v = Inr src'"
  shows "same_source src src'"
  using assms modify_same mfd_modify_same unfolding apply_uncertainty_def
  by (force simp: bindE_Inr_iff split: if_splits)

lemma modify_not_supported: "m \<notin> set (MODIFICATIONS (so_class src)) \<Longrightarrow> modify m kw src = Inl ValueError"
  by (simp add: modify_def)

text \<open>\<open>usd\<close>, not \<open>lsd\<close>, is the parameter of every \<open>modify_set_upper_seismogenic_depth\<close>.\<close>

lemma modify_upper_lsd: "\<not> is_ok (modify ''set_upper_seismogenic_depth'' [(''lsd'', v)] src)"
  by (cases "so_class src")
    (simp_all add: modify_def source_methods_def parametric_methods_def is_parametric_def call_ok_def)

definition upper_depth_classes :: "source_class set" where
  "upper_depth_classes = {c. ''set_upper_seismogenic_depth'' \<in> set (MODIFICATIONS c)}"

lemma upper_depth_usd:
  "so_class src \<in> upper_depth_classes \<Longrightarrow> is_ok (modify ''set_upper_seismogenic_depth'' [(''usd'', v)] src)"
  by (cases "so_class src")
    (simp_all add: upper_depth_classes_def modify_def source_methods_def parametric_methods_def is_parametric_def call_ok_def)

text \<open>With no collapsed branchset every source gives one source, changed once per filter passed.\<close>

lemma apply_step_plain:
  "\<not> bs_collapsed b \<Longrightarrow> apply_step (src, h, news, c) ((b, v), ok) =
     (if ok then bindE (apply_uncertainty (bs_utype b) src v) (\<lambda>src'. Inr (src', h \<or> news = [], news, c + 1))
      else Inr (src, h, news, c))"
  by (simp add: apply_step_def)

lemma apply_steps:
  assumes "foldE apply_step (s0, h0, [], c0) l = Inr (s, h, news, c)"
    and "\<And>b v ok. ((b, v), ok) \<in> set l \<Longrightarrow> \<not> bs_collapsed b"
  shows "news = [] \<and> same_source s0 s \<and> c = c0 + length (filter snd l) \<and> (h \<longleftrightarrow> h0 \<or> list_ex snd l)"
  using assms
proof (induction l arbitrary: s0 h0 c0)
  case (Cons x l)
  obtain b v ok where x: "x = ((b, v), ok)" by (metis prod.exhaust)
  have nc: "\<not> bs_collapsed b" using Cons.prems(2) x by auto
  show ?case
  proof (cases ok)
    case True
    then obtain s1 where s1: "apply_uncertainty (bs_utype b) s0 v = Inr s1"
      and r: "foldE apply_step (s1, True, [], c0 + 1) l = Inr (s, h, news, c)"
      using Cons.prems(1) by (auto simp: x apply_step_plain [OF nc] bindE_Inr_iff)
    have "news = [] \<and> same_source s1 s \<and> c = c0 + 1 + length (filter snd l) \<and> h"
      using Cons.IH [OF r] Cons.prems(2) by auto
    then show ?thesis using apply_uncertainty_same [OF s1] True
      by (auto simp: x intro: same_source_trans)
  next
    case False
    then have r: "foldE apply_step (s0, h0, [], c0) l = Inr (s, h, news, c)"
      using Cons.prems(1) by (auto simp: x apply_step_plain [OF nc])
    show ?thesis using Cons.IH [OF r] Cons.prems(2) False by (auto simp: x)
  qed
qed simp

lemma apply_source_uncollapsed:
  assumes "apply_source bvs src = Inr (srcs, n)" and "\<And>b v. (b, v) \<in> set bvs \<Longrightarrow> \<not> bs_collapsed b"
  shows "\<exists>src'. srcs = [src'] \<and> same_source src src' \<and>
    n = length (filter (\<lambda>(b, v). filter_source (bs_filters b) src = Inr True) bvs) \<and> (n = 0 \<longrightarrow> src' = src)"
proof -
  obtain oks where oks: "list_all2 (\<lambda>(b, v) ok. filter_source (bs_filters b) src = Inr ok) bvs oks"
    and r: "(if list_ex id oks then
       bindE (foldE apply_step (src, False, [], 0) (zip bvs oks)) (\<lambda>(src', hd_in, news, changes).
         Inr ((if hd_in then [src'] else []) @ news, changes))
     else Inr ([src], 0)) = Inr (srcs, n)"
    using assms(1) by (auto simp: apply_source_def bindE_Inr_iff mapE_Inr_iff case_prod_unfold)
  have len: "length oks = length bvs" using oks by (auto dest: list_all2_lengthD)
  have filt: "length (filter snd (zip bvs oks)) =
      length (filter (\<lambda>(b, v). filter_source (bs_filters b) src = Inr True) bvs)"
    using oks by (induction bvs oks rule: list_all2_induct) auto
  have ex: "list_ex snd (zip bvs oks) \<longleftrightarrow> list_ex id oks"
    using len [symmetric] by (induction bvs oks rule: list_induct2) auto
  show ?thesis
  proof (cases "list_ex id oks")
    case True
    then obtain s h news where f: "foldE apply_step (src, False, [], 0) (zip bvs oks) = Inr (s, h, news, n)"
      and srcs: "srcs = (if h then [s] else []) @ news"
      using r by (auto simp: bindE_Inr_iff)
    have a: "news = [] \<and> same_source src s \<and> n = 0 + length (filter snd (zip bvs oks)) \<and>
        (h \<longleftrightarrow> False \<or> list_ex snd (zip bvs oks))"
      by (rule apply_steps [OF f]) (auto dest: set_zip_leftD assms(2))
    have "filter snd (zip bvs oks) \<noteq> []"
      using True unfolding ex [symmetric] by (auto simp: list_ex_iff filter_empty_conv)
    then have "n \<noteq> 0" using a by simp
    then show ?thesis using a True ex filt srcs by simp
  next
    case False
    then have "filter snd (zip bvs oks) = []"
      unfolding ex [symmetric] by (auto simp: list_ex_iff filter_empty_conv)
    then show ?thesis using r False filt by auto
  qed
qed

lemma apply_uncertainties_uncollapsed:
  assumes "apply_uncertainties bvs sg = Inr sg'" and "\<And>b v. (b, v) \<in> set bvs \<Longrightarrow> \<not> bs_collapsed b"
  shows "list_all2 same_source (sg_sources sg) (sg_sources sg')"
    and "sg_changes sg' = sum_list (map (\<lambda>src. length (filter
           (\<lambda>(b, v). filter_source (bs_filters b) src = Inr True) bvs)) (sg_sources sg))"
proof -
  let ?n = "\<lambda>src. length (filter (\<lambda>(b, v). filter_source (bs_filters b) src = Inr True) bvs)"
  have "list_all2 same_source (pre @ l) (sg_sources sg') \<and> sg_changes sg' = sg_changes new + sum_list (map ?n l)"
    if "foldE (\<lambda>new src. bindE (apply_source bvs src) (\<lambda>(srcs, changes).
       Inr \<lparr>sg_sources = sg_sources new @ srcs, sg_changes = sg_changes new + changes\<rparr>)) new l = Inr sg'"
      and "list_all2 same_source pre (sg_sources new)" for pre l new
    using that
  proof (induction l arbitrary: pre new)
    case (Cons src l)
    obtain srcs n where a: "apply_source bvs src = Inr (srcs, n)"
      and r: "foldE (\<lambda>new src. bindE (apply_source bvs src) (\<lambda>(srcs, changes).
       Inr \<lparr>sg_sources = sg_sources new @ srcs, sg_changes = sg_changes new + changes\<rparr>))
         \<lparr>sg_sources = sg_sources new @ srcs, sg_changes = sg_changes new + n\<rparr> l = Inr sg'"
      using Cons.prems(1) by (auto simp: bindE_Inr_iff)
    obtain src' where s: "srcs = [src']" "same_source src src'" "n = ?n src"
      using apply_source_uncollapsed [OF a] assms(2) by blast
    have "list_all2 same_source (pre @ [src]) (sg_sources new @ srcs)"
      using Cons.prems(2) s by (auto intro: list_all2_appendI)
    then show ?case using Cons.IH [OF r, of "pre @ [src]"] s(3) by simp
  qed simp
  from this [of _ "sg_sources sg" "[]"] assms(1)
  show "list_all2 same_source (sg_sources sg) (sg_sources sg')" "sg_changes sg' = sum_list (map ?n (sg_sources sg))"
    by (auto simp: apply_uncertainties_def)
qed

end
