(* ===== verification/Smlt.thy ===== *)
theory Smlt
  imports Full_Lt Modify
begin

text \<open>
  The source model logic tree (\<open>SourceModelLogicTree\<close> of openquake/hazardlib/logictree.py): the
  checks on its branchsets, the parsing of the branches, the attachment of the branchsets to the
  open ends, the count of the paths and the enumeration. Branches and branchsets live in the heap
  of Lt_Build. Given are the nodes of the file, what a source model file contains (pairs of a
  source ID and a tectonic region type) and the values of the uncertainties that are read from
  structured nodes. The environment variable \<open>OQ_REDUCE\<close> is not set.
\<close>

section \<open>Nodes and state\<close>

record um_node =
  un_id :: string
  un_weight :: rat
  un_text :: "string option"

record bs_node =
  bn_id :: string
  bn_utype :: string
  bn_trt :: "string option"
  bn_sources :: "string option"
  bn_branches :: "string option"
  bn_nodes :: "um_node list"

record smlt =
  sl_branchID :: string
  sl_source_id :: string
  sl_test_mode :: bool
  sl_heap :: "uval lt_heap"
  sl_branches :: "(string, nat) dict"
  sl_bsetdict :: "(string, bs_node) dict"
  sl_previous :: "nat list"
  sl_root :: "nat option"
  sl_branchsets :: "nat list"
  sl_applied :: "(nat, string) dict"
  sl_shortener :: "(string, string) dict"
  sl_source_data :: "source_row list"
  sl_trts :: "string list"

definition smlt_empty :: "string \<Rightarrow> string \<Rightarrow> bool \<Rightarrow> smlt" where
  "smlt_empty branchID src_id test_mode = \<lparr>sl_branchID = branchID, sl_source_id = src_id,
     sl_test_mode = test_mode, sl_heap = \<lparr>lh_branches = [], lh_bsets = [], lh_dummies = 1\<rparr>,
     sl_branches = [], sl_bsetdict = [], sl_previous = [], sl_root = None, sl_branchsets = [],
     sl_applied = [], sl_shortener = [], sl_source_data = [], sl_trts = []\<rparr>"

section \<open>Sources of a source model file\<close>

text \<open>\<open>get_trt_by_src\<close>, for the sources of the file in their order.\<close>

definition get_trt_by_src :: "(string \<times> string) list \<Rightarrow> string \<Rightarrow> (string, string) dict" where
  "get_trt_by_src srcs wanted = dict_update [] (filter (\<lambda>(i, trt). wanted = [] \<or> wanted = i)
     (map (\<lambda>(i, trt). (hd (split_on CHR '':'' i), trt)) srcs))"

text \<open>\<open>collect_source_model_data\<close>; an invalid source ID is an \<open>InvalidFile\<close>.\<close>

definition collect_step :: "string \<Rightarrow> string \<Rightarrow> smlt \<Rightarrow> string \<times> string \<Rightarrow> smlt res" where
  "collect_step brid fname sl st = (case st of (src_id, trt) \<Rightarrow>
     (case source_id src_id of Inl _ \<Rightarrow> Inl InvalidFile
      | Inr _ \<Rightarrow> Inr (sl\<lparr>sl_source_data := sl_source_data sl @ [(brid, trt, fname, src_id)],
          sl_trts := (if trt \<in> set (sl_trts sl) then sl_trts sl else sl_trts sl @ [trt])\<rparr>)))"

definition collect_source_model_data :: "(string \<Rightarrow> (string \<times> string) list res) \<Rightarrow> string \<Rightarrow> string \<Rightarrow> smlt \<Rightarrow>
    (smlt \<times> nat) res" where
  "collect_source_model_data file brid fname sl = bindE (file fname) (\<lambda>srcs.
     let wanted = hd (split_on CHR ''@'' (hd (split_on CHR ''!'' (sl_source_id sl))));
         trt_by_src = get_trt_by_src srcs wanted in
     bindE (foldE (collect_step brid fname) sl trt_by_src) (\<lambda>sl'. Inr (sl', length trt_by_src)))"

section \<open>Checks of a branchset\<close>

text \<open>The filters of a node, without \<open>applyToBranches\<close>, and \<open>validate_filters\<close>.\<close>

definition source_filters :: "bs_node \<Rightarrow> (string, string) dict" where
  "source_filters n = (case bn_trt n of None \<Rightarrow> [] | Some v \<Rightarrow> [(''applyToTectonicRegionType'', v)])
     @ (case bn_sources n of None \<Rightarrow> [] | Some v \<Rightarrow> [(''applyToSources'', v)])"

definition branches_with :: "smlt \<Rightarrow> string \<Rightarrow> string set" where
  "branches_with sl src_id = fst ` set (filter (\<lambda>(b, t, f, s). s = src_id) (sl_source_data sl))"

definition validate_filters :: "bs_node \<Rightarrow> smlt \<Rightarrow> unit res" where
  "validate_filters n sl = (let f = source_filters n; utype = bn_utype n in
     bindE (checkE (\<not> (utype = ''sourceModel'' \<and> f \<noteq> [])) LogicTreeError) (\<lambda>_.
     bindE (checkE (length f \<le> 1) LogicTreeError) (\<lambda>_.
     bindE (case bn_trt n of None \<Rightarrow> Inr () | Some t \<Rightarrow> checkE (t \<in> set (sl_trts sl)) LogicTreeError) (\<lambda>_.
     bindE (if endswith utype ''Absolute'' \<and> 1 < length (sl_source_data sl)
            then (case bn_sources n of None \<Rightarrow> Inl LogicTreeError
                  | Some s \<Rightarrow> checkE (length (split_ws s) = 1) LogicTreeError) else Inr ()) (\<lambda>_.
     bindE (checkE (utype \<in> {''simpleFaultDipRelative'', ''simpleFaultDipAbsolute''} \<longrightarrow> bn_sources n \<noteq> None)
            LogicTreeError) (\<lambda>_.
     case bn_sources n of None \<Rightarrow> Inr ()
     | Some s \<Rightarrow> foldE (\<lambda>_ src_id. let brids = branches_with sl src_id in
         if brids = {} then Inl LogicTreeError
         else checkE (card brids \<le> 1 \<or> bn_branches n \<noteq> None) LogicTreeError) ()
         (filter (\<lambda>x. sl_source_id sl = [] \<or> x = sl_source_id sl) (split_ws s))))))))"

text \<open>\<open>parse_filters\<close>: the sources and the branches as lists.\<close>

definition parse_filters :: "bs_node \<Rightarrow> smlt \<Rightarrow> filters" where
  "parse_filters n sl = (case bn_trt n of None \<Rightarrow> [] | Some v \<Rightarrow> [(''applyToTectonicRegionType'', FStr v)])
     @ (case bn_sources n of None \<Rightarrow> [] | Some v \<Rightarrow> [(''applyToSources'',
          FList (filter (\<lambda>x. sl_source_id sl = [] \<or> x = sl_source_id sl) (split_ws v)))])
     @ (case bn_branches n of None \<Rightarrow> [] | Some v \<Rightarrow> [(''applyToBranches'', FList (split_ws v))])"

definition validate_branchset :: "nat \<Rightarrow> string \<Rightarrow> unit res" where
  "validate_branchset bsno utype = (if bsno = 0 then checkE (utype = ''sourceModel'') LogicTreeError
     else checkE (utype \<noteq> ''sourceModel'' \<and> utype \<noteq> ''gmpeModel'') LogicTreeError)"

section \<open>Values of the branches\<close>

text \<open>
  \<open>parse_uncertainty\<close>: a single number unless the type has a parser of its own; those that read
  structured nodes are given by \<open>special\<close>.
\<close>

definition special_types :: "string list" where
  "special_types = [''incrementalMFDAbsolute'', ''truncatedGRFromSlipAbsolute'', ''setMSRAbsolute'',
     ''areaSourceGeometryAbsolute'', ''simpleFaultGeometryAbsolute'', ''complexFaultGeometryAbsolute'',
     ''characteristicFaultGeometryAbsolute'']"

definition parse_uncertainty :: "(string \<Rightarrow> um_node \<Rightarrow> uval res) \<Rightarrow> string \<Rightarrow> um_node \<Rightarrow> uval res" where
  "parse_uncertainty special utype n =
     (if utype \<in> {''sourceModel'', ''extendModel''}
        then (case un_text n of None \<Rightarrow> Inl AttributeError | Some t \<Rightarrow> Inr (UStr (strip t)))
      else if utype = ''abGRAbsolute''
        then (case un_text n of None \<Rightarrow> Inl AttributeError
          | Some t \<Rightarrow> (case split_ws t of
              [a, b] \<Rightarrow> (case (py_float a, py_float b) of
                 (Inr x, Inr y) \<Rightarrow> Inr (USeq [UNum x, UNum y]) | _ \<Rightarrow> Inl LogicTreeError)
            | _ \<Rightarrow> Inl LogicTreeError))
      else if utype \<in> set special_types then special utype n
      else (case un_text n of None \<Rightarrow> Inl LogicTreeError
          | Some t \<Rightarrow> (case py_float t of Inl _ \<Rightarrow> Inl LogicTreeError | Inr x \<Rightarrow> Inr (UNum x))))"

text \<open>
  The value of a branch of type \<open>sourceModel\<close> or \<open>extendModel\<close>: the files are read, and the value is
  reduced when one branch or one source is wanted. Any exception becomes a \<open>LogicTreeError\<close>.
\<close>

definition file_step :: "(string \<Rightarrow> (string \<times> string) list res) \<Rightarrow> string \<Rightarrow> smlt \<times> string list \<Rightarrow> string \<Rightarrow>
    (smlt \<times> string list) res" where
  "file_step file brid st fname = (case st of (sl, vals) \<Rightarrow>
     if (endswith fname ''.xml'' \<or> endswith fname ''.nrml'') \<and> \<not> sl_test_mode sl
     then bindE (collect_source_model_data file brid fname sl) (\<lambda>(sl', n).
       Inr (sl', if n \<noteq> 0 then vals @ [fname] else vals))
     else Inr (sl, vals))"

definition model_value :: "(string \<Rightarrow> (string \<times> string) list res) \<Rightarrow> um_node \<Rightarrow> uval \<Rightarrow> smlt \<Rightarrow> (smlt \<times> uval) res" where
  "model_value file n v sl =
     bindE (case bindE (of_option AttributeError (un_text n)) (\<lambda>t.
         foldE (file_step file (un_id n)) (sl, []) (split_ws t)) of
       Inl _ \<Rightarrow> Inl LogicTreeError | Inr r \<Rightarrow> Inr r) (\<lambda>(sl', vals).
     Inr (sl', if sl_branchID sl \<noteq> [] \<and> \<not> contains (un_id n) (sl_branchID sl) then UStr []
       else if sl_source_id sl \<noteq> []
         then UStr (join '' '' (reduce_fnames vals (hd (split_on CHR ''@'' (sl_source_id sl)))))
       else v))"

text \<open>\<open>BASE183[brno]\<close>, and \<open>BASE33489[brno]\<close> for the first branchset.\<close>

definition short_key :: "nat \<Rightarrow> nat \<Rightarrow> string res" where
  "short_key bsno brno = bindE (if bsno \<noteq> 0 then bindE (py_index base183 (int brno)) (\<lambda>c. Inr [c])
       else if brno < 33489 then Inr [base183 ! (brno div 183), base183 ! (brno mod 183)]
       else Inl IndexError) (\<lambda>k. Inr (k @ show_nat bsno))"

text \<open>One branch of \<open>parse_branches\<close>; the accumulators are the texts, the weights, the empty branches
  and the addresses of the new branches.\<close>

record branch_acc =
  ba_sl :: smlt
  ba_values :: "string list"
  ba_sum :: rat
  ba_zeros :: "rat list"
  ba_zero_id :: string
  ba_new :: "nat list"

definition new_branch :: "string \<Rightarrow> string \<Rightarrow> rat \<Rightarrow> uval \<Rightarrow> uval lt_heap \<Rightarrow> uval lt_heap" where
  "new_branch bsid brid w v h = h\<lparr>lh_branches := lh_branches h @ [\<lparr>hb_bs_id = bsid, hb_branch_id = brid,
     hb_weight = w, hb_value = Some v, hb_short_id = [], hb_bset = None\<rparr>]\<rparr>"

definition add_branch :: "string \<Rightarrow> string \<Rightarrow> rat \<Rightarrow> uval \<Rightarrow> branch_acc \<Rightarrow> branch_acc" where
  "add_branch bsid brid w v ba = (let sl = ba_sl ba; a = length (lh_branches (sl_heap sl)) in
     ba\<lparr>ba_sl := sl\<lparr>sl_heap := new_branch bsid brid w v (sl_heap sl),
          sl_branches := AList.update brid a (sl_branches sl)\<rparr>,
        ba_new := ba_new ba @ [a]\<rparr>)"

text \<open>The value of a branch, and what is done with it.\<close>

definition branch_value :: "(string \<Rightarrow> um_node \<Rightarrow> uval res) \<Rightarrow> (string \<Rightarrow> (string \<times> string) list res) \<Rightarrow>
    string \<Rightarrow> um_node \<Rightarrow> branch_acc \<Rightarrow> (branch_acc \<times> uval) res" where
  "branch_value special file utype n ba =
     bindE (parse_uncertainty special utype n) (\<lambda>v.
     bindE (if utype \<in> {''sourceModel'', ''extendModel''} then model_value file n v (ba_sl ba)
            else Inr (ba_sl ba, v)) (\<lambda>(sl, v').
     Inr (ba\<lparr>ba_values := ba_values ba @ (case un_text n of None \<Rightarrow> [] | Some t \<Rightarrow> [strip t]), ba_sl := sl\<rparr>, v')))"

definition keep_branch :: "string \<Rightarrow> um_node \<Rightarrow> string \<Rightarrow> branch_acc \<times> uval \<Rightarrow> branch_acc" where
  "keep_branch bsid n short bv = (case bv of (ba, v) \<Rightarrow>
     let ba' = (if v = UStr [] then ba\<lparr>ba_zero_id := un_id n, ba_zeros := ba_zeros ba @ [un_weight n]\<rparr>
                else add_branch bsid (un_id n) (un_weight n) v ba) in
     ba'\<lparr>ba_sl := (ba_sl ba')\<lparr>sl_shortener := AList.update (un_id n) short (sl_shortener (ba_sl ba'))\<rparr>,
         ba_sum := ba_sum ba' + un_weight n\<rparr>)"

definition parse_branch :: "(string \<Rightarrow> um_node \<Rightarrow> uval res) \<Rightarrow> (string \<Rightarrow> (string \<times> string) list res) \<Rightarrow>
    string \<Rightarrow> string \<Rightarrow> nat \<Rightarrow> branch_acc \<Rightarrow> nat \<times> um_node \<Rightarrow> branch_acc res" where
  "parse_branch special file bsid utype bsno ba x = (case x of (brno, n) \<Rightarrow>
     bindE (branch_value special file utype n ba) (\<lambda>bv.
     bindE (checkE (\<not> has_key (sl_branches (ba_sl (fst bv))) (un_id n)) LogicTreeError) (\<lambda>_.
     bindE (short_key bsno brno) (\<lambda>short. Inr (keep_branch bsid n short bv)))))"

definition parse_branches :: "(string \<Rightarrow> um_node \<Rightarrow> uval res) \<Rightarrow> (string \<Rightarrow> (string \<times> string) list res) \<Rightarrow>
    bs_node \<Rightarrow> smlt \<Rightarrow> (smlt \<times> nat list) res" where
  "parse_branches special file n sl =
     bindE (checkE (sl_branchID sl \<noteq> [] \<or> length (bn_nodes n) \<le> 183) InvalidFile) (\<lambda>_.
     bindE (foldE (parse_branch special file (bn_id n) (bn_utype n) (length (sl_branchsets sl)))
       \<lparr>ba_sl = sl, ba_values = [], ba_sum = 0, ba_zeros = [], ba_zero_id = [], ba_new = []\<rparr>
       (enumerate 0 (bn_nodes n))) (\<lambda>ba.
     let ba' = (if ba_zeros ba \<noteq> [] then add_branch (bn_id n) (ba_zero_id ba) (sum_list (ba_zeros ba)) (UStr []) ba
                else ba) in
     bindE (checkE (\<bar>ba_sum ba - 1\<bar> \<le> 1 / 10 ^ 7) LogicTreeError) (\<lambda>_.
     bindE (checkE (concat (ba_values ba) = [] \<or> distinct (ba_values ba)) LogicTreeError) (\<lambda>_.
     Inr (ba_sl ba', ba_new ba')))))"

section \<open>Attaching a branchset\<close>

definition heap_is_leaf :: "uval lt_heap \<Rightarrow> nat \<Rightarrow> bool" where
  "heap_is_leaf h a = (case hb_bset (lh_branches h ! a) of None \<Rightarrow> True
     | Some b \<Rightarrow> hs_utype (lh_bsets h ! b) = ''dummy'')"

text \<open>\<open>apply_branchset\<close>: only known branches without a child can be extended.\<close>

definition apply_one :: "nat \<Rightarrow> smlt \<Rightarrow> string \<Rightarrow> smlt res" where
  "apply_one b sl brid = (case map_of (sl_branches sl) brid of
     None \<Rightarrow> Inl LogicTreeError
   | Some a \<Rightarrow> if \<not> heap_is_leaf (sl_heap sl) a then Inl LogicTreeError
       else Inr (sl\<lparr>sl_heap := set_bset a b (sl_heap sl)\<rparr>))"

definition apply_branchset :: "string list \<Rightarrow> nat \<Rightarrow> smlt \<Rightarrow> smlt res" where
  "apply_branchset brids b sl = foldE (apply_one b) sl brids"

text \<open>The open ends that the branchset does not apply to get a dummy branchset each.\<close>

definition add_dummy :: "smlt \<times> nat list \<Rightarrow> string \<Rightarrow> smlt \<times> nat list" where
  "add_dummy st brid = (case st of (sl, dummies) \<Rightarrow>
     (case map_of (sl_branches sl) brid of
        None \<Rightarrow> (sl, dummies)
      | Some a \<Rightarrow> (case dummy_branchset (sl_heap sl) of (h, db, da) \<Rightarrow>
          (sl\<lparr>sl_heap := set_bset a db h, sl_branches := AList.update ''.'' da (sl_branches sl)\<rparr>, dummies @ [da]))))"

definition attach :: "bs_node \<Rightarrow> nat \<Rightarrow> nat list \<Rightarrow> smlt \<Rightarrow> smlt res" where
  "attach n b new sl = (let h = sl_heap sl; prev_ids = branch_ids h (sl_previous sl);
       app2brs = (case bn_branches n of None \<Rightarrow> prev_ids | Some t \<Rightarrow> if t = [] then prev_ids else split_ws t);
       not_applied = filter (\<lambda>i. i \<notin> set app2brs) (remdups prev_ids) in
     bindE (if not_applied \<noteq> [] then
         bindE (apply_branchset app2brs b (sl\<lparr>sl_applied := AList.update b (case bn_branches n of None \<Rightarrow> [] | Some t \<Rightarrow> t) (sl_applied sl)\<rparr>))
           (\<lambda>sl1. Inr (foldl add_dummy (sl1, []) not_applied))
       else Inr (sl\<lparr>sl_heap := foldl (\<lambda>h a. set_bset a b h) h (sl_previous sl)\<rparr>, [])) (\<lambda>(sl1, dummies).
     Inr (sl1\<lparr>sl_previous := new @ dummies, sl_branchsets := sl_branchsets sl1 @ [b]\<rparr>)))"

text \<open>
  \<open>parse_branchset\<close>. A branchset for sources of which none is wanted is ignored; one that is left
  without branches is forgotten, but remains the root when it was the first.
\<close>

definition new_bset :: "bs_node \<Rightarrow> filters \<Rightarrow> smlt \<Rightarrow> smlt" where
  "new_bset n filts sl = sl\<lparr>sl_heap := (sl_heap sl)\<lparr>lh_bsets := lh_bsets (sl_heap sl) @
       [\<lparr>hs_utype = bn_utype n, hs_ordinal = length (sl_bsetdict sl), hs_filters = filts,
         hs_collapsed = False, hs_branches = []\<rparr>]\<rparr>,
     sl_bsetdict := AList.update (bn_id n) n (sl_bsetdict sl)\<rparr>"

definition fill_bset :: "nat \<Rightarrow> nat list \<Rightarrow> smlt \<Rightarrow> smlt" where
  "fill_bset b new sl = sl\<lparr>sl_heap := (sl_heap sl)\<lparr>lh_bsets := (lh_bsets (sl_heap sl))[b :=
     (lh_bsets (sl_heap sl) ! b)\<lparr>hs_branches := new\<rparr>]\<rparr>\<rparr>"

definition parse_branchset :: "(string \<Rightarrow> um_node \<Rightarrow> uval res) \<Rightarrow> (string \<Rightarrow> (string \<times> string) list res) \<Rightarrow>
    smlt \<Rightarrow> nat \<times> bs_node \<Rightarrow> smlt res" where
  "parse_branchset special file sl x = (case x of (bsno, n) \<Rightarrow>
     bindE (validate_filters n sl) (\<lambda>_.
     let filts = parse_filters n sl in
     if map_of filts ''applyToSources'' = Some (FList []) then Inr sl else
     let b = length (lh_bsets (sl_heap sl)) in
     bindE (checkE (\<not> has_key (sl_bsetdict sl) (bn_id n)) DuplicatedID) (\<lambda>_.
     bindE (validate_branchset bsno (bn_utype n)) (\<lambda>_.
     bindE (parse_branches special file n (new_bset n filts sl)) (\<lambda>(sl1, new).
     let sl2 = fill_bset b new sl1;
         sl3 = (if sl_root sl2 = None then sl2\<lparr>sl_root := Some b\<rparr> else sl2) in
     if new = [] then Inr (sl3\<lparr>sl_bsetdict := dict_pop (bn_id n) (sl_bsetdict sl3)\<rparr>)
     else attach n b new sl3)))))"

definition parse_tree :: "(string \<Rightarrow> um_node \<Rightarrow> uval res) \<Rightarrow> (string \<Rightarrow> (string \<times> string) list res) \<Rightarrow>
    bs_node list \<Rightarrow> smlt \<Rightarrow> smlt res" where
  "parse_tree special file nodes sl = foldE (parse_branchset special file) sl (enumerate 0 nodes)"

section \<open>Number of paths\<close>

text \<open>\<open>read_root\<close> unfolds the links from the root of the tree.\<close>

definition read_root :: "smlt \<Rightarrow> uval option bset option" where
  "read_root sl = (case sl_root sl of None \<Rightarrow> None
     | Some b \<Rightarrow> read_bset (length (lh_bsets (sl_heap sl))) (sl_heap sl) b)"

definition slow_num_paths :: "smlt \<Rightarrow> nat option" where
  "slow_num_paths sl = map_option (\<lambda>t. count_paths (bs_branches t)) (read_root sl)"

text \<open>
  The tree is source specific when every branchset after the first applies to one source and to
  all the open ends. Then \<open>decompose\<close> collects the branchsets of each source, the first one alone
  under no source when it has more than one branch, and the number of paths is a product.
\<close>

definition single_source :: "bs_node \<Rightarrow> bool" where
  "single_source n = (case bn_sources n of None \<Rightarrow> False | Some s \<Rightarrow> s \<noteq> [] \<and> length (split_ws s) = 1)"

definition is_source_specific :: "smlt \<Rightarrow> bool" where
  "is_source_specific sl = (let dicts = tl (map snd (sl_bsetdict sl)) in
     dicts \<noteq> [] \<and> list_all single_source dicts \<and> sl_applied sl = [])"

definition bset_size :: "smlt \<Rightarrow> nat \<Rightarrow> nat" where
  "bset_size sl b = length (hs_branches (lh_bsets (sl_heap sl) ! b))"

definition source_of :: "smlt \<Rightarrow> nat \<Rightarrow> string option res" where
  "source_of sl b = (case map_of (hs_filters (lh_bsets (sl_heap sl) ! b)) ''applyToSources'' of
     None \<Rightarrow> Inl KeyError
   | Some v \<Rightarrow> (case fval_list v of [] \<Rightarrow> Inr None | [i] \<Rightarrow> Inr (Some i) | _ \<Rightarrow> Inl ValueError))"

definition decompose_step :: "smlt \<Rightarrow> (string, nat list) dict \<Rightarrow> nat \<Rightarrow> (string, nat list) dict res" where
  "decompose_step sl acc b = bindE (source_of sl b) (\<lambda>src. case src of None \<Rightarrow> Inr acc
     | Some i \<Rightarrow> Inr (AList.update i ((case map_of acc i of None \<Rightarrow> [] | Some bs \<Rightarrow> bs) @ [b]) acc))"

definition decompose :: "smlt \<Rightarrow> (string option, nat list) dict res" where
  "decompose sl = bindE (checkE (is_source_specific sl) AssertionError) (\<lambda>_.
     case sl_branchsets sl of [] \<Rightarrow> Inl IndexError
     | first # rest \<Rightarrow> bindE (foldE (decompose_step sl) [] rest) (\<lambda>acc.
         Inr ((if 1 < bset_size sl first then [(None, [first])] else []) @ map (\<lambda>(i, bs). (Some i, bs)) acc)))"

text \<open>The number of paths of a \<open>SourceLogicTree\<close>, and \<open>set_num_paths\<close>.\<close>

definition sslt_num_paths :: "smlt \<Rightarrow> nat list \<Rightarrow> nat" where
  "sslt_num_paths sl bs = prod_list (map (bset_size sl) bs)"

definition num_paths :: "smlt \<Rightarrow> nat res option" where
  "num_paths sl = (if is_source_specific sl
     then Some (bindE (decompose sl) (\<lambda>d. Inr (prod_list (map (\<lambda>(i, bs). sslt_num_paths sl bs) d))))
     else map_option Inr (slow_num_paths sl))"

section \<open>Enumeration and sampling\<close>

text \<open>
  \<open>__iter__\<close>: in full enumeration the realizations are sorted by their path. In sampling the random
  numbers are given, a row for each sample.
\<close>

definition smlt_enumerate :: "uval option bset \<Rightarrow> uval option list realization list res" where
  "smlt_enumerate top_bset = bindE (enumerate_paths top_bset) (\<lambda>rows.
     let rlzs = sort_key rz_pid (map (\<lambda>(w, brs). \<lparr>rz_value = map br_value brs, rz_weight = w, rz_ordinal = 0,
           rz_lt_path = map br_branch_id brs, rz_samples = 1\<rparr>) rows) in
     Inr (map (\<lambda>(r, rlz). rlz\<lparr>rz_ordinal := r\<rparr>) (enumerate 0 rlzs)))"

definition smlt_sample :: "(nat \<Rightarrow> rat list) \<Rightarrow> rat list list \<Rightarrow> string \<Rightarrow> uval option bset \<Rightarrow>
    uval option list realization list res" where
  "smlt_sample arange probs_list sampling_method top_bset =
     bindE (bs_sample arange top_bset probs_list sampling_method) (\<lambda>paths.
     mapE (\<lambda>(ordinal, brs). bindE
         (if startswith sampling_method ''early_'' then Inr (1 / of_nat (length probs_list))
          else if startswith sampling_method ''late_'' then Inr (prod_list (map br_weight brs))
          else Inl NotImplementedError) (\<lambda>w.
       Inr \<lparr>rz_value = map br_value brs, rz_weight = w, rz_ordinal = ordinal,
            rz_lt_path = map br_branch_id brs, rz_samples = 1\<rparr>)) (enumerate 0 paths))"

section \<open>What the parsing of the branches does to the state\<close>

text \<open>
  Reading the branches of a branchset only appends to the heap: new branches without a child, whose
  addresses are collected and whose weights have the given sum. The rest of the state that the
  attachment uses stays.
\<close>

definition extended :: "smlt \<Rightarrow> smlt \<Rightarrow> nat list \<Rightarrow> rat \<Rightarrow> bool" where
  "extended sl sl' new w \<longleftrightarrow> lh_bsets (sl_heap sl') = lh_bsets (sl_heap sl) \<and>
     (\<exists>news. lh_branches (sl_heap sl') = lh_branches (sl_heap sl) @ news \<and>
        new = [length (lh_branches (sl_heap sl))..<length (lh_branches (sl_heap sl'))] \<and>
        list_all (\<lambda>br. hb_bset br = None) news \<and> sum_list (map hb_weight news) = w) \<and>
     sl_source_id sl' = sl_source_id sl \<and> sl_bsetdict sl' = sl_bsetdict sl \<and> sl_previous sl' = sl_previous sl \<and>
     sl_root sl' = sl_root sl \<and> sl_branchsets sl' = sl_branchsets sl \<and> sl_applied sl' = sl_applied sl"

definition same_tree :: "smlt \<Rightarrow> smlt \<Rightarrow> bool" where
  "same_tree sl sl' \<longleftrightarrow> sl_heap sl' = sl_heap sl \<and> sl_source_id sl' = sl_source_id sl \<and> sl_bsetdict sl' = sl_bsetdict sl \<and>
     sl_previous sl' = sl_previous sl \<and> sl_root sl' = sl_root sl \<and> sl_branchsets sl' = sl_branchsets sl \<and>
     sl_applied sl' = sl_applied sl"

lemma same_tree_refl [simp]: "same_tree sl sl"
  by (simp add: same_tree_def)

lemma same_tree_trans: "same_tree a b \<Longrightarrow> same_tree b c \<Longrightarrow> same_tree a c"
  by (simp add: same_tree_def)

lemma collect_same_tree:
  assumes "collect_source_model_data file brid fname sl = Inr (sl', n)" shows "same_tree sl sl'"
proof -
  obtain kvs where "foldE (collect_step brid fname) sl kvs = Inr sl'"
    using assms by (auto simp: collect_source_model_data_def Let_def bindE_Inr_iff)
  then show ?thesis
  proof (rule foldE_invariant)
    fix s x s' assume "same_tree sl s" "collect_step brid fname s x = Inr s'"
    then show "same_tree sl s'"
      by (auto simp: collect_step_def same_tree_def split: prod.splits sum.splits)
  qed simp
qed

lemma model_value_same_tree:
  assumes "model_value file n v sl = Inr (sl', v')" shows "same_tree sl sl'"
proof -
  obtain words vals where "foldE (file_step file (un_id n)) (sl, []) words = Inr (sl', vals)"
    using assms by (auto simp: model_value_def bindE_Inr_iff split: sum.splits)
  then have "(\<lambda>(s, vs). same_tree sl s) (sl', vals)"
  proof (rule foldE_invariant)
    fix st x st' assume st: "(\<lambda>(s, vs). same_tree sl s) st" "file_step file (un_id n) st x = Inr st'"
    obtain s vs where "st = (s, vs)" by (cases st)
    then show "(\<lambda>(s, vs). same_tree sl s) st'"
      using st by (auto simp: file_step_def bindE_Inr_iff split: if_splits
        dest!: collect_same_tree intro: same_tree_trans)
  qed simp
  then show ?thesis by simp
qed

lemma extended_refl: "extended sl sl [] 0"
  by (simp add: extended_def)

lemma extended_same: "extended sl sl1 new w \<Longrightarrow> same_tree sl1 sl2 \<Longrightarrow> extended sl sl2 new w"
  by (simp add: extended_def same_tree_def)

lemma extended_add:
  assumes "extended sl (ba_sl ba) (ba_new ba) w"
  shows "extended sl (ba_sl (add_branch bsid brid x v ba)) (ba_new (add_branch bsid brid x v ba)) (w + x)"
  using assms by (auto simp: extended_def add_branch_def new_branch_def Let_def upt_Suc_append)

text \<open>The invariant of the loop: the branches made so far and the empty ones have the weights read so far.\<close>

definition acc_ok :: "smlt \<Rightarrow> branch_acc \<Rightarrow> nat \<Rightarrow> bool" where
  "acc_ok sl ba k \<longleftrightarrow> extended sl (ba_sl ba) (ba_new ba) (ba_sum ba - sum_list (ba_zeros ba)) \<and>
     length (ba_new ba) + length (ba_zeros ba) = k"

lemma branch_value_acc:
  assumes "branch_value special file utype n ba = Inr (ba', v)" "acc_ok sl ba k"
  shows "acc_ok sl ba' k \<and> ba_sum ba' = ba_sum ba"
proof -
  obtain u sl1 where m: "(if utype \<in> {''sourceModel'', ''extendModel''} then model_value file n u (ba_sl ba)
        else Inr (ba_sl ba, u)) = Inr (sl1, v)"
    and "ba' = ba\<lparr>ba_values := ba_values ba @ (case un_text n of None \<Rightarrow> [] | Some t \<Rightarrow> [strip t]), ba_sl := sl1\<rparr>"
    using assms(1) unfolding branch_value_def bindE_Inr_iff by force
  moreover have "same_tree (ba_sl ba) sl1" using m model_value_same_tree by (auto split: if_splits)
  ultimately show ?thesis using assms(2) extended_same by (auto simp: acc_ok_def)
qed

lemma keep_branch_acc:
  assumes "acc_ok sl ba k"
  shows "acc_ok sl (keep_branch bsid n short (ba, v)) (Suc k) \<and>
    ba_sum (keep_branch bsid n short (ba, v)) = ba_sum ba + un_weight n"
proof -
  have e: "extended sl (ba_sl ba) (ba_new ba) (ba_sum ba - sum_list (ba_zeros ba))"
    using assms by (simp add: acc_ok_def)
  have short: "extended sl (s\<lparr>sl_shortener := x\<rparr>) new w = extended sl s new w" for s x new w
    by (simp add: extended_def)
  show ?thesis
  proof (cases "v = UStr []")
    case True
    then show ?thesis using e assms by (simp add: keep_branch_def Let_def acc_ok_def short)
  next
    case False
    let ?ba = "add_branch bsid (un_id n) (un_weight n) v ba"
    have "extended sl (ba_sl ?ba) (ba_new ?ba) (ba_sum ba - sum_list (ba_zeros ba) + un_weight n)"
      using extended_add [OF e] .
    moreover have "ba_sum ?ba = ba_sum ba" "ba_zeros ?ba = ba_zeros ba" "length (ba_new ?ba) = Suc (length (ba_new ba))"
      by (simp_all add: add_branch_def Let_def)
    ultimately show ?thesis using False assms
      by (simp add: keep_branch_def Let_def acc_ok_def short algebra_simps)
  qed
qed

lemma parse_branch_acc:
  assumes "parse_branch special file bsid utype bsno ba (brno, n) = Inr ba'" "acc_ok sl ba k"
  shows "acc_ok sl ba' (Suc k) \<and> ba_sum ba' = ba_sum ba + un_weight n"
proof -
  obtain ba1 v short where "branch_value special file utype n ba = Inr (ba1, v)" "ba' = keep_branch bsid n short (ba1, v)"
    using assms(1) by (auto simp: parse_branch_def bindE_Inr_iff)
  then show ?thesis using branch_value_acc [OF _ assms(2)] keep_branch_acc by metis
qed

lemma parse_branches_fold:
  assumes "foldE (parse_branch special file bsid utype bsno) ba (enumerate i ns) = Inr ba'" "acc_ok sl ba k"
  shows "acc_ok sl ba' (k + length ns) \<and> ba_sum ba' = ba_sum ba + sum_list (map un_weight ns)"
  using assms
proof (induction ns arbitrary: i ba k)
  case (Cons n ns)
  obtain ba1 where s: "parse_branch special file bsid utype bsno ba (i, n) = Inr ba1"
    "foldE (parse_branch special file bsid utype bsno) ba1 (enumerate (Suc i) ns) = Inr ba'"
    using Cons.prems(1) by (auto simp: bindE_Inr_iff)
  have a: "acc_ok sl ba1 (Suc k)" "ba_sum ba1 = ba_sum ba + un_weight n"
    using parse_branch_acc [OF s(1) Cons.prems(2)] by auto
  show ?case using Cons.IH [OF s(2) a(1)] a(2) by (simp add: add.assoc)
qed simp

text \<open>Every branchset that is accepted has branches, whose weights sum to those of its nodes.\<close>

lemma parse_branches_extended:
  assumes "parse_branches special file n sl = Inr (sl', new)"
  shows "extended sl sl' new (sum_list (map un_weight (bn_nodes n)))" and "new \<noteq> []"
    and "\<bar>sum_list (map un_weight (bn_nodes n)) - 1\<bar> \<le> 1 / 10 ^ 7"
proof -
  let ?ba0 = "\<lparr>ba_sl = sl, ba_values = [], ba_sum = 0, ba_zeros = [], ba_zero_id = [], ba_new = []\<rparr>"
  let ?fin = "\<lambda>ba. if ba_zeros ba \<noteq> [] then add_branch (bn_id n) (ba_zero_id ba) (sum_list (ba_zeros ba)) (UStr []) ba else ba"
  obtain ba where f: "foldE (parse_branch special file (bn_id n) (bn_utype n) (length (sl_branchsets sl))) ?ba0
      (enumerate 0 (bn_nodes n)) = Inr ba"
    and w: "\<bar>ba_sum ba - 1\<bar> \<le> 1 / 10 ^ 7" and r: "sl' = ba_sl (?fin ba)" "new = ba_new (?fin ba)"
    using assms by (auto simp: parse_branches_def bindE_Inr_iff Let_def)
  have "acc_ok sl ?ba0 0" by (simp add: acc_ok_def extended_refl)
  from parse_branches_fold [OF f this] have ok: "acc_ok sl ba (length (bn_nodes n))"
    and s: "ba_sum ba = sum_list (map un_weight (bn_nodes n))" by auto
  have e: "extended sl (ba_sl ba) (ba_new ba) (ba_sum ba - sum_list (ba_zeros ba))"
    and l: "length (ba_new ba) + length (ba_zeros ba) = length (bn_nodes n)"
    using ok by (auto simp: acc_ok_def)
  show "extended sl sl' new (sum_list (map un_weight (bn_nodes n)))"
    using e extended_add [OF e, of "bn_id n" "ba_zero_id ba" "sum_list (ba_zeros ba)" "UStr []"] s
    by (cases "ba_zeros ba = []") (simp_all add: r)
  show "\<bar>sum_list (map un_weight (bn_nodes n)) - 1\<bar> \<le> 1 / 10 ^ 7" using w s by simp
  have "bn_nodes n \<noteq> []" using w s by auto
  then show "new \<noteq> []" using l by (auto simp: r add_branch_def Let_def split: if_splits)
qed

section \<open>The weights of the tree\<close>

lemma bset_ok_append:
  assumes "bset_ok h x" "lh_branches h' = lh_branches h @ news" shows "bset_ok h' x"
proof -
  have "map (\<lambda>a. hb_weight (lh_branches h' ! a)) (hs_branches x) = map (\<lambda>a. hb_weight (lh_branches h ! a)) (hs_branches x)"
    using assms by (intro map_cong) (auto simp: bset_ok_def nth_append)
  then have "(\<Sum>a\<leftarrow>hs_branches x. hb_weight (lh_branches h' ! a)) = (\<Sum>a\<leftarrow>hs_branches x. hb_weight (lh_branches h ! a))"
    by (rule arg_cong [where f = sum_list])
  then show ?thesis using assms by (auto simp: bset_ok_def)
qed

lemma map_nth_news: "map ((!) (xs @ ys)) [length xs..<length (xs @ ys)] = ys"
  by (rule nth_equalityI) (auto simp: nth_append)

lemma fill_bset_ok:
  assumes "heap_ok (sl_heap sl)" "extended (new_bset n filts sl) sl1 new 1"
  shows "heap_ok (sl_heap (fill_bset (length (lh_bsets (sl_heap sl))) new sl1))"
    and "lh_bsets (sl_heap (fill_bset (length (lh_bsets (sl_heap sl))) new sl1)) = lh_bsets (sl_heap sl) @
      [\<lparr>hs_utype = bn_utype n, hs_ordinal = length (sl_bsetdict sl), hs_filters = filts,
        hs_collapsed = False, hs_branches = new\<rparr>]"
proof -
  let ?h = "sl_heap sl"
  let ?x = "\<lparr>hs_utype = bn_utype n, hs_ordinal = length (sl_bsetdict sl), hs_filters = filts,
        hs_collapsed = False, hs_branches = new\<rparr>"
  obtain news where bs: "lh_bsets (sl_heap sl1) = lh_bsets ?h @ [?x\<lparr>hs_branches := []\<rparr>]"
    and br: "lh_branches (sl_heap sl1) = lh_branches ?h @ news"
    and nw: "new = [length (lh_branches ?h)..<length (lh_branches ?h @ news)]"
    and none: "list_all (\<lambda>br. hb_bset br = None) news" and w: "sum_list (map hb_weight news) = 1"
    using assms(2) by (auto simp: extended_def new_bset_def)
  define h2 where "h2 = sl_heap (fill_bset (length (lh_bsets ?h)) new sl1)"
  have bs2: "lh_bsets h2 = lh_bsets ?h @ [?x]" by (simp add: h2_def fill_bset_def bs)
  then show "lh_bsets (sl_heap (fill_bset (length (lh_bsets ?h)) new sl1)) = lh_bsets ?h @ [?x]" by (simp add: h2_def)
  have br2: "lh_branches h2 = lh_branches ?h @ news" by (simp add: h2_def fill_bset_def br)
  have "map ((!) (lh_branches h2)) new = news" unfolding nw br2 by (rule map_nth_news)
  then have "map hb_weight (map ((!) (lh_branches h2)) new) = map hb_weight news" by (simp only:)
  then have "map (\<lambda>a. hb_weight (lh_branches h2 ! a)) new = map hb_weight news" by (simp only: map_map comp_def)
  then have "bset_ok h2 ?x" using w unfolding bset_ok_def by (simp add: br2) (simp add: nw)
  moreover have "bset_ok h2 x" if "x \<in> set (lh_bsets ?h)" for x
    using that assms(1) bset_ok_append [OF _ br2] by (auto simp: heap_ok_def)
  ultimately have "heap_ok h2"
    using assms(1) none by (auto simp: heap_ok_def bs2 br2 list_all_iff less_Suc_eq)
  then show "heap_ok (sl_heap (fill_bset (length (lh_bsets ?h)) new sl1))" by (simp add: h2_def)
qed

lemma apply_branchset_built:
  assumes "apply_branchset brids b sl = Inr sl'" "built h0 (sl_heap sl)" "b < length (lh_bsets h0)"
  shows "built h0 (sl_heap sl')"
  using assms(1) unfolding apply_branchset_def
proof (rule foldE_invariant [where I = "\<lambda>s. built h0 (sl_heap s)"])
  fix s x s' assume "built h0 (sl_heap s)" "apply_one b s x = Inr s'"
  then show "built h0 (sl_heap s')"
    using assms(3) by (auto simp: apply_one_def built_set_bset split: option.splits if_splits)
qed (use assms(2) in simp)

lemma add_dummy_built:
  "built h0 (sl_heap sl) \<Longrightarrow> built h0 (sl_heap (fst (foldl add_dummy (sl, ds) ids)))"
proof (induction ids arbitrary: sl ds)
  case (Cons i ids)
  obtain sl1 ds1 where s: "add_dummy (sl, ds) i = (sl1, ds1)" by (cases "add_dummy (sl, ds) i")
  have "built h0 (sl_heap sl1)"
  proof (cases "map_of (sl_branches sl) i")
    case (Some a)
    obtain h db da where d: "dummy_branchset (sl_heap sl) = (h, db, da)" by (cases "dummy_branchset (sl_heap sl)")
    have "built h0 (set_bset a db h)" using built_dummy [OF Cons.prems d] .
    then show ?thesis using s Some d by (auto simp: add_dummy_def)
  qed (use s Cons.prems in \<open>simp add: add_dummy_def\<close>)
  then show ?case using Cons.IH s by simp
qed simp

lemma attach_built:
  assumes "attach n b new sl = Inr sl'" "heap_ok (sl_heap sl)" "b < length (lh_bsets (sl_heap sl))"
  shows "built (sl_heap sl) (sl_heap sl')"
proof -
  let ?h = "sl_heap sl"
  let ?to = "case bn_branches n of None \<Rightarrow> branch_ids ?h (sl_previous sl)
    | Some t \<Rightarrow> if t = [] then branch_ids ?h (sl_previous sl) else split_ws t"
  let ?app = "sl\<lparr>sl_applied := AList.update b (case bn_branches n of None \<Rightarrow> [] | Some t \<Rightarrow> t) (sl_applied sl)\<rparr>"
  have refl: "built ?h ?h" using assms(2) by (rule built_refl)
  consider (some) sl1 ds sl2 ds2 where "apply_branchset ?to b ?app = Inr sl1"
      "foldl add_dummy (sl1, []) ds = (sl2, ds2)" "sl_heap sl' = sl_heap sl2"
    | (all) "sl_heap sl' = foldl (\<lambda>h a. set_bset a b h) ?h (sl_previous sl)"
    using assms(1) unfolding attach_def Let_def bindE_Inr_iff
    by (auto simp: bindE_Inr_iff split: if_splits prod.splits)
  then show ?thesis
  proof cases
    case some
    have "built ?h (sl_heap sl1)" by (rule apply_branchset_built [OF some(1)]) (use refl assms(3) in auto)
    then show ?thesis using add_dummy_built [of ?h sl1 "[]" ds] some(2,3) by simp
  next
    case all
    then show ?thesis using built_all [OF refl assms(3)] by simp
  qed
qed

text \<open>A branchset is either ignored or attached, after it has been filled.\<close>

definition with_root :: "nat \<Rightarrow> smlt \<Rightarrow> smlt" where
  "with_root b sl = (if sl_root sl = None then sl\<lparr>sl_root := Some b\<rparr> else sl)"

lemma parse_branchset_Inr:
  assumes "parse_branchset special file sl (bsno, n) = Inr sl'"
  shows "sl' = sl \<or> (\<exists>sl1 new. map_of (parse_filters n sl) ''applyToSources'' \<noteq> Some (FList []) \<and>
     \<not> has_key (sl_bsetdict sl) (bn_id n) \<and> new \<noteq> [] \<and>
     extended (new_bset n (parse_filters n sl) sl) sl1 new (sum_list (map un_weight (bn_nodes n))) \<and>
     attach n (length (lh_bsets (sl_heap sl))) new
       (with_root (length (lh_bsets (sl_heap sl))) (fill_bset (length (lh_bsets (sl_heap sl))) new sl1)) = Inr sl')"
proof (cases "map_of (parse_filters n sl) ''applyToSources'' = Some (FList [])")
  case False
  let ?b = "length (lh_bsets (sl_heap sl))"
  obtain sl1 new where k: "\<not> has_key (sl_bsetdict sl) (bn_id n)"
    and p: "parse_branches special file n (new_bset n (parse_filters n sl) sl) = Inr (sl1, new)"
    and a: "(if new = [] then Inr ((with_root ?b (fill_bset ?b new sl1))\<lparr>sl_bsetdict := dict_pop (bn_id n)
        (sl_bsetdict (with_root ?b (fill_bset ?b new sl1)))\<rparr>)
      else attach n ?b new (with_root ?b (fill_bset ?b new sl1))) = Inr sl'"
    using assms False unfolding parse_branchset_def prod.case Let_def with_root_def
    by (auto simp: bindE_Inr_iff)
  note e = parse_branches_extended [OF p]
  show ?thesis using False k e(1,2) a by auto
qed (use assms in \<open>auto simp: parse_branchset_def Let_def bindE_Inr_iff\<close>)

lemma with_root_keeps [simp]: "sl_heap (with_root b sl) = sl_heap sl" "sl_branches (with_root b sl) = sl_branches sl"
  "sl_bsetdict (with_root b sl) = sl_bsetdict sl" "sl_previous (with_root b sl) = sl_previous sl"
  "sl_branchsets (with_root b sl) = sl_branchsets sl" "sl_applied (with_root b sl) = sl_applied sl"
  "sl_source_id (with_root b sl) = sl_source_id sl"
  by (simp_all add: with_root_def)

lemma apply_branchset_keeps:
  "apply_branchset brids b sl = Inr sl' \<Longrightarrow> sl_root sl' = sl_root sl \<and> sl_source_id sl' = sl_source_id sl \<and>
     sl_bsetdict sl' = sl_bsetdict sl \<and> sl_branchsets sl' = sl_branchsets sl \<and> sl_applied sl' = sl_applied sl"
  unfolding apply_branchset_def
  by (induction brids arbitrary: sl) (auto simp: bindE_Inr_iff apply_one_def split: option.splits if_splits)

lemma add_dummy_keeps:
  "foldl add_dummy (sl, ds) ids = (sl', ds') \<Longrightarrow> sl_root sl' = sl_root sl \<and> sl_source_id sl' = sl_source_id sl \<and>
     sl_bsetdict sl' = sl_bsetdict sl \<and> sl_branchsets sl' = sl_branchsets sl \<and> sl_applied sl' = sl_applied sl"
proof (induction ids arbitrary: sl ds)
  case (Cons i ids)
  obtain sl1 ds1 where s: "add_dummy (sl, ds) i = (sl1, ds1)" by (cases "add_dummy (sl, ds) i")
  then have "sl_root sl1 = sl_root sl \<and> sl_source_id sl1 = sl_source_id sl \<and> sl_bsetdict sl1 = sl_bsetdict sl \<and>
      sl_branchsets sl1 = sl_branchsets sl \<and> sl_applied sl1 = sl_applied sl"
    by (auto simp: add_dummy_def split: option.splits prod.splits)
  then show ?case using Cons.IH [of sl1 ds1] Cons.prems s by simp
qed simp

lemma attach_keeps:
  assumes "attach n b new sl = Inr sl'"
  shows "sl_root sl' = sl_root sl \<and> sl_source_id sl' = sl_source_id sl \<and> sl_bsetdict sl' = sl_bsetdict sl \<and>
    sl_branchsets sl' = sl_branchsets sl @ [b]"
    and "sl_applied sl' = [] \<Longrightarrow> sl_applied sl = [] \<and> sl_previous sl' = new \<and>
      sl_heap sl' = foldl (\<lambda>h a. set_bset a b h) (sl_heap sl) (sl_previous sl)"
proof -
  let ?to = "case bn_branches n of None \<Rightarrow> branch_ids (sl_heap sl) (sl_previous sl)
    | Some t \<Rightarrow> if t = [] then branch_ids (sl_heap sl) (sl_previous sl) else split_ws t"
  let ?app = "sl\<lparr>sl_applied := AList.update b (case bn_branches n of None \<Rightarrow> [] | Some t \<Rightarrow> t) (sl_applied sl)\<rparr>"
  consider (some) sl1 ds sl2 ds2 where "apply_branchset ?to b ?app = Inr sl1" "foldl add_dummy (sl1, []) ds = (sl2, ds2)"
      "sl' = sl2\<lparr>sl_previous := new @ ds2, sl_branchsets := sl_branchsets sl2 @ [b]\<rparr>"
    | (all) "sl' = sl\<lparr>sl_heap := foldl (\<lambda>h a. set_bset a b h) (sl_heap sl) (sl_previous sl), sl_previous := new,
        sl_branchsets := sl_branchsets sl @ [b]\<rparr>"
    using assms unfolding attach_def Let_def bindE_Inr_iff
    by (auto simp: bindE_Inr_iff split: if_splits prod.splits)
  then have "(sl_root sl' = sl_root sl \<and> sl_source_id sl' = sl_source_id sl \<and> sl_bsetdict sl' = sl_bsetdict sl \<and>
    sl_branchsets sl' = sl_branchsets sl @ [b]) \<and> (sl_applied sl' = [] \<longrightarrow> sl_applied sl = [] \<and> sl_previous sl' = new \<and>
      sl_heap sl' = foldl (\<lambda>h a. set_bset a b h) (sl_heap sl) (sl_previous sl))"
  proof cases
    case some
    have "AList.update b x d \<noteq> []" for x :: string and d by (cases d) auto
    then show ?thesis using apply_branchset_keeps [OF some(1)] add_dummy_keeps [OF some(2)] some(3) by simp
  qed simp
  then show "sl_root sl' = sl_root sl \<and> sl_source_id sl' = sl_source_id sl \<and> sl_bsetdict sl' = sl_bsetdict sl \<and>
    sl_branchsets sl' = sl_branchsets sl @ [b]"
    and "sl_applied sl' = [] \<Longrightarrow> sl_applied sl = [] \<and> sl_previous sl' = new \<and>
      sl_heap sl' = foldl (\<lambda>h a. set_bset a b h) (sl_heap sl) (sl_previous sl)" by blast+
qed

text \<open>With weights that sum exactly to one the heap of the tree is well-formed.\<close>

definition root_ok :: "smlt \<Rightarrow> bool" where
  "root_ok sl = (heap_ok (sl_heap sl) \<and> (\<forall>b. sl_root sl = Some b \<longrightarrow> b < length (lh_bsets (sl_heap sl))))"

lemma parse_branchset_root_ok:
  assumes "parse_branchset special file sl (bsno, n) = Inr sl'" "root_ok sl"
    "sum_list (map un_weight (bn_nodes n)) = 1"
  shows "root_ok sl'"
proof (cases "sl' = sl")
  case False
  let ?b = "length (lh_bsets (sl_heap sl))"
  obtain sl1 new where e: "extended (new_bset n (parse_filters n sl) sl) sl1 new 1"
    and a: "attach n ?b new (with_root ?b (fill_bset ?b new sl1)) = Inr sl'"
    using parse_branchset_Inr [OF assms(1)] False assms(3) by auto
  note f = fill_bset_ok [OF _ e]
  have h: "heap_ok (sl_heap sl)" using assms(2) by (simp add: root_ok_def)
  have b: "?b < length (lh_bsets (sl_heap (with_root ?b (fill_bset ?b new sl1))))" by (simp add: f(2) [OF h])
  have r: "sl_root sl' = sl_root (with_root ?b (fill_bset ?b new sl1))" using attach_keeps(1) [OF a] by simp
  have r1: "sl_root sl1 = sl_root sl" using e by (simp add: extended_def new_bset_def)
  have "built (sl_heap (with_root ?b (fill_bset ?b new sl1))) (sl_heap sl')"
    by (rule attach_built [OF a _ b]) (simp add: f(1) [OF h])
  then have hk: "heap_ok (sl_heap sl')" and "?b < length (lh_bsets (sl_heap sl'))"
    using b by (auto simp: built_def)
  then show ?thesis using r r1 assms(2)
    by (auto simp: root_ok_def with_root_def fill_bset_def split: if_splits)
qed (use assms(2) in simp)

lemma parse_tree_root_ok:
  assumes "parse_tree special file nodes sl = Inr sl'" "root_ok sl"
    "\<And>n. n \<in> set nodes \<Longrightarrow> sum_list (map un_weight (bn_nodes n)) = 1"
  shows "root_ok sl'"
proof -
  have "root_ok sl'" if "foldE (parse_branchset special file) sl (enumerate i nodes) = Inr sl'" for i
    using that assms(2,3)
  proof (induction nodes arbitrary: i sl)
    case (Cons n ns)
    obtain sl1 where s: "parse_branchset special file sl (i, n) = Inr sl1"
      "foldE (parse_branchset special file) sl1 (enumerate (Suc i) ns) = Inr sl'"
      using Cons.prems(1) by (auto simp: bindE_Inr_iff)
    have "root_ok sl1" using parse_branchset_root_ok [OF s(1)] Cons.prems by simp
    then show ?case using Cons.IH [OF s(2)] Cons.prems(3) by simp
  qed simp
  then show ?thesis using assms(1) by (simp add: parse_tree_def)
qed

section \<open>The fast count of the paths\<close>

text \<open>
  A linear tree: every branch of a branchset leads to the next branchset, those of the last one are
  leaves. Its number of paths is the product of the sizes.
\<close>

fun chain :: "uval lt_heap \<Rightarrow> nat list \<Rightarrow> bool" where
  "chain h [] = True"
| "chain h (b # bs) = ((\<forall>a \<in> set (hs_branches (lh_bsets h ! b)).
     hb_bset (lh_branches h ! a) = (case bs of [] \<Rightarrow> None | c # _ \<Rightarrow> Some c)) \<and> chain h bs)"

lemma those_map_Some: "(\<And>x. x \<in> set xs \<Longrightarrow> f x = Some (g x)) \<Longrightarrow> those (map f xs) = Some (map g xs)"
  by (induction xs) auto

lemma chain_count:
  "chain h bs \<Longrightarrow> bs \<noteq> [] \<Longrightarrow> length bs \<le> n \<Longrightarrow> \<exists>t. read_bset n h (hd bs) = Some t \<and>
     count_paths (bs_branches t) = prod_list (map (\<lambda>b. length (hs_branches (lh_bsets h ! b))) bs)"
proof (induction bs arbitrary: n)
  case (Cons b bs)
  obtain m where n: "n = Suc m" using Cons.prems(3) by (cases n) auto
  let ?br = "\<lambda>a. lh_branches h ! a" and ?as = "hs_branches (lh_bsets h ! b)"
  let ?mk = "\<lambda>a x. Branch (hb_bs_id (?br a)) (hb_branch_id (?br a)) (hb_weight (?br a)) (hb_value (?br a)) (hb_short_id (?br a)) x"
  show ?case
  proof (cases bs)
    case Nil
    have "those (map (\<lambda>a. let br = ?br a in case hb_bset br of None \<Rightarrow> Some (?mk a None)
        | Some c \<Rightarrow> map_option (\<lambda>t. ?mk a (Some t)) (read_bset m h c)) ?as) = Some (map (\<lambda>a. ?mk a None) ?as)"
      using Cons.prems(1) Nil by (intro those_map_Some) (simp add: Let_def)
    then show ?thesis using Nil by (simp add: n Let_def count_paths.simps comp_def sum_list_triv)
  next
    case (Cons c cs)
    obtain t where t: "read_bset m h c = Some t" and
      ct: "count_paths (bs_branches t) = prod_list (map (\<lambda>b. length (hs_branches (lh_bsets h ! b))) bs)"
      using Cons.IH [of m] Cons.prems n \<open>bs = c # cs\<close> by auto
    have "those (map (\<lambda>a. let br = ?br a in case hb_bset br of None \<Rightarrow> Some (?mk a None)
        | Some c \<Rightarrow> map_option (\<lambda>t. ?mk a (Some t)) (read_bset m h c)) ?as) = Some (map (\<lambda>a. ?mk a (Some t)) ?as)"
      using Cons.prems(1) \<open>bs = c # cs\<close> t by (intro those_map_Some) (simp add: Let_def)
    moreover have "count_paths (map (\<lambda>a. ?mk a (Some t)) ?as) = length ?as * count_paths (bs_branches t)"
      by (subst count_paths.simps) (simp add: comp_def sum_list_triv)
    ultimately show ?thesis using ct by (simp add: n Let_def)
  qed
qed simp

abbreviation branches_at :: "uval lt_heap \<Rightarrow> nat \<Rightarrow> nat list" where
  "branches_at h b \<equiv> hs_branches (lh_bsets h ! b)"

lemma chain_iff: "chain h bs \<longleftrightarrow> (\<forall>i < length bs. \<forall>a \<in> set (branches_at h (bs ! i)).
    hb_bset (lh_branches h ! a) = (if Suc i < length bs then Some (bs ! Suc i) else None))"
proof (induction bs)
  case (Cons b bs)
  have "(case bs of [] \<Rightarrow> None | c # _ \<Rightarrow> Some c) = (if 0 < length bs then Some (bs ! 0) else None)"
    by (cases bs) auto
  then show ?case using Cons.IH by (auto simp: All_less_Suc2)
qed simp

lemma set_bset_all:
  "lh_bsets (foldl (\<lambda>h a. set_bset a b h) h as) = lh_bsets h"
  "length (lh_branches (foldl (\<lambda>h a. set_bset a b h) h as)) = length (lh_branches h)"
  "x < length (lh_branches h) \<Longrightarrow> hb_bset (lh_branches (foldl (\<lambda>h a. set_bset a b h) h as) ! x) =
     (if x \<in> set as then Some b else hb_bset (lh_branches h ! x))"
proof -
  show "lh_bsets (foldl (\<lambda>h a. set_bset a b h) h as) = lh_bsets h" by (induction as arbitrary: h) auto
  show "length (lh_branches (foldl (\<lambda>h a. set_bset a b h) h as)) = length (lh_branches h)"
    by (induction as arbitrary: h) (auto simp: set_bset_def)
  show "x < length (lh_branches h) \<Longrightarrow> hb_bset (lh_branches (foldl (\<lambda>h a. set_bset a b h) h as) ! x) =
     (if x \<in> set as then Some b else hb_bset (lh_branches h ! x))"
  proof (induction as arbitrary: h)
    case (Cons a as)
    have "x < length (lh_branches (set_bset a b h))" using Cons.prems by (simp add: set_bset_def)
    from Cons.IH [OF this] show ?case using Cons.prems by (auto simp: set_bset_def nth_list_update)
  qed simp
qed

definition linear :: "smlt \<Rightarrow> bool" where
  "linear sl \<longleftrightarrow> (let h = sl_heap sl; bs = sl_branchsets sl in
     sl_applied sl = [] \<and> chain h bs \<and> distinct bs \<and>
     sl_previous sl = (if bs = [] then [] else branches_at h (last bs)) \<and>
     sl_root sl = (if bs = [] then None else Some (hd bs)) \<and>
     (\<forall>b \<in> set bs. b < length (lh_bsets h) \<and> (\<forall>a \<in> set (branches_at h b). a < length (lh_branches h))) \<and>
     (\<forall>b \<in> set bs. \<forall>c \<in> set bs. b \<noteq> c \<longrightarrow> set (branches_at h b) \<inter> set (branches_at h c) = {}) \<and>
     (\<forall>b \<in> set bs. branches_at h b \<noteq> []) \<and>
     list_all2 (\<lambda>(k, n) b. hs_filters (lh_bsets h ! b) = parse_filters n sl \<and>
       map_of (parse_filters n sl) ''applyToSources'' \<noteq> Some (FList [])) (sl_bsetdict sl) bs)"

lemma parse_filters_cong: "sl_source_id sl = sl_source_id sl' \<Longrightarrow> parse_filters n sl = parse_filters n sl'"
  by (simp add: parse_filters_def split: option.split)

lemma attach_chain:
  assumes "chain h bs" "distinct bs" "\<forall>b \<in> set bs. b < length (lh_bsets h) \<and> (\<forall>a \<in> set (branches_at h b). a < length (lh_branches h))"
    "\<forall>b \<in> set bs. \<forall>c \<in> set bs. b \<noteq> c \<longrightarrow> set (branches_at h b) \<inter> set (branches_at h c) = {}"
    "lh_bsets h2 = lh_bsets h @ [x]" "lh_branches h2 = lh_branches h @ news" "list_all (\<lambda>br. hb_bset br = None) news"
    "hs_branches x = [length (lh_branches h)..<length (lh_branches h @ news)]"
    "prev = (if bs = [] then [] else branches_at h (last bs))"
    "h' = foldl (\<lambda>h a. set_bset a (length (lh_bsets h0)) h) h2 prev" "h0 = h"
  shows "chain h' (bs @ [length (lh_bsets h)])"
  unfolding chain_iff
proof (intro allI impI ballI)
  let ?b = "length (lh_bsets h)"
  fix i a assume i: "i < length (bs @ [?b])" and a: "a \<in> set (branches_at h' ((bs @ [?b]) ! i))"
  have bsets: "lh_bsets h' = lh_bsets h @ [x]" using assms(10,5) by (simp add: set_bset_all)
  have val: "hb_bset (lh_branches h' ! y) = (if y \<in> set prev then Some ?b else hb_bset (lh_branches h2 ! y))"
    if "y < length (lh_branches h2)" for y
    using set_bset_all(3) [OF that] assms(10,11) by simp
  have prev_lt: "y < length (lh_branches h)" if "y \<in> set prev" for y
    using that assms(3,9) by (cases "bs = []") auto
  show "hb_bset (lh_branches h' ! a) = (if Suc i < length (bs @ [?b]) then Some ((bs @ [?b]) ! Suc i) else None)"
  proof (cases "i < length bs")
    case True
    then have m: "bs ! i \<in> set bs" by simp
    then have at: "a \<in> set (branches_at h (bs ! i))" using a True assms(3) by (simp add: bsets nth_append)
    then have lt: "a < length (lh_branches h)" using assms(3) m by blast
    have old: "hb_bset (lh_branches h2 ! a) = (if Suc i < length bs then Some (bs ! Suc i) else None)"
      using assms(1) at True lt unfolding chain_iff by (simp add: assms(6) nth_append)
    show ?thesis
    proof (cases "Suc i = length bs")
      case last: True
      then have "last bs = bs ! i" by (metis True last_conv_nth length_0_conv diff_Suc_1 not_less_zero)
      then have "a \<in> set prev" using at assms(9) True by auto
      then show ?thesis using val lt last assms(6) by (simp add: nth_append)
    next
      case False
      then have "bs ! i \<noteq> last bs" using True assms(2)
        by (metis Suc_lessI Suc_pred' diff_less last_conv_nth length_greater_0_conv less_imp_diff_less list.size(3)
            nat_neq_iff nth_eq_iff_index_eq not_less_zero zero_less_one)
      moreover have "last bs \<in> set bs" using True by (metis last_in_set list.size(3) not_less_zero)
      ultimately have "a \<notin> set prev" using assms(4,9) at m by (metis disjoint_iff empty_iff list.set(1))
      then show ?thesis using val lt old True False assms(6) by (simp add: nth_append)
    qed
  next
    case False
    then have ib: "i = length bs" using i by simp
    then have an: "a \<in> set [length (lh_branches h)..<length (lh_branches h @ news)]"
      using a assms(8) by (simp add: bsets)
    then have "a \<notin> set prev" using prev_lt by fastforce
    moreover have "hb_bset (lh_branches h2 ! a) = None"
      using an assms(7) by (auto simp: assms(6) nth_append list_all_length)
    ultimately show ?thesis using val an ib assms(6) by simp
  qed
qed

text \<open>The heap after a branchset has been filled with its branches.\<close>

lemma filled:
  assumes "extended (new_bset n filts sl) sl1 new w" "sl2 = with_root (length (lh_bsets (sl_heap sl)))
     (fill_bset (length (lh_bsets (sl_heap sl))) new sl1)"
  obtains news x where "lh_bsets (sl_heap sl2) = lh_bsets (sl_heap sl) @ [x]" "hs_filters x = filts" "hs_branches x = new"
    "lh_branches (sl_heap sl2) = lh_branches (sl_heap sl) @ news" "list_all (\<lambda>br. hb_bset br = None) news"
    "new = [length (lh_branches (sl_heap sl))..<length (lh_branches (sl_heap sl) @ news)]"
    "sl_previous sl2 = sl_previous sl" "sl_branchsets sl2 = sl_branchsets sl" "sl_applied sl2 = sl_applied sl"
    "sl_source_id sl2 = sl_source_id sl" "sl_bsetdict sl2 = AList.update (bn_id n) n (sl_bsetdict sl)"
    "sl_root sl2 = (if sl_root sl = None then Some (length (lh_bsets (sl_heap sl))) else sl_root sl)"
proof -
  obtain news where e: "lh_branches (sl_heap sl1) = lh_branches (sl_heap sl) @ news" "list_all (\<lambda>br. hb_bset br = None) news"
    "new = [length (lh_branches (sl_heap sl))..<length (lh_branches (sl_heap sl) @ news)]"
    using assms(1) by (auto simp: extended_def new_bset_def)
  then show ?thesis
    using assms(1) by (intro that [of "\<lparr>hs_utype = bn_utype n, hs_ordinal = length (sl_bsetdict sl), hs_filters = filts,
        hs_collapsed = False, hs_branches = new\<rparr>" news])
      (auto simp: assms(2) extended_def new_bset_def fill_bset_def with_root_def)
qed

lemma update_append: "\<not> has_key d k \<Longrightarrow> AList.update k v d = d @ [(k, v)]"
  by (induction d) auto

lemma parse_branchset_linear:
  assumes "parse_branchset special file sl (bsno, n) = Inr sl'" "linear sl" "sl_applied sl' = []"
  shows "linear sl'"
proof (cases "sl' = sl")
  case False
  let ?b = "length (lh_bsets (sl_heap sl))" and ?h = "sl_heap sl" and ?bs = "sl_branchsets sl"
  obtain sl1 new w where fl: "map_of (parse_filters n sl) ''applyToSources'' \<noteq> Some (FList [])"
    and k: "\<not> has_key (sl_bsetdict sl) (bn_id n)" and ne: "new \<noteq> []"
    and e: "extended (new_bset n (parse_filters n sl) sl) sl1 new w"
    and a: "attach n ?b new (with_root ?b (fill_bset ?b new sl1)) = Inr sl'"
    using parse_branchset_Inr [OF assms(1)] False by blast
  define sl2 where "sl2 = with_root ?b (fill_bset ?b new sl1)"
  obtain news x where f: "lh_bsets (sl_heap sl2) = lh_bsets ?h @ [x]" "hs_filters x = parse_filters n sl" "hs_branches x = new"
    "lh_branches (sl_heap sl2) = lh_branches ?h @ news" "list_all (\<lambda>br. hb_bset br = None) news"
    "new = [length (lh_branches ?h)..<length (lh_branches ?h @ news)]" "sl_previous sl2 = sl_previous sl"
    "sl_branchsets sl2 = ?bs" "sl_source_id sl2 = sl_source_id sl"
    "sl_bsetdict sl2 = AList.update (bn_id n) n (sl_bsetdict sl)"
    "sl_root sl2 = (if sl_root sl = None then Some ?b else sl_root sl)"
    using filled [OF e sl2_def] by metis
  note at = attach_keeps [OF a [folded sl2_def]]
  have lin: "chain ?h ?bs" "distinct ?bs" "sl_previous sl = (if ?bs = [] then [] else branches_at ?h (last ?bs))"
    "sl_root sl = (if ?bs = [] then None else Some (hd ?bs))"
    "\<forall>b \<in> set ?bs. b < ?b \<and> (\<forall>a \<in> set (branches_at ?h b). a < length (lh_branches ?h))"
    "\<forall>b \<in> set ?bs. \<forall>c \<in> set ?bs. b \<noteq> c \<longrightarrow> set (branches_at ?h b) \<inter> set (branches_at ?h c) = {}"
    "list_all2 (\<lambda>(k, n) b. hs_filters (lh_bsets ?h ! b) = parse_filters n sl \<and>
       map_of (parse_filters n sl) ''applyToSources'' \<noteq> Some (FList [])) (sl_bsetdict sl) ?bs"
    "\<forall>b \<in> set ?bs. branches_at ?h b \<noteq> []"
    using assms(2) by (simp_all add: linear_def Let_def)
  have h': "sl_heap sl' = foldl (\<lambda>h a. set_bset a ?b h) (sl_heap sl2) (sl_previous sl)" and pr: "sl_previous sl' = new"
    using at(2) [OF assms(3)] f(7) by simp_all
  have bsets: "lh_bsets (sl_heap sl') = lh_bsets ?h @ [x]" by (simp add: h' set_bset_all f(1))
  have len: "length (lh_branches (sl_heap sl')) = length (lh_branches ?h @ news)" by (simp add: h' set_bset_all f(4))
  have br: "sl_branchsets sl' = ?bs @ [?b]" using at(1) f(8) by simp
  have old: "branches_at (sl_heap sl') b = branches_at ?h b" if "b \<in> set ?bs" for b
    using lin(5) that by (simp add: bsets nth_append)
  have new: "branches_at (sl_heap sl') ?b = new" by (simp add: bsets f(3))
  have ch: "chain (sl_heap sl') (?bs @ [?b])"
    by (rule attach_chain [OF lin(1) lin(2) lin(5) lin(6) f(1) f(4) f(5) _ lin(3) h' refl]) (simp add: f(3) f(6))
  have nb: "?b \<notin> set ?bs" using lin(5) by blast
  have ge: "\<forall>a \<in> set new. length (lh_branches ?h) \<le> a \<and> a < length (lh_branches ?h @ news)" using f(6) by simp
  have bounds: "\<forall>b \<in> set (?bs @ [?b]). b < length (lh_bsets (sl_heap sl')) \<and>
      (\<forall>a \<in> set (branches_at (sl_heap sl') b). a < length (lh_branches (sl_heap sl')))"
  proof
    fix b assume "b \<in> set (?bs @ [?b])"
    then consider "b = ?b" | "b \<in> set ?bs" by auto
    then show "b < length (lh_bsets (sl_heap sl')) \<and> (\<forall>a \<in> set (branches_at (sl_heap sl') b). a < length (lh_branches (sl_heap sl')))"
    proof cases
      case 1 then show ?thesis using ge new len by (simp add: bsets)
    next
      case 2 then show ?thesis using lin(5) old [OF 2] len by (auto simp: bsets intro: trans_less_add1)
    qed
  qed
  have disj1: "set (branches_at ?h b) \<inter> set new = {}" if "b \<in> set ?bs" for b using lin(5) ge that by fastforce
  have disj: "\<forall>b \<in> set (?bs @ [?b]). \<forall>c \<in> set (?bs @ [?b]). b \<noteq> c \<longrightarrow>
      set (branches_at (sl_heap sl') b) \<inter> set (branches_at (sl_heap sl') c) = {}"
    using lin(6) disj1 old new by (simp add: Int_commute)
  have sid: "parse_filters n' sl' = parse_filters n' sl" for n'
    by (rule parse_filters_cong) (use at(1) f(9) in simp)
  have dict: "sl_bsetdict sl' = sl_bsetdict sl @ [(bn_id n, n)]" using at(1) f(10) update_append [OF k] by simp
  have "list_all2 (\<lambda>(k, n) b. hs_filters (lh_bsets (sl_heap sl') ! b) = parse_filters n sl' \<and>
       map_of (parse_filters n sl') ''applyToSources'' \<noteq> Some (FList [])) (sl_bsetdict sl) ?bs"
    using lin(7) by (rule list.rel_mono_strong) (use lin(5) in \<open>auto simp: bsets nth_append sid\<close>)
  then have fil: "list_all2 (\<lambda>(k, n) b. hs_filters (lh_bsets (sl_heap sl') ! b) = parse_filters n sl' \<and>
       map_of (parse_filters n sl') ''applyToSources'' \<noteq> Some (FList [])) (sl_bsetdict sl') (?bs @ [?b])"
    by (simp add: dict list_all2_appendI bsets f(2) sid fl)
  have root': "sl_root sl' = Some (hd (?bs @ [?b]))" using at(1) f(11) lin(4) by (cases ?bs) auto
  have "\<forall>b \<in> set (?bs @ [?b]). branches_at (sl_heap sl') b \<noteq> []" using lin(8) old new ne by simp
  then show ?thesis using ch lin(2) nb bounds disj fil root' assms(3) pr new by (simp add: linear_def Let_def br)
qed (use assms(2) in simp)

lemma parse_branchset_applied:
  assumes "parse_branchset special file sl (bsno, n) = Inr sl'" "sl_applied sl' = []"
  shows "sl_applied sl = []"
proof (cases "sl' = sl")
  case False
  obtain sl1 new w where e: "extended (new_bset n (parse_filters n sl) sl) sl1 new w"
    and a: "attach n (length (lh_bsets (sl_heap sl))) new (with_root (length (lh_bsets (sl_heap sl)))
      (fill_bset (length (lh_bsets (sl_heap sl))) new sl1)) = Inr sl'"
    using parse_branchset_Inr [OF assms(1)] False by blast
  have "sl_applied sl1 = sl_applied sl" using e by (simp add: extended_def new_bset_def)
  then show ?thesis using attach_keeps(2) [OF a assms(2)] by (simp add: fill_bset_def)
qed (use assms in simp)

lemma fold_applied:
  "foldE (parse_branchset special file) sl (enumerate i nodes) = Inr sl' \<Longrightarrow> sl_applied sl' = [] \<Longrightarrow> sl_applied sl = []"
proof (induction nodes arbitrary: i sl)
  case (Cons n ns)
  obtain sl1 where s: "parse_branchset special file sl (i, n) = Inr sl1"
    "foldE (parse_branchset special file) sl1 (enumerate (Suc i) ns) = Inr sl'"
    using Cons.prems(1) by (auto simp: bindE_Inr_iff)
  show ?case using parse_branchset_applied [OF s(1)] Cons.IH [OF s(2)] Cons.prems(2) by blast
qed simp

lemma fold_linear:
  "foldE (parse_branchset special file) sl (enumerate i nodes) = Inr sl' \<Longrightarrow> sl_applied sl' = [] \<Longrightarrow> linear sl \<Longrightarrow> linear sl'"
proof (induction nodes arbitrary: i sl)
  case (Cons n ns)
  obtain sl1 where s: "parse_branchset special file sl (i, n) = Inr sl1"
    "foldE (parse_branchset special file) sl1 (enumerate (Suc i) ns) = Inr sl'"
    using Cons.prems(1) by (auto simp: bindE_Inr_iff)
  have "linear sl1" using parse_branchset_linear [OF s(1) Cons.prems(3)] fold_applied [OF s(2) Cons.prems(2)] by blast
  then show ?case using Cons.IH [OF s(2) Cons.prems(2)] by blast
qed simp

lemma parse_tree_linear:
  "parse_tree special file nodes sl = Inr sl' \<Longrightarrow> linear sl \<Longrightarrow> sl_applied sl' = [] \<Longrightarrow> linear sl'"
  unfolding parse_tree_def using fold_linear by blast

lemma linear_empty: "linear (smlt_empty branchID src_id test_mode)"
  by (simp add: linear_def Let_def smlt_empty_def)

text \<open>In a linear, source specific tree every branchset after the first has one source.\<close>

lemma source_of_single:
  assumes "single_source n" "hs_filters (lh_bsets (sl_heap sl) ! b) = parse_filters n sl"
    "map_of (parse_filters n sl) ''applyToSources'' \<noteq> Some (FList [])"
  shows "\<exists>i. source_of sl b = Inr (Some i)"
proof -
  obtain s where s: "bn_sources n = Some s" "length (split_ws s) = 1"
    using assms(1) by (auto simp: single_source_def split: option.splits)
  then obtain i where i: "split_ws s = [i]" by (auto simp: length_Suc_conv)
  have "map_of (parse_filters n sl) ''applyToSources'' = Some (FList (filter (\<lambda>x. sl_source_id sl = [] \<or> x = sl_source_id sl) [i]))"
    by (simp add: parse_filters_def s(1) i split: option.split)
  then show ?thesis using assms(2,3) by (auto simp: source_of_def fval_list_def split: if_splits)
qed

lemma prod_update:
  "prod_list (map (\<lambda>(i, bs). sslt_num_paths sl bs) (AList.update i ((case map_of acc i of None \<Rightarrow> [] | Some bs \<Rightarrow> bs) @ [b]) acc))
     = prod_list (map (\<lambda>(i, bs). sslt_num_paths sl bs) acc) * bset_size sl b"
  by (induction acc) (auto simp: sslt_num_paths_def)

lemma decompose_fold:
  assumes "list_all (\<lambda>b. \<exists>i. source_of sl b = Inr (Some i)) bs"
  shows "\<exists>acc'. foldE (decompose_step sl) acc bs = Inr acc' \<and>
    prod_list (map (\<lambda>(i, bs). sslt_num_paths sl bs) acc') =
    prod_list (map (\<lambda>(i, bs). sslt_num_paths sl bs) acc) * prod_list (map (bset_size sl) bs)"
  using assms
proof (induction bs arbitrary: acc)
  case (Cons b bs)
  obtain i where i: "source_of sl b = Inr (Some i)" using Cons.prems by auto
  let ?acc = "AList.update i ((case map_of acc i of None \<Rightarrow> [] | Some bs \<Rightarrow> bs) @ [b]) acc"
  show ?case using Cons.IH [of ?acc] Cons.prems by (simp add: decompose_step_def i prod_update mult.assoc)
qed simp

text \<open>The fast count is the count of the paths.\<close>

lemma num_paths_slow:
  assumes "linear sl" "is_source_specific sl"
  shows "\<exists>k. num_paths sl = Some (Inr k) \<and> slow_num_paths sl = Some k"
proof -
  let ?bs = "sl_branchsets sl" and ?h = "sl_heap sl"
  have lin: "chain ?h ?bs" "distinct ?bs" "sl_root sl = (if ?bs = [] then None else Some (hd ?bs))"
    "\<forall>b \<in> set ?bs. b < length (lh_bsets ?h)" "\<forall>b \<in> set ?bs. branches_at ?h b \<noteq> []"
    "list_all2 (\<lambda>(k, n) b. hs_filters (lh_bsets ?h ! b) = parse_filters n sl \<and>
       map_of (parse_filters n sl) ''applyToSources'' \<noteq> Some (FList [])) (sl_bsetdict sl) ?bs"
    using assms(1) by (simp_all add: linear_def Let_def)
  have ss: "list_all single_source (tl (map snd (sl_bsetdict sl)))" using assms(2) by (simp add: is_source_specific_def Let_def)
  obtain kn d where d: "sl_bsetdict sl = kn # d"
    using assms(2) by (cases "sl_bsetdict sl") (auto simp: is_source_specific_def Let_def)
  obtain b bs where bs: "?bs = b # bs" using lin(6) d by (cases ?bs) auto
  have "list_all2 (\<lambda>(k, n) b. hs_filters (lh_bsets ?h ! b) = parse_filters n sl \<and>
       map_of (parse_filters n sl) ''applyToSources'' \<noteq> Some (FList [])) d bs" using lin(6) by (simp add: d bs)
  moreover have "list_all (\<lambda>(k, n). single_source n) d" using ss by (simp add: d list.pred_map comp_def case_prod_unfold)
  ultimately have "list_all (\<lambda>b. \<exists>i. source_of sl b = Inr (Some i)) bs"
    by (induction rule: list_all2_induct) (auto intro: source_of_single)
  from decompose_fold [OF this, of "[]"] obtain acc where acc: "foldE (decompose_step sl) [] bs = Inr acc"
    "prod_list (map (\<lambda>(i, bs). sslt_num_paths sl bs) acc) = prod_list (map (bset_size sl) bs)" by auto
  have one: "(if 1 < bset_size sl b then bset_size sl b else 1) = bset_size sl b"
    using lin(5) by (simp add: bs bset_size_def) (metis One_nat_def Suc_lessI length_greater_0_conv)
  have m: "map (\<lambda>(i, bs). sslt_num_paths sl bs) (map (\<lambda>(i, bs). (Some i, bs)) acc) = map (\<lambda>(i, bs). sslt_num_paths sl bs) acc"
    by auto
  then have "num_paths sl = Some (Inr (prod_list (map (bset_size sl) ?bs)))"
    using acc one m by (cases "1 < bset_size sl b") (simp_all del: map_map add: num_paths_def assms(2) decompose_def checkE_def bs sslt_num_paths_def [of sl "[b]"])
  moreover have "length ?bs \<le> length (lh_bsets ?h)"
    using distinct_card [OF lin(2)] card_mono [of "{..<length (lh_bsets ?h)}" "set ?bs"] lin(4) by auto
  moreover have "prod_list (map (bset_size sl) ?bs) = prod_list (map (\<lambda>b. length (hs_branches (lh_bsets ?h ! b))) ?bs)"
    by (simp add: bset_size_def [abs_def])
  ultimately show ?thesis using chain_count [OF lin(1), of "length (lh_bsets ?h)"] lin(3)
    by (auto simp: slow_num_paths_def read_root_def bs)
qed

section \<open>The realizations\<close>

lemma sorted_map_sort_key: "sorted (map f (sort_key f xs))"
  by simp

text \<open>The realizations of a full enumeration are sorted by path, numbered, and of total weight one.\<close>

lemma smlt_enumerate_facts:
  assumes "smlt_enumerate t = Inr rlzs" "proper t"
  shows "sum_list (map rz_weight rlzs) = 1" and "map rz_ordinal rlzs = [0..<length rlzs]"
    and "sorted (map rz_pid rlzs)" and "uncollapsed t \<Longrightarrow> length rlzs = count_paths (bs_branches t)"
proof -
  let ?mk = "\<lambda>(w, brs). \<lparr>rz_value = map br_value brs, rz_weight = w, rz_ordinal = 0, rz_lt_path = map br_branch_id brs, rz_samples = 1\<rparr>"
  obtain rows where rows: "enumerate_paths t = Inr rows"
    and r: "rlzs = map (\<lambda>(r, rlz). rlz\<lparr>rz_ordinal := r\<rparr>) (enumerate 0 (sort_key rz_pid (map ?mk rows)))"
    using assms(1) by (auto simp: smlt_enumerate_def bindE_Inr_iff Let_def)
  let ?s = "sort_key rz_pid (map ?mk rows)"
  have ms: "mset (map rz_weight ?s) = mset (map fst rows)"
    by (simp add: image_mset.compositionality comp_def case_prod_unfold)
  have e: "map f rlzs = map f ?s" if "\<And>r rlz. f (rlz\<lparr>rz_ordinal := r\<rparr>) = f rlz" for f :: "uval option list realization \<Rightarrow> 'x"
    using that by (auto simp: r intro!: nth_equalityI simp: nth_enumerate_eq)
  have "sum_list (map rz_weight rlzs) = sum_mset (mset (map rz_weight ?s))" by (subst e) (simp_all only: sum_mset_sum_list, simp)
  also have "\<dots> = sum_list (map fst rows)" unfolding ms by (simp only: sum_mset_sum_list)
  also have "\<dots> = 1" using rows assms(2)
    by (auto simp: enumerate_paths_def bindE_Inr_iff comp_def dest: enum_paths_weight)
  finally show "sum_list (map rz_weight rlzs) = 1" .
  show "map rz_ordinal rlzs = [0..<length rlzs]"
    by (auto simp: r intro!: nth_equalityI simp: nth_enumerate_eq)
  have "map rz_pid rlzs = map rz_pid ?s" by (rule e) (simp add: rz_pid_def)
  then show "sorted (map rz_pid rlzs)" by simp
  show "length rlzs = count_paths (bs_branches t)" if "uncollapsed t" using rows that
    by (auto simp: r enumerate_paths_def bindE_Inr_iff dest: enum_paths_length)
qed

text \<open>The same for the tree that \<open>parse_tree\<close> builds from weights that sum to one.\<close>

lemma parse_tree_read_root:
  assumes "parse_tree special file nodes (smlt_empty branchID src_id test_mode) = Inr sl"
    "\<And>n. n \<in> set nodes \<Longrightarrow> sum_list (map un_weight (bn_nodes n)) = 1" "read_root sl = Some t"
  shows "proper t \<and> uncollapsed t"
proof -
  have "root_ok (smlt_empty branchID src_id test_mode)" by (simp add: root_ok_def heap_ok_def smlt_empty_def)
  then have "root_ok sl" using parse_tree_root_ok [OF assms(1)] assms(2) by blast
  then show ?thesis using assms(3) read_bset_both by (auto simp: root_ok_def read_root_def split: option.splits)
qed

end

