(* ===== verification/Upgrade.thy ===== *)
theory Upgrade
  imports Py_Base
begin

text \<open>
  The upgrades of the database schema (openquake/server/db/upgrade_manager.py): the names of the
  scripts, the versioning table, and \<open>upgrade_db\<close> with its commit or rollback. Given are the
  directory of the scripts, their contents and the effect of a query or of a Python script on the
  data. The main lemmas say which scripts are read and in which order, what an upgrade leaves in the
  versioning table, and what remains after a failure.
\<close>

section \<open>Names of the scripts\<close>

record script =
  sc_fname :: string
  sc_version :: string
  sc_flag :: "string option"
  sc_name :: string
  sc_ext :: string

text \<open>The end of the pattern, after the version and the flag: \<open>-([\w\-_]+)\.(sql|py)$\<close>.\<close>

definition name_char :: "char \<Rightarrow> bool" where
  "name_char c \<longleftrightarrow> is_word c \<or> c = CHR ''-''"

definition match_tail :: "string \<Rightarrow> (string \<times> string) option" where
  "match_tail s = (case s of [] \<Rightarrow> None
     | c # t \<Rightarrow> let n = takeWhile name_char t; e = dropWhile name_char t in
         if c \<noteq> CHR ''-'' \<or> n = [] then None
         else if e \<in> {''.sql'', ''.sql'' @ [char_of (10 :: nat)]} then Some (n, ''sql'')
         else if e \<in> {''.py'', ''.py'' @ [char_of (10 :: nat)]} then Some (n, ''py'')
         else None)"

fun match_flags :: "string list \<Rightarrow> string \<Rightarrow> (string option \<times> string \<times> string) option" where
  "match_flags [] s = map_option (\<lambda>ne. (None, ne)) (match_tail s)"
| "match_flags (f # fs) s = (case (if startswith s f then match_tail (drop (length f) s) else None) of
     Some ne \<Rightarrow> Some (Some f, ne) | None \<Rightarrow> match_flags fs s)"

definition parse_script_name :: "string \<Rightarrow> script option" where
  "parse_script_name script_name = (let v = take 4 script_name in
     if length v = 4 \<and> list_all is_digit v then
       map_option (\<lambda>(flag, n, e). \<lparr>sc_fname = script_name, sc_version = v, sc_flag = flag, sc_name = n, sc_ext = e\<rparr>)
         (match_flags [''-slow'', ''-danger''] (drop 4 script_name))
     else None)"

text \<open>The constructor checks the name of the versioning table.\<close>

definition upgrade_manager_init :: "string \<Rightarrow> unit res" where
  "upgrade_manager_init version_table = (case version_table of
     c # _ \<Rightarrow> if is_word c \<or> c = CHR ''.'' then Inr () else Inl ValueError | [] \<Rightarrow> Inl ValueError)"

text \<open>\<open>read_scripts\<close>; an empty minimum or maximum is the same as none.\<close>

definition wanted_version :: "string option \<Rightarrow> string option \<Rightarrow> string set \<Rightarrow> string \<Rightarrow> bool" where
  "wanted_version minversion maxversion skip v \<longleftrightarrow> v \<notin> skip \<and>
     (case minversion of None \<Rightarrow> True | Some m \<Rightarrow> m = [] \<or> m < v) \<and>
     (case maxversion of None \<Rightarrow> True | Some m \<Rightarrow> m = [] \<or> v \<le> m)"

definition read_step :: "string option \<Rightarrow> string option \<Rightarrow> string set \<Rightarrow> script list \<Rightarrow> string \<Rightarrow> script list res" where
  "read_step minversion maxversion skip scripts scriptname = (case parse_script_name scriptname of
     None \<Rightarrow> Inr scripts
   | Some s \<Rightarrow> if \<not> wanted_version minversion maxversion skip (sc_version s) then Inr scripts
       else if sc_version s \<in> set (map sc_version scripts) then Inl DuplicatedVersion
       else Inr (scripts @ [s]))"

definition read_scripts :: "string list \<Rightarrow> string option \<Rightarrow> string option \<Rightarrow> string set \<Rightarrow> script list res" where
  "read_scripts listdir minversion maxversion skip =
     foldE (read_step minversion maxversion skip) [] (sort listdir)"

section \<open>The connection\<close>

text \<open>
  The database is the versioning table, if there is one, and other data. In autocommit mode every
  statement is committed; otherwise a rollback restores what was committed last.
\<close>

record 'd db_state =
  ds_data :: 'd
  ds_versions :: "(string \<times> string) list option"

record 'd conn =
  cn_current :: "'d db_state"
  cn_committed :: "'d db_state"
  cn_autocommit :: bool

record 'd scripts_env =
  se_listdir :: "string list"
  se_content :: "string \<Rightarrow> string"
  se_execute :: "string \<Rightarrow> 'd \<Rightarrow> 'd res"
  se_python :: "string \<Rightarrow> 'd \<Rightarrow> 'd res"

definition statement :: "('d db_state \<Rightarrow> 'd db_state res) \<Rightarrow> 'd conn \<Rightarrow> unit res \<times> 'd conn" where
  "statement f cn = (case f (cn_current cn) of Inl e \<Rightarrow> (Inl e, cn)
     | Inr d \<Rightarrow> (Inr (), cn\<lparr>cn_current := d, cn_committed := (if cn_autocommit cn then d else cn_committed cn)\<rparr>))"

definition commit :: "'d conn \<Rightarrow> 'd conn" where
  "commit cn = cn\<lparr>cn_committed := cn_current cn\<rparr>"

definition rollback :: "'d conn \<Rightarrow> 'd conn" where
  "rollback cn = cn\<lparr>cn_current := cn_committed cn\<rparr>"

definition bindS :: "('s \<Rightarrow> 'a res \<times> 's) \<Rightarrow> ('a \<Rightarrow> 's \<Rightarrow> 'b res \<times> 's) \<Rightarrow> 's \<Rightarrow> 'b res \<times> 's" where
  "bindS m f s = (case m s of (Inl e, s') \<Rightarrow> (Inl e, s') | (Inr x, s') \<Rightarrow> f x s')"

definition liftS :: "'a res \<Rightarrow> 's \<Rightarrow> 'a res \<times> 's" where
  "liftS r s = (r, s)"

fun foldS :: "('x \<Rightarrow> 's \<Rightarrow> unit res \<times> 's) \<Rightarrow> 'x list \<Rightarrow> 's \<Rightarrow> unit res \<times> 's" where
  "foldS f [] s = (Inr (), s)"
| "foldS f (x # xs) s = bindS (f x) (\<lambda>_. foldS f xs) s"

section \<open>Running the scripts\<close>

text \<open>\<open>sql.split('\n\n')\<close>.\<close>

fun split_blank :: "string \<Rightarrow> string \<Rightarrow> string list" where
  "split_blank acc [] = [acc]"
| "split_blank acc [c] = [acc @ [c]]"
| "split_blank acc (c # d # s) = (if code c = 10 \<and> code d = 10 then acc # split_blank [] s
     else split_blank (acc @ [c]) (d # s))"

definition on_data :: "('d \<Rightarrow> 'd res) \<Rightarrow> 'd db_state \<Rightarrow> 'd db_state res" where
  "on_data f d = bindE (f (ds_data d)) (\<lambda>x. Inr (d\<lparr>ds_data := x\<rparr>))"

definition apply_sql_script :: "'d scripts_env \<Rightarrow> string \<Rightarrow> 'd conn \<Rightarrow> unit res \<times> 'd conn" where
  "apply_sql_script env fname = foldS (\<lambda>query. statement (on_data (se_execute env query)))
     (split_blank [] (se_content env fname))"

text \<open>The version is the primary key of the versioning table.\<close>

definition insert_script :: "script \<Rightarrow> 'd conn \<Rightarrow> unit res \<times> 'd conn" where
  "insert_script s = statement (\<lambda>d. case ds_versions d of None \<Rightarrow> Inl ScriptError
     | Some vs \<Rightarrow> if has_key vs (sc_version s) then Inl IntegrityError
         else Inr (d\<lparr>ds_versions := Some (vs @ [(sc_version s, sc_name s)])\<rparr>))"

definition create_versioning :: "'d conn \<Rightarrow> unit res \<times> 'd conn" where
  "create_versioning cn = statement (\<lambda>d. case ds_versions d of
     None \<Rightarrow> Inr (d\<lparr>ds_versions := Some []\<rparr>) | Some vs \<Rightarrow> Inl ScriptError) (commit cn)"

definition base_script :: "'d scripts_env \<Rightarrow> script res" where
  "base_script env = bindE (read_scripts (se_listdir env) None None {}) (\<lambda>l. py_index l 0)"

definition install_versioning :: "'d scripts_env \<Rightarrow> 'd conn \<Rightarrow> unit res \<times> 'd conn" where
  "install_versioning env = bindS create_versioning (\<lambda>_. bindS (liftS (base_script env)) (\<lambda>s. insert_script s))"

definition upgrader_init :: "'d scripts_env \<Rightarrow> 'd conn \<Rightarrow> unit res \<times> 'd conn" where
  "upgrader_init env = bindS (liftS (base_script env)) (\<lambda>s.
     bindS (apply_sql_script env (sc_fname s)) (\<lambda>_. install_versioning env))"

definition run_script :: "'d scripts_env \<Rightarrow> script \<Rightarrow> 'd conn \<Rightarrow> unit res \<times> 'd conn" where
  "run_script env s = bindS (if sc_ext s = ''py'' then statement (on_data (se_python env (sc_fname s)))
     else apply_sql_script env (sc_fname s)) (\<lambda>_. insert_script s)"

definition get_db_versions :: "'d conn \<Rightarrow> string list res" where
  "get_db_versions cn = (case ds_versions (cn_current cn) of None \<Rightarrow> Inl VersioningNotInstalled
     | Some vs \<Rightarrow> Inr (keys vs))"

definition max_version :: "string list \<Rightarrow> string res" where
  "max_version vs = (case vs of [] \<Rightarrow> Inl ValueError | v # ws \<Rightarrow> Inr (fold max ws v))"

text \<open>\<open>UpgradeManager.upgrade\<close>: the versions applied.\<close>

definition upgrade :: "'d scripts_env \<Rightarrow> string list \<Rightarrow> 'd conn \<Rightarrow> string list res \<times> 'd conn" where
  "upgrade env skip_versions cn = bindS (\<lambda>cn. (get_db_versions cn, cn)) (\<lambda>db_versions.
     bindS (liftS (max_version db_versions)) (\<lambda>starting.
     bindS (liftS (read_scripts (se_listdir env) None None (set db_versions \<union> set skip_versions))) (\<lambda>scripts.
     bindS (foldS (run_script env) scripts) (\<lambda>_. liftS (Inr (map sc_version scripts)))))) cn"

definition check_versions :: "'d scripts_env \<Rightarrow> 'd conn \<Rightarrow> string list option res" where
  "check_versions env cn = bindE (get_db_versions cn) (\<lambda>db_versions.
     bindE (read_scripts (se_listdir env) None None (set db_versions)) (\<lambda>scripts.
     Inr (if scripts = [] then None else Some (map sc_version scripts))))"

text \<open>\<open>instance\<close>: a database without versioning table is initialised and committed.\<close>

definition manager_instance :: "'d scripts_env \<Rightarrow> 'd conn \<Rightarrow> unit res \<times> 'd conn" where
  "manager_instance env = bindS (liftS (bindE (read_scripts (se_listdir env) None None {})
       (\<lambda>l. checkE (l \<noteq> []) SystemExit))) (\<lambda>_ cn.
     if ds_versions (cn_current cn) = None then
       bindS (upgrader_init env) (\<lambda>_ cn. (Inr (), commit cn)) cn
     else (Inr (), cn))"

definition upgrade_db :: "'d scripts_env \<Rightarrow> string list \<Rightarrow> 'd conn \<Rightarrow> string list res \<times> 'd conn" where
  "upgrade_db env skip_versions = bindS (manager_instance env) (\<lambda>_ cn.
     (case upgrade env skip_versions cn of
        (Inl e, cn') \<Rightarrow> (Inl e, rollback cn') | (Inr vs, cn') \<Rightarrow> (Inr vs, commit cn')))"

definition db_version :: "'d scripts_env \<Rightarrow> 'd conn \<Rightarrow> string res \<times> 'd conn" where
  "db_version env = bindS (manager_instance env) (\<lambda>_ cn. (bindE (get_db_versions cn) max_version, cn))"

text \<open>\<open>what_if_I_upgrade\<close>: the safe, the slow and the dangerous scripts, given those of the web page.\<close>

definition what_if_step :: "string list \<Rightarrow> string \<Rightarrow> script list \<times> script list \<times> script list \<Rightarrow> script \<Rightarrow>
    (script list \<times> script list \<times> script list) res" where
  "what_if_step applied current acc s = (case acc of (safe, slow, danger) \<Rightarrow>
     if sc_version s \<in> set applied then Inr acc
     else if sc_version s \<le> current then Inl VersionTooSmall
     else if sc_flag s = Some ''-slow'' then Inr (safe, slow @ [s], danger)
     else if sc_flag s = Some ''-danger'' then Inr (safe, slow, danger @ [s])
     else Inr (safe @ [s], slow, danger))"

definition what_if_I_upgrade :: "'d scripts_env \<Rightarrow> script list \<Rightarrow> 'd conn \<Rightarrow>
    (string \<times> script list \<times> script list \<times> script list) res \<times> 'd conn" where
  "what_if_I_upgrade env page_scripts = bindS (manager_instance env) (\<lambda>_ cn.
     (bindE (get_db_versions cn) (\<lambda>applied. bindE (max_version applied) (\<lambda>current.
      bindE (foldE (what_if_step applied current) ([], [], []) page_scripts) (\<lambda>r. Inr (current, r)))), cn))"

section \<open>The scripts that are read\<close>

lemma parse_script_name_Some:
  assumes "parse_script_name f = Some s"
  shows "sc_fname s = f" and "sc_version s = take 4 f" and "length (sc_version s) = 4"
    and "list_all is_digit (sc_version s)"
  using assms by (auto simp: parse_script_name_def Let_def split: if_splits)

lemma match_tail_Some:
  assumes "match_tail s = Some (n, e)"
  shows "n \<noteq> [] \<and> list_all name_char n \<and> e \<in> {''sql'', ''py''} \<and>
    s \<in> {''-'' @ n @ ''.'' @ e, ''-'' @ n @ ''.'' @ e @ [char_of (10 :: nat)]}"
proof -
  obtain c t where s: "s = c # t" using assms by (cases s) (auto simp: match_tail_def)
  define e' where "e' = dropWhile name_char t"
  have c: "c = CHR ''-''" "takeWhile name_char t \<noteq> []" "n = takeWhile name_char t"
    and e: "(e' \<in> {''.sql'', ''.sql'' @ [char_of (10 :: nat)]} \<and> e = ''sql'') \<or>
      (e' \<in> {''.py'', ''.py'' @ [char_of (10 :: nat)]} \<and> e = ''py'')"
    using assms by (simp_all only: match_tail_def s Let_def list.case e'_def [symmetric] split: if_splits) simp_all
  have t: "t = n @ e'" by (simp add: c(3) e'_def)
  have "list_all name_char n" by (auto simp: c(3) list_all_iff dest: set_takeWhileD)
  moreover have "n \<noteq> []" using c(2,3) by simp
  ultimately show ?thesis using c(1) e unfolding s t by (elim disjE conjE insertE) simp_all
qed

text \<open>A script name is put together again from its parts, up to a trailing line feed.\<close>

lemma match_flags_Some:
  "match_flags fs s = Some (flag, n, e) \<Longrightarrow> (case flag of None \<Rightarrow> True | Some f \<Rightarrow> f \<in> set fs) \<and>
     match_tail (drop (length (case flag of None \<Rightarrow> [] | Some f \<Rightarrow> f)) s) = Some (n, e) \<and>
     startswith s (case flag of None \<Rightarrow> [] | Some f \<Rightarrow> f)"
  by (induction fs s rule: match_flags.induct) (auto split: if_splits option.splits)

lemma parse_script_name_parts:
  assumes "parse_script_name f = Some s"
  shows "f \<in> (\<lambda>eol. sc_version s @ (case sc_flag s of None \<Rightarrow> [] | Some g \<Rightarrow> g) @ ''-'' @ sc_name s @ ''.'' @ sc_ext s @ eol)
    ` {[], [char_of (10 :: nat)]}"
proof -
  obtain flag n e where m: "match_flags [''-slow'', ''-danger''] (drop 4 f) = Some (flag, n, e)"
    and s: "s = \<lparr>sc_fname = f, sc_version = take 4 f, sc_flag = flag, sc_name = n, sc_ext = e\<rparr>"
    using assms by (auto simp: parse_script_name_def Let_def split: if_splits)
  let ?g = "case flag of None \<Rightarrow> [] | Some f \<Rightarrow> f"
  have "match_tail (drop (length ?g) (drop 4 f)) = Some (n, e)" "startswith (drop 4 f) ?g"
    using match_flags_Some [OF m] by simp_all
  then obtain z where z1: "drop 4 f = ?g @ z" and "match_tail (drop (length ?g) (?g @ z)) = Some (n, e)"
    by (metis prefix_def)
  then have z: "drop 4 f = ?g @ z" "match_tail z = Some (n, e)" by simp_all
  then have "z \<in> {''-'' @ n @ ''.'' @ e, ''-'' @ n @ ''.'' @ e @ [char_of (10 :: nat)]}"
    using match_tail_Some by blast
  moreover have "f = take 4 f @ drop 4 f" by simp
  ultimately have "f \<in> {take 4 f @ ?g @ ''-'' @ n @ ''.'' @ e, take 4 f @ ?g @ ''-'' @ n @ ''.'' @ e @ [char_of (10 :: nat)]}"
    using z(1) by (metis insert_iff singletonD)
  then show ?thesis by (auto simp: s)
qed

definition relevant :: "string option \<Rightarrow> string option \<Rightarrow> string set \<Rightarrow> string list \<Rightarrow> script list" where
  "relevant mn mx skip fs = filter (\<lambda>s. wanted_version mn mx skip (sc_version s)) (List.map_filter parse_script_name fs)"

lemma read_fold:
  "foldE (read_step mn mx skip) acc fs = Inr l \<longleftrightarrow> l = acc @ relevant mn mx skip fs \<and>
     (distinct (map sc_version acc) \<longrightarrow> distinct (map sc_version l))"
  if "distinct (map sc_version acc)"
  using that
proof (induction fs arbitrary: acc)
  case (Cons f fs)
  show ?case
  proof (cases "parse_script_name f")
    case (Some s)
    show ?thesis
    proof (cases "wanted_version mn mx skip (sc_version s)")
      case True
      then show ?thesis using Some Cons.prems Cons.IH [of "acc @ [s]"]
        by (auto simp: read_step_def relevant_def map_filter_simps)
    qed (use Some Cons in \<open>simp add: read_step_def relevant_def map_filter_simps\<close>)
  qed (use Cons in \<open>simp add: read_step_def relevant_def map_filter_simps\<close>)
qed (auto simp: relevant_def map_filter_simps)

lemma read_scripts_Inr_iff:
  "read_scripts listdir mn mx skip = Inr l \<longleftrightarrow> l = relevant mn mx skip (sort listdir) \<and> distinct (map sc_version l)"
  using read_fold [of "[]" mn mx skip "sort listdir" l] by (auto simp: read_scripts_def)

lemma take_mono: "xs \<le> ys \<Longrightarrow> take n xs \<le> take n (ys :: 'a::linorder list)"
proof (induction n arbitrary: xs ys)
  case (Suc n)
  then show ?case by (cases xs; cases ys) auto
qed simp

lemma sorted_versions: "sorted fs \<Longrightarrow> sorted (map sc_version (List.map_filter parse_script_name fs))"
proof (induction fs)
  case (Cons f fs)
  have "sc_version s \<le> sc_version t" if "parse_script_name f = Some s" "g \<in> set fs" "parse_script_name g = Some t" for g s t
    using that Cons.prems take_mono parse_script_name_Some(2) by (metis sorted_simps(2))
  then show ?case using Cons by (auto simp: map_filter_def split: option.split)
qed (simp add: map_filter_simps)

text \<open>The scripts come in the strict order of their versions, one for each wanted version.\<close>

lemma read_scripts_sorted:
  assumes "read_scripts listdir mn mx skip = Inr l"
  shows "sorted_wrt (<) (map sc_version l)"
    and "set l = {s. \<exists>f \<in> set listdir. parse_script_name f = Some s \<and> wanted_version mn mx skip (sc_version s)}"
proof -
  have l: "l = relevant mn mx skip (sort listdir)" and d: "distinct (map sc_version l)"
    using assms unfolding read_scripts_Inr_iff by blast+
  have "sorted (map sc_version (List.map_filter parse_script_name (sort listdir)))" by (rule sorted_versions) simp
  then have "sorted (map sc_version l)" unfolding l relevant_def by (simp add: sorted_map_same sorted_wrt_filter sorted_wrt_map)
  then show "sorted_wrt (<) (map sc_version l)" using d by (simp add: strict_sorted_iff)
  show "set l = {s. \<exists>f \<in> set listdir. parse_script_name f = Some s \<and> wanted_version mn mx skip (sc_version s)}"
    by (force simp: l relevant_def map_filter_def)
qed

section \<open>What an upgrade does\<close>

text \<open>A statement that touches the data only keeps the versions; without autocommit nothing is committed.\<close>

definition steady :: "('d conn \<Rightarrow> unit res \<times> 'd conn) \<Rightarrow> bool" where
  "steady m \<longleftrightarrow> (\<forall>cn. cn_autocommit (snd (m cn)) = cn_autocommit cn \<and>
     (\<not> cn_autocommit cn \<longrightarrow> cn_committed (snd (m cn)) = cn_committed cn) \<and>
     (cn_autocommit cn \<longrightarrow> cn_committed cn = cn_current cn \<longrightarrow> cn_committed (snd (m cn)) = cn_current (snd (m cn))))"

lemma steady_statement: "steady (statement f)"
  by (auto simp: steady_def statement_def split: sum.splits)

lemma steady_bindS:
  assumes "steady m" "\<And>x. steady (f x)" shows "steady (bindS m f)"
  unfolding steady_def
proof (intro allI)
  fix cn
  obtain r cn1 where m: "m cn = (r, cn1)" by (cases "m cn")
  show "cn_autocommit (snd (bindS m f cn)) = cn_autocommit cn \<and>
     (\<not> cn_autocommit cn \<longrightarrow> cn_committed (snd (bindS m f cn)) = cn_committed cn) \<and>
     (cn_autocommit cn \<longrightarrow> cn_committed cn = cn_current cn \<longrightarrow>
       cn_committed (snd (bindS m f cn)) = cn_current (snd (bindS m f cn)))"
    using assms(1) [unfolded steady_def, rule_format, of cn] assms(2) [unfolded steady_def, rule_format, of "projr r" cn1]
    by (cases r) (auto simp: bindS_def m)
qed

lemma steady_foldS: "(\<And>x. steady (f x)) \<Longrightarrow> steady (foldS f xs)"
proof (induction xs)
  case Nil
  then show ?case by (simp add: steady_def)
next
  case (Cons x xs)
  have "foldS f (x # xs) = bindS (f x) (\<lambda>_. foldS f xs)" by (rule ext) simp
  then show ?case using Cons steady_bindS by metis
qed

lemma steady_run_script: "steady (run_script env s)"
  unfolding run_script_def apply_sql_script_def insert_script_def
  by (intro steady_bindS) (auto intro: steady_foldS steady_statement)

lemmas steady_scripts = steady_foldS [of "run_script env" for env, OF steady_run_script]

lemma statement_data_versions: "ds_versions (cn_current (snd (statement (on_data f) cn))) = ds_versions (cn_current cn)"
  by (auto simp: statement_def on_data_def bindE_def split: sum.splits)

lemma foldS_data_versions:
  "ds_versions (cn_current (snd (foldS (\<lambda>x. statement (on_data (f x))) xs cn))) = ds_versions (cn_current cn)"
proof (induction xs arbitrary: cn)
  case (Cons x xs)
  obtain r cn1 where s: "statement (on_data (f x)) cn = (r, cn1)" by (cases "statement (on_data (f x)) cn")
  have "ds_versions (cn_current cn1) = ds_versions (cn_current cn)" using statement_data_versions [of "f x" cn] s by simp
  then show ?case using Cons.IH [of cn1] by (cases r) (simp_all add: bindS_def s)
qed simp

text \<open>A script that succeeds adds its version, one that fails adds none.\<close>

lemma run_script_versions:
  assumes "run_script env s cn = (r, cn')" "ds_versions (cn_current cn) = Some vs"
  shows "ds_versions (cn_current cn') = Some (vs @ (if is_ok r then [(sc_version s, sc_name s)] else []))"
proof -
  let ?body = "if sc_ext s = ''py'' then statement (on_data (se_python env (sc_fname s))) else apply_sql_script env (sc_fname s)"
  obtain q cn1 where b: "?body cn = (q, cn1)" by (cases "?body cn")
  have "ds_versions (cn_current (snd (?body cn))) = ds_versions (cn_current cn)"
    by (simp add: statement_data_versions apply_sql_script_def foldS_data_versions)
  then have v: "ds_versions (cn_current cn1) = Some vs" using assms(2) b by simp
  have r: "(r, cn') = bindS ?body (\<lambda>_. insert_script s) cn" using assms(1) by (simp add: run_script_def)
  show ?thesis
  proof (cases q)
    case (Inl e)
    then show ?thesis using r v unfolding bindS_def b by simp
  next
    case (Inr u)
    then have "(r, cn') = insert_script s cn1" using r unfolding bindS_def b by simp
    then show ?thesis using v by (auto simp: insert_script_def statement_def split: if_splits)
  qed
qed

lemma run_scripts_versions:
  assumes "foldS (run_script env) scripts cn = (Inr (), cn')" "ds_versions (cn_current cn) = Some vs"
  shows "ds_versions (cn_current cn') = Some (vs @ map (\<lambda>s. (sc_version s, sc_name s)) scripts)"
  using assms
proof (induction scripts arbitrary: cn vs)
  case (Cons s scripts)
  obtain r cn1 where s: "run_script env s cn = (r, cn1)" by (cases "run_script env s cn")
  then obtain u where r: "r = Inr u" "foldS (run_script env) scripts cn1 = (Inr (), cn')"
    using Cons.prems(1) by (cases r) (auto simp: bindS_def)
  show ?case using Cons.IH [OF r(2)] run_script_versions [OF s Cons.prems(2)] r(1) by simp
qed simp

lemma bindS_Inr:
  "bindS m f s = (Inr y, s') \<longleftrightarrow> (\<exists>x s1. m s = (Inr x, s1) \<and> f x s1 = (Inr y, s'))"
  by (auto simp: bindS_def split: prod.splits sum.splits)

lemma upgrade_Inr:
  assumes "upgrade env skip cn = (Inr vs, cn')" "ds_versions (cn_current cn) = Some old"
  obtains scripts where "read_scripts (se_listdir env) None None (set (keys old) \<union> set skip) = Inr scripts"
    "foldS (run_script env) scripts cn = (Inr (), cn')" "vs = map sc_version scripts"
  using assms by (auto simp: upgrade_def bindS_Inr liftS_def get_db_versions_def split: option.splits)

text \<open>
  A successful upgrade applies the missing versions in increasing order and records them; when none
  was skipped the database is up to date.
\<close>

lemma upgrade_facts:
  assumes "upgrade env skip cn = (Inr vs, cn')" "ds_versions (cn_current cn) = Some old"
  shows "get_db_versions cn' = Inr (keys old @ vs)" and "sorted_wrt (<) vs"
    and "set vs = {sc_version s | s f. f \<in> set (se_listdir env) \<and> parse_script_name f = Some s} - set (keys old) - set skip"
    and "skip = [] \<Longrightarrow> check_versions env cn' = Inr None"
proof -
  obtain scripts where r: "read_scripts (se_listdir env) None None (set (keys old) \<union> set skip) = Inr scripts"
    and f: "foldS (run_script env) scripts cn = (Inr (), cn')" and vs: "vs = map sc_version scripts"
    using upgrade_Inr [OF assms] .
  show g: "get_db_versions cn' = Inr (keys old @ vs)"
    using run_scripts_versions [OF f assms(2)] by (simp add: get_db_versions_def vs comp_def)
  note rs = read_scripts_sorted [OF r]
  show "sorted_wrt (<) vs" using rs(1) by (simp only: vs)
  show set_vs: "set vs = {sc_version s | s f. f \<in> set (se_listdir env) \<and> parse_script_name f = Some s} - set (keys old) - set skip"
    by (auto simp: vs rs(2) wanted_version_def)
  show "check_versions env cn' = Inr None" if "skip = []"
  proof -
    have "relevant None None (set (keys old @ vs)) (sort (se_listdir env)) = []"
      using set_vs that by (auto simp: relevant_def filter_empty_conv map_filter_def wanted_version_def)
    then have "read_scripts (se_listdir env) None None (set (keys old @ vs)) = Inr []"
      unfolding read_scripts_Inr_iff by simp
    then show ?thesis using g by (simp add: check_versions_def del: set_append)
  qed
qed

lemma upgrade_steady: "steady (\<lambda>cn. (bindE (fst (upgrade env skip cn)) (\<lambda>_. Inr ()), snd (upgrade env skip cn)))"
proof -
  have "snd (upgrade env skip cn) = cn \<or> (\<exists>scripts. snd (upgrade env skip cn) = snd (foldS (run_script env) scripts cn))" for cn
    by (auto simp: upgrade_def bindS_def liftS_def split: prod.splits sum.splits) (metis snd_conv)+
  then show ?thesis using steady_scripts unfolding steady_def by (metis snd_conv)
qed

text \<open>After a failure nothing is changed if the connection is transactional; in autocommit mode the
  rollback has no effect.\<close>

lemma manager_instance_installed:
  assumes "ds_versions (cn_current cn) \<noteq> None"
  shows "manager_instance env cn = (fst (manager_instance env cn), cn)"
  using assms by (auto simp: manager_instance_def bindS_def liftS_def split: sum.splits)

lemma upgrade_db_failed:
  assumes "upgrade_db env skip cn = (Inl e, cn')" "ds_versions (cn_current cn) \<noteq> None" "cn_committed cn = cn_current cn"
  shows "\<not> cn_autocommit cn \<Longrightarrow> cn_current cn' = cn_current cn"
    and "cn_autocommit cn \<Longrightarrow> fst (manager_instance env cn) = Inr () \<Longrightarrow> cn_current cn' = cn_current (snd (upgrade env skip cn))"
proof -
  have st: "(\<not> cn_autocommit cn \<longrightarrow> cn_committed (snd (upgrade env skip cn)) = cn_committed cn) \<and>
     (cn_autocommit cn \<longrightarrow> cn_committed cn = cn_current cn \<longrightarrow>
       cn_committed (snd (upgrade env skip cn)) = cn_current (snd (upgrade env skip cn)))"
    using upgrade_steady [of env skip, unfolded steady_def] by simp
  obtain r where m: "manager_instance env cn = (r, cn)" using manager_instance_installed [OF assms(2)] by blast
  have "cn' = cn \<or> (r = Inr () \<and> cn' = rollback (snd (upgrade env skip cn)))"
    and "r = Inr () \<Longrightarrow> cn' = rollback (snd (upgrade env skip cn))"
    using assms(1) by (auto simp: upgrade_db_def bindS_def m split: sum.splits prod.splits)
  then show "\<not> cn_autocommit cn \<Longrightarrow> cn_current cn' = cn_current cn"
    and "cn_autocommit cn \<Longrightarrow> fst (manager_instance env cn) = Inr () \<Longrightarrow> cn_current cn' = cn_current (snd (upgrade env skip cn))"
    using st assms(3) by (auto simp: rollback_def m)
qed

section \<open>Reports\<close>

lemma what_if_ok_iff:
  "is_ok (foldE (what_if_step applied current) acc page) \<longleftrightarrow>
     (\<forall>s \<in> set page. sc_version s \<in> set applied \<or> current < sc_version s)"
proof (induction page arbitrary: acc)
  case (Cons s page)
  obtain safe slow danger where acc: "acc = (safe, slow, danger)" by (cases acc)
  show ?case
  proof (cases "sc_version s \<in> set applied \<or> current < sc_version s")
    case True
    then have "is_ok (what_if_step applied current acc s)" by (auto simp: what_if_step_def acc)
    then obtain acc' where "what_if_step applied current acc s = Inr acc'" unfolding is_ok_iff by blast
    then show ?thesis using Cons.IH [of acc'] True by simp
  next
    case False
    then show ?thesis by (auto simp: what_if_step_def acc)
  qed
qed simp

end
