(* ===== verification/Dbapi.thy ===== *)
theory Dbapi
  imports Py_Show Seq_Blocks
begin

text \<open>
  The database layer openquake/commonlib/dbapi.py: the interpolation of the \<open>?\<close>-parameters of a query
  template (\<open>_Replacer\<close>, \<open>match\<close>), the shaping of the rows of a query (\<open>Db.__call__\<close>, \<open>Row\<close>, \<open>Table\<close>)
  and \<open>Db.insert\<close>. The execution of a query by SQLite is given. The main lemmas say that the query
  depends on the values only through their number and on which of them are None, and that it has
  a question mark for every argument.
\<close>

section \<open>Values and arguments\<close>

datatype sqlv = VNone | VInt int | VFloat pyfloat | VStr string

text \<open>An argument of \<open>match\<close>: a scalar, a sequence or a dictionary.\<close>

datatype parg = Arg sqlv | Args "sqlv list" | Dic "(string, sqlv) dict"

fun str_of :: "sqlv \<Rightarrow> string" where
  "str_of VNone = ''None''"
| "str_of (VInt i) = show_int i"
| "str_of (VFloat x) = show_float x"
| "str_of (VStr s) = s"

text \<open>The elements of an argument, as \<open>extend\<close> and \<open>len\<close> see them.\<close>

fun elements :: "parg \<Rightarrow> sqlv list res" where
  "elements (Arg (VStr s)) = Inr (map (\<lambda>c. VStr [c]) s)"
| "elements (Arg _) = Inl TypeError"
| "elements (Args l) = Inr l"
| "elements (Dic d) = Inr (map VStr (keys d))"

section \<open>The replacer\<close>

record replacer =
  rp_all_args :: "parg list"
  rp_xargs :: "parg list"
  rp_sargs :: "string list"

definition sorted_items :: "(string, 'v) dict \<Rightarrow> (string, 'v) dict" where
  "sorted_items d = sort_key fst d"

text \<open>\<open>_Replacer.join\<close>; what is not a dictionary cannot be indexed by a name, unless it is empty.\<close>

definition replacer_join :: "string \<Rightarrow> parg \<Rightarrow> replacer \<Rightarrow> (string \<times> replacer) res" where
  "replacer_join sep arg r = (case arg of
     Dic d \<Rightarrow> Inr (join sep (map (\<lambda>(k, v). if v = VNone then ''{} IS NULL'' else ''{}=?'') (sorted_items d)),
       r\<lparr>rp_sargs := rp_sargs r @ keys (sorted_items d),
         rp_xargs := rp_xargs r @ map Arg (filter (\<lambda>v. v \<noteq> VNone) (map snd (sorted_items d)))\<rparr>)
   | _ \<Rightarrow> bindE (elements arg) (\<lambda>l. if l = [] then Inr ([], r) else Inl TypeError))"

definition or_one :: "(string \<times> replacer) res \<Rightarrow> (string \<times> replacer) res" where
  "or_one m = bindE m (\<lambda>(s, r). Inr (if s = [] then ''1'' else s, r))"

text \<open>
  \<open>_Replacer.__call__\<close> at a placeholder, given by its letter. A \<open>?s\<close> parameter that is not a scalar is a
  TypeError here; Python writes its representation into the query.
\<close>

definition replace_one :: "char \<Rightarrow> parg \<Rightarrow> replacer \<Rightarrow> (string \<times> replacer) res" where
  "replace_one p arg r =
     (if p = CHR ''X'' then bindE (elements arg) (\<lambda>l.
        Inr (join '', '' (replicate (length l) ''?''), r\<lparr>rp_xargs := rp_xargs r @ map Arg l\<rparr>))
      else if p = CHR ''S'' then bindE (elements arg) (\<lambda>l.
        Inr (join '', '' (replicate (length l) ''{}''), r\<lparr>rp_sargs := rp_sargs r @ map str_of l\<rparr>))
      else if p = CHR ''D'' then (case arg of
          Dic d \<Rightarrow> if d = [] then Inl ValueError else
            Inr (join '', '' (replicate (length d) ''{}=?''),
              r\<lparr>rp_sargs := rp_sargs r @ keys (sorted_items d), rp_xargs := rp_xargs r @ map (Arg \<circ> snd) (sorted_items d)\<rparr>)
        | _ \<Rightarrow> Inl AttributeError)
      else if p = CHR ''A'' then or_one (replacer_join '' AND '' arg r)
      else if p = CHR ''O'' then or_one (replacer_join '' OR '' arg r)
      else if p = CHR ''x'' then Inr (''?'', r\<lparr>rp_xargs := rp_xargs r @ [arg]\<rparr>)
      else (case arg of
          Arg v \<Rightarrow> Inr (''{}'', r\<lparr>rp_sargs := rp_sargs r @ [str_of v]\<rparr>) | _ \<Rightarrow> Inl TypeError))"

definition replacer_call :: "char \<Rightarrow> replacer \<Rightarrow> (string \<times> replacer) res" where
  "replacer_call p r = (case rp_all_args r of [] \<Rightarrow> Inl IndexError
     | arg # rest \<Rightarrow> replace_one p arg (r\<lparr>rp_all_args := rest\<rparr>))"

definition is_placeholder :: "char \<Rightarrow> bool" where
  "is_placeholder c \<longleftrightarrow> c \<in> set ''SXDAOsx''"

text \<open>\<open>rx.sub\<close>: a question mark followed by one of the letters is a placeholder.\<close>

fun rx_sub :: "string \<Rightarrow> replacer \<Rightarrow> (string \<times> replacer) res" where
  "rx_sub [] r = Inr ([], r)"
| "rx_sub [c] r = Inr ([c], r)"
| "rx_sub (c # p # s) r = (if c = CHR ''?'' \<and> is_placeholder p
     then bindE (replacer_call p r) (\<lambda>(u, r1). bindE (rx_sub s r1) (\<lambda>(t, r2). Inr (u @ t, r2)))
     else bindE (rx_sub (p # s) r) (\<lambda>(t, r1). Inr (c # t, r1)))"

text \<open>
  \<open>templ.format\<close>: the fields \<open>{}\<close> in their order, doubled braces for single ones. Any other field is a
  ValueError here; Python also knows fields with a name, a position or a format.
\<close>

fun str_format :: "string \<Rightarrow> string list \<Rightarrow> string res" where
  "str_format [] as = Inr []"
| "str_format [c] as = (if c \<in> set ''{}'' then Inl ValueError else Inr [c])"
| "str_format (c # d # s) as =
     (if c = CHR ''{'' \<and> d = CHR ''}'' then (case as of [] \<Rightarrow> Inl IndexError
        | a # as' \<Rightarrow> bindE (str_format s as') (\<lambda>t. Inr (a @ t)))
      else if c \<in> set ''{}'' then (if d = c then bindE (str_format s as) (\<lambda>t. Inr (c # t)) else Inl ValueError)
      else bindE (str_format (d # s) as) (\<lambda>t. Inr (c # t)))"

definition replacer_match :: "string \<Rightarrow> parg list \<Rightarrow> (string \<times> parg list) res" where
  "replacer_match m_templ args =
     bindE (rx_sub m_templ \<lparr>rp_all_args = args, rp_xargs = [], rp_sargs = []\<rparr>) (\<lambda>(templ, r).
     bindE (str_format templ (rp_sargs r)) (\<lambda>q. Inr (q, rp_xargs r)))"

section \<open>match\<close>

text \<open>\<open>splitlines\<close>: a carriage return and a line feed together are one line break.\<close>

definition line_break :: "char \<Rightarrow> bool" where
  "line_break c \<longleftrightarrow> code c \<in> {10, 11, 12, 13, 28, 29, 30, 133}"

fun splitlines_from :: "string \<Rightarrow> string \<Rightarrow> string list" where
  "splitlines_from acc [] = (if acc = [] then [] else [acc])"
| "splitlines_from acc [c] = (if line_break c then [acc] else [acc @ [c]])"
| "splitlines_from acc (c # d # s) = (if code c = 13 \<and> code d = 10 then acc # splitlines_from [] s
     else if line_break c then acc # splitlines_from [] (d # s)
     else splitlines_from (acc @ [c]) (d # s))"

definition splitlines :: "string \<Rightarrow> string list" where
  "splitlines s = splitlines_from [] s"

definition strip_comments :: "string \<Rightarrow> string" where
  "strip_comments m_templ = join [char_of (10 :: nat)]
     (filter (\<lambda>line. \<not> startswith (lstrip line) ''--'') (splitlines m_templ))"

text \<open>\<open>match\<close>; an IndexError, from a missing argument or from a field of the template, becomes a ValueError.\<close>

definition match_templ :: "string \<Rightarrow> parg list \<Rightarrow> (string \<times> parg list) res" where
  "match_templ m_templ args = (let templ = strip_comments m_templ in
     if args = [] then Inr (templ, [])
     else case replacer_match templ args of
       Inl e \<Rightarrow> Inl (if e = IndexError then ValueError else e) | Inr r \<Rightarrow> Inr r)"

definition db_expand :: "string \<Rightarrow> parg list \<Rightarrow> string res" where
  "db_expand m_templ args = bindE (match_templ m_templ args) (\<lambda>(q, xs). Inr q)"

section \<open>Rows\<close>

record row =
  rw_fields :: "string list"
  rw_values :: "sqlv list"
  rw_attrs :: "(string, sqlv) dict"

definition row_init :: "string list \<Rightarrow> sqlv list \<Rightarrow> row res" where
  "row_init fs vs = (if length vs \<noteq> length fs then Inl ValueError
     else Inr \<lparr>rw_fields = fs, rw_values = vs, rw_attrs = dict_update [] (zip fs vs)\<rparr>)"

definition row_getitem :: "row \<Rightarrow> int \<Rightarrow> sqlv res" where
  "row_getitem r i = py_index (rw_values r) i"

definition row_getattr :: "row \<Rightarrow> string \<Rightarrow> sqlv res" where
  "row_getattr r f = (case map_of (rw_attrs r) f of None \<Rightarrow> Inl AttributeError | Some v \<Rightarrow> Inr v)"

definition table_init :: "string list \<Rightarrow> sqlv list list \<Rightarrow> row list res" where
  "table_init fs rows = mapE (row_init fs) rows"

section \<open>Db\<close>

text \<open>What the cursor holds after a query; a statement without result has no description.\<close>

record sql_cursor =
  cu_description :: "string list option"
  cu_rows :: "sqlv list list"

datatype db_result = RCursor sql_cursor | RScalar sqlv | ROne row | RTable "row list"

definition is_query :: "string \<Rightarrow> bool" where
  "is_query templ \<longleftrightarrow> (let t = str_lower (lstrip templ) in startswith t ''select'' \<or> startswith t ''pragma'')"

definition shape_rows :: "bool \<Rightarrow> bool \<Rightarrow> sql_cursor \<Rightarrow> db_result res" where
  "shape_rows scalar one cur = (let rows = cu_rows cur in
     if scalar then
       (case rows of [] \<Rightarrow> Inl NotFound
        | [r] \<Rightarrow> if 1 < length r then Inl TooManyColumns else bindE (py_index r 0) (\<lambda>v. Inr (RScalar v))
        | _ \<Rightarrow> Inl TooManyRows)
     else if one then
       (case rows of [] \<Rightarrow> Inl NotFound
        | [r] \<Rightarrow> bindE (of_option TypeError (cu_description cur)) (\<lambda>fs. bindE (row_init fs r) (\<lambda>r. Inr (ROne r)))
        | _ \<Rightarrow> Inl TooManyRows)
     else (case cu_description cur of None \<Rightarrow> Inr (RCursor cur)
       | Some fs \<Rightarrow> bindE (table_init fs rows) (\<lambda>t. Inr (RTable t))))"

text \<open>\<open>Db.__call__\<close>, with the execution of the query given.\<close>

definition db_call :: "(string \<Rightarrow> parg list \<Rightarrow> sql_cursor res) \<Rightarrow> string \<Rightarrow> parg list \<Rightarrow> bool \<Rightarrow> bool \<Rightarrow> db_result res" where
  "db_call execute m_templ args scalar one =
     bindE (match_templ m_templ args) (\<lambda>(templ, xs). bindE (execute templ xs) (\<lambda>cur.
     if is_query templ then shape_rows scalar one cur else Inr (RCursor cur)))"

text \<open>\<open>insert\<close>: the template is made from the first row.\<close>

definition insert_templ :: "string \<Rightarrow> string list \<Rightarrow> sqlv list list \<Rightarrow> string option res" where
  "insert_templ table columns rows = (case rows of [] \<Rightarrow> Inr None
     | row # _ \<Rightarrow> bindE (match_templ ''INSERT INTO ?s (?S) VALUES (?X)''
         [Arg (VStr table), Args (map VStr columns), Args row]) (\<lambda>(templ, xs). Inr (Some templ)))"

lemma match_examples:
  "match_templ ''SELECT * FROM job WHERE ?A'' [Dic [(''value'', VNone), (''id'', VInt 5)]] =
     Inr (''SELECT * FROM job WHERE id=? AND value IS NULL'', [Arg (VInt 5)])"
  "match_templ ''UPDATE mytable SET ?D WHERE id=?x'' [Dic [(''value'', VInt 33), (''other'', VInt 5)], Arg (VInt 1)] =
     Inr (''UPDATE mytable SET other=?, value=? WHERE id=?'', [Arg (VInt 5), Arg (VInt 33), Arg (VInt 1)])"
  "match_templ ''SELECT ?s'' [] = Inr (''SELECT ?s'', [])"
  "match_templ ''SELECT ?x, ?x'' [Arg (VInt 1)] = Inl ValueError"
  "insert_templ ''job'' [''id'', ''value''] [[VInt 3, VInt 44]] = Inr (Some ''INSERT INTO job (id, value) VALUES (?, ?)'')"
  by code_simp+

section \<open>The query depends on the shape of the values only\<close>

text \<open>The placeholders of a template, and what is left of its question marks.\<close>

fun placeholders :: "string \<Rightarrow> char list" where
  "placeholders [] = []"
| "placeholders [c] = []"
| "placeholders (c # p # s) = (if c = CHR ''?'' \<and> is_placeholder p then p # placeholders s else placeholders (p # s))"

fun literal_marks :: "string \<Rightarrow> nat" where
  "literal_marks [] = 0"
| "literal_marks [c] = (if c = CHR ''?'' then 1 else 0)"
| "literal_marks (c # p # s) = (if c = CHR ''?'' \<and> is_placeholder p then literal_marks s
     else (if c = CHR ''?'' then 1 else 0) + literal_marks (p # s))"

text \<open>Two arguments that differ only in values.\<close>

definition agree :: "char \<Rightarrow> parg \<Rightarrow> parg \<Rightarrow> bool" where
  "agree p a b = (if p = CHR ''x'' then True
     else if p = CHR ''X'' then (case (elements a, elements b) of (Inr l, Inr m) \<Rightarrow> length l = length m | _ \<Rightarrow> False)
     else if p \<in> set ''DAO'' then (case (a, b) of
         (Dic d, Dic e) \<Rightarrow> map (\<lambda>(k, v). (k, v = VNone)) (sorted_items d) = map (\<lambda>(k, v). (k, v = VNone)) (sorted_items e)
       | _ \<Rightarrow> a = b)
     else a = b)"

fun agree_all :: "char list \<Rightarrow> parg list \<Rightarrow> parg list \<Rightarrow> bool" where
  "agree_all [] as bs = True"
| "agree_all (p # ps) (a # as) (b # bs) = (agree p a b \<and> agree_all ps as bs)"
| "agree_all (p # ps) _ _ = False"

lemma sorted_items_keys:
  assumes "map (\<lambda>(k, v). (k, v = VNone)) (sorted_items d) = map (\<lambda>(k, v). (k, v = VNone)) (sorted_items e)"
  shows "keys (sorted_items d) = keys (sorted_items e)" and "length d = length e"
    and "map (\<lambda>(k, v). if v = VNone then ''{} IS NULL'' else ''{}=?'') (sorted_items d) =
      map (\<lambda>(k, v). if v = VNone then ''{} IS NULL'' else ''{}=?'') (sorted_items e)"
proof -
  from assms have "map fst (map (\<lambda>(k, v). (k, v = VNone)) (sorted_items d)) = map fst (map (\<lambda>(k, v). (k, v = VNone)) (sorted_items e))"
    by (simp only:)
  then show "keys (sorted_items d) = keys (sorted_items e)" by (simp add: comp_def case_prod_unfold)
  from assms have "length (sorted_items d) = length (sorted_items e)" by (rule map_eq_imp_length_eq)
  then show "length d = length e" by (simp add: sorted_items_def)
  from assms have "map (\<lambda>(k, b). if b then ''{} IS NULL'' else ''{}=?'') (map (\<lambda>(k, v). (k, v = VNone)) (sorted_items d)) =
      map (\<lambda>(k, b). if b then ''{} IS NULL'' else ''{}=?'') (map (\<lambda>(k, v). (k, v = VNone)) (sorted_items e))"
    by (simp only:)
  then show "map (\<lambda>(k, v). if v = VNone then ''{} IS NULL'' else ''{}=?'') (sorted_items d) =
      map (\<lambda>(k, v). if v = VNone then ''{} IS NULL'' else ''{}=?'') (sorted_items e)"
    by (simp add: comp_def case_prod_unfold)
qed

lemma replacer_join_agree:
  assumes "replacer_join sep a r = Inr (t, r1)" "rp_sargs r = rp_sargs r2"
    "(case (a, b) of (Dic d, Dic e) \<Rightarrow> map (\<lambda>(k, v). (k, v = VNone)) (sorted_items d) =
       map (\<lambda>(k, v). (k, v = VNone)) (sorted_items e) | _ \<Rightarrow> a = b)"
  shows "\<exists>r3. replacer_join sep b r2 = Inr (t, r3) \<and> rp_sargs r3 = rp_sargs r1 \<and>
    rp_all_args r1 = rp_all_args r \<and> rp_all_args r3 = rp_all_args r2"
proof (cases a)
  case (Dic d)
  then obtain e where e: "b = Dic e" using assms(3) by (cases b) auto
  then have eq: "map (\<lambda>(k, v). (k, v = VNone)) (sorted_items d) = map (\<lambda>(k, v). (k, v = VNone)) (sorted_items e)"
    using assms(3) Dic by simp
  show ?thesis using assms(1,2) sorted_items_keys [OF eq] by (auto simp: replacer_join_def Dic e)
qed (use assms in \<open>auto simp: replacer_join_def bindE_Inr_iff split: parg.splits if_splits\<close>)

lemma or_one_agree:
  assumes "or_one (replacer_join sep a r) = Inr (t, r1)" "rp_sargs r = rp_sargs r2" "agree p a b" "p \<in> set ''AO''"
  shows "\<exists>r3. or_one (replacer_join sep b r2) = Inr (t, r3) \<and> rp_sargs r3 = rp_sargs r1 \<and>
    rp_all_args r1 = rp_all_args r \<and> rp_all_args r3 = rp_all_args r2"
proof -
  obtain t0 where t0: "replacer_join sep a r = Inr (t0, r1)" "t = (if t0 = [] then ''1'' else t0)"
    using assms(1) by (auto simp: or_one_def bindE_Inr_iff)
  have ag: "(case (a, b) of (Dic d, Dic e) \<Rightarrow> map (\<lambda>(k, v). (k, v = VNone)) (sorted_items d) =
     map (\<lambda>(k, v). (k, v = VNone)) (sorted_items e) | _ \<Rightarrow> a = b)" using assms(3,4) by (auto simp: agree_def)
  show ?thesis using replacer_join_agree [OF t0(1) assms(2) ag] t0(2) by (auto simp: or_one_def)
qed

lemma replace_one_agree:
  assumes "replace_one p a r = Inr (t, r1)" "rp_sargs r = rp_sargs r2" "agree p a b"
  shows "\<exists>r3. replace_one p b r2 = Inr (t, r3) \<and> rp_sargs r3 = rp_sargs r1 \<and>
    rp_all_args r1 = rp_all_args r \<and> rp_all_args r3 = rp_all_args r2"
proof -
  consider (x) "p = CHR ''x''" | (X) "p = CHR ''X''" | (D) "p = CHR ''D''" | (A) "p = CHR ''A''" | (O) "p = CHR ''O''"
    | (other) "p \<notin> set ''xXDAO''" by auto
  then show ?thesis
  proof cases
    case x
    then show ?thesis using assms(1,2) by (auto simp: replace_one_def)
  next
    case X
    then obtain l m where "elements a = Inr l" "elements b = Inr m" "length l = length m"
      using assms(3) by (auto simp: agree_def split: sum.splits)
    then show ?thesis using assms(1,2) X by (auto simp: replace_one_def)
  next
    case D
    then obtain d where d: "a = Dic d" using assms(1) by (cases a) (auto simp: replace_one_def)
    then obtain e where e: "b = Dic e" using assms(3) D by (cases b) (auto simp: agree_def)
    then have eq: "map (\<lambda>(k, v). (k, v = VNone)) (sorted_items d) = map (\<lambda>(k, v). (k, v = VNone)) (sorted_items e)"
      using assms(3) D d by (simp add: agree_def)
    show ?thesis using assms(1,2) sorted_items_keys [OF eq] D by (auto simp: replace_one_def d e split: if_splits)
  next
    case A
    then show ?thesis using or_one_agree [of "'' AND ''" a r t r1 r2 p b] assms by (simp add: replace_one_def)
  next
    case O
    then show ?thesis using or_one_agree [of "'' OR ''" a r t r1 r2 p b] assms by (simp add: replace_one_def)
  next
    case other
    then have "b = a" using assms(3) by (auto simp: agree_def)
    then show ?thesis using assms(1,2) other by (auto simp: replace_one_def bindE_Inr_iff split: parg.splits if_splits)
  qed
qed

lemma rx_sub_agree:
  assumes "rx_sub s r = Inr (t, r1)" "rp_sargs r = rp_sargs r2" "agree_all (placeholders s) (rp_all_args r) (rp_all_args r2)"
  shows "\<exists>r3. rx_sub s r2 = Inr (t, r3) \<and> rp_sargs r3 = rp_sargs r1"
  using assms
proof (induction s r arbitrary: t r1 r2 rule: rx_sub.induct)
  case (3 c p s r)
  show ?case
  proof (cases "c = CHR ''?'' \<and> is_placeholder p")
    case True
    obtain u ra v where u: "replacer_call p r = Inr (u, ra)" "rx_sub s ra = Inr (v, r1)" "t = u @ v"
      using "3.prems"(1) True by (auto simp: bindE_Inr_iff)
    obtain a as where a: "rp_all_args r = a # as" "replace_one p a (r\<lparr>rp_all_args := as\<rparr>) = Inr (u, ra)"
      using u(1) by (auto simp: replacer_call_def split: list.splits)
    obtain b bs where b: "rp_all_args r2 = b # bs" "agree p a b" "agree_all (placeholders s) as bs"
      using "3.prems"(3) True a(1) by (cases "rp_all_args r2") auto
    obtain rb where rb: "replace_one p b (r2\<lparr>rp_all_args := bs\<rparr>) = Inr (u, rb)" "rp_sargs ra = rp_sargs rb"
      "rp_all_args ra = as" "rp_all_args rb = bs"
      using replace_one_agree [OF a(2) _ b(2), of "r2\<lparr>rp_all_args := bs\<rparr>"] "3.prems"(2) by auto
    have ih: "\<exists>r3. rx_sub s rb = Inr (v, r3) \<and> rp_sargs r3 = rp_sargs r1"
      by (rule "3.IH"(1) [OF True u(2) rb(2)]) (simp add: rb b(3))
    then show ?thesis using True rb(1) b(1) u(3) by (auto simp: replacer_call_def)
  next
    case False
    obtain v where v: "rx_sub (p # s) r = Inr (v, r1)" "t = c # v"
      using "3.prems"(1) False by (auto simp: bindE_Inr_iff)
    have "\<exists>r3. rx_sub (p # s) r2 = Inr (v, r3) \<and> rp_sargs r3 = rp_sargs r1"
      by (rule "3.IH"(2) [OF False v(1) "3.prems"(2)]) (use "3.prems"(3) False in auto)
    then show ?thesis using False v(2) by auto
  qed
qed auto

lemma match_templ_agree:
  assumes "match_templ m_templ args = Inr (q, xs)" "args = [] \<longleftrightarrow> args' = []"
    "agree_all (placeholders (strip_comments m_templ)) args args'"
  shows "\<exists>xs'. match_templ m_templ args' = Inr (q, xs')"
proof (cases "args = []")
  case False
  let ?r = "\<lambda>a. \<lparr>rp_all_args = a, rp_xargs = [], rp_sargs = []\<rparr>"
  obtain t r1 where t: "rx_sub (strip_comments m_templ) (?r args) = Inr (t, r1)" "str_format t (rp_sargs r1) = Inr q"
    using assms(1) False by (auto simp: match_templ_def Let_def replacer_match_def bindE_Inr_iff split: sum.splits)
  obtain r3 where "rx_sub (strip_comments m_templ) (?r args') = Inr (t, r3)" "rp_sargs r3 = rp_sargs r1"
    using rx_sub_agree [OF t(1), of "?r args'"] assms(3) by auto
  then show ?thesis using t(2) False assms(2) by (simp add: match_templ_def replacer_match_def)
qed (use assms(1,2) in \<open>simp add: match_templ_def\<close>)

section \<open>A question mark for every argument\<close>

lemma count_join: "c \<notin> set sep \<Longrightarrow> count_list (join sep ws) c = sum_list (map (\<lambda>w. count_list w c) ws)"
  by (induction sep ws rule: join.induct) auto

lemma sum_none: "sum_list (map (\<lambda>(k, v). count_list (if v = VNone then ''{} IS NULL'' else ''{}=?'') CHR ''?'') d) =
    length (filter (\<lambda>v. v \<noteq> VNone) (map snd d))"
  by (induction d) auto

lemma replacer_join_marks:
  assumes "or_one (replacer_join sep arg r) = Inr (t, r1)" "CHR ''?'' \<notin> set sep"
  shows "length (rp_xargs r1) = length (rp_xargs r) + count_list t CHR ''?''"
proof -
  obtain t0 where t0: "replacer_join sep arg r = Inr (t0, r1)" "t = (if t0 = [] then ''1'' else t0)"
    using assms(1) by (auto simp: or_one_def bindE_Inr_iff)
  have "length (rp_xargs r1) = length (rp_xargs r) + count_list t0 CHR ''?''"
  proof (cases arg)
    case (Dic d)
    then show ?thesis using t0(1) sum_none [of "sorted_items d"]
      by (auto simp: replacer_join_def count_join [OF assms(2)] comp_def case_prod_unfold)
  qed (use t0(1) in \<open>auto simp: replacer_join_def bindE_Inr_iff split: if_splits\<close>)
  then show ?thesis using t0(2) by simp
qed

lemma replace_one_marks:
  assumes "replace_one p arg r = Inr (t, r1)"
  shows "length (rp_xargs r1) = length (rp_xargs r) + count_list t CHR ''?''"
proof -
  consider (A) "p = CHR ''A''" | (O) "p = CHR ''O''" | (other) "p \<notin> set ''AO''" by auto
  then show ?thesis
  proof cases
    case other
    then show ?thesis using assms
      by (auto simp: replace_one_def bindE_Inr_iff count_join sum_list_replicate sorted_items_def split: if_splits parg.splits)
  qed (use assms in \<open>auto simp: replace_one_def intro!: replacer_join_marks\<close>)
qed

lemma rx_sub_marks:
  "rx_sub s r = Inr (t, r1) \<Longrightarrow> length (rp_xargs r1) + literal_marks s = length (rp_xargs r) + count_list t CHR ''?''"
proof (induction s r arbitrary: t r1 rule: rx_sub.induct)
  case (3 c p s r)
  show ?case
  proof (cases "c = CHR ''?'' \<and> is_placeholder p")
    case True
    obtain u ra v where u: "replacer_call p r = Inr (u, ra)" "rx_sub s ra = Inr (v, r1)" "t = u @ v"
      using "3.prems"(1) True by (auto simp: bindE_Inr_iff)
    obtain a as where "replace_one p a (r\<lparr>rp_all_args := as\<rparr>) = Inr (u, ra)"
      using u(1) by (auto simp: replacer_call_def split: list.splits)
    from replace_one_marks [OF this] show ?thesis using "3.IH"(1) [OF True u(2)] True u(3) by simp
  next
    case False
    obtain v where v: "rx_sub (p # s) r = Inr (v, r1)" "t = c # v"
      using "3.prems"(1) False by (auto simp: bindE_Inr_iff)
    show ?thesis using "3.IH"(2) [OF False v(1)] False v(2) by auto
  qed
qed auto

lemma str_format_count:
  "str_format t as = Inr q \<Longrightarrow> \<forall>a \<in> set as. c \<notin> set a \<Longrightarrow> c \<notin> set ''{}'' \<Longrightarrow> count_list q c = count_list t c"
proof (induction t as arbitrary: q rule: str_format.induct)
  case (3 x y s as)
  then show ?case by (auto simp: bindE_Inr_iff split: if_splits list.splits)
qed (auto split: if_splits)

text \<open>The names that an argument writes into the query.\<close>

definition arg_names :: "char \<Rightarrow> parg \<Rightarrow> string list" where
  "arg_names p a = (if p \<in> set ''xX'' then [] else case a of
     Arg v \<Rightarrow> if p = CHR ''S'' then map (\<lambda>c. [c]) (str_of v) else [str_of v]
   | Args l \<Rightarrow> map str_of l | Dic d \<Rightarrow> keys d)"

lemma set_sorted_items [simp]: "set (sorted_items d) = set d"
  by (simp add: sorted_items_def)

lemma elements_names: "elements arg = Inr l \<Longrightarrow> map str_of l = arg_names CHR ''S'' arg"
  by (cases arg rule: elements.cases) (auto simp: arg_names_def)

lemma replacer_join_names:
  assumes "or_one (replacer_join sep arg r) = Inr (t, r1)" "p \<notin> set ''xX''"
  shows "set (rp_sargs r1) \<subseteq> set (rp_sargs r) \<union> set (arg_names p arg)"
  using assms by (cases arg) (auto simp: or_one_def replacer_join_def arg_names_def bindE_Inr_iff split: if_splits)

lemma replace_one_names:
  assumes "replace_one p arg r = Inr (t, r1)"
  shows "set (rp_sargs r1) \<subseteq> set (rp_sargs r) \<union> set (arg_names p arg)"
proof -
  consider (x) "p \<in> set ''xX''" | (S) "p = CHR ''S''" | (D) "p = CHR ''D''" | (A) "p = CHR ''A''" | (O) "p = CHR ''O''"
    | (other) "p \<notin> set ''xXSDAO''" by auto
  then show ?thesis
  proof cases
    case x
    then show ?thesis using assms by (auto simp: replace_one_def bindE_Inr_iff)
  next
    case S
    then show ?thesis using assms elements_names [of arg] by (auto simp: replace_one_def bindE_Inr_iff)
  next
    case D
    then show ?thesis using assms by (auto simp: replace_one_def arg_names_def split: parg.splits if_splits)
  next
    case A
    then show ?thesis using assms replacer_join_names [of "'' AND ''" arg r t r1 p] by (simp add: replace_one_def)
  next
    case O
    then show ?thesis using assms replacer_join_names [of "'' OR ''" arg r t r1 p] by (simp add: replace_one_def)
  next
    case other
    then show ?thesis using assms by (auto simp: replace_one_def arg_names_def split: parg.splits)
  qed
qed

lemma replace_one_all_args: "replace_one p arg r = Inr (t, r1) \<Longrightarrow> rp_all_args r1 = rp_all_args r"
proof -
  assume a: "replace_one p arg r = Inr (t, r1)"
  have "agree p arg arg"
  proof (cases "p = CHR ''X''")
    case True
    then show ?thesis using a by (auto simp: replace_one_def agree_def bindE_Inr_iff)
  next
    case False
    then show ?thesis by (cases arg) (simp_all add: agree_def)
  qed
  then show ?thesis using replace_one_agree [OF a refl] by blast
qed

lemma rx_sub_names:
  "rx_sub s r = Inr (t, r1) \<Longrightarrow> a \<in> set (rp_sargs r1) \<Longrightarrow>
     a \<in> set (rp_sargs r) \<or> (\<exists>(p, arg) \<in> set (zip (placeholders s) (rp_all_args r)). a \<in> set (arg_names p arg))"
proof (induction s r arbitrary: t r1 rule: rx_sub.induct)
  case (3 c p s r)
  show ?case
  proof (cases "c = CHR ''?'' \<and> is_placeholder p")
    case True
    obtain u ra v where u: "replacer_call p r = Inr (u, ra)" "rx_sub s ra = Inr (v, r1)"
      using "3.prems"(1) True by (auto simp: bindE_Inr_iff)
    obtain x xs where x: "rp_all_args r = x # xs" "replace_one p x (r\<lparr>rp_all_args := xs\<rparr>) = Inr (u, ra)"
      using u(1) by (auto simp: replacer_call_def split: list.splits)
    have "rp_all_args ra = xs" using replace_one_all_args [OF x(2)] by simp
    moreover have "set (rp_sargs ra) \<subseteq> set (rp_sargs r) \<union> set (arg_names p x)" using replace_one_names [OF x(2)] by simp
    ultimately show ?thesis using "3.IH"(1) [OF True u(2) "3.prems"(2)] True x(1) by auto
  next
    case False
    obtain v where "rx_sub (p # s) r = Inr (v, r1)" using "3.prems"(1) False by (auto simp: bindE_Inr_iff)
    from "3.IH"(2) [OF False this "3.prems"(2)] False show ?thesis by auto
  qed
qed auto

lemma match_templ_marks:
  assumes "replacer_match templ args = Inr (q, xs)" "literal_marks templ = 0"
    "\<And>p arg a. (p, arg) \<in> set (zip (placeholders templ) args) \<Longrightarrow> a \<in> set (arg_names p arg) \<Longrightarrow> CHR ''?'' \<notin> set a"
  shows "count_list q CHR ''?'' = length xs"
proof -
  obtain t r where t: "rx_sub templ \<lparr>rp_all_args = args, rp_xargs = [], rp_sargs = []\<rparr> = Inr (t, r)"
    "str_format t (rp_sargs r) = Inr q" "xs = rp_xargs r"
    using assms(1) by (auto simp: replacer_match_def bindE_Inr_iff)
  have "\<forall>a \<in> set (rp_sargs r). CHR ''?'' \<notin> set a" using rx_sub_names [OF t(1)] assms(3) by fastforce
  then show ?thesis using rx_sub_marks [OF t(1)] str_format_count [OF t(2)] assms(2) t(3) by simp
qed

section \<open>Rows of a result\<close>

lemma shape_rows_scalar:
  assumes "\<forall>r \<in> set (cu_rows cur). r \<noteq> []"
  shows "shape_rows True one cur = Inr res \<longleftrightarrow> (\<exists>v. cu_rows cur = [[v]] \<and> res = RScalar v)"
proof -
  consider "cu_rows cur = []" | r where "cu_rows cur = [r]" | r r' rs where "cu_rows cur = r # r' # rs"
    by (metis list.exhaust)
  then show ?thesis
  proof cases
    case (2 r)
    then obtain v vs where "r = v # vs" using assms by (cases r) auto
    then show ?thesis using 2 by (auto simp: shape_rows_def Let_def py_index_def norm_index_def)
  qed (auto simp: shape_rows_def)
qed

text \<open>A row is read alike by position and by name.\<close>

lemma row_attr:
  assumes "row_init fs vs = Inr r" "distinct fs" "i < length fs"
  shows "row_getattr r (fs ! i) = Inr (vs ! i) \<and> row_getitem r (int i) = Inr (vs ! i)"
proof -
  have l: "length vs = length fs" and r: "r = \<lparr>rw_fields = fs, rw_values = vs, rw_attrs = dict_update [] (zip fs vs)\<rparr>"
    using assms(1) by (auto simp: row_init_def split: if_splits)
  have d: "distinct (map fst (zip fs vs))" using assms(2) l by simp
  have "map_of (dict_update [] (zip fs vs)) (fs ! i) = Some (vs ! i)"
    using dict_update_distinct [of "[]" "zip fs vs"] d l assms(3) by (simp add: map_of_zip_nth assms(2))
  then show ?thesis using l assms(3) by (simp add: r row_getattr_def row_getitem_def py_index_nonneg)
qed

section \<open>Text that is no template\<close>

lemma rx_sub_plain:
  "CHR ''?'' \<notin> set a \<Longrightarrow> rx_sub (a @ s) r = bindE (rx_sub s r) (\<lambda>(t, r1). Inr (a @ t, r1))"
proof (induction a)
  case Nil
  then show ?case by (cases "rx_sub s r") auto
next
  case (Cons c a)
  have "rx_sub (c # u) r = bindE (rx_sub u r) (\<lambda>(t, r1). Inr (c # t, r1))" for u
    using Cons.prems by (cases u) auto
  then show ?case using Cons by (cases "rx_sub s r") auto
qed

lemma str_format_plain:
  "set a \<inter> set ''{}'' = {} \<Longrightarrow> str_format (a @ s) as = bindE (str_format s as) (\<lambda>t. Inr (a @ t))"
proof (induction a)
  case Nil
  then show ?case by (cases "str_format s as") auto
next
  case (Cons c a)
  have "str_format (c # u) as = bindE (str_format u as) (\<lambda>t. Inr (c # t))" for u
    using Cons.prems by (cases u) auto
  then show ?case using Cons by (cases "str_format s as") auto
qed

lemma splitlines_from_line:
  "\<forall>c \<in> set s. \<not> line_break c \<Longrightarrow> splitlines_from acc s = (if acc @ s = [] then [] else [acc @ s])"
proof (induction acc s rule: splitlines_from.induct)
  case (3 acc c d s)
  have "code c \<noteq> 13" using "3.prems" by (auto simp: line_break_def)
  then show ?case using 3 by auto
qed auto

lemma strip_comments_line:
  assumes "\<forall>c \<in> set s. \<not> line_break c" "\<not> startswith (lstrip s) ''--''"
  shows "strip_comments s = s"
  using assms by (auto simp: strip_comments_def splitlines_def splitlines_from_line)

end
