(* ===== verification/JobDb.thy ===== *)
theory JobDb
  imports Dbapi Valid
begin

text \<open>
  The database of the jobs and its operations (openquake/server/db/actions.py over the schema of
  openquake/server/db/schema/upgrades). A table is the list of its rows in the order of their
  identifiers, in which a query without ORDER BY reads them; foreign keys are enforced and deletions
  cascade. The current time is given as a string. The main lemmas are the integrity of the
  references under every operation, and what a deletion removes.
\<close>

section \<open>Tables\<close>

record job =
  jb_id :: int
  jb_description :: string
  jb_user_name :: string
  jb_calculation_mode :: string
  jb_hc_id :: "int option"
  jb_status :: string
  jb_is_running :: bool
  jb_start_time :: string
  jb_stop_time :: "string option"
  jb_ds_calc_dir :: string
  jb_pid :: int
  jb_size_mb :: "rat option"
  jb_host :: "string option"

record log_row =
  lg_id :: int
  lg_job_id :: int
  lg_timestamp :: string
  lg_level :: string
  lg_process :: string
  lg_message :: string

record output_row =
  ou_id :: int
  ou_job_id :: int
  ou_display_name :: string
  ou_ds_key :: string
  ou_size_mb :: rat

record jobdb =
  jd_jobs :: "job list"
  jd_logs :: "log_row list"
  jd_outputs :: "output_row list"
  jd_checksums :: "(int \<times> int) list"
  jd_last_job :: int
  jd_last_log :: int
  jd_last_output :: int

definition empty_db :: jobdb where
  "empty_db = \<lparr>jd_jobs = [], jd_logs = [], jd_outputs = [], jd_checksums = [], jd_last_job = 0,
     jd_last_log = 0, jd_last_output = 0\<rparr>"

definition job_ids :: "jobdb \<Rightarrow> int list" where
  "job_ids db = map jb_id (jd_jobs db)"

definition find_job :: "jobdb \<Rightarrow> int \<Rightarrow> job option" where
  "find_job db i = List.find (\<lambda>j. jb_id j = i) (jd_jobs db)"

definition update_jobs :: "(job \<Rightarrow> bool) \<Rightarrow> (job \<Rightarrow> job) \<Rightarrow> jobdb \<Rightarrow> jobdb" where
  "update_jobs P f db = db\<lparr>jd_jobs := map (\<lambda>j. if P j then f j else j) (jd_jobs db)\<rparr>"

text \<open>A reference to a job must be empty or meet a job.\<close>

definition valid_ref :: "jobdb \<Rightarrow> int option \<Rightarrow> bool" where
  "valid_ref db r = (case r of None \<Rightarrow> True | Some i \<Rightarrow> i \<in> set (job_ids db))"

definition insert_job :: "job \<Rightarrow> jobdb \<Rightarrow> jobdb res" where
  "insert_job j db = (if jb_id j \<in> set (job_ids db) then Inl IntegrityError
     else if jb_hc_id j \<noteq> Some (jb_id j) \<and> \<not> valid_ref db (jb_hc_id j) then Inl IntegrityError
     else Inr (db\<lparr>jd_jobs := insort_key jb_id j (jd_jobs db), jd_last_job := max (jd_last_job db) (jb_id j)\<rparr>))"

text \<open>A job is deleted with the jobs that refer to it, directly or not, and with their rows in the other tables.\<close>

definition parent_edges :: "job list \<Rightarrow> (int \<times> int) set" where
  "parent_edges jobs = set (concat (map (\<lambda>j. case jb_hc_id j of None \<Rightarrow> [] | Some p \<Rightarrow> [(jb_id j, p)]) jobs))"

definition doomed :: "jobdb \<Rightarrow> int \<Rightarrow> int \<Rightarrow> bool" where
  "doomed db i k \<longleftrightarrow> k = i \<or> (k, i) \<in> (parent_edges (jd_jobs db))\<^sup>+"

definition delete_cascade :: "int \<Rightarrow> jobdb \<Rightarrow> jobdb" where
  "delete_cascade i db = db\<lparr>jd_jobs := filter (\<lambda>j. \<not> doomed db i (jb_id j)) (jd_jobs db),
     jd_logs := filter (\<lambda>l. \<not> doomed db i (lg_job_id l)) (jd_logs db),
     jd_outputs := filter (\<lambda>r. \<not> doomed db i (ou_job_id r)) (jd_outputs db),
     jd_checksums := filter (\<lambda>(j, c). \<not> doomed db i j) (jd_checksums db)\<rparr>"

section \<open>Paths\<close>

definition path_join :: "string \<Rightarrow> string \<Rightarrow> string" where
  "path_join a b = (if startswith b ''/'' then b else if a = [] \<or> endswith a ''/'' then a @ b else a @ ''/'' @ b)"

definition dirname :: "string \<Rightarrow> string" where
  "dirname p = (let head = rev (dropWhile (\<lambda>c. c \<noteq> CHR ''/'') (rev p)) in
     if list_all (\<lambda>c. c = CHR ''/'') head then head else rstrip_by (\<lambda>c. c = CHR ''/'') head)"

definition calc_dir :: "string \<Rightarrow> int \<Rightarrow> string" where
  "calc_dir datadir i = path_join datadir (''calc_'' @ show_int i)"

section \<open>Life of a job\<close>

definition reset_is_running :: "jobdb \<Rightarrow> jobdb" where
  "reset_is_running = update_jobs (\<lambda>j. jb_is_running j \<or> jb_status j = ''executing'')
     (\<lambda>j. j\<lparr>jb_is_running := False, jb_status := ''failed''\<rparr>)"

text \<open>The last job of the \<open>n\<close> most recent ones, the oldest job when there are fewer.\<close>

definition nth_last :: "nat \<Rightarrow> job list \<Rightarrow> job option" where
  "nth_last n jobs = (case take n (rev jobs) of [] \<Rightarrow> None | l \<Rightarrow> Some (last l))"

definition statuses :: "string list" where
  "statuses = [''created'', ''submitted'', ''executing'', ''complete'', ''aborted'', ''failed'', ''deleted'']"

definition stopped :: "string \<Rightarrow> bool" where
  "stopped status \<longleftrightarrow> status \<in> {''created'', ''complete'', ''failed'', ''aborted'', ''deleted''}"

definition set_status_of :: "int \<Rightarrow> string \<Rightarrow> jobdb \<Rightarrow> jobdb \<times> nat" where
  "set_status_of i status db = (update_jobs (\<lambda>j. jb_id j = i)
       (\<lambda>j. j\<lparr>jb_status := status, jb_is_running := \<not> stopped status\<rparr>) db,
     length (filter (\<lambda>j. jb_id j = i) (jd_jobs db)))"

definition set_status :: "int \<Rightarrow> string \<Rightarrow> jobdb \<Rightarrow> (jobdb \<times> nat) res" where
  "set_status job_id status db = bindE (checkE (status \<in> set statuses) AssertionError) (\<lambda>_.
     if job_id < 0 then
       (case nth_last (nat (- job_id)) (jd_jobs db) of None \<Rightarrow> Inr (db, 0)
        | Some j \<Rightarrow> Inr (set_status_of (jb_id j) status db))
     else Inr (set_status_of job_id status db))"

text \<open>\<open>user\<close> is the user name or that of the process.\<close>

definition created_job :: "string \<Rightarrow> string \<Rightarrow> string \<Rightarrow> string \<Rightarrow> string \<Rightarrow> int option \<Rightarrow> string option \<Rightarrow> int \<Rightarrow> job" where
  "created_job now datadir calculation_mode descr user hc_id host i = \<lparr>jb_id = i, jb_description = descr, jb_user_name = user,
     jb_calculation_mode = calculation_mode, jb_hc_id = hc_id, jb_status = ''created'', jb_is_running = True,
     jb_start_time = now, jb_stop_time = None, jb_ds_calc_dir = datadir, jb_pid = 0, jb_size_mb = None, jb_host = host\<rparr>"

definition create_job :: "string \<Rightarrow> string \<Rightarrow> string \<Rightarrow> string \<Rightarrow> string \<Rightarrow> int option \<Rightarrow> string option \<Rightarrow>
    jobdb \<Rightarrow> (jobdb \<times> int) res" where
  "create_job now datadir calculation_mode descr user hc_id host db = (let i = jd_last_job db + 1 in
     bindE (insert_job (created_job now datadir calculation_mode descr user hc_id host i) db)
       (\<lambda>db'. Inr (update_jobs (\<lambda>j. jb_id j = i) (\<lambda>j. j\<lparr>jb_ds_calc_dir := calc_dir datadir i\<rparr>) db', i)))"

definition import_job :: "string \<Rightarrow> int \<Rightarrow> string \<Rightarrow> string \<Rightarrow> string \<Rightarrow> string \<Rightarrow> int option \<Rightarrow> string \<Rightarrow> jobdb \<Rightarrow> jobdb res" where
  "import_job now calc_id calc_mode descr user status hc_id datadir db =
     insert_job \<lparr>jb_id = calc_id, jb_description = descr, jb_user_name = user, jb_calculation_mode = calc_mode,
       jb_hc_id = hc_id, jb_status = status, jb_is_running = False, jb_start_time = now, jb_stop_time = None,
       jb_ds_calc_dir = calc_dir datadir calc_id, jb_pid = 0, jb_size_mb = None, jb_host = None\<rparr> db"

definition delete_uncompleted_calculations :: "string \<Rightarrow> jobdb \<Rightarrow> jobdb" where
  "delete_uncompleted_calculations user = update_jobs (\<lambda>j. jb_user_name j = user \<and> jb_status j \<noteq> ''complete'')
     (\<lambda>j. j\<lparr>jb_status := ''deleted''\<rparr>)"

definition finish :: "string \<Rightarrow> int \<Rightarrow> string \<Rightarrow> jobdb \<Rightarrow> jobdb" where
  "finish now job_id status = update_jobs (\<lambda>j. jb_id j = job_id)
     (\<lambda>j. j\<lparr>jb_is_running := False, jb_status := status, jb_stop_time := Some now\<rparr>)"

text \<open>The fields that \<open>update_job\<close> can set.\<close>

datatype job_change = SetDescription string | SetUser string | SetMode string | SetParent "int option" | SetStatus string
  | SetRunning bool | SetStart string | SetStop "string option" | SetDir string | SetPid int | SetSize "rat option" | SetHost "string option"

fun apply_change :: "job \<Rightarrow> job_change \<Rightarrow> job" where
  "apply_change j (SetDescription x) = j\<lparr>jb_description := x\<rparr>"
| "apply_change j (SetUser x) = j\<lparr>jb_user_name := x\<rparr>"
| "apply_change j (SetMode x) = j\<lparr>jb_calculation_mode := x\<rparr>"
| "apply_change j (SetParent x) = j\<lparr>jb_hc_id := x\<rparr>"
| "apply_change j (SetStatus x) = j\<lparr>jb_status := x\<rparr>"
| "apply_change j (SetRunning x) = j\<lparr>jb_is_running := x\<rparr>"
| "apply_change j (SetStart x) = j\<lparr>jb_start_time := x\<rparr>"
| "apply_change j (SetStop x) = j\<lparr>jb_stop_time := x\<rparr>"
| "apply_change j (SetDir x) = j\<lparr>jb_ds_calc_dir := x\<rparr>"
| "apply_change j (SetPid x) = j\<lparr>jb_pid := x\<rparr>"
| "apply_change j (SetSize x) = j\<lparr>jb_size_mb := x\<rparr>"
| "apply_change j (SetHost x) = j\<lparr>jb_host := x\<rparr>"

definition update_job :: "int \<Rightarrow> job_change list \<Rightarrow> jobdb \<Rightarrow> jobdb res" where
  "update_job job_id changes db = (let db' = update_jobs (\<lambda>j. jb_id j = job_id) (\<lambda>j. foldl apply_change j changes) db in
     if list_all (\<lambda>j. valid_ref db (jb_hc_id j)) (jd_jobs db') then Inr db' else Inl IntegrityError)"

definition update_parent_child :: "int option \<times> int \<Rightarrow> jobdb \<Rightarrow> jobdb res" where
  "update_parent_child pc = update_job (snd pc) [SetParent (fst pc)]"

section \<open>Deletion\<close>

datatype del_result = Deleted int string | ChildrenDeleted int
  | HasDependents int "int list" | NoSuchJob int | NotOwner int string | NotRemoved string | ChildErrors "del_result list"

definition is_error :: "del_result \<Rightarrow> bool" where
  "is_error r = (case r of Deleted _ _ \<Rightarrow> False | ChildrenDeleted _ \<Rightarrow> False | _ \<Rightarrow> True)"

definition dependents :: "jobdb \<Rightarrow> int \<Rightarrow> int list" where
  "dependents db i = map jb_id (filter (\<lambda>j. jb_hc_id j = Some i \<and> jb_status j \<noteq> ''deleted'') (jd_jobs db))"

text \<open>
  \<open>del_calc\<close> from the look-up of the owner on; the state holds the database and the files, of which
  some cannot be removed.
\<close>

definition del_one :: "(string \<Rightarrow> bool) \<Rightarrow> int \<Rightarrow> string \<Rightarrow> bool \<Rightarrow> jobdb \<times> string list \<Rightarrow> del_result \<times> jobdb \<times> string list" where
  "del_one locked job_id user delete_file st = (case st of (db, files) \<Rightarrow>
     (case find_job db job_id of None \<Rightarrow> (NoSuchJob job_id, db, files)
      | Some j \<Rightarrow> if jb_user_name j \<noteq> user then (NotOwner job_id (jb_user_name j), db, files)
          else let db' = delete_cascade job_id db; fname = jb_ds_calc_dir j @ ''.hdf5'' in
            if delete_file \<and> fname \<in> set files then
              (if locked fname then (NotRemoved fname, db', files)
               else (Deleted job_id fname, db', filter (\<lambda>f. f \<noteq> fname) files))
            else (Deleted job_id fname, db', files)))"

fun del_children :: "(string \<Rightarrow> bool) \<Rightarrow> int list \<Rightarrow> string \<Rightarrow> bool \<Rightarrow> jobdb \<times> string list \<Rightarrow>
    del_result list \<times> jobdb \<times> string list" where
  "del_children locked [] user delete_file st = ([], st)"
| "del_children locked (i # is) user delete_file st = (case del_one locked i user delete_file st of (r, st1) \<Rightarrow>
     (case del_children locked is user delete_file st1 of (rs, st2) \<Rightarrow> (r # rs, st2)))"

definition del_calc :: "(string \<Rightarrow> bool) \<Rightarrow> int \<Rightarrow> string \<Rightarrow> bool \<Rightarrow> bool \<Rightarrow> jobdb \<times> string list \<Rightarrow> del_result \<times> jobdb \<times> string list" where
  "del_calc locked job_id user delete_file force st = (let ids = dependents (fst st) job_id in
     if \<not> force \<and> job_id \<in> set ids then
       (case del_children locked ids user delete_file st of (rs, st') \<Rightarrow>
          let err = filter is_error rs in
          (if err \<noteq> [] then ChildErrors err else ChildrenDeleted job_id, st'))
     else if \<not> force \<and> ids \<noteq> [] then (HasDependents job_id ids, st)
     else del_one locked job_id user delete_file st)"

section \<open>Outputs and logs\<close>

text \<open>\<open>create_outputs\<close>: \<open>display\<close> is \<open>DISPLAY_NAME.get(key, key)\<close>.\<close>

definition insert_output :: "(string \<Rightarrow> string) \<Rightarrow> int \<Rightarrow> jobdb \<Rightarrow> string \<times> rat \<Rightarrow> jobdb res" where
  "insert_output display job_id db ks = (if \<not> valid_ref db (Some job_id) then Inl IntegrityError else
     (let i = jd_last_output db + 1 in Inr (db\<lparr>jd_outputs := jd_outputs db @ [\<lparr>ou_id = i, ou_job_id = job_id,
        ou_display_name = display (fst ks), ou_ds_key = fst ks, ou_size_mb = snd ks\<rparr>], jd_last_output := i\<rparr>)))"

definition create_outputs :: "(string \<Rightarrow> string) \<Rightarrow> int \<Rightarrow> (string \<times> rat) list \<Rightarrow> rat \<Rightarrow> jobdb \<Rightarrow> jobdb res" where
  "create_outputs display job_id keysize ds_size db = foldE (insert_output display job_id)
     (update_jobs (\<lambda>j. jb_id j = job_id) (\<lambda>j. j\<lparr>jb_size_mb := Some ds_size\<rparr>) db) keysize"

definition get_outputs :: "jobdb \<Rightarrow> int \<Rightarrow> output_row list" where
  "get_outputs db job_id = filter (\<lambda>r. ou_job_id r = job_id) (jd_outputs db)"

definition rjust :: "nat \<Rightarrow> string \<Rightarrow> string" where
  "rjust n s = replicate (n - length s) CHR '' '' @ s"

definition output_line :: "output_row \<Rightarrow> string" where
  "output_line r = rjust 4 (show_int (ou_id r)) @ '' | '' @ ou_display_name r"

definition list_outputs :: "jobdb \<Rightarrow> int \<Rightarrow> bool \<Rightarrow> string list" where
  "list_outputs db job_id full = (let outs = sort_key ou_display_name (get_outputs db job_id) in
     if outs = [] then []
     else if full \<or> length outs \<le> 10 then ''  id | name'' # map output_line outs
     else ''  id | name'' # map output_line (take 10 outs) @
       ['' ... | '' @ show_nat (length outs - 10) @ '' additional output(s)'',
        ''Some outputs were not shown. You can see the full list with the command'' @ [char_of (10 :: nat)] @
        ''`oq engine --list-outputs '' @ show_int job_id @ ''`''])"

definition log_job :: "int \<Rightarrow> string \<Rightarrow> string \<Rightarrow> string \<Rightarrow> string \<Rightarrow> jobdb \<Rightarrow> jobdb res" where
  "log_job job_id timestamp level process message db = (if \<not> valid_ref db (Some job_id) then Inl IntegrityError else
     (let i = jd_last_log db + 1 in Inr (db\<lparr>jd_logs := jd_logs db @ [\<lparr>lg_id = i, lg_job_id = job_id,
        lg_timestamp = timestamp, lg_level = level, lg_process = process, lg_message = message\<rparr>], jd_last_log := i\<rparr>)))"

definition logs_of :: "jobdb \<Rightarrow> int \<Rightarrow> log_row list" where
  "logs_of db job_id = filter (\<lambda>l. lg_job_id l = job_id) (jd_logs db)"

text \<open>The last four characters of a time are its last decimals.\<close>

definition get_log :: "jobdb \<Rightarrow> int \<Rightarrow> string list" where
  "get_log db job_id = map (\<lambda>l. ''['' @ take (length (lg_timestamp l) - 4) (lg_timestamp l) @ '' #'' @ show_int job_id @
     '' '' @ lg_level l @ ''] '' @ lg_process l @ '' '' @ lg_message l) (logs_of db job_id)"

text \<open>A negative limit of SQLite is none, a negative offset is zero.\<close>

definition sql_limit :: "int \<Rightarrow> 'a list \<Rightarrow> 'a list" where
  "sql_limit n xs = (if n < 0 then xs else take (nat n) xs)"

definition get_log_slice :: "jobdb \<Rightarrow> int \<Rightarrow> int \<Rightarrow> int \<Rightarrow> (string \<times> string \<times> string \<times> string) list" where
  "get_log_slice db job_id start stop = (let limit = (if stop = 0 then - 1 else stop - start) in
     map (\<lambda>l. (take 22 (map (\<lambda>c. if c = CHR '' '' then CHR ''T'' else c) (lg_timestamp l)), lg_level l, lg_process l, lg_message l))
       (sql_limit limit (drop (nat start) (logs_of db job_id))))"

definition get_log_size :: "jobdb \<Rightarrow> int \<Rightarrow> nat" where
  "get_log_size db job_id = length (logs_of db job_id)"

definition get_traceback :: "jobdb \<Rightarrow> int \<Rightarrow> string list" where
  "get_traceback db job_id = (case filter (\<lambda>l. lg_level l = ''CRITICAL'') (logs_of db job_id) of
     [] \<Rightarrow> [] | l \<Rightarrow> splitlines (lg_message (last l)))"

text \<open>\<open>LIKE\<close> ignores the case of the letters.\<close>

definition get_weight :: "jobdb \<Rightarrow> int \<Rightarrow> (string \<times> string) option" where
  "get_weight db job_id = (case find_job db job_id of None \<Rightarrow> None | Some j \<Rightarrow>
     (case filter (\<lambda>l. contains (str_lower (lg_message l)) ''tot_weight'') (logs_of db job_id) of
        [] \<Rightarrow> None | l # _ \<Rightarrow> Some (jb_description j, lg_message l)))"

section \<open>Queries on the jobs\<close>

definition alive :: "jobdb \<Rightarrow> job list" where
  "alive db = filter (\<lambda>j. jb_status j \<noteq> ''deleted'') (jd_jobs db)"

text \<open>An empty user name is the same as none.\<close>

definition get_job :: "jobdb \<Rightarrow> int \<Rightarrow> string \<Rightarrow> job option" where
  "get_job db job_id username = (if 0 < job_id
     then (case find_job db job_id of None \<Rightarrow> None
       | Some j \<Rightarrow> if username = [] \<or> jb_user_name j = username then Some j else None)
     else nth_last (nat (- job_id)) (filter (\<lambda>j. username = [] \<or> jb_user_name j = username) (alive db)))"

definition job_type_of :: "job \<Rightarrow> string" where
  "job_type_of j = (let m = str_lower (jb_calculation_mode j) in
     if endswith m ''risk'' \<or> endswith m ''bcr'' \<or> endswith m ''damage'' then ''risk'' else ''hazard'')"

definition list_calculations :: "jobdb \<Rightarrow> string \<Rightarrow> string \<Rightarrow> string list" where
  "list_calculations db job_type user = (let jobs = sort_key jb_start_time
       (filter (\<lambda>j. jb_user_name j = user \<and> job_type_of j = job_type) (alive db)) in
     if jobs = [] then [''None''] else ''job_id |     status |          start_time |         description'' #
       map (\<lambda>j. rjust 6 (show_int (jb_id j)) @ '' | '' @ rjust 10 (jb_status j) @ '' | '' @ jb_start_time j @ '' | '' @
         jb_description j) jobs)"

definition calc_info :: "jobdb \<Rightarrow> int \<Rightarrow> (string \<times> string \<times> string \<times> string option \<times> bool) res" where
  "calc_info db calc_id = (case find_job db calc_id of None \<Rightarrow> Inl NotFound
     | Some j \<Rightarrow> Inr (jb_user_name j, jb_status j, jb_start_time j, jb_stop_time j, jb_is_running j))"

text \<open>
  \<open>get_calcs\<close>. In the query \<open>?A AND users AND time AND status != 'deleted' OR status == 'shared'\<close> the
  OR binds weaker than the ANDs. The request is a dictionary of strings.
\<close>

definition calcs_filter :: "int option \<Rightarrow> (string, string) dict \<Rightarrow> (job \<Rightarrow> bool) res" where
  "calcs_filter i request = bindE (case map_of request ''is_running'' of None \<Rightarrow> Inr None
       | Some v \<Rightarrow> bindE (boolean v) (\<lambda>b. Inr (Some b))) (\<lambda>running.
     Inr (\<lambda>j. (case i of None \<Rightarrow> True | Some k \<Rightarrow> jb_id j = k) \<and>
       (case map_of request ''calculation_mode'' of None \<Rightarrow> True | Some m \<Rightarrow> jb_calculation_mode j = m) \<and>
       (case running of None \<Rightarrow> True | Some b \<Rightarrow> jb_is_running j = b)))"

text \<open>\<open>get_calcs\<close> on a start time without a quotation mark, which the query compares as a string.\<close>

definition get_calcs :: "jobdb \<Rightarrow> (string, string) dict \<Rightarrow> string list \<Rightarrow> bool \<Rightarrow> int option \<Rightarrow> job list res" where
  "get_calcs db request allowed_users user_acl_on i = bindE (calcs_filter i request) (\<lambda>flt.
     bindE (case map_of request ''limit'' of None \<Rightarrow> Inr 100 | Some v \<Rightarrow> py_int v) (\<lambda>limit.
     let time_ok = (\<lambda>j. case map_of request ''start_time'' of None \<Rightarrow> True | Some t \<Rightarrow> t \<le> jb_start_time j);
         users_ok = (\<lambda>j. \<not> user_acl_on \<or> jb_user_name j \<in> set allowed_users) in
     Inr (sql_limit limit (rev (filter (\<lambda>j. (flt j \<and> users_ok j \<and> time_ok j \<and> jb_status j \<noteq> ''deleted'') \<or>
       jb_status j = ''shared'') (jd_jobs db))))))"

text \<open>The template of that query as the code makes it; the start time is written into it as it comes.\<close>

definition calcs_templ :: "string option \<Rightarrow> int \<Rightarrow> bool \<Rightarrow> string" where
  "calcs_templ start_time limit user_acl_on = ''SELECT * FROM job WHERE ?A AND '' @
     (if user_acl_on then ''user_name IN (?X)'' else ''1'') @ '' AND '' @
     (case start_time of None \<Rightarrow> ''1'' | Some t \<Rightarrow> ''start_time >= '' @ [CHR 0x27] @ t @ [CHR 0x27]) @
     '' AND status != '' @ [CHR 0x27] @ ''deleted'' @ [CHR 0x27] @ '' OR status == '' @ [CHR 0x27] @ ''shared'' @
     [CHR 0x27] @ '' ORDER BY id DESC LIMIT '' @ show_int limit"

datatype share_result = Already string | CannotShare string | CannotForce string | StatusChanged string string

definition share_job :: "int \<Rightarrow> bool \<Rightarrow> jobdb \<Rightarrow> (share_result \<times> jobdb) res" where
  "share_job job_id share db = (let new = (if share then ''shared'' else ''complete'') in
     case find_job db job_id of None \<Rightarrow> Inl IndexError
     | Some j \<Rightarrow> let old = jb_status j in
        if new = old then Inr (Already old, db)
        else if old \<notin> {''complete'', ''shared''} then Inr (if share then CannotShare old else CannotForce old, db)
        else Inr (StatusChanged old new, update_jobs (\<lambda>j. jb_id j = job_id) (\<lambda>j. j\<lparr>jb_status := new\<rparr>) db))"

definition get_output :: "jobdb \<Rightarrow> int \<Rightarrow> (string \<times> int \<times> string) res" where
  "get_output db output_id = (case List.find (\<lambda>r. ou_id r = output_id) (jd_outputs db) of None \<Rightarrow> Inl NotFound
     | Some r \<Rightarrow> (case find_job db (ou_job_id r) of None \<Rightarrow> Inl NotFound
        | Some j \<Rightarrow> Inr (ou_ds_key r, ou_job_id r, dirname (jb_ds_calc_dir j))))"

definition get_result :: "jobdb \<Rightarrow> int \<Rightarrow> (int \<times> string \<times> string \<times> string \<times> string) res" where
  "get_result db result_id = (case List.find (\<lambda>r. ou_id r = result_id) (jd_outputs db) of None \<Rightarrow> Inl NotFound
     | Some r \<Rightarrow> (case find_job db (ou_job_id r) of None \<Rightarrow> Inl NotFound
        | Some j \<Rightarrow> Inr (jb_id j, jb_status j, jb_user_name j, dirname (jb_ds_calc_dir j), ou_ds_key r)))"

definition get_results :: "jobdb \<Rightarrow> int \<Rightarrow> (string \<times> string list) res" where
  "get_results db job_id = (case find_job db job_id of None \<Rightarrow> Inl NotFound
     | Some j \<Rightarrow> Inr (dirname (jb_ds_calc_dir j), map ou_ds_key (get_outputs db job_id)))"

text \<open>\<open>since\<close> is the time two days ago.\<close>

definition get_executing_jobs :: "string \<Rightarrow> jobdb \<Rightarrow> (int \<times> int \<times> string \<times> string) list" where
  "get_executing_jobs since db = map (\<lambda>j. (jb_id j, jb_pid j, jb_user_name j, jb_start_time j))
     (rev (filter (\<lambda>j. jb_is_running j \<and> since < jb_start_time j) (jd_jobs db)))"

definition get_calc_ids :: "jobdb \<Rightarrow> string \<Rightarrow> int list" where
  "get_calc_ids db user = map jb_id (filter (\<lambda>j. jb_user_name j = user) (jd_jobs db))"

section \<open>Checksums\<close>

definition add_checksum :: "int \<Rightarrow> int \<Rightarrow> jobdb \<Rightarrow> jobdb res" where
  "add_checksum job_id value db = (if \<not> valid_ref db (Some job_id) \<or> job_id \<in> set (map fst (jd_checksums db)) \<or>
       value \<in> set (map snd (jd_checksums db)) then Inl IntegrityError
     else Inr (db\<lparr>jd_checksums := jd_checksums db @ [(job_id, value)]\<rparr>))"

text \<open>The job is the primary key: it cannot have another checksum already.\<close>

definition update_job_checksum :: "int \<Rightarrow> int \<Rightarrow> jobdb \<Rightarrow> jobdb res" where
  "update_job_checksum job_id checksum db = (if checksum \<notin> set (map snd (jd_checksums db)) then Inr db
     else if \<not> valid_ref db (Some job_id) \<or> (\<exists>(j, c) \<in> set (jd_checksums db). j = job_id \<and> c \<noteq> checksum) then Inl IntegrityError
     else Inr (db\<lparr>jd_checksums := map (\<lambda>(j, c). if c = checksum then (job_id, c) else (j, c)) (jd_checksums db)\<rparr>))"

definition get_checksum_from_job :: "jobdb \<Rightarrow> int \<Rightarrow> int res" where
  "get_checksum_from_job db job_id = (case map_of (jd_checksums db) job_id of None \<Rightarrow> Inl NotFound | Some c \<Rightarrow> Inr c)"

definition get_job_from_checksum :: "jobdb \<Rightarrow> int \<Rightarrow> job option" where
  "get_job_from_checksum db checksum = (case List.find (\<lambda>(j, c). c = checksum) (jd_checksums db) of None \<Rightarrow> None
     | Some (j, c) \<Rightarrow> find_job db j)"

section \<open>Integrity\<close>

text \<open>
  Identifiers are distinct, increasing and not above the last one given; every reference to a job
  meets a job; a job has one checksum and a checksum one job.
\<close>

definition db_ok :: "jobdb \<Rightarrow> bool" where
  "db_ok db \<longleftrightarrow> sorted_wrt (<) (job_ids db) \<and> (\<forall>i \<in> set (job_ids db). i \<le> jd_last_job db) \<and>
     (\<forall>j \<in> set (jd_jobs db). valid_ref db (jb_hc_id j)) \<and>
     (\<forall>l \<in> set (jd_logs db). lg_job_id l \<in> set (job_ids db)) \<and>
     (\<forall>r \<in> set (jd_outputs db). ou_job_id r \<in> set (job_ids db)) \<and>
     (\<forall>c \<in> set (jd_checksums db). fst c \<in> set (job_ids db)) \<and>
     distinct (map fst (jd_checksums db)) \<and> distinct (map snd (jd_checksums db)) \<and>
     sorted_wrt (<) (map lg_id (jd_logs db)) \<and> (\<forall>l \<in> set (jd_logs db). lg_id l \<le> jd_last_log db) \<and>
     sorted_wrt (<) (map ou_id (jd_outputs db)) \<and> (\<forall>r \<in> set (jd_outputs db). ou_id r \<le> jd_last_output db)"

lemma db_ok_empty: "db_ok empty_db"
  by (simp add: db_ok_def empty_db_def job_ids_def)

lemma job_ids_update [simp]: "(\<And>j. jb_id (f j) = jb_id j) \<Longrightarrow> job_ids (update_jobs P f db) = job_ids db"
  by (simp add: update_jobs_def job_ids_def comp_def if_distrib cong: if_cong)

lemma update_jobs_others [simp]:
  "jd_logs (update_jobs P f db) = jd_logs db" "jd_outputs (update_jobs P f db) = jd_outputs db"
  "jd_checksums (update_jobs P f db) = jd_checksums db" "jd_last_job (update_jobs P f db) = jd_last_job db"
  "jd_last_log (update_jobs P f db) = jd_last_log db" "jd_last_output (update_jobs P f db) = jd_last_output db"
  by (simp_all add: update_jobs_def)

lemma valid_ref_cong: "job_ids db = job_ids db' \<Longrightarrow> valid_ref db = valid_ref db'"
  by (rule ext) (simp add: valid_ref_def split: option.split)

lemma db_ok_update:
  assumes "db_ok db" "\<And>j. jb_id (f j) = jb_id j"
    "\<And>j. j \<in> set (jd_jobs db) \<Longrightarrow> P j \<Longrightarrow> valid_ref db (jb_hc_id (f j))"
  shows "db_ok (update_jobs P f db)"
proof -
  have i: "job_ids (update_jobs P f db) = job_ids db" using assms(2) by simp
  have "valid_ref (update_jobs P f db) (jb_hc_id j)" if "j \<in> set (jd_jobs (update_jobs P f db))" for j
    using that assms(1,3) valid_ref_cong [OF i] by (auto simp: update_jobs_def db_ok_def)
  then show ?thesis using assms(1) by (simp add: db_ok_def i)
qed

lemma map_insort_key: "map f (insort_key f x xs) = insort (f x) (map f xs)"
  by (induction xs) auto

lemma insert_job_ok:
  assumes "insert_job j db = Inr db'" "db_ok db"
  shows "db_ok db'" and "set (job_ids db') = insert (jb_id j) (set (job_ids db))"
proof -
  have new: "jb_id j \<notin> set (job_ids db)" and ref: "jb_hc_id j = Some (jb_id j) \<or> valid_ref db (jb_hc_id j)"
    and db': "db' = db\<lparr>jd_jobs := insort_key jb_id j (jd_jobs db), jd_last_job := max (jd_last_job db) (jb_id j)\<rparr>"
    using assms(1) by (auto simp: insert_job_def split: if_splits)
  have ids: "job_ids db' = insort (jb_id j) (job_ids db)" by (simp add: db' job_ids_def map_insort_key)
  then show mem: "set (job_ids db') = insert (jb_id j) (set (job_ids db))" by (simp add: set_insort_key)
  have "sorted_wrt (<) (job_ids db')"
    using assms(2) new by (simp add: ids db_ok_def strict_sorted_iff sorted_insort distinct_insort)
  moreover have "valid_ref db' r" if "valid_ref db r" for r using that mem by (auto simp: valid_ref_def split: option.splits)
  moreover have "valid_ref db' (jb_hc_id j)" using ref mem by (auto simp: valid_ref_def split: option.splits)
  ultimately show "db_ok db'" using assms(2) mem by (auto simp: db_ok_def db' set_insort_key)
qed

section \<open>Deletions\<close>

lemma parent_edges_iff: "(k, p) \<in> parent_edges jobs \<longleftrightarrow> (\<exists>j \<in> set jobs. jb_id j = k \<and> jb_hc_id j = Some p)"
  by (force simp: parent_edges_def split: option.splits)

lemma doomed_step: "j \<in> set (jd_jobs db) \<Longrightarrow> jb_hc_id j = Some p \<Longrightarrow> doomed db i p \<Longrightarrow> doomed db i (jb_id j)"
  unfolding doomed_def
  by (metis parent_edges_iff trancl.r_into_trancl trancl_into_trancl2)

text \<open>Whoever refers to a deleted job is deleted, so that no reference is left dangling.\<close>

lemma delete_cascade_ok:
  assumes "db_ok db" shows "db_ok (delete_cascade i db)"
    and "set (job_ids (delete_cascade i db)) = {k \<in> set (job_ids db). \<not> doomed db i k}"
proof -
  let ?db = "delete_cascade i db"
  show ids: "set (job_ids ?db) = {k \<in> set (job_ids db). \<not> doomed db i k}"
    by (auto simp: delete_cascade_def job_ids_def)
  have sorted: "sorted_wrt (<) (map f (filter P xs))" if "sorted_wrt (<) (map f xs)" for f :: "'x \<Rightarrow> int" and P xs
    using that by (simp add: sorted_wrt_map sorted_wrt_filter)
  have refs: "valid_ref ?db (jb_hc_id j)" if j: "j \<in> set (jd_jobs ?db)" for j
  proof (cases "jb_hc_id j")
    case (Some p)
    have m: "j \<in> set (jd_jobs db)" "\<not> doomed db i (jb_id j)" using j by (auto simp: delete_cascade_def)
    then have "p \<in> set (job_ids db)" using assms Some by (auto simp: db_ok_def valid_ref_def)
    moreover have "\<not> doomed db i p" using doomed_step [OF m(1) Some] m(2) by blast
    ultimately show ?thesis using Some ids by (simp add: valid_ref_def)
  qed (simp add: valid_ref_def)
  have dist: "distinct (map f (filter P xs))" if "distinct (map f xs)" for f :: "'x \<Rightarrow> int" and P xs
    using that by (rule distinct_map_filter)
  show "db_ok ?db" unfolding db_ok_def
  proof (intro conjI)
    show "sorted_wrt (<) (job_ids ?db)" using assms unfolding delete_cascade_def job_ids_def db_ok_def by (auto intro: sorted)
    show "\<forall>k \<in> set (job_ids ?db). k \<le> jd_last_job ?db" using assms ids by (auto simp: db_ok_def delete_cascade_def)
    show "\<forall>j \<in> set (jd_jobs ?db). valid_ref ?db (jb_hc_id j)" using refs by blast
    show "\<forall>l \<in> set (jd_logs ?db). lg_job_id l \<in> set (job_ids ?db)" using assms unfolding ids by (auto simp: db_ok_def delete_cascade_def)
    show "\<forall>r \<in> set (jd_outputs ?db). ou_job_id r \<in> set (job_ids ?db)" using assms unfolding ids by (auto simp: db_ok_def delete_cascade_def)
    show "\<forall>c \<in> set (jd_checksums ?db). fst c \<in> set (job_ids ?db)" using assms unfolding ids by (auto simp: db_ok_def delete_cascade_def)
    show "distinct (map fst (jd_checksums ?db))" "distinct (map snd (jd_checksums ?db))"
      using assms unfolding delete_cascade_def db_ok_def by (auto intro: dist)
    show "sorted_wrt (<) (map lg_id (jd_logs ?db))" "sorted_wrt (<) (map ou_id (jd_outputs ?db))"
      using assms unfolding delete_cascade_def db_ok_def by (auto intro: sorted)
    show "\<forall>l \<in> set (jd_logs ?db). lg_id l \<le> jd_last_log ?db" "\<forall>r \<in> set (jd_outputs ?db). ou_id r \<le> jd_last_output ?db"
      using assms unfolding delete_cascade_def db_ok_def by auto
  qed
qed

lemma del_one_ok:
  assumes "db_ok db" shows "db_ok (fst (snd (del_one locked i user delete_file (db, files))))"
  using delete_cascade_ok(1) [OF assms] assms by (auto simp: del_one_def Let_def split: option.splits)

lemma del_children_ok: "db_ok (fst st) \<Longrightarrow> db_ok (fst (snd (del_children locked is user delete_file st)))"
proof (induction locked "is" user delete_file st rule: del_children.induct)
  case (2 locked i "is" user delete_file st)
  obtain r st1 where s: "del_one locked i user delete_file st = (r, st1)" by (cases "del_one locked i user delete_file st")
  obtain rs st2 where t: "del_children locked is user delete_file st1 = (rs, st2)" by (cases "del_children locked is user delete_file st1")
  have "db_ok (fst st1)" using del_one_ok [of "fst st" locked i user delete_file "snd st"] 2(2) s by simp
  then show ?case using 2(1) [OF s [symmetric]] s t by simp
qed simp

lemma del_calc_ok:
  assumes "db_ok db" shows "db_ok (fst (snd (del_calc locked i user delete_file force (db, files))))"
  using del_one_ok [OF assms] del_children_ok [of "(db, files)"] assms
  by (auto simp: del_calc_def Let_def split: prod.splits) (metis fst_conv snd_conv)+

section \<open>All operations\<close>

text \<open>A step of the database server: one of the operations that change the database.\<close>

inductive db_step :: "jobdb \<Rightarrow> jobdb \<Rightarrow> bool" where
  reset: "db_step db (reset_is_running db)"
| status: "set_status i s db = Inr (db', n) \<Longrightarrow> db_step db db'"
| create: "create_job now datadir mode descr user hc host db = Inr (db', i) \<Longrightarrow> db_step db db'"
| imported: "import_job now i mode descr user s hc datadir db = Inr db' \<Longrightarrow> db_step db db'"
| uncompleted: "db_step db (delete_uncompleted_calculations user db)"
| finished: "db_step db (finish now i s db)"
| update: "update_job i changes db = Inr db' \<Longrightarrow> db_step db db'"
| parent: "update_parent_child pc db = Inr db' \<Longrightarrow> db_step db db'"
| share: "share_job i b db = Inr (r, db') \<Longrightarrow> db_step db db'"
| delete: "del_calc locked i user delete_file force (db, files) = (r, db', files') \<Longrightarrow> db_step db db'"
| outputs: "create_outputs display i keysize mb db = Inr db' \<Longrightarrow> db_step db db'"
| logged: "log_job i timestamp level proc message db = Inr db' \<Longrightarrow> db_step db db'"
| checksum: "add_checksum i v db = Inr db' \<Longrightarrow> db_step db db'"
| new_checksum: "update_job_checksum i v db = Inr db' \<Longrightarrow> db_step db db'"

inductive_cases db_stepE: "db_step db db'"

lemma update_keeps_refs: "db_ok db \<Longrightarrow> (\<And>j. jb_id (f j) = jb_id j \<and> jb_hc_id (f j) = jb_hc_id j) \<Longrightarrow> db_ok (update_jobs P f db)"
  by (rule db_ok_update) (auto simp: db_ok_def)

lemma foldl_change_id: "jb_id (foldl apply_change j cs) = jb_id j"
proof (induction cs arbitrary: j)
  case (Cons c cs)
  then show ?case by (cases c) auto
qed simp

lemma update_job_ok: "update_job i cs db = Inr db' \<Longrightarrow> db_ok db \<Longrightarrow> db_ok db'"
proof -
  assume u: "update_job i cs db = Inr db'" and ok: "db_ok db"
  have db': "db' = update_jobs (\<lambda>j. jb_id j = i) (\<lambda>j. foldl apply_change j cs) db"
    and refs: "list_all (\<lambda>j. valid_ref db (jb_hc_id j)) (jd_jobs db')"
    using u by (auto simp: update_job_def Let_def split: if_splits)
  show "db_ok db'" unfolding db'
    by (rule db_ok_update [OF ok foldl_change_id]) (use refs in \<open>auto simp: db' update_jobs_def list_all_iff\<close>)
qed

lemma create_job_ok:
  assumes "create_job now datadir mode descr user hc host db = Inr (db', i)" "db_ok db"
  shows "db_ok db'" and "i \<notin> set (job_ids db)" and "set (job_ids db') = insert i (set (job_ids db))"
proof -
  let ?i = "jd_last_job db + 1"
  let ?j = "created_job now datadir mode descr user hc host ?i"
  obtain db1 where j: "insert_job ?j db = Inr db1" "i = ?i"
    "db' = update_jobs (\<lambda>j. jb_id j = ?i) (\<lambda>j. j\<lparr>jb_ds_calc_dir := calc_dir datadir ?i\<rparr>) db1"
    using assms(1) by (auto simp: create_job_def Let_def bindE_Inr_iff)
  have id: "jb_id ?j = ?i" by (simp add: created_job_def)
  note ok = insert_job_ok [OF j(1) assms(2)]
  show "db_ok db'" unfolding j(3) by (rule update_keeps_refs [OF ok(1)]) simp
  show "i \<notin> set (job_ids db)" using j(1,2) id by (auto simp: insert_job_def split: if_splits)
  show "set (job_ids db') = insert i (set (job_ids db))" using ok(2) j(2,3) id by simp
qed

lemma insert_output_ok: "insert_output display i db ks = Inr db' \<Longrightarrow> db_ok db \<Longrightarrow> db_ok db'"
  by (auto simp: insert_output_def Let_def db_ok_def job_ids_def valid_ref_def sorted_wrt_append split: if_splits option.splits)
    fastforce+

lemma log_job_ok: "log_job i timestamp level process message db = Inr db' \<Longrightarrow> db_ok db \<Longrightarrow> db_ok db'"
  by (auto simp: log_job_def Let_def db_ok_def job_ids_def valid_ref_def sorted_wrt_append split: if_splits option.splits)
    fastforce+

lemma add_checksum_ok: "add_checksum i v db = Inr db' \<Longrightarrow> db_ok db \<Longrightarrow> db_ok db'"
  by (auto simp: add_checksum_def db_ok_def job_ids_def valid_ref_def split: if_splits option.splits) fastforce

lemma replace_owner_distinct:
  assumes "distinct (map fst l)" "distinct (map snd l)" "\<forall>(j, c) \<in> set l. j = i \<longrightarrow> c = v"
  shows "distinct (map fst (map (\<lambda>(j, c). if c = v then (i, c) else (j, c)) l))"
  using assms
proof (induction l)
  case (Cons p l)
  obtain j c where p: "p = (j, c)" by (cases p)
  show ?case
  proof (cases "c = v")
    case True
    then have "\<forall>(j', c') \<in> set l. c' \<noteq> v" using Cons.prems(2) p by force
    then have "\<forall>(j', c') \<in> set l. c' \<noteq> v \<and> j' \<noteq> i" using Cons.prems(3) by fastforce
    then show ?thesis using Cons p True by auto
  next
    case False
    then have "j \<noteq> i" using Cons.prems(3) p by auto
    then show ?thesis using Cons p False by (auto split: if_splits)
  qed
qed simp

lemma update_job_checksum_ok:
  assumes "update_job_checksum i v db = Inr db'" "db_ok db" shows "db_ok db'"
proof (cases "v \<in> set (map snd (jd_checksums db))")
  case True
  let ?f = "\<lambda>(j, c). if c = v then (i, c) else (j, c)"
  have db': "db' = db\<lparr>jd_checksums := map ?f (jd_checksums db)\<rparr>" and i: "i \<in> set (job_ids db)"
    and u: "\<forall>(j, c) \<in> set (jd_checksums db). j = i \<longrightarrow> c = v"
    using assms(1) True by (auto simp: update_job_checksum_def valid_ref_def split: if_splits)
  have "map snd (map ?f (jd_checksums db)) = map snd (jd_checksums db)" by auto
  moreover have "distinct (map fst (map ?f (jd_checksums db)))"
    using replace_owner_distinct [OF _ _ u] assms(2) by (simp add: db_ok_def)
  ultimately have "distinct (map fst (jd_checksums db'))" "distinct (map snd (jd_checksums db'))"
    using assms(2) by (simp_all add: db' db_ok_def del: map_map)
  moreover have "\<forall>c \<in> set (jd_checksums db'). fst c \<in> set (job_ids db)"
    using i assms(2) by (auto simp: db' db_ok_def)
  moreover have ids: "job_ids db' = job_ids db" by (simp add: db' job_ids_def)
  moreover have "valid_ref db' = valid_ref db" by (rule valid_ref_cong [OF ids])
  moreover have "jd_jobs db' = jd_jobs db" "jd_logs db' = jd_logs db" "jd_outputs db' = jd_outputs db"
    "jd_last_job db' = jd_last_job db" "jd_last_log db' = jd_last_log db" "jd_last_output db' = jd_last_output db"
    by (simp_all add: db')
  ultimately show ?thesis using assms(2) by (simp only: db_ok_def) blast
qed (use assms in \<open>simp add: update_job_checksum_def\<close>)

lemma db_step_ok: "db_step db db' \<Longrightarrow> db_ok db \<Longrightarrow> db_ok db'"
proof (induction rule: db_step.induct)
  case (reset db)
  then show ?case unfolding reset_is_running_def by (intro update_keeps_refs) simp_all
next
  case (status i s db db' n)
  then show ?case unfolding set_status_def set_status_of_def
    by (auto simp: bindE_Inr_iff intro!: update_keeps_refs split: if_splits option.splits)
next
  case (create now datadir mode descr user hc host db db' i)
  then show ?case using create_job_ok(1) by blast
next
  case (imported now i mode descr user s hc datadir db db')
  then show ?case unfolding import_job_def using insert_job_ok(1) by blast
next
  case (uncompleted db user)
  then show ?case unfolding delete_uncompleted_calculations_def by (intro update_keeps_refs) simp_all
next
  case (finished db now i s)
  then show ?case unfolding finish_def by (intro update_keeps_refs) simp_all
next
  case (update i changes db db')
  then show ?case using update_job_ok by blast
next
  case (parent pc db db')
  then show ?case unfolding update_parent_child_def using update_job_ok by blast
next
  case (share i b db r db')
  then show ?case unfolding share_job_def Let_def
    by (auto intro!: update_keeps_refs split: if_splits option.splits)
next
  case (delete locked i user delete_file force db files r db' files')
  then show ?case using del_calc_ok [of db locked i user delete_file force files] by simp
next
  case (outputs display i keysize mb db db')
  have "db_ok (update_jobs (\<lambda>j. jb_id j = i) (\<lambda>j. j\<lparr>jb_size_mb := Some mb\<rparr>) db)"
    using outputs(2) by (intro update_keeps_refs) simp_all
  with outputs(1) show ?case unfolding create_outputs_def
    by (rule foldE_invariant) (rule insert_output_ok)
next
  case (logged i timestamp level proc message db db')
  then show ?case using log_job_ok by blast
next
  case (checksum i v db db')
  then show ?case using add_checksum_ok by blast
next
  case (new_checksum i v db db')
  then show ?case using update_job_checksum_ok by blast
qed

lemma db_reach_ok: "db_step\<^sup>*\<^sup>* db db' \<Longrightarrow> db_ok db \<Longrightarrow> db_ok db'"
  by (induction rule: rtranclp_induct) (auto intro: db_step_ok)

section \<open>Statuses and queries\<close>

lemma find_job_Some: "db_ok db \<Longrightarrow> find_job db i = Some j \<longleftrightarrow> j \<in> set (jd_jobs db) \<and> jb_id j = i"
proof -
  assume "db_ok db"
  then have "distinct (map jb_id (jd_jobs db))" by (simp add: db_ok_def job_ids_def strict_sorted_iff)
  then have "inj_on jb_id (set (jd_jobs db))" by (simp add: distinct_map)
  then show ?thesis unfolding find_job_def find_Some_iff
    by (auto simp: in_set_conv_nth inj_on_def) (metis \<open>distinct (map jb_id (jd_jobs db))\<close> distinct_map length_map
        less_trans nat_neq_iff nth_eq_iff_index_eq nth_map nth_mem)
qed

text \<open>A job that is deleted by force takes every job with it that depends on it, whoever owns it.\<close>

lemma del_one_removes:
  assumes "db_ok db" "del_one locked i user delete_file (db, files) = (r, db', files')"
    "r = Deleted i fname \<or> r = NotRemoved fname"
  shows "set (job_ids db') = {k \<in> set (job_ids db). \<not> doomed db i k}"
  using assms delete_cascade_ok(2) [OF assms(1), of i] by (auto simp: del_one_def Let_def split: option.splits if_splits)

lemma get_calcs_shared:
  assumes "get_calcs db request allowed acl i = Inr js" "map_of request ''limit'' = Some l" "py_int l = Inr n" "n < 0"
    "j \<in> set (jd_jobs db)" "jb_status j = ''shared''"
  shows "j \<in> set js"
  using assms by (auto simp: get_calcs_def bindE_Inr_iff Let_def sql_limit_def)

text \<open>The start time stands in the query as it comes, whatever text it is.\<close>

lemma line_break_const: "list_all (\<lambda>c. \<not> line_break c) s \<Longrightarrow> \<forall>c \<in> set s. \<not> line_break c"
  by (simp add: list_all_iff)

lemma calcs_query_verbatim:
  assumes "set t \<inter> set ''?{}'' = {}" "\<forall>c \<in> set t. \<not> line_break c"
  shows "db_expand (calcs_templ (Some t) 100 False) [Dic [], Args []] =
    Inr (''SELECT * FROM job WHERE 1 AND 1 AND start_time >= '' @ [CHR 0x27] @ t @ [CHR 0x27] @
      '' AND status != '' @ [CHR 0x27] @ ''deleted'' @ [CHR 0x27] @ '' OR status == '' @ [CHR 0x27] @ ''shared'' @
      [CHR 0x27] @ '' ORDER BY id DESC LIMIT 100'')"
proof -
  let ?a = "''SELECT * FROM job WHERE ''" and ?b = "'' AND 1 AND start_time >= '' @ [CHR 0x27]"
    and ?c = "[CHR 0x27] @ '' AND status != '' @ [CHR 0x27] @ ''deleted'' @ [CHR 0x27] @ '' OR status == '' @ [CHR 0x27] @ ''shared'' @
      [CHR 0x27] @ '' ORDER BY id DESC LIMIT 100''"
  let ?s = "?a @ ''?A'' @ (?b @ t @ ?c)" and ?r = "\<lparr>rp_all_args = [Dic [], Args []], rp_xargs = [], rp_sargs = []\<rparr>"
  have templ: "calcs_templ (Some t) 100 False = ?s"
  proof -
    have "show_int 100 = ''100''" by code_simp
    then show ?thesis by (simp add: calcs_templ_def)
  qed
  have lb: "\<forall>c \<in> set ?a. \<not> line_break c" "\<forall>c \<in> set ?b. \<not> line_break c" "\<forall>c \<in> set ?c. \<not> line_break c" "\<forall>c \<in> set ''?A''. \<not> line_break c"
    by (rule line_break_const, code_simp)+
  have "strip_comments ?s = ?s"
  proof (rule strip_comments_line)
    show "\<forall>c \<in> set ?s. \<not> line_break c" using lb assms(2) unfolding set_append by blast
    have "is_ws CHR ''S'' = False" by code_simp
    then show "\<not> startswith (lstrip ?s) ''--''" by (simp add: lstrip_def)
  qed
  moreover have "rx_sub ?s ?r = Inr (?a @ ''1'' @ (?b @ t @ ?c), ?r\<lparr>rp_all_args := [Args []]\<rparr>)"
  proof -
    have "CHR ''?'' \<notin> set t" using assms(1) by auto
    then have "CHR ''?'' \<notin> set (?b @ t @ ?c)" by simp
    then have "rx_sub (?b @ t @ ?c) r = Inr (?b @ t @ ?c, r)" for r
      using rx_sub_plain [of "?b @ t @ ?c" "[]" r] by simp
    then have q: "rx_sub (''?A'' @ (?b @ t @ ?c)) ?r = Inr (''1'' @ (?b @ t @ ?c), ?r\<lparr>rp_all_args := [Args []]\<rparr>)"
      by (simp add: is_placeholder_def replacer_call_def replace_one_def or_one_def replacer_join_def sorted_items_def)
    have "CHR ''?'' \<notin> set ?a" by simp
    from rx_sub_plain [OF this, of "''?A'' @ (?b @ t @ ?c)" ?r] show ?thesis unfolding q by simp
  qed
  moreover have "str_format (?a @ ''1'' @ (?b @ t @ ?c)) [] = Inr (?a @ ''1'' @ (?b @ t @ ?c))"
  proof -
    have "set (?a @ ''1'' @ (?b @ t @ ?c)) \<inter> set ''{}'' = {}" using assms(1) by auto
    from str_format_plain [OF this, of "[]"] show ?thesis by simp
  qed
  ultimately show ?thesis
    by (simp add: templ db_expand_def match_templ_def replacer_match_def)
qed

end
