(* ===== verification/OqValid.thy ===== *)
theory OqValid
  imports Imt Containers Valid
begin

text \<open>
  The checks on the parameters of a calculation (\<open>OqParam\<close> of openquake/commonlib/oqvalidation.py, and
  \<open>get_risk_files\<close> of openquake/risklib/riskmodels.py). The record holds the parameters that the
  checks read, after their validators; numbers are exact rationals. Given are the exponential, the
  version of the engine, the signatures of the ShakeMap parsers and the parent calculation.
\<close>

section \<open>Parameters\<close>

text \<open>A value of the dictionary of input files; what \<open>bool\<close> and \<open>[0]\<close> give on it.\<close>

datatype inp = IFile string | IFiles "string list" | IDict "(string, string) dict"

fun truthy :: "inp \<Rightarrow> bool" where
  "truthy (IFile s) = (s \<noteq> [])"
| "truthy (IFiles l) = (l \<noteq> [])"
| "truthy (IDict d) = (d \<noteq> [])"

fun first_file :: "inp \<Rightarrow> string res" where
  "first_file (IFile (c # s)) = Inr [c]"
| "first_file (IFiles (f # fs)) = Inr f"
| "first_file (IDict d) = Inl KeyError"
| "first_file _ = Inl IndexError"

record oqparam =
  oq_calculation_mode :: string
  oq_inputs :: "(string, inp) dict"
  oq_hazard_imtls :: "(string, rat list) dict"
  oq_risk_imtls :: "(string, rat list) dict"
  oq_hc_id :: "int option"
  oq_sites :: "(rat \<times> rat \<times> rat) list option"
  oq_region :: "string option"
  oq_region_grid_spacing :: "rat option"
  oq_ground_motion_fields :: bool
  oq_hazard_curves_from_gmfs :: bool
  oq_hazard_maps :: bool
  oq_uniform_hazard_spectra :: bool
  oq_poes :: "rat list"
  oq_poes_disagg :: "rat list"
  oq_iml_disagg :: "(string, rat list) dict"
  oq_disagg_bin_edges :: "string list"
  oq_vars :: "string list"
  oq_disagg_outputs :: "string list"
  oq_num_epsilon_bins :: int
  oq_rlz_index :: "int list option"
  oq_num_rlzs_disagg :: int
  oq_postproc_func :: string
  oq_minimum_intensity :: "(string, rat) dict"
  oq_extreme_gmv :: "(string, rat) dict"
  oq_minimum_magnitude :: "(string, rat) dict"
  oq_maximum_distance :: "(string, rat) dict"
  oq_ps_grid_spacing :: rat
  oq_ses_per_logic_tree_path :: int
  oq_number_of_logic_tree_samples :: int
  oq_investigation_time :: "rat option"
  oq_risk_investigation_time :: "rat option"
  oq_return_periods :: "int list"
  oq_conditional_loss_poes :: "rat list"
  oq_truncation_level :: "rat option"
  oq_correlation_model :: "string option"
  oq_aggregate_by :: "string list list"
  oq_total_losses :: "string option"
  oq_all_cost_types :: "string list option"
  oq_quantiles :: "pyfloat list"
  oq_mean :: bool
  oq_std :: bool
  oq_max :: bool
  oq_individual_rlzs :: "bool option"
  oq_collect_rlzs :: "bool option"
  oq_soil_intensities :: "rat list option"
  oq_amplification_method :: string
  oq_specific_assets :: "string list"
  oq_use_rates :: bool
  oq_sampling_method :: string
  oq_disagg_by_src :: bool
  oq_concurrent_tasks :: int
  oq_shakemap_uri :: "(string, string) dict"
  oq_shakemap_id :: "string option"
  oq_minimum_engine_version :: "int list option"
  oq_risk_files :: "(string, inp) dict"
  oq_trts :: "string list"
  oq_complex_fault_mesh_spacing :: "rat option"
  oq_rupture_mesh_spacing :: "rat option"
  oq_intensity_measure_types :: "string list"
  oq_has_imtls :: bool

text \<open>\<open>raise_invalid\<close> needs the name of the ini file.\<close>

definition raise_invalid :: "oqparam \<Rightarrow> 'a res" where
  "raise_invalid oq = (if has_key (oq_inputs oq) ''job_ini'' then Inl InvalidFile else Inl KeyError)"

definition whenE :: "bool \<Rightarrow> unit res \<Rightarrow> unit res" where
  "whenE b m = (if b then m else Inr ())"

definition ignore :: "'a res \<Rightarrow> unit res" where
  "ignore m = bindE m (\<lambda>_. Inr ())"

definition in_inputs :: "oqparam \<Rightarrow> string \<Rightarrow> bool" where
  "in_inputs oq k = has_key (oq_inputs oq) k"

definition get_input :: "oqparam \<Rightarrow> string \<Rightarrow> bool" where
  "get_input oq k = (case map_of (oq_inputs oq) k of None \<Rightarrow> False | Some v \<Rightarrow> truthy v)"

definition rat_truth :: "rat option \<Rightarrow> bool" where
  "rat_truth x = (case x of None \<Rightarrow> False | Some q \<Rightarrow> q \<noteq> 0)"

definition hc_truth :: "oqparam \<Rightarrow> bool" where
  "hc_truth oq = (case oq_hc_id oq of None \<Rightarrow> False | Some i \<Rightarrow> i \<noteq> 0)"

section \<open>Names and files\<close>

definition aliases :: "(string, string) dict" where
  "aliases = [(''individual_curves'', ''individual_rlzs''), (''quantile_hazard_curves'', ''quantiles''),
     (''mean_hazard_curves'', ''mean''), (''max_hazard_curves'', ''max'')]"

text \<open>The first loop of \<open>fix_legacy_names\<close>, and the treatment of \<open>sites\<close>, which says whether the global
  site parameters are preferred; only a file name is a value for \<open>sites\<close> here.\<close>

definition fix_name :: "(string, 'v) dict \<Rightarrow> string \<Rightarrow> (string, 'v) dict res" where
  "fix_name dic nam = (case map_of aliases nam of None \<Rightarrow> Inr dic
     | Some new \<Rightarrow> if has_key dic new then Inl NameError
         else bindE (dict_get dic nam) (\<lambda>v. Inr (AList.update new v (dict_pop nam dic))))"

definition fix_legacy_names :: "(string, 'v) dict \<Rightarrow> (string, 'v) dict res" where
  "fix_legacy_names dic = foldE fix_name dic (keys dic)"

definition fix_sites :: "(string, inp) dict \<Rightarrow> ((string, inp) dict \<times> bool) res" where
  "fix_sites inputs = (case map_of inputs ''sites'' of None \<Rightarrow> Inr (inputs, False)
     | Some v \<Rightarrow> if (case map_of inputs ''site_model'' of None \<Rightarrow> False | Some m \<Rightarrow> truthy m) then Inl NameError
         else (case v of IFile f \<Rightarrow> Inr (AList.update ''site_model'' (IFiles [f]) (dict_pop ''sites'' inputs), True)
           | _ \<Rightarrow> Inl TypeError))"

text \<open>\<open>get_risk_files\<close>: the regular expression takes the first type that fits.\<close>

definition ltypes :: "string list" where
  "ltypes = [''business_interruption'', ''contents'', ''nonstructural'', ''structural'', ''occupants'', ''occupants_day'',
     ''occupants_night'', ''occupants_transit'', ''reinsurance'', ''claim'', ''area'', ''number'', ''residents'',
     ''affectedpop'', ''injured'', ''groundshaking'', ''liquefaction'', ''landslide'']"

definition match_risk_type :: "string \<Rightarrow> (string \<times> string) option" where
  "match_risk_type key = (case filter (\<lambda>t. startswith key (t @ ''_'') \<and> takeWhile is_word (drop (Suc (length t)) key) \<noteq> []) ltypes of
     [] \<Rightarrow> None | t # _ \<Rightarrow> Some (t, takeWhile is_word (drop (Suc (length t)) key)))"

definition is_risk_key :: "string \<Rightarrow> bool" where
  "is_risk_key key \<longleftrightarrow> endswith key ''_fragility'' \<or> endswith key ''_vulnerability'' \<or> endswith key ''_vulnerability_retrofitted''"

definition risk_file_step :: "(string, inp) dict \<times> (string, inp) dict \<Rightarrow> string \<Rightarrow> ((string, inp) dict \<times> (string, inp) dict) res" where
  "risk_file_step st key = (case st of (rfs, inputs) \<Rightarrow> bindE (dict_get inputs key) (\<lambda>v.
     if key = ''fragility'' then Inr (AList.update ''groundshaking/fragility/structural'' v rfs,
       dict_pop ''fragility'' (AList.update ''structural_fragility'' v inputs))
     else if is_risk_key key then
       (case match_risk_type key of None \<Rightarrow> Inl ValueError
        | Some (t, kind) \<Rightarrow> Inr (case v of
            IDict d \<Rightarrow> foldl (\<lambda>rfs (c, f). AList.update (t @ ''/'' @ kind @ ''/'' @ c) (IFile f) rfs) rfs d
          | _ \<Rightarrow> AList.update (''groundshaking/'' @ kind @ ''/'' @ t) v rfs, inputs))
     else Inr (rfs, inputs)))"

definition get_risk_files :: "(string, inp) dict \<Rightarrow> ((string, inp) dict \<times> (string, inp) dict) res" where
  "get_risk_files inputs = (if \<not> has_key inputs ''job_ini'' then Inl KeyError
     else foldE risk_file_step ([], inputs) (sort (keys inputs)))"

section \<open>Kinds of calculation\<close>

definition job_type :: "oqparam \<Rightarrow> string" where
  "job_type oq = (let m = oq_calculation_mode oq in
     if contains m ''risk'' \<or> contains m ''damage'' \<or> contains m ''bcr'' then ''risk'' else ''hazard'')"

definition is_event_based :: "oqparam \<Rightarrow> bool" where
  "is_event_based oq = contains ''event_based_risk ebrisk event_based_damage'' (oq_calculation_mode oq)"

definition hazard_precomputed :: "oqparam \<Rightarrow> bool" where
  "hazard_precomputed oq \<longleftrightarrow> in_inputs oq ''gmfs'' \<or> in_inputs oq ''hazard_curves'' \<or> hc_truth oq"

definition rupture_file :: "oqparam \<Rightarrow> string \<Rightarrow> bool res" where
  "rupture_file oq ext = (case map_of (oq_inputs oq) ''rupture_model'' of None \<Rightarrow> Inr False
     | Some (IFile f) \<Rightarrow> Inr (endswith f ext) | Some _ \<Rightarrow> Inl AttributeError)"

definition rupture_xml :: "oqparam \<Rightarrow> bool res" where
  "rupture_xml oq = rupture_file oq ''.xml''"

definition ruptures_hdf5 :: "oqparam \<Rightarrow> bool res" where
  "ruptures_hdf5 oq = rupture_file oq ''.hdf5''"

text \<open>\<open>impact\<close> sets the quantiles and the aggregation when they are missing.\<close>

definition impact :: "oqparam \<Rightarrow> (bool \<times> oqparam) res" where
  "impact oq = (case map_of (oq_inputs oq) ''exposure'' of None \<Rightarrow> Inr (False, oq)
     | Some v \<Rightarrow> if \<not> truthy v then Inr (False, oq) else bindE (first_file v) (\<lambda>f.
         if \<not> endswith f ''.hdf5'' then Inr (False, oq)
         else Inr (True, oq\<lparr>oq_quantiles := (if oq_quantiles oq = [] then [fl (1/20), fl (19/20)] else oq_quantiles oq),
           oq_aggregate_by := (if oq_aggregate_by oq = [] then [[''ID_2'']] else oq_aggregate_by oq)\<rparr>)))"

definition aelo :: "oqparam \<Rightarrow> bool" where
  "aelo oq \<longleftrightarrow> oq_postproc_func oq = ''compute_rtgm.main''"

text \<open>The names of \<open>hazard_stats\<close>; a repeated quantile counts once.\<close>

definition hazard_stats :: "oqparam \<Rightarrow> string list" where
  "hazard_stats oq = keys (dict_update [] (map (\<lambda>n. (n, ())) ((if oq_mean oq then [''mean''] else []) @ (if oq_std oq then [''std''] else []) @
     map (\<lambda>q. ''quantile-'' @ show_float q) (oq_quantiles oq) @ (if oq_max oq then [''max''] else []))))"

definition fastmean :: "oqparam \<Rightarrow> bool" where
  "fastmean oq \<longleftrightarrow> oq_individual_rlzs oq \<noteq> Some True \<and> oq_soil_intensities oq = None \<and>
     hazard_stats oq = [''mean''] \<and> oq_use_rates oq"

definition zfill3 :: "nat \<Rightarrow> string" where
  "zfill3 n = (let s = show_nat n in replicate (3 - length s) CHR ''0'' @ s)"

definition get_kinds :: "oqparam \<Rightarrow> string \<Rightarrow> nat \<Rightarrow> string list" where
  "get_kinds oq kind R = (let stats = hazard_stats oq in
     if kind = ''stats'' then stats
     else if kind = ''rlzs'' then map (\<lambda>r. ''rlz-'' @ show_nat r) [0..<R]
     else if kind \<noteq> [] then [kind]
     else (if (1 < R \<and> oq_individual_rlzs oq = Some True) \<or> stats = [] then map (\<lambda>r. ''rlz-'' @ zfill3 r) [0..<R] else []) @ stats)"

section \<open>Intensity measure levels\<close>

definition imtls_of :: "oqparam \<Rightarrow> (string, rat list) dict res" where
  "imtls_of oq = (let d = (if oq_hazard_imtls oq \<noteq> [] then oq_hazard_imtls oq else oq_risk_imtls oq) in
     if d = [] then Inr [] else bindE (sort_by_imt d) (\<lambda>s. bindE (da_init s) (\<lambda>_. Inr s)))"

definition getdefault :: "(string, 'v) dict \<Rightarrow> string \<Rightarrow> 'v res" where
  "getdefault d key = (case map_of d key of Some v \<Rightarrow> Inr v | None \<Rightarrow> dict_get d ''default'')"

text \<open>\<open>min_iml\<close> also completes the dictionary of the minimum intensities; 1E-10 stands for zero.\<close>

definition min_iml :: "oqparam \<Rightarrow> (rat list \<times> oqparam) res" where
  "min_iml oq = bindE (imtls_of oq) (\<lambda>imtls. let mini = oq_minimum_intensity oq;
       mini' = (if mini = [] then mini else foldl (\<lambda>d i. AList.update i (case getdefault d i of Inr v \<Rightarrow> v | Inl _ \<Rightarrow> 0) d) mini (keys imtls));
       mini'' = filter (\<lambda>(k, v). k \<noteq> ''default'') mini' in
     Inr (map (\<lambda>i. case map_of mini'' i of None \<Rightarrow> 1 / 10 ^ 10 | Some v \<Rightarrow> if v = 0 then 1 / 10 ^ 10 else v) (keys imtls),
       oq\<lparr>oq_minimum_intensity := mini''\<rparr>))"

definition get_max_iml :: "oqparam \<Rightarrow> rat list res" where
  "get_max_iml oq = bindE (imtls_of oq) (\<lambda>imtls. mapE (getdefault (oq_extreme_gmv oq)) (keys imtls))"

definition levels_per_imt :: "oqparam \<Rightarrow> nat res" where
  "levels_per_imt oq = bindE (imtls_of oq) (\<lambda>imtls. case imtls of [] \<Rightarrow> Inl AttributeError
     | _ \<Rightarrow> bindE (da_init imtls) (\<lambda>da. Inr (da_size da div length imtls)))"

definition no_imls :: "oqparam \<Rightarrow> bool res" where
  "no_imls oq = bindE (imtls_of oq) (\<lambda>imtls. Inr (sum_list (map (sum_list \<circ> snd) imtls) = 0))"

definition get_primary_imtls :: "string list \<Rightarrow> oqparam \<Rightarrow> (string, rat list) dict res" where
  "get_primary_imtls sec_imts oq = bindE (imtls_of oq) (\<lambda>imtls.
     Inr (filter (\<lambda>(i, l). CHR ''_'' \<notin> set i \<and> i \<notin> set sec_imts) imtls))"

definition imt_periods :: "oqparam \<Rightarrow> imt list res" where
  "imt_periods oq = bindE (imtls_of oq) (\<lambda>imtls. bindE (mapE imt_from_string (keys imtls)) (\<lambda>ims.
     Inr (filter (\<lambda>i. flt_truth (imt_period i) \<or> imt_string i = ''PGA'') ims)))"

definition check_same_levels :: "(string, rat list) dict \<Rightarrow> (pyfloat list \<times> rat list) res" where
  "check_same_levels imtls = (case imtls of [] \<Rightarrow> Inl ValueError
     | (_, imls) # _ \<Rightarrow>
       bindE (foldE (\<lambda>_ (i, l). checkE ((startswith i ''PGA'' \<or> startswith i ''SA'') \<and> \<not> list_all (\<lambda>x. x = 0) l \<and> l = imls) ValueError)
         () imtls) (\<lambda>_.
       bindE (mapE imt_from_string (keys imtls)) (\<lambda>ims. Inr (map imt_period ims, imls))))"

definition check_increasing :: "(string, rat list) dict \<Rightarrow> string list \<Rightarrow> unit res" where
  "check_increasing dframe cols = foldE (\<lambda>_ col. bindE (dict_get dframe col) (\<lambda>arr. checkE (sorted arr) AssertionError)) () cols"

definition check_uniform_hazard_spectra :: "oqparam \<Rightarrow> unit res" where
  "check_uniform_hazard_spectra oq = bindE (imtls_of oq) (\<lambda>imtls.
     checkE (filter (\<lambda>i. i = ''PGA'' \<or> startswith i ''SA'') (keys imtls) \<noteq> []) ValueError)"

section \<open>Losses and times\<close>

definition loss_types :: "oqparam \<Rightarrow> string list" where
  "loss_types oq = (case oq_all_cost_types oq of None \<Rightarrow> [] | Some l \<Rightarrow> l)"

text \<open>The insurance input is a dictionary by loss type; iterating over a file name gives its characters.\<close>

fun inp_keys :: "inp \<Rightarrow> string list" where
  "inp_keys (IFile s) = map (\<lambda>c. [c]) s"
| "inp_keys (IFiles l) = l"
| "inp_keys (IDict d) = keys d"

definition ext_loss_types :: "oqparam \<Rightarrow> string list" where
  "ext_loss_types oq = (case map_of (oq_inputs oq) ''insurance'' of
     Some v \<Rightarrow> loss_types oq @ map (\<lambda>lt. lt @ ''_ins'') (inp_keys v)
   | None \<Rightarrow> (case oq_total_losses oq of None \<Rightarrow> loss_types oq | Some t \<Rightarrow> loss_types oq @ [t]))"

definition lti :: "oqparam \<Rightarrow> (string, nat) dict" where
  "lti oq = dict_update [] (map (\<lambda>(i, lt). (lt, i)) (enumerate 0 (ext_loss_types oq)))"

definition total_loss_types :: "oqparam \<Rightarrow> (string, nat) dict res" where
  "total_loss_types oq = bindE (case oq_total_losses oq of Some t \<Rightarrow> Inr (split_on CHR ''+'' t)
       | None \<Rightarrow> if length (loss_types oq) = 1 then Inr (loss_types oq) else raise_invalid oq) (\<lambda>total.
     Inr (dict_update [] (map (\<lambda>(i, lt). (lt, i)) (filter (\<lambda>(i, lt). lt \<in> set total) (enumerate 0 (loss_types oq))))))"

definition tses :: "oqparam \<Rightarrow> rat res" where
  "tses oq = (case oq_investigation_time oq of None \<Rightarrow> Inl TypeError
     | Some t \<Rightarrow> Inr (t * of_int (oq_ses_per_logic_tree_path oq) *
         of_int (if oq_number_of_logic_tree_samples oq = 0 then 1 else oq_number_of_logic_tree_samples oq)))"

definition time_ratio :: "oqparam \<Rightarrow> rat res" where
  "time_ratio oq = (case oq_investigation_time oq of None \<Rightarrow> Inl ValueError
     | Some t \<Rightarrow> (let r = (case oq_risk_investigation_time oq of None \<Rightarrow> t | Some r \<Rightarrow> if r = 0 then t else r);
          d = t * of_int (oq_ses_per_logic_tree_path oq) in
        if d = 0 then Inl ZeroDivisionError else Inr (r / d)))"

definition risk_event_rates :: "oqparam \<Rightarrow> rat list \<Rightarrow> rat \<Rightarrow> rat list res" where
  "risk_event_rates oq num_events num_haz_rlzs = (case oq_investigation_time oq of
     None \<Rightarrow> Inr (map (\<lambda>_. of_nat (length num_events)) num_events)
   | Some _ \<Rightarrow> bindE (time_ratio oq) (\<lambda>r.
       if oq_collect_rlzs oq = Some True \<and> num_haz_rlzs = 0 then Inl ZeroDivisionError
       else Inr (map (\<lambda>n. (if oq_collect_rlzs oq = Some True then r / num_haz_rlzs else r) * n) num_events)))"

section \<open>Checks of the constructor\<close>

definition gmfs_file :: "oqparam \<Rightarrow> string res" where
  "gmfs_file oq = (case map_of (oq_inputs oq) ''gmfs'' of None \<Rightarrow> Inr [] | Some v \<Rightarrow> first_file v)"

definition check_gmfs :: "oqparam \<Rightarrow> unit res" where
  "check_gmfs oq = bindE (gmfs_file oq) (\<lambda>f.
     if endswith f ''.csv'' \<and> \<not> in_inputs oq ''site_model'' \<and> oq_sites oq = None then raise_invalid oq
     else if endswith f ''.xml'' then raise_invalid oq else Inr ())"

definition check_event_based :: "oqparam \<Rightarrow> unit res" where
  "check_event_based oq = (if \<not> contains (oq_calculation_mode oq) ''event_based'' then Inr () else
     bindE (ruptures_hdf5 oq) (\<lambda>h5.
     bindE (whenE (h5 \<and> oq_minimum_intensity oq = []) (raise_invalid oq)) (\<lambda>_.
     bindE (whenE (2 ^ 32 \<le> oq_ses_per_logic_tree_path oq) (raise_invalid oq)) (\<lambda>_.
     whenE (2 ^ 16 \<le> oq_number_of_logic_tree_samples oq) (raise_invalid oq)))))"

definition check_amplification :: "oqparam \<Rightarrow> unit res" where
  "check_amplification oq = (if \<not> in_inputs oq ''amplification'' then Inr () else
     bindE (imtls_of oq) (\<lambda>imtls.
     whenE (imtls \<noteq> [] \<and> oq_calculation_mode oq \<in> {''classical'', ''classical_risk'', ''disaggregation''}) (ignore (check_same_levels imtls))))"

text \<open>The part of \<open>check_hazard\<close> for the disaggregation: the two lists of probabilities are unified.\<close>

definition unify_poes :: "oqparam \<Rightarrow> oqparam res" where
  "unify_poes oq = (if oq_poes_disagg oq = [] \<and> oq_poes oq \<noteq> [] then Inr (oq\<lparr>oq_poes_disagg := oq_poes oq\<rparr>)
     else if oq_poes oq = [] \<and> oq_poes_disagg oq \<noteq> [] then Inr (oq\<lparr>oq_poes := oq_poes_disagg oq\<rparr>)
     else if oq_poes oq \<noteq> oq_poes_disagg oq then raise_invalid oq else Inr oq)"

definition check_disagg :: "oqparam \<Rightarrow> oqparam res" where
  "check_disagg oq = (if oq_calculation_mode oq \<noteq> ''disaggregation'' then Inr oq else
     bindE (unify_poes oq) (\<lambda>oq.
     bindE (if oq_poes_disagg oq = [] \<and> oq_iml_disagg oq = [] then raise_invalid oq
            else if oq_poes_disagg oq \<noteq> [] \<and> oq_iml_disagg oq \<noteq> [] then raise_invalid oq else Inr ()) (\<lambda>_.
     bindE (whenE (oq_disagg_bin_edges oq = [] \<and> \<not> set [''mag_bin_width'', ''distance_bin_width'', ''coordinate_bin_width'',
            ''num_epsilon_bins''] \<subseteq> set (oq_vars oq)) (raise_invalid oq)) (\<lambda>_.
     let oq = (if oq_disagg_outputs oq \<noteq> [] \<and> \<not> list_ex (\<lambda>out. contains out ''Eps'') (oq_disagg_outputs oq)
               then oq\<lparr>oq_num_epsilon_bins := 1\<rparr> else oq) in
     bindE (whenE (oq_rlz_index oq \<noteq> None \<and> oq_num_rlzs_disagg oq \<noteq> 1) (raise_invalid oq)) (\<lambda>_. Inr oq)))))"

text \<open>\<open>'PGA' and "SA(0.2)" and 'SA(1.0)' not in self.imtls\<close>: only the last name is looked up.\<close>

definition check_rtgm :: "oqparam \<Rightarrow> unit res" where
  "check_rtgm oq = (if \<not> contains (oq_postproc_func oq) ''rtgm'' then Inr () else
     bindE (imtls_of oq) (\<lambda>imtls. whenE (\<not> has_key imtls ''SA(1.0)'') (raise_invalid oq)))"

definition check_hazard :: "oqparam \<Rightarrow> oqparam res" where
  "check_hazard oq = bindE (check_gmfs oq) (\<lambda>_. bindE (check_event_based oq) (\<lambda>_. bindE (check_amplification oq) (\<lambda>_.
     bindE (check_disagg oq) (\<lambda>oq'. bindE (check_rtgm oq') (\<lambda>_. Inr oq')))))"

definition check_missing :: "oqparam \<Rightarrow> string \<Rightarrow> string \<Rightarrow> unit res" where
  "check_missing oq param action = bindE (checkE (action \<in> {''debug'', ''info'', ''warn'', ''error''}) AssertionError) (\<lambda>_.
     whenE (get_input oq param \<and> action = ''error'') (raise_invalid oq))"

definition tagset :: "string list list \<Rightarrow> string set" where
  "tagset aggregate_by = (\<Union>l \<in> set aggregate_by. set l)"

definition check_aggregate_by :: "oqparam \<Rightarrow> bool res" where
  "check_aggregate_by oq = (let tags = tagset (oq_aggregate_by oq) in
     if ''id'' \<in> tags \<and> 1 < card tags then Inl ValueError
     else if ''site_id'' \<in> tags \<and> 1 < card tags then Inl ValueError
     else bindE (whenE (in_inputs oq ''reinsurance'' \<and> [''policy''] \<notin> set (oq_aggregate_by oq)) (raise_invalid oq)) (\<lambda>_. Inr True))"

text \<open>\<open>LOSSID\<close>. The message for an unknown loss type has two placeholders and one argument.\<close>

definition loss_ids :: "string list" where
  "loss_ids = [''business_interruption'', ''contents'', ''nonstructural'', ''structural'',
     ''occupants'', ''occupants_day'', ''occupants_night'', ''occupants_transit'',
     ''structural+nonstructural'', ''structural+contents'', ''nonstructural+contents'',
     ''structural+nonstructural+contents'',
     ''structural+nonstructural_ins'', ''structural+contents_ins'', ''nonstructural+contents_ins'',
     ''structural+nonstructural+contents_ins'', ''structural_ins'', ''nonstructural_ins'',
     ''reinsurance'', ''claim'', ''area'', ''number'', ''residents'',
     ''structural+business_interruption'', ''nonstructural+business_interruption'', ''contents+business_interruption'',
     ''structural+nonstructural+business_interruption'', ''structural+contents+business_interruption'',
     ''nonstructural+contents+business_interruption'', ''structural+nonstructural+contents+business_interruption'',
     ''contents_ins'', ''business_interruption_ins'',
     ''structural_ins+nonstructural_ins'', ''structural_ins+contents_ins'',
     ''structural_ins+business_interruption_ins'', ''nonstructural_ins+contents_ins'',
     ''nonstructural_ins+business_interruption_ins'', ''contents_ins+business_interruption_ins'',
     ''structural_ins+nonstructural_ins+contents_ins'', ''structural_ins+nonstructural_ins+business_interruption_ins'',
     ''structural_ins+contents_ins+business_interruption_ins'', ''nonstructural_ins+contents_ins+business_interruption_ins'',
     ''structural_ins+nonstructural_ins+contents_ins+business_interruption_ins'', ''affectedpop'', ''injured'']"

definition check_reinsurance :: "oqparam \<Rightarrow> unit res" where
  "check_reinsurance oq = bindE (dict_get (oq_inputs oq) ''reinsurance'') (\<lambda>v. case v of
     IFile _ \<Rightarrow> Inl AttributeError
   | _ \<Rightarrow> (case inp_keys v of
       [lt] \<Rightarrow> if lt \<notin> set loss_ids then Inl TypeError
         else whenE (CHR ''+'' \<in> set lt \<and> oq_total_losses oq = None) (raise_invalid oq)
     | _ \<Rightarrow> raise_invalid oq))"

definition check_source_model :: "oqparam \<Rightarrow> unit res" where
  "check_source_model oq = (if list_ex (in_inputs oq) [''hazard_curves'', ''gmfs'', ''rupture_model'', ''ins_loss''] \<or>
       contains (oq_calculation_mode oq) ''scenario'' \<or>
       list_ex (in_inputs oq) [''source_model_logic_tree'', ''source_model'', ''multi_peril''] then Inr ()
     else bindE (dict_get (oq_inputs oq) ''job_ini'') (\<lambda>ini.
       if ini \<noteq> IFile ''<in-memory>'' \<and> oq_hc_id oq = None then Inl ValueError else Inr ()))"

definition known_inputs :: "string list" where
  "known_inputs = [''rupture_model'', ''exposure'', ''site_model'', ''delta_rates'', ''source_model'', ''shakemap'', ''gmfs'',
     ''gsim_logic_tree'', ''source_model_logic_tree'', ''geometry'', ''hazard_curves'', ''insurance'', ''reinsurance'',
     ''ins_loss'', ''job_ini'', ''multi_peril'', ''taxonomy_mapping'', ''fragility'', ''consequence'', ''reqv'', ''input_zip'',
     ''reqv_ignore_sources'', ''amplification'', ''station_data'', ''mmi'', ''nonstructural_fragility'',
     ''nonstructural_consequence'', ''structural_fragility'', ''structural_consequence'', ''contents_fragility'',
     ''contents_consequence'', ''business_interruption_fragility'', ''business_interruption_consequence'',
     ''structural_vulnerability_retrofitted'', ''groundshaking_fragility'', ''groundshaking_vulnerability'',
     ''liquefaction_fragility'', ''liquefaction_vulnerability'', ''landslide_fragility'', ''landslide_vulnerability'',
     ''post_loss_amplification''] @ map (\<lambda>v. v @ ''_vulnerability'') [''structural'', ''nonstructural'', ''contents'',
     ''business_interruption'', ''number'', ''area'', ''occupants'', ''residents'', ''affectedpop'', ''injured'']"

text \<open>The parts of \<open>check_risk\<close>; \<open>poe_of t T\<close> is \<open>1 - exp(- t / T)\<close>.\<close>

definition check_risk_files :: "oqparam \<Rightarrow> oqparam res" where
  "check_risk_files oq = (if job_type oq \<noteq> ''risk'' \<or> oq_shakemap_uri oq \<noteq> [] then Inr oq else
     bindE (impact oq) (\<lambda>(yes, oq). if yes then Inr oq else
     let m = oq_calculation_mode oq; rfs = keys (oq_risk_files oq) in
     bindE (if contains m ''damage'' \<and> \<not> hc_truth oq then
              whenE (\<not> list_ex (\<lambda>k. contains k ''fragility'') rfs) (raise_invalid oq)
            else if contains m ''risk'' \<and> \<not> in_inputs oq ''multi_peril'' \<and> \<not> hc_truth oq then
              whenE (\<not> list_ex (\<lambda>k. contains k ''vulnerability'') rfs) (raise_invalid oq)
            else Inr ()) (\<lambda>_. Inr oq)))"

definition check_risk :: "(rat \<Rightarrow> int \<Rightarrow> rat) \<Rightarrow> oqparam \<Rightarrow> oqparam res" where
  "check_risk poe_of oq0 =
     bindE (get_risk_files (oq_inputs oq0)) (\<lambda>(rfs, inputs).
     bindE (check_risk_files (oq0\<lparr>oq_risk_files := rfs, oq_inputs := inputs\<rparr>)) (\<lambda>oq.
     let m = oq_calculation_mode oq in
     bindE (whenE (job_type oq = ''risk'') (ignore (check_aggregate_by oq))) (\<lambda>_.
     bindE (whenE (\<not> in_inputs oq ''hazard_curves'' \<and> \<not> in_inputs oq ''gmfs'' \<and> map_of (oq_inputs oq) ''job_ini'' \<noteq> Some (IFile ''<in-memory>'') \<and>
            m \<noteq> ''scenario'' \<and> oq_hc_id oq = None \<and> \<not> in_inputs oq ''multi_peril'' \<and> oq_truncation_level oq = None) (raise_invalid oq)) (\<lambda>_.
     bindE (whenE (in_inputs oq ''reinsurance'') (check_reinsurance oq)) (\<lambda>_.
     bindE (checkE (\<not> (rat_truth (oq_investigation_time oq) \<and> startswith m ''scenario'')) ValueError) (\<lambda>_.
     bindE (checkE (set (keys (oq_inputs oq)) \<subseteq> set known_inputs) ValueError) (\<lambda>_.
     let oq' = (if oq_return_periods oq \<noteq> [] \<and> oq_poes oq = [] \<and> rat_truth (oq_investigation_time oq)
                then oq\<lparr>oq_poes := map (poe_of (the (oq_investigation_time oq))) (oq_return_periods oq)\<rparr> else oq) in
     if m \<noteq> ''classical_damage'' then Inr oq'
     else if oq_conditional_loss_poes oq \<noteq> [] then raise_invalid oq
     else if \<not> rat_truth (oq_investigation_time oq) \<and> oq_hc_id oq = None then raise_invalid oq
     else Inr oq')))))))"

definition check_ebrisk :: "oqparam \<Rightarrow> oqparam res" where
  "check_ebrisk oq = (if oq_calculation_mode oq \<noteq> ''ebrisk'' then Inr oq
     else bindE (whenE (oq_hazard_curves_from_gmfs oq) (raise_invalid oq)) (\<lambda>_. Inr (oq\<lparr>oq_ground_motion_fields := False\<rparr>)))"

section \<open>The validity conditions\<close>

definition is_valid_disagg_by_src :: "oqparam \<Rightarrow> bool" where
  "is_valid_disagg_by_src oq \<longleftrightarrow> \<not> oq_disagg_by_src oq \<or> oq_ps_grid_spacing oq = 0"

definition is_valid_concurrent_tasks :: "oqparam \<Rightarrow> bool" where
  "is_valid_concurrent_tasks oq \<longleftrightarrow> oq_concurrent_tasks oq \<le> 30000"

text \<open>\<open>sig\<close> gives the required and all the parameters of the parser of a kind of ShakeMap.\<close>

definition is_valid_shakemap :: "(string \<Rightarrow> (string list \<times> string list) option) \<Rightarrow> oqparam \<Rightarrow> bool res" where
  "is_valid_shakemap sig oq = (if oq_shakemap_uri oq \<noteq> [] then
       bindE (dict_get (oq_shakemap_uri oq) ''kind'') (\<lambda>kind. case sig kind of None \<Rightarrow> Inl AttributeError
         | Some (params, all_params) \<Rightarrow>
             if set params \<subseteq> set (keys (oq_shakemap_uri oq)) \<and> set (keys (oq_shakemap_uri oq)) \<subseteq> set all_params
             then Inr True else Inl ValueError)
     else Inr (case oq_shakemap_id oq of None \<Rightarrow> True | Some i \<Rightarrow> i = [] \<or> hc_truth oq))"

definition is_valid_truncation_level :: "oqparam \<Rightarrow> bool res" where
  "is_valid_truncation_level oq = (if oq_correlation_model oq = None then Inr True
     else case oq_truncation_level oq of None \<Rightarrow> Inl AttributeError | Some x \<Rightarrow> Inr (x \<noteq> 0))"

definition is_valid_geometry :: "oqparam \<Rightarrow> bool" where
  "is_valid_geometry oq = (let m = oq_calculation_mode oq; has_sites = (oq_sites oq \<noteq> None \<or> in_inputs oq ''site_model'') in
     if m \<in> {''preclassical'', ''aftershock''} then True
     else if in_inputs oq ''hazard_curves'' \<and> has_sites then False
     else if \<not> has_sites \<and> \<not> oq_ground_motion_fields oq then True
     else if contains m ''risk'' \<or> contains m ''damage'' \<or> contains m ''bcr'' then True
     else let flags = [(case oq_sites oq of None \<Rightarrow> False | Some l \<Rightarrow> l \<noteq> []), get_input oq ''site_model'',
            get_input oq ''hazard_curves'', get_input oq ''gmfs'',
            (case oq_region oq of None \<Rightarrow> False | Some r \<Rightarrow> r \<noteq> []) \<and> rat_truth (oq_region_grid_spacing oq)] in
       length (filter id flags) = 1 \<or> get_input oq ''exposure'' \<or> get_input oq ''site_model'')"

definition is_valid_poes :: "oqparam \<Rightarrow> bool" where
  "is_valid_poes oq \<longleftrightarrow> (oq_hazard_maps oq \<or> oq_uniform_hazard_spectra oq \<longrightarrow> oq_poes oq \<noteq> [])"

definition is_valid_maximum_distance :: "oqparam \<Rightarrow> bool" where
  "is_valid_maximum_distance oq = (if \<not> in_inputs oq ''gsim_logic_tree'' then True else
     let trts = set (keys (oq_maximum_distance oq)); known = set (oq_trts oq);
         unknown = trts - known - set (keys (oq_minimum_magnitude oq)) - {''default''} in
     if unknown \<noteq> {} then False
     else \<not> (''default'' \<notin> trts \<and> trts \<subset> known))"

definition is_valid_intensity_measure_types :: "oqparam \<Rightarrow> bool res" where
  "is_valid_intensity_measure_types oq =
     bindE (whenE (oq_correlation_model oq \<noteq> None) (bindE (imtls_of oq) (\<lambda>imtls.
       checkE (list_all (\<lambda>i. startswith i ''SA'' \<or> i \<in> {''PGA'', ''PGV''}) (keys imtls)) ValueError))) (\<lambda>_.
     Inr (if oq_risk_files oq \<noteq> [] then oq_intensity_measure_types oq = [] \<and> \<not> oq_has_imtls oq else True))"

definition is_valid_intensity_measure_levels :: "oqparam \<Rightarrow> bool res" where
  "is_valid_intensity_measure_levels oq = bindE (no_imls oq) (\<lambda>none.
     Inr (\<not> (none \<and> oq_risk_files oq = [] \<and> (oq_hazard_curves_from_gmfs oq \<or>
       oq_calculation_mode oq \<in> {''classical'', ''disaggregation''}))))"

definition is_valid_soil_intensities :: "oqparam \<Rightarrow> bool res" where
  "is_valid_soil_intensities oq = (let m = oq_calculation_mode oq in
     if (contains m ''classical'' \<or> contains m ''disaggregation'') \<and> in_inputs oq ''amplification'' \<and>
        oq_amplification_method oq = ''convolution''
     then (case oq_soil_intensities oq of None \<Rightarrow> Inl TypeError | Some l \<Rightarrow> Inr (1 < length l))
     else Inr (oq_soil_intensities oq = None))"

definition is_valid_specific_assets :: "oqparam \<Rightarrow> bool" where
  "is_valid_specific_assets oq \<longleftrightarrow> \<not> (oq_specific_assets oq \<noteq> [] \<and> in_inputs oq ''specific_assets'')"

definition is_valid_complex_fault_mesh_spacing :: "oqparam \<Rightarrow> bool \<times> oqparam" where
  "is_valid_complex_fault_mesh_spacing oq = (True,
     if rat_truth (oq_rupture_mesh_spacing oq) \<and> \<not> rat_truth (oq_complex_fault_mesh_spacing oq)
     then oq\<lparr>oq_complex_fault_mesh_spacing := oq_rupture_mesh_spacing oq\<rparr> else oq)"

text \<open>\<open>parent_samples\<close> is the number of samples of the parent calculation.\<close>

definition is_valid_collect_rlzs :: "int \<Rightarrow> oqparam \<Rightarrow> (bool \<times> oqparam) res" where
  "is_valid_collect_rlzs parent_samples oq0 = (let
       oq = oq0\<lparr>oq_collect_rlzs := (case oq_collect_rlzs oq0 of None \<Rightarrow> Some (1 < oq_number_of_logic_tree_samples oq0) | c \<Rightarrow> c)\<rparr>;
       collect = (oq_collect_rlzs oq = Some True); n = oq_number_of_logic_tree_samples oq in
     if job_type oq = ''hazard'' then Inr (True, oq)
     else if collect \<and> oq_individual_rlzs oq = Some True then raise_invalid oq
     else if oq_calculation_mode oq = ''event_based_damage'' then
       (if \<not> rat_truth (oq_investigation_time oq) then raise_invalid oq else Inr (True, oq))
     else if \<not> collect then Inr (True, oq)
     else if hc_truth oq \<and> parent_samples \<noteq> 0 \<and> parent_samples \<noteq> n then Inl ValueError
     else if hazard_stats oq \<noteq> [] \<and> hazard_stats oq \<noteq> [''mean''] then raise_invalid oq
     else if n = 0 then Inl ValueError
     else Inr (oq_sampling_method oq = ''early_weights'', oq))"

definition is_valid_version :: "string \<Rightarrow> oqparam \<Rightarrow> bool res" where
  "is_valid_version engine oq = (case oq_minimum_engine_version oq of None \<Rightarrow> Inr True
     | Some v \<Rightarrow> if v = [] then Inr True else bindE (version engine) (\<lambda>e. Inr (v \<le> e)))"

section \<open>What the checks give\<close>

lemma raise_invalid_not_ok [simp]: "raise_invalid oq \<noteq> Inr x"
  by (simp add: raise_invalid_def)

lemma whenE_Inr [simp]: "whenE b (raise_invalid oq) = Inr u \<longleftrightarrow> \<not> b"
  by (simp add: whenE_def)

text \<open>A disaggregation that is accepted has one list of probabilities, or intensities, not both.\<close>

lemma check_disagg_parts:
  assumes "check_disagg oq = Inr oq'" "oq_calculation_mode oq = ''disaggregation''"
  shows "\<exists>oq1. unify_poes oq = Inr oq1 \<and> (oq_poes_disagg oq1 \<noteq> []) \<noteq> (oq_iml_disagg oq1 \<noteq> []) \<and>
    oq_poes oq' = oq_poes oq1 \<and> oq_poes_disagg oq' = oq_poes_disagg oq1 \<and> oq_iml_disagg oq' = oq_iml_disagg oq1"
proof -
  have "bindE (unify_poes oq) (\<lambda>oq.
     bindE (if oq_poes_disagg oq = [] \<and> oq_iml_disagg oq = [] then raise_invalid oq
            else if oq_poes_disagg oq \<noteq> [] \<and> oq_iml_disagg oq \<noteq> [] then raise_invalid oq else Inr ()) (\<lambda>_.
     bindE (whenE (oq_disagg_bin_edges oq = [] \<and> \<not> set [''mag_bin_width'', ''distance_bin_width'', ''coordinate_bin_width'',
            ''num_epsilon_bins''] \<subseteq> set (oq_vars oq)) (raise_invalid oq)) (\<lambda>_.
     let oq = (if oq_disagg_outputs oq \<noteq> [] \<and> \<not> list_ex (\<lambda>out. contains out ''Eps'') (oq_disagg_outputs oq)
               then oq\<lparr>oq_num_epsilon_bins := 1\<rparr> else oq) in
     bindE (whenE (oq_rlz_index oq \<noteq> None \<and> oq_num_rlzs_disagg oq \<noteq> 1) (raise_invalid oq)) (\<lambda>_. Inr oq)))) = Inr oq'"
    using assms unfolding check_disagg_def by (simp only: if_False simp_thms)
  then obtain oq1 where u: "unify_poes oq = Inr oq1"
    and i: "(if oq_poes_disagg oq1 = [] \<and> oq_iml_disagg oq1 = [] then raise_invalid oq1
            else if oq_poes_disagg oq1 \<noteq> [] \<and> oq_iml_disagg oq1 \<noteq> [] then raise_invalid oq1 else Inr ()) = Inr ()"
    and e: "oq' = (if oq_disagg_outputs oq1 \<noteq> [] \<and> \<not> list_ex (\<lambda>out. contains out ''Eps'') (oq_disagg_outputs oq1)
               then oq1\<lparr>oq_num_epsilon_bins := 1\<rparr> else oq1)"
    unfolding bindE_Inr_iff Let_def by auto
  have "(oq_poes_disagg oq1 \<noteq> []) \<noteq> (oq_iml_disagg oq1 \<noteq> [])" using i by (auto split: if_splits)
  moreover have "oq_poes oq' = oq_poes oq1" "oq_poes_disagg oq' = oq_poes_disagg oq1" "oq_iml_disagg oq' = oq_iml_disagg oq1"
    unfolding e by simp_all
  ultimately show ?thesis using u by blast
qed

lemma check_disagg_poes:
  assumes "check_disagg oq = Inr oq'" "oq_calculation_mode oq = ''disaggregation''"
  shows "oq_poes oq' = oq_poes_disagg oq' \<and> (oq_poes oq' \<noteq> []) \<noteq> (oq_iml_disagg oq' \<noteq> [])"
proof -
  obtain oq1 where u: "unify_poes oq = Inr oq1" and i: "(oq_poes_disagg oq1 \<noteq> []) \<noteq> (oq_iml_disagg oq1 \<noteq> [])"
    and e: "oq_poes oq' = oq_poes oq1" "oq_poes_disagg oq' = oq_poes_disagg oq1" "oq_iml_disagg oq' = oq_iml_disagg oq1"
    using check_disagg_parts [OF assms] by blast
  have "oq_poes oq1 = oq_poes_disagg oq1"
  proof (cases "oq_poes_disagg oq = [] \<and> oq_poes oq \<noteq> []")
    case True
    then have "oq1 = oq\<lparr>oq_poes_disagg := oq_poes oq\<rparr>" using u by (simp add: unify_poes_def)
    then show ?thesis by simp
  next
    case f: False
    show ?thesis
    proof (cases "oq_poes oq = [] \<and> oq_poes_disagg oq \<noteq> []")
      case True
      then have "oq1 = oq\<lparr>oq_poes := oq_poes_disagg oq\<rparr>" using u f by (simp add: unify_poes_def)
      then show ?thesis by simp
    next
      case False
      then have "(if oq_poes oq \<noteq> oq_poes_disagg oq then raise_invalid oq else Inr oq) = Inr oq1"
        using u f unfolding unify_poes_def by (simp only: if_False)
      then show ?thesis by (cases "oq_poes oq = oq_poes_disagg oq") simp_all
    qed
  qed
  then show ?thesis using i e by simp
qed

lemma check_hazard_poes:
  assumes "check_hazard oq = Inr oq'" "oq_calculation_mode oq = ''disaggregation''"
  shows "oq_poes oq' = oq_poes_disagg oq' \<and> (oq_poes oq' \<noteq> []) \<noteq> (oq_iml_disagg oq' \<noteq> [])"
proof -
  have "check_disagg oq = Inr oq'" using assms(1) unfolding check_hazard_def bindE_Inr_iff by blast
  then show ?thesis using check_disagg_poes assms(2) by blast
qed

lemma check_rtgm_iff:
  assumes "contains (oq_postproc_func oq) ''rtgm''"
  shows "check_rtgm oq = Inr () \<longleftrightarrow> (\<exists>imtls. imtls_of oq = Inr imtls \<and> has_key imtls ''SA(1.0)'')"
  using assms by (simp add: check_rtgm_def bindE_Inr_iff)

text \<open>If all the regions with a distance are in the logic tree, every region of the tree has one; a region
  with a distance that is only in the minimum magnitudes hides one that is missing.\<close>

lemma maximum_distance_complete:
  assumes "is_valid_maximum_distance oq" "in_inputs oq ''gsim_logic_tree''"
    "set (keys (oq_maximum_distance oq)) \<subseteq> insert ''default'' (set (oq_trts oq))" "t \<in> set (oq_trts oq)"
  shows "is_ok (getdefault (oq_maximum_distance oq) t)"
proof -
  let ?ks = "set (keys (oq_maximum_distance oq))"
  have "''default'' \<in> ?ks \<or> \<not> ?ks \<subset> set (oq_trts oq)"
    using assms(1,2) unfolding is_valid_maximum_distance_def Let_def by (metis (full_types))
  then have k: "''default'' \<in> ?ks \<or> t \<in> ?ks" using assms(3,4) by blast
  show ?thesis
  proof (cases "map_of (oq_maximum_distance oq) t")
    case None
    then have "t \<notin> ?ks" by (simp add: map_of_eq_None_iff)
    then have "map_of (oq_maximum_distance oq) ''default'' \<noteq> None" using k by (simp add: map_of_eq_None_iff)
    then show ?thesis using None by (auto simp: getdefault_def dict_get_def)
  qed (simp add: getdefault_def)
qed

lemma maximum_distance_gap:
  assumes "r \<in> set (keys (oq_maximum_distance oq))" "r \<notin> set (oq_trts oq)"
    "set (keys (oq_maximum_distance oq)) \<subseteq> set (oq_trts oq) \<union> set (keys (oq_minimum_magnitude oq))"
  shows "is_valid_maximum_distance oq"
  using assms unfolding is_valid_maximum_distance_def Let_def by (auto simp: psubset_eq)

lemma getdefault_missing:
  "t \<notin> set (keys d) \<Longrightarrow> ''default'' \<notin> set (keys d) \<Longrightarrow> getdefault d t = Inl KeyError"
proof -
  assume "t \<notin> set (keys d)" "''default'' \<notin> set (keys d)"
  then have "map_of d t = None" "map_of d ''default'' = None" by (simp_all add: map_of_eq_None_iff)
  then show ?thesis by (simp add: getdefault_def dict_get_def)
qed

text \<open>No legacy name is left.\<close>

lemma keys_dict_pop: "set (keys (dict_pop k d)) = set (keys d) - {k}"
  unfolding dict_pop_def by (induction d) auto

lemma alias_values: "map_of aliases k = Some v \<Longrightarrow> map_of aliases v = None"
  by (auto simp: aliases_def split: if_splits)

lemma fix_name_keys:
  assumes "fix_name d k = Inr d'" "map_of aliases a \<noteq> None" "a \<in> set (keys d')"
  shows "a \<in> set (keys d) \<and> a \<noteq> k"
proof (cases "map_of aliases k")
  case None
  then show ?thesis using assms by (auto simp: fix_name_def)
next
  case (Some new)
  obtain v where "d' = AList.update new v (dict_pop k d)"
    using assms(1) Some by (auto simp: fix_name_def bindE_Inr_iff split: if_splits)
  then have "a = new \<or> a \<in> set (keys d) - {k}"
    using assms(3) keys_dict_pop [of k d] set_keys_update [of new v "dict_pop k d"] by auto
  then show ?thesis using alias_values [OF Some] assms(2) by auto
qed

lemma fix_names_keys:
  "foldE fix_name d ks = Inr d' \<Longrightarrow> map_of aliases a \<noteq> None \<Longrightarrow> a \<in> set (keys d') \<Longrightarrow> a \<in> set (keys d) \<and> a \<notin> set ks"
proof (induction ks arbitrary: d)
  case (Cons k ks)
  obtain d1 where d1: "fix_name d k = Inr d1" "foldE fix_name d1 ks = Inr d'"
    using Cons.prems(1) by (auto simp: bindE_Inr_iff)
  have "a \<in> set (keys d1) \<and> a \<notin> set ks" using Cons.IH [OF d1(2) Cons.prems(2,3)] .
  then show ?case using fix_name_keys [OF d1(1) Cons.prems(2)] by auto
qed simp

lemma no_legacy_name: "fix_legacy_names d = Inr d' \<Longrightarrow> map_of aliases a \<noteq> None \<Longrightarrow> a \<notin> set (keys d')"
  unfolding fix_legacy_names_def using fix_names_keys by blast

end
