(* ===== verification/Starmap.thy ===== *)
theory Starmap
  imports Splitting
begin

text \<open>
  The master of the parallel tasks (\<open>Starmap\<close>, \<open>safely_call\<close>, \<open>Result\<close> and \<open>IterResult\<close> of
  openquake/baselib/parallel.py). A task is what its function does when it is called: the values and
  the subtasks it yields and how it ends. The workers are streams of messages to the socket of the
  master; the order in which the messages of different tasks arrive is free, those of one task come in
  their order. Pickling, the performance data and the logging are left out. The main lemmas say
  that the loop of the master ends whatever the order of arrival, that it has then delivered every
  value exactly once, and that the reduction of the results is the sequential one.
\<close>

section \<open>Tasks and messages\<close>

datatype 'r job = Gen "'r yld list" "pyexc option" | Ret "'r yld" | Raise pyexc
and 'r yld = Val 'r | Sub "'r job"

datatype 'r msg = MVal 'r | MSub "'r job" | MErr pyexc | MEnd

text \<open>\<open>Result.new\<close> on what the call gives; \<open>StopIteration\<close> is the end of the task.\<close>

fun result_new :: "pyexc + 'r yld \<Rightarrow> 'r msg" where
  "result_new (Inr (Val r)) = MVal r"
| "result_new (Inr (Sub j)) = MSub j"
| "result_new (Inl e) = (if e = StopIteration then MEnd else MErr e)"

text \<open>A \<open>StopIteration\<close> that leaves the body of a generator is a RuntimeError for its caller.\<close>

definition gen_error :: "pyexc \<Rightarrow> pyexc" where
  "gen_error e = (if e = StopIteration then RuntimeError else e)"

text \<open>The messages that \<open>safely_call\<close> sends back.\<close>

fun safely_call :: "'r job \<Rightarrow> 'r msg list" where
  "safely_call (Gen ys err) = map (\<lambda>y. result_new (Inr y)) ys @
     (case err of None \<Rightarrow> [] | Some e \<Rightarrow> [result_new (Inl (gen_error e))]) @ [result_new (Inl StopIteration)]"
| "safely_call (Ret y) = [result_new (Inr y), MEnd]"
| "safely_call (Raise e) = [result_new (Inl e), MEnd]"

section \<open>The master\<close>

record 'r smap =
  sm_calc :: int
  sm_ct :: nat
  sm_expected :: nat
  sm_only :: "nat option"
  sm_queue :: "'r job list"
  sm_tasks :: "nat list"
  sm_task_no :: nat
  sm_finished :: "nat list"
  sm_n_out :: nat
  sm_results :: "'r res list"
  sm_streams :: "(int \<times> nat \<times> 'r msg list) list"

text \<open>\<open>submit\<close>; \<open>sm_only\<close> is the variable \<open>OQ_TASK_NO\<close> of the environment.\<close>

definition submit :: "'r job \<Rightarrow> 'r smap \<Rightarrow> 'r smap" where
  "submit j s = (if sm_only s \<noteq> None \<and> sm_only s \<noteq> Some (sm_task_no s) then s\<lparr>sm_task_no := sm_task_no s + 1\<rparr>
     else s\<lparr>sm_streams := sm_streams s @ [(sm_calc s, sm_task_no s, safely_call j)],
       sm_tasks := sm_tasks s @ [sm_task_no s], sm_task_no := sm_task_no s + 1\<rparr>)"

definition submit_next :: "'r smap \<Rightarrow> 'r smap" where
  "submit_next s = (case sm_queue s of [] \<Rightarrow> s | j # js \<Rightarrow> submit j (s\<lparr>sm_queue := js\<rparr>))"

definition submit_many :: "nat \<Rightarrow> 'r smap \<Rightarrow> 'r smap" where
  "submit_many howmany s = (submit_next ^^ howmany) s"

text \<open>\<open>submit_all\<close>: the arguments of a generator are submitted at once, those of a list are queued. Then
  the beginning of \<open>_loop\<close>.\<close>

definition submit_all :: "bool \<Rightarrow> bool \<Rightarrow> 'r job list \<Rightarrow> 'r smap \<Rightarrow> 'r smap" where
  "submit_all lazy slurm jobs s = (if lazy \<or> slurm then fold submit jobs s else s\<lparr>sm_queue := jobs\<rparr>)"

definition loop_start :: "bool \<Rightarrow> 'r smap \<Rightarrow> 'r smap" where
  "loop_start slurm s = (if slurm then s
     else fold submit (take (sm_ct s) (sm_queue s)) (s\<lparr>sm_queue := drop (sm_ct s) (sm_queue s)\<rparr>))"

text \<open>The assertion of \<open>log_percent\<close>; the percentage is exact here.\<close>

definition log_percent :: "'r smap \<Rightarrow> int res" where
  "log_percent s = (let done = int (sm_task_no s) - int (length (sm_tasks s)) in
     if sm_expected s \<noteq> 0 then
       bindE (checkE (sm_n_out s * 100 div sm_expected s \<le> 100) AssertionError) (\<lambda>_. Inr done)
     else if sm_task_no s = 0 then Inl ZeroDivisionError
     else bindE (checkE (done * 100 div int (sm_task_no s) \<le> 100) AssertionError) (\<lambda>_. Inr done))"

text \<open>The body of the loop of \<open>_loop\<close> on a message; a result of another calculation is discarded.\<close>

definition on_message :: "int \<Rightarrow> nat \<Rightarrow> 'r msg \<Rightarrow> 'r smap \<Rightarrow> 'r smap res" where
  "on_message c t m s = bindE (log_percent s) (\<lambda>_.
     if c \<noteq> sm_calc s then Inr s
     else case m of
       MEnd \<Rightarrow> if t \<notin> set (sm_tasks s) then Inl ValueError
         else Inr (submit_many 1 (s\<lparr>sm_finished := t # sm_finished s, sm_tasks := remove1 t (sm_tasks s)\<rparr>))
     | MSub j \<Rightarrow> Inr (submit_many 1 (s\<lparr>sm_queue := sm_queue s @ [j]\<rparr>))
     | MVal r \<Rightarrow> Inr (s\<lparr>sm_n_out := sm_n_out s + 1, sm_results := sm_results s @ [Inr r]\<rparr>)
     | MErr e \<Rightarrow> Inr (s\<lparr>sm_n_out := sm_n_out s + 1, sm_results := sm_results s @ [Inl e]\<rparr>))"

text \<open>The next message of the \<open>i\<close>-th stream arrives; None when it has none.\<close>

definition deliver :: "nat \<Rightarrow> 'r smap \<Rightarrow> 'r smap res option" where
  "deliver i s = (if i < length (sm_streams s) then
     (case sm_streams s ! i of (c, t, []) \<Rightarrow> None
      | (c, t, m # ms) \<Rightarrow> Some (on_message c t m (s\<lparr>sm_streams := (sm_streams s)[i := (c, t, ms)]\<rparr>)))
     else None)"

inductive loop_step :: "'r smap \<Rightarrow> 'r smap \<Rightarrow> bool" where
  arrival: "sm_tasks s \<noteq> [] \<Longrightarrow> deliver i s = Some (Inr s') \<Longrightarrow> loop_step s s'"

inductive_cases loop_stepE: "loop_step s s'"

text \<open>The loop when the messages arrive from the streams in a given order.\<close>

fun run_loop :: "nat list \<Rightarrow> 'r smap \<Rightarrow> 'r smap res option" where
  "run_loop [] s = Some (Inr s)"
| "run_loop (i # is) s = (if sm_tasks s = [] then Some (Inr s) else case deliver i s of
     Some (Inr s') \<Rightarrow> run_loop is s' | r \<Rightarrow> r)"

section \<open>Tasks that split themselves\<close>

text \<open>
  \<open>split_task\<close>: the elements are dealt to \<open>outs_per_task\<close> slices. The function is run on one slice after
  the other; if after the \<open>slow\<close>-th the duration is exceeded, the slices left become subtasks.
\<close>

definition task_slices :: "'a list \<Rightarrow> nat \<Rightarrow> 'a list list" where
  "task_slices elements outs_per_task = (let n = length elements; k = min outs_per_task n in
     map (\<lambda>i. map ((!) elements) (filter (\<lambda>j. j mod k = i) [0..<n])) [0..<k])"

definition split_task :: "('a list \<Rightarrow> 'r) \<Rightarrow> nat option \<Rightarrow> nat \<Rightarrow> 'a list \<Rightarrow> 'r job" where
  "split_task func slow outs_per_task elements = (let sl = task_slices elements outs_per_task in
     Gen (case slow of None \<Rightarrow> map (\<lambda>els. Val (func els)) sl
       | Some i \<Rightarrow> map (\<lambda>els. Val (func els)) (take (i + 1) sl) @ map (\<lambda>els. Sub (Ret (Val (func els)))) (drop (i + 1) sl)) None)"

section \<open>The results\<close>

text \<open>\<open>Result.get\<close> and the reduction of an \<open>IterResult\<close>.\<close>

definition result_get :: "'r res \<Rightarrow> 'r res" where
  "result_get r = (case r of Inl e \<Rightarrow> Inl (if e = KeyError then RuntimeError else e) | Inr v \<Rightarrow> Inr v)"

definition iter_reduce :: "('a \<Rightarrow> 'r \<Rightarrow> 'a) \<Rightarrow> 'a \<Rightarrow> 'r res list \<Rightarrow> 'a res" where
  "iter_reduce agg acc results = foldE (\<lambda>acc r. bindE (result_get r) (\<lambda>v. Inr (agg acc v))) acc results"

text \<open>A new master.\<close>

definition new_smap :: "int \<Rightarrow> nat \<Rightarrow> nat \<Rightarrow> (int \<times> nat \<times> 'r msg list) list \<Rightarrow> 'r smap" where
  "new_smap calc ct expected foreign = \<lparr>sm_calc = calc, sm_ct = ct, sm_expected = expected, sm_only = None, sm_queue = [],
     sm_tasks = [], sm_task_no = 0, sm_finished = [], sm_n_out = 0, sm_results = [], sm_streams = foreign\<rparr>"

definition started :: "bool \<Rightarrow> bool \<Rightarrow> 'r job list \<Rightarrow> 'r smap \<Rightarrow> 'r smap" where
  "started lazy slurm jobs s = loop_start slurm (submit_all lazy slurm jobs s)"

section \<open>The values of a task\<close>

fun job_values :: "'r job \<Rightarrow> 'r res list" and yld_values :: "'r yld \<Rightarrow> 'r res list" where
  "job_values (Gen ys err) = concat (map yld_values ys) @ (case err of None \<Rightarrow> [] | Some e \<Rightarrow> [Inl (gen_error e)])"
| "job_values (Ret y) = yld_values y"
| "job_values (Raise e) = (if e = StopIteration then [] else [Inl e])"
| "yld_values (Val r) = [Inr r]"
| "yld_values (Sub j) = job_values j"

fun msg_values :: "'r msg \<Rightarrow> 'r res list" where
  "msg_values (MVal r) = [Inr r]"
| "msg_values (MSub j) = job_values j"
| "msg_values (MErr e) = [Inl e]"
| "msg_values MEnd = []"

text \<open>The number of messages of a task and of all its subtasks.\<close>

fun job_size :: "'r job \<Rightarrow> nat" and yld_size :: "'r yld \<Rightarrow> nat" where
  "job_size (Gen ys err) = sum_list (map yld_size ys) + (case err of None \<Rightarrow> 1 | Some e \<Rightarrow> 2)"
| "job_size (Ret y) = yld_size y + 1"
| "job_size (Raise e) = 2"
| "yld_size (Val r) = 1"
| "yld_size (Sub j) = job_size j + 1"

fun msg_size :: "'r msg \<Rightarrow> nat" where
  "msg_size (MSub j) = job_size j + 1"
| "msg_size _ = 1"

text \<open>Only a task whose function raises \<open>StopIteration\<close> itself sends its end twice.\<close>

fun ok_job :: "'r job \<Rightarrow> bool" and ok_yld :: "'r yld \<Rightarrow> bool" where
  "ok_job (Gen ys err) = list_all ok_yld ys"
| "ok_job (Ret y) = ok_yld y"
| "ok_job (Raise e) = (e \<noteq> StopIteration)"
| "ok_yld (Val r) = True"
| "ok_yld (Sub j) = ok_job j"

definition ok_msg :: "'r msg \<Rightarrow> bool" where
  "ok_msg m = (case m of MSub j \<Rightarrow> ok_job j | _ \<Rightarrow> True)"

lemma result_new_yld [simp]: "msg_values (result_new (Inr y)) = yld_values y" "msg_size (result_new (Inr y)) = yld_size y"
  "ok_msg (result_new (Inr y)) = ok_yld y" "result_new (Inr y) \<noteq> MEnd" "MEnd \<noteq> result_new (Inr y)"
  by (cases y; simp add: ok_msg_def)+

lemma ok_msg_simps [simp]: "ok_msg (MVal r)" "ok_msg (MErr e)" "ok_msg MEnd" "ok_msg (MSub j) = ok_job j"
  by (simp_all add: ok_msg_def)

lemma gen_error_not_stop [simp]: "gen_error e \<noteq> StopIteration"
  by (simp add: gen_error_def)

lemma call_values: "concat (map msg_values (safely_call j)) = job_values j"
  by (cases j) (auto simp: comp_def split: option.split)

lemma call_size: "sum_list (map msg_size (safely_call j)) = job_size j"
  by (cases j) (auto simp: comp_def split: option.split)

definition stream_ok :: "'r msg list \<Rightarrow> bool" where
  "stream_ok ms \<longleftrightarrow> ms \<noteq> [] \<and> last ms = MEnd \<and> MEnd \<notin> set (butlast ms) \<and> list_all ok_msg ms"

lemma call_stream: "ok_job j \<Longrightarrow> stream_ok (safely_call j)"
  by (cases j) (auto simp: stream_ok_def list_all_iff butlast_append split: option.split)

lemma stream_ok_Cons: "stream_ok (m # ms) \<longleftrightarrow> (if m = MEnd then ms = [] else ok_msg m \<and> stream_ok ms)"
  by (auto simp: stream_ok_def split: if_splits)

section \<open>Nothing is lost\<close>

definition stream_values :: "int \<Rightarrow> int \<times> nat \<times> 'r msg list \<Rightarrow> 'r res multiset" where
  "stream_values calc st = (case st of (c, t, ms) \<Rightarrow> if c = calc then mset (concat (map msg_values ms)) else {#})"

definition pending :: "'r smap \<Rightarrow> 'r res multiset" where
  "pending s = (\<Sum>st \<leftarrow> sm_streams s. stream_values (sm_calc s) st) + (\<Sum>j \<leftarrow> sm_queue s. mset (job_values j))"

definition in_flight :: "'r smap \<Rightarrow> nat" where
  "in_flight s = (\<Sum>(c, t, ms) \<leftarrow> sm_streams s. sum_list (map msg_size ms)) + sum_list (map job_size (sm_queue s))"

lemma submit_fields [simp]:
  "sm_calc (submit j s) = sm_calc s" "sm_ct (submit j s) = sm_ct s" "sm_expected (submit j s) = sm_expected s"
  "sm_only (submit j s) = sm_only s" "sm_queue (submit j s) = sm_queue s" "sm_finished (submit j s) = sm_finished s"
  "sm_n_out (submit j s) = sm_n_out s" "sm_results (submit j s) = sm_results s" "sm_task_no (submit j s) = sm_task_no s + 1"
  by (simp_all add: submit_def)

lemma submit_streams: "sm_only s = None \<Longrightarrow> sm_streams (submit j s) = sm_streams s @ [(sm_calc s, sm_task_no s, safely_call j)] \<and>
    sm_tasks (submit j s) = sm_tasks s @ [sm_task_no s]"
  by (simp add: submit_def)

lemma pending_submit: "sm_only s = None \<Longrightarrow> pending (submit j s) = pending s + mset (job_values j)"
  by (simp add: pending_def submit_streams stream_values_def call_values)

lemma in_flight_submit: "sm_only s = None \<Longrightarrow> in_flight (submit j s) = in_flight s + job_size j"
  by (simp add: in_flight_def submit_streams call_size)

lemma submit_next_pending: "sm_only s = None \<Longrightarrow> pending (submit_next s) = pending s"
proof (cases "sm_queue s")
  case (Cons j js)
  assume "sm_only s = None"
  then have "pending (submit j (s\<lparr>sm_queue := js\<rparr>)) = pending (s\<lparr>sm_queue := js\<rparr>) + mset (job_values j)"
    by (intro pending_submit) simp
  then show ?thesis using Cons by (simp add: submit_next_def pending_def ac_simps)
qed (simp add: submit_next_def)

lemma submit_next_flight: "sm_only s = None \<Longrightarrow> in_flight (submit_next s) = in_flight s"
proof (cases "sm_queue s")
  case (Cons j js)
  assume "sm_only s = None"
  then have "in_flight (submit j (s\<lparr>sm_queue := js\<rparr>)) = in_flight (s\<lparr>sm_queue := js\<rparr>) + job_size j"
    by (intro in_flight_submit) simp
  then show ?thesis using Cons by (simp add: submit_next_def in_flight_def)
qed (simp add: submit_next_def)

lemma submit_next_fields [simp]:
  "sm_calc (submit_next s) = sm_calc s" "sm_ct (submit_next s) = sm_ct s" "sm_expected (submit_next s) = sm_expected s"
  "sm_only (submit_next s) = sm_only s" "sm_finished (submit_next s) = sm_finished s" "sm_n_out (submit_next s) = sm_n_out s"
  "sm_results (submit_next s) = sm_results s" "sm_queue (submit_next s) = tl (sm_queue s)"
  by (auto simp: submit_next_def split: list.split)

section \<open>A step of the loop\<close>

lemma deliver_cases:
  assumes "deliver i s = Some r"
  obtains pre c t m ms post where "sm_streams s = pre @ (c, t, m # ms) # post" "length pre = i"
    "r = on_message c t m (s\<lparr>sm_streams := pre @ (c, t, ms) # post\<rparr>)"
proof -
  have i: "i < length (sm_streams s)" using assms by (auto simp: deliver_def split: if_splits)
  obtain c t m ms where n: "sm_streams s ! i = (c, t, m # ms)"
    "r = on_message c t m (s\<lparr>sm_streams := (sm_streams s)[i := (c, t, ms)]\<rparr>)"
    using assms i by (auto simp: deliver_def split: prod.splits list.splits)
  have "sm_streams s = take i (sm_streams s) @ (c, t, m # ms) # drop (Suc i) (sm_streams s)"
    using id_take_nth_drop [OF i] n(1) by simp
  moreover have "r = on_message c t m (s\<lparr>sm_streams := take i (sm_streams s) @ (c, t, ms) # drop (Suc i) (sm_streams s)\<rparr>)"
    using n(2) upd_conv_take_nth_drop [OF i] by simp
  ultimately show ?thesis using i by (intro that) simp_all
qed

lemma deliver_at: "sm_streams s = pre @ (c, t, m # ms) # post \<Longrightarrow>
    deliver (length pre) s = Some (on_message c t m (s\<lparr>sm_streams := pre @ (c, t, ms) # post\<rparr>))"
  by (simp add: deliver_def)

lemma submit_many_1 [simp]: "submit_many (Suc 0) s = submit_next s"
  by (simp add: submit_many_def)

lemma on_message_cases:
  assumes "on_message c t m s = Inr s'"
  obtains (foreign) "c \<noteq> sm_calc s" "s' = s"
  | (ended) "c = sm_calc s" "m = MEnd" "t \<in> set (sm_tasks s)"
      "s' = submit_next (s\<lparr>sm_finished := t # sm_finished s, sm_tasks := remove1 t (sm_tasks s)\<rparr>)"
  | (subtask) j where "c = sm_calc s" "m = MSub j" "s' = submit_next (s\<lparr>sm_queue := sm_queue s @ [j]\<rparr>)"
  | (result) v where "c = sm_calc s" "msg_values m = [v]" "m \<noteq> MEnd" "ok_msg m" "msg_size m = 1"
      "s' = s\<lparr>sm_n_out := sm_n_out s + 1, sm_results := sm_results s @ [v]\<rparr>"
proof (cases "c = sm_calc s")
  case False
  then have "s' = s" using assms by (simp add: on_message_def bindE_Inr_iff)
  with False show ?thesis by (rule foreign)
next
  case True
  show ?thesis
  proof (cases m)
    case MEnd
    then have "t \<in> set (sm_tasks s)" "s' = submit_next (s\<lparr>sm_finished := t # sm_finished s, sm_tasks := remove1 t (sm_tasks s)\<rparr>)"
      using assms True by (simp_all add: on_message_def bindE_Inr_iff split: if_splits)
    with True MEnd show ?thesis by (intro ended)
  next
    case (MSub j)
    then have "s' = submit_next (s\<lparr>sm_queue := sm_queue s @ [j]\<rparr>)"
      using assms True by (simp add: on_message_def bindE_Inr_iff)
    with True MSub show ?thesis by (rule subtask)
  next
    case (MVal r)
    then have "s' = s\<lparr>sm_n_out := sm_n_out s + 1, sm_results := sm_results s @ [Inr r]\<rparr>"
      using assms True by (simp add: on_message_def bindE_Inr_iff)
    with True MVal show ?thesis by (intro result [of "Inr r"]) simp_all
  next
    case (MErr e)
    then have "s' = s\<lparr>sm_n_out := sm_n_out s + 1, sm_results := sm_results s @ [Inl e]\<rparr>"
      using assms True by (simp add: on_message_def bindE_Inr_iff)
    with True MErr show ?thesis by (intro result [of "Inl e"]) simp_all
  qed
qed

lemma pending_pop: "sm_streams s = pre @ (c, t, m # ms) # post \<Longrightarrow>
    pending s = pending (s\<lparr>sm_streams := pre @ (c, t, ms) # post\<rparr>) + (if c = sm_calc s then mset (msg_values m) else {#})"
  by (simp add: pending_def stream_values_def ac_simps)

lemma in_flight_pop: "sm_streams s = pre @ (c, t, m # ms) # post \<Longrightarrow>
    in_flight s = in_flight (s\<lparr>sm_streams := pre @ (c, t, ms) # post\<rparr>) + msg_size m"
  by (simp add: in_flight_def)

lemma msg_size_pos [simp]: "0 < msg_size m" "msg_size m \<noteq> 0"
  by (cases m; simp)+

text \<open>What a step keeps, and that it consumes a message.\<close>

lemma loop_step_facts:
  assumes "loop_step s s'" "sm_only s = None"
  shows "mset (sm_results s') + pending s' = mset (sm_results s) + pending s" and "in_flight s' < in_flight s"
    and "sm_only s' = None" and "sm_calc s' = sm_calc s" and "sm_expected s' = sm_expected s"
    and "sm_n_out s = length (sm_results s) \<Longrightarrow> sm_n_out s' = length (sm_results s')"
proof -
  obtain i where "deliver i s = Some (Inr s')" using assms(1) by (auto elim: loop_stepE)
  then obtain pre c t m ms post where st: "sm_streams s = pre @ (c, t, m # ms) # post"
    and om: "on_message c t m (s\<lparr>sm_streams := pre @ (c, t, ms) # post\<rparr>) = Inr s'"
    by (auto elim: deliver_cases)
  let ?s = "s\<lparr>sm_streams := pre @ (c, t, ms) # post\<rparr>"
  note pp = pending_pop [OF st] and fp = in_flight_pop [OF st]
  have o: "sm_only ?s = None" using assms(2) by simp
  show "mset (sm_results s') + pending s' = mset (sm_results s) + pending s"
    using om
  proof (cases rule: on_message_cases)
    case ended
    let ?e = "?s\<lparr>sm_finished := t # sm_finished ?s, sm_tasks := remove1 t (sm_tasks ?s)\<rparr>"
    have "pending s' = pending ?e" unfolding ended(4) by (rule submit_next_pending) (simp add: assms(2))
    then show ?thesis using ended pp by (simp add: pending_def)
  next
    case (subtask j)
    let ?e = "?s\<lparr>sm_queue := sm_queue ?s @ [j]\<rparr>"
    have "pending s' = pending ?e" unfolding subtask(3) by (rule submit_next_pending) (simp add: assms(2))
    then show ?thesis using subtask pp by (simp add: pending_def ac_simps)
  qed (use pp in \<open>simp_all add: pending_def ac_simps\<close>)
  show "in_flight s' < in_flight s"
    using om
  proof (cases rule: on_message_cases)
    case ended
    let ?e = "?s\<lparr>sm_finished := t # sm_finished ?s, sm_tasks := remove1 t (sm_tasks ?s)\<rparr>"
    have "in_flight s' = in_flight ?e" unfolding ended(4) by (rule submit_next_flight) (simp add: assms(2))
    then show ?thesis using ended fp by (simp add: in_flight_def)
  next
    case (subtask j)
    let ?e = "?s\<lparr>sm_queue := sm_queue ?s @ [j]\<rparr>"
    have "in_flight s' = in_flight ?e" unfolding subtask(3) by (rule submit_next_flight) (simp add: assms(2))
    then show ?thesis using subtask fp by (simp add: in_flight_def)
  qed (use fp in \<open>simp_all add: in_flight_def\<close>)
  show "sm_only s' = None" "sm_calc s' = sm_calc s" "sm_expected s' = sm_expected s"
    using om assms(2) by (cases rule: on_message_cases; simp)+
  show "sm_n_out s' = length (sm_results s')" if "sm_n_out s = length (sm_results s)"
    using om that by (cases rule: on_message_cases) simp_all
qed

section \<open>The invariant of the master\<close>

text \<open>Every running task has one stream, that ends with its end; a task that is not running has nothing to send.\<close>

definition own_nos :: "'r smap \<Rightarrow> nat list" where
  "own_nos s = map (\<lambda>(c, t, ms). t) (filter (\<lambda>(c, t, ms). c = sm_calc s) (sm_streams s))"

definition streams_ok :: "'r smap \<Rightarrow> bool" where
  "streams_ok s \<longleftrightarrow> (\<forall>(c, t, ms) \<in> set (sm_streams s). c = sm_calc s \<longrightarrow>
     t < sm_task_no s \<and> (if t \<in> set (sm_tasks s) then stream_ok ms else ms = []))"

definition core_ok :: "'r smap \<Rightarrow> bool" where
  "core_ok s \<longleftrightarrow> distinct (own_nos s) \<and> streams_ok s \<and> distinct (sm_tasks s) \<and> set (sm_tasks s) \<subseteq> set (own_nos s) \<and>
     list_all ok_job (sm_queue s) \<and> sm_only s = None"

definition master_ok :: "'r smap \<Rightarrow> bool" where
  "master_ok s \<longleftrightarrow> core_ok s \<and> (sm_queue s \<noteq> [] \<longrightarrow> sm_tasks s \<noteq> [])"

lemma streams_okI:
  "(\<And>t ms. (sm_calc s, t, ms) \<in> set (sm_streams s) \<Longrightarrow>
     t < sm_task_no s \<and> (if t \<in> set (sm_tasks s) then stream_ok ms else ms = [])) \<Longrightarrow> streams_ok s"
  by (auto simp only: streams_ok_def)

lemma own_nos_below: "streams_ok s \<Longrightarrow> t \<in> set (own_nos s) \<Longrightarrow> t < sm_task_no s"
  by (auto simp: own_nos_def streams_ok_def)

lemma own_nos_submit: "sm_only s = None \<Longrightarrow> own_nos (submit j s) = own_nos s @ [sm_task_no s]"
  by (simp add: own_nos_def submit_streams)

lemma streams_ok_submit:
  assumes "core_ok s" "ok_job j" shows "streams_ok (submit j s)"
proof -
  have o: "sm_only s = None" using assms(1) by (simp add: core_ok_def)
  have "t < sm_task_no (submit j s) \<and> (if t \<in> set (sm_tasks (submit j s)) then stream_ok ms else ms = [])"
    if m: "(sm_calc s, t, ms) \<in> set (sm_streams (submit j s))" for t ms
  proof (cases "(sm_calc s, t, ms) \<in> set (sm_streams s)")
    case True
    then have "t < sm_task_no s \<and> (if t \<in> set (sm_tasks s) then stream_ok ms else ms = [])"
      using assms(1) by (auto simp: core_ok_def streams_ok_def)
    then show ?thesis using o by (auto simp: submit_streams)
  next
    case False
    then have "t = sm_task_no s" "ms = safely_call j" using m o by (simp_all add: submit_streams)
    then show ?thesis using o call_stream [OF assms(2)] by (simp add: submit_streams)
  qed
  then show ?thesis by (intro streams_okI) simp
qed

lemma core_submit:
  assumes "core_ok s" "ok_job j" shows "core_ok (submit j s)"
proof -
  have o: "sm_only s = None" and below: "\<And>t. t \<in> set (own_nos s) \<Longrightarrow> t < sm_task_no s"
    and d: "distinct (own_nos s)" "distinct (sm_tasks s)" "set (sm_tasks s) \<subseteq> set (own_nos s)" "list_all ok_job (sm_queue s)"
    using assms(1) own_nos_below by (auto simp: core_ok_def)
  have "sm_task_no s \<notin> set (own_nos s)" using below by blast
  then show ?thesis using d o streams_ok_submit [OF assms]
    by (auto simp: core_ok_def own_nos_submit [OF o] submit_streams [OF o])
qed

lemma core_cong: "own_nos s' = own_nos s \<Longrightarrow> streams_ok s' = streams_ok s \<Longrightarrow> sm_tasks s' = sm_tasks s \<Longrightarrow>
    list_all ok_job (sm_queue s') \<Longrightarrow> sm_only s' = sm_only s \<Longrightarrow> core_ok s \<Longrightarrow> core_ok s'"
  by (simp add: core_ok_def)

lemma core_queue: "core_ok s \<Longrightarrow> list_all ok_job q \<Longrightarrow> core_ok (s\<lparr>sm_queue := q\<rparr>)"
  by (rule core_cong [of _ s]) (simp_all add: own_nos_def streams_ok_def)

lemma submit_tasks: "sm_only s = None \<Longrightarrow> sm_tasks (submit j s) = sm_tasks s @ [sm_task_no s]"
  by (simp add: submit_streams)

lemma submit_next_ok:
  assumes "core_ok s" shows "master_ok (submit_next s)"
proof (cases "sm_queue s")
  case Nil
  then show ?thesis using assms by (simp add: submit_next_def master_ok_def)
next
  case (Cons j js)
  have j: "ok_job j" "list_all ok_job js" using assms Cons by (simp_all add: core_ok_def)
  have o: "sm_only (s\<lparr>sm_queue := js\<rparr>) = None" using assms by (simp add: core_ok_def)
  have "core_ok (submit j (s\<lparr>sm_queue := js\<rparr>))" by (intro core_submit core_queue assms j)
  then show ?thesis using submit_tasks [OF o, of j] Cons by (simp add: submit_next_def master_ok_def)
qed

lemma own_nos_pop [simp]: "sm_streams s = pre @ (c, t, m # ms) # post \<Longrightarrow> own_nos (s\<lparr>sm_streams := pre @ (c, t, ms) # post\<rparr>) = own_nos s"
  by (simp add: own_nos_def)

lemma popped_stream:
  assumes "core_ok s" "sm_streams s = pre @ (sm_calc s, t, m # ms) # post"
  shows "t \<in> set (sm_tasks s)" and "stream_ok (m # ms)" and "t < sm_task_no s"
    and "\<And>ms'. (sm_calc s, t, ms') \<notin> set (pre @ post)"
proof -
  have "t < sm_task_no s \<and> (if t \<in> set (sm_tasks s) then stream_ok (m # ms) else m # ms = [])"
    using assms by (auto simp: core_ok_def streams_ok_def)
  then show "t \<in> set (sm_tasks s)" "stream_ok (m # ms)" "t < sm_task_no s" by (auto split: if_splits)
  let ?nos = "\<lambda>l. map (\<lambda>(c, t, ms). t) (filter (\<lambda>(c, t, ms). c = sm_calc s) l)"
  have "own_nos s = ?nos pre @ t # ?nos post" using assms(2) by (simp add: own_nos_def)
  then have "t \<notin> set (?nos pre) \<union> set (?nos post)" using assms(1) by (auto simp: core_ok_def)
  moreover have "t \<in> set (?nos l)" if "(sm_calc s, t, ms') \<in> set l" for l and ms' :: "'a msg list"
    using that by (induction l) auto
  ultimately show "(sm_calc s, t, ms') \<notin> set (pre @ post)" for ms' by (metis UnCI UnE set_append)
qed

lemma core_pop_foreign:
  assumes "core_ok s" "sm_streams s = pre @ (c, t, m # ms) # post" "c \<noteq> sm_calc s"
  shows "core_ok (s\<lparr>sm_streams := pre @ (c, t, ms) # post\<rparr>)"
proof (rule core_cong [OF _ _ _ _ _ assms(1)])
  show "streams_ok (s\<lparr>sm_streams := pre @ (c, t, ms) # post\<rparr>) = streams_ok s"
    using assms(2,3) by (simp add: streams_ok_def)
  show "list_all ok_job (sm_queue (s\<lparr>sm_streams := pre @ (c, t, ms) # post\<rparr>))" using assms(1) by (simp add: core_ok_def)
qed (simp_all add: assms(2))

lemma core_pop:
  assumes "core_ok s" "sm_streams s = pre @ (sm_calc s, t, m # ms) # post" "m \<noteq> MEnd"
  shows "core_ok (s\<lparr>sm_streams := pre @ (sm_calc s, t, ms) # post\<rparr>)"
proof (rule core_cong [OF _ _ _ _ _ assms(1)])
  have "stream_ok ms" using popped_stream(2) [OF assms(1,2)] assms(3) by (simp add: stream_ok_Cons)
  moreover have "t \<in> set (sm_tasks s)" "t < sm_task_no s" using popped_stream [OF assms(1,2)] by blast+
  moreover have so: "streams_ok s" using assms(1) by (simp add: core_ok_def)
  ultimately show "streams_ok (s\<lparr>sm_streams := pre @ (sm_calc s, t, ms) # post\<rparr>) = streams_ok s"
    using assms(2) by (auto simp: streams_ok_def)
  show "list_all ok_job (sm_queue (s\<lparr>sm_streams := pre @ (sm_calc s, t, ms) # post\<rparr>))" using assms(1) by (simp add: core_ok_def)
qed (simp_all add: assms(2))

lemma core_pop_end:
  assumes "core_ok s" "sm_streams s = pre @ (sm_calc s, t, MEnd # ms) # post"
  shows "core_ok (s\<lparr>sm_streams := pre @ (sm_calc s, t, ms) # post, sm_finished := fs, sm_tasks := remove1 t (sm_tasks s)\<rparr>)"
    (is "core_ok ?e")
proof -
  note ps = popped_stream [OF assms]
  have ms: "ms = []" using ps(2) by (simp add: stream_ok_Cons)
  have d: "distinct (own_nos s)" "distinct (sm_tasks s)" "set (sm_tasks s) \<subseteq> set (own_nos s)" "list_all ok_job (sm_queue s)"
    "sm_only s = None" and so: "streams_ok s" using assms(1) by (simp_all add: core_ok_def)
  have own: "own_nos ?e = own_nos s" using assms(2) by (simp add: own_nos_def)
  have "t' < sm_task_no s \<and> (if t' \<in> set (remove1 t (sm_tasks s)) then stream_ok ms' else ms' = [])"
    if "(sm_calc s, t', ms') \<in> set (pre @ (sm_calc s, t, ms) # post)" for t' ms'
  proof (cases "t' = t")
    case True
    then have "ms' = ms" using that ps(4) by auto
    then show ?thesis using True ms ps(3) d(2) by simp
  next
    case False
    then have "(sm_calc s, t', ms') \<in> set (sm_streams s)" using that assms(2) by auto
    then show ?thesis using so False by (auto simp: streams_ok_def)
  qed
  then have "streams_ok ?e" by (intro streams_okI) simp
  then show ?thesis using d own set_remove1_subset [of t "sm_tasks s"] by (auto simp: core_ok_def)
qed

lemma loop_step_ok:
  assumes "loop_step s s'" "master_ok s" shows "master_ok s'"
proof -
  have core: "core_ok s" and busy: "sm_tasks s \<noteq> []" using assms by (auto simp: master_ok_def elim: loop_stepE)
  obtain i where "deliver i s = Some (Inr s')" using assms(1) by (auto elim: loop_stepE)
  then obtain pre c t m ms post where st: "sm_streams s = pre @ (c, t, m # ms) # post"
    and om: "on_message c t m (s\<lparr>sm_streams := pre @ (c, t, ms) # post\<rparr>) = Inr s'"
    by (auto elim: deliver_cases)
  show ?thesis
    using om
  proof (cases rule: on_message_cases)
    case foreign
    then show ?thesis using core_pop_foreign [OF core st] busy by (simp add: master_ok_def)
  next
    case ended
    then have st': "sm_streams s = pre @ (sm_calc s, t, MEnd # ms) # post" using st by simp
    show ?thesis using submit_next_ok [OF core_pop_end [OF core st', of "t # sm_finished s"]] ended by simp
  next
    case (subtask j)
    then have st': "sm_streams s = pre @ (sm_calc s, t, MSub j # ms) # post" using st by simp
    have "ok_job j" using popped_stream(2) [OF core st'] by (simp add: stream_ok_Cons)
    moreover have "list_all ok_job (sm_queue s)" using core by (simp add: core_ok_def)
    ultimately have "list_all ok_job (sm_queue s @ [j])" by simp
    from core_queue [OF core_pop [OF core st'] this] show ?thesis using submit_next_ok subtask by auto
  next
    case (result v)
    then have st': "sm_streams s = pre @ (sm_calc s, t, m # ms) # post" using st by simp
    have "core_ok s'"
      by (rule core_cong [OF _ _ _ _ _ core_pop [OF core st' result(3)]])
        (use result core in \<open>simp_all add: own_nos_def streams_ok_def core_ok_def\<close>)
    then show ?thesis using busy result by (simp add: master_ok_def)
  qed
qed

section \<open>The loop ends\<close>

definition expected_ok :: "'r smap \<Rightarrow> bool" where
  "expected_ok s \<longleftrightarrow> sm_n_out s = length (sm_results s) \<and>
     (sm_expected s = 0 \<or> length (sm_results s) + size (pending s) \<le> sm_expected s)"

lemma log_percent_ok:
  assumes "expected_ok s" "0 < sm_task_no s" shows "is_ok (log_percent s)"
proof (cases "sm_expected s = 0")
  case True
  let ?d = "int (sm_task_no s) - int (length (sm_tasks s))"
  have "?d * 100 \<le> int (sm_task_no s) * 100" by simp
  then have "?d * 100 div int (sm_task_no s) \<le> int (sm_task_no s) * 100 div int (sm_task_no s)" by (rule zdiv_mono1) (use assms(2) in simp)
  also have "\<dots> = 100" using assms(2) by simp
  finally show ?thesis using True assms(2) by (simp add: log_percent_def Let_def)
next
  case False
  then have "sm_n_out s * 100 \<le> sm_expected s * 100" using assms(1) by (simp add: expected_ok_def)
  then have "sm_n_out s * 100 div sm_expected s \<le> sm_expected s * 100 div sm_expected s" by (rule div_le_mono)
  then show ?thesis using False by (simp add: log_percent_def Let_def)
qed

lemma loop_step_expected: "loop_step s s' \<Longrightarrow> sm_only s = None \<Longrightarrow> expected_ok s \<Longrightarrow> expected_ok s'"
proof -
  assume a: "loop_step s s'" "sm_only s = None" "expected_ok s"
  note f = loop_step_facts [OF a(1,2)]
  have "size (mset (sm_results s') + pending s') = size (mset (sm_results s) + pending s)" by (simp only: f(1))
  then show ?thesis using a(3) f(5,6) by (simp add: expected_ok_def)
qed

text \<open>As long as a task runs, a message arrives.\<close>

lemma loop_progress:
  assumes "master_ok s" "expected_ok s" "sm_tasks s \<noteq> []"
  shows "\<exists>s'. loop_step s s'"
proof -
  obtain t where t: "t \<in> set (sm_tasks s)" using assms(3) by (cases "sm_tasks s") auto
  have core: "core_ok s" using assms(1) by (simp add: master_ok_def)
  then have "t \<in> set (own_nos s)" using t by (auto simp: core_ok_def)
  then obtain ms0 where m0: "(sm_calc s, t, ms0) \<in> set (sm_streams s)" by (auto simp: own_nos_def)
  then have "stream_ok ms0" "t < sm_task_no s" using core t by (auto simp: core_ok_def streams_ok_def)
  then obtain m ms where m: "ms0 = m # ms" by (cases ms0) (auto simp: stream_ok_def)
  obtain pre post where st: "sm_streams s = pre @ (sm_calc s, t, m # ms) # post"
    using m0 unfolding m by (meson split_list)
  let ?s = "s\<lparr>sm_streams := pre @ (sm_calc s, t, ms) # post\<rparr>"
  have "log_percent ?s = log_percent s" by (simp add: log_percent_def Let_def)
  then have "is_ok (log_percent ?s)" using log_percent_ok [OF assms(2)] \<open>t < sm_task_no s\<close> by simp
  then obtain d where "log_percent ?s = Inr d" unfolding is_ok_iff by blast
  then have "\<exists>s'. on_message (sm_calc s) t m ?s = Inr s'" using t by (cases m) (simp_all add: on_message_def)
  then show ?thesis using deliver_at [OF st] assms(3) by (metis loop_step.arrival)
qed

lemma loop_reach:
  assumes "loop_step\<^sup>*\<^sup>* s s'" "master_ok s" "expected_ok s"
  shows "master_ok s' \<and> expected_ok s' \<and> mset (sm_results s') + pending s' = mset (sm_results s) + pending s"
  using assms
proof (induction rule: rtranclp_induct)
  case (step y z)
  then have y: "master_ok y" "expected_ok y" "mset (sm_results y) + pending y = mset (sm_results s) + pending s" by blast+
  have o: "sm_only y = None" using y(1) by (simp add: master_ok_def core_ok_def)
  show ?case using loop_step_ok [OF step(2) y(1)] loop_step_expected [OF step(2) o y(2)] loop_step_facts(1) [OF step(2) o] y(3)
    by simp
qed simp

text \<open>When no task runs any more, nothing is pending.\<close>

lemma loop_end:
  assumes "master_ok s" "sm_tasks s = []"
  shows "sm_queue s = []" and "pending s = {#}"
proof -
  show q: "sm_queue s = []" using assms by (auto simp: master_ok_def)
  have "stream_values (sm_calc s) st = {#}" if "st \<in> set (sm_streams s)" for st
    using that assms by (fastforce simp: master_ok_def core_ok_def streams_ok_def stream_values_def split: if_splits prod.splits)
  moreover have "sum_list (map f l) = {#}" if "\<And>x. x \<in> set l \<Longrightarrow> f x = {#}" for f :: "int \<times> nat \<times> 'a msg list \<Rightarrow> 'a res multiset" and l
    using that by (induction l) simp_all
  ultimately have "(\<Sum>st \<leftarrow> sm_streams s. stream_values (sm_calc s) st) = {#}" by blast
  then show "pending s = {#}" using q by (simp only: pending_def) simp
qed

lemma loop_terminates: "wfP (\<lambda>s' s. loop_step s s' \<and> sm_only s = None)"
proof -
  have "wf (measure in_flight)" by simp
  moreover have "{(s', s). loop_step s s' \<and> sm_only s = None} \<subseteq> measure in_flight" using loop_step_facts(2) by fastforce
  ultimately show ?thesis unfolding wfp_def by (rule wf_subset)
qed

lemma loop_finishes:
  "master_ok s \<Longrightarrow> expected_ok s \<Longrightarrow> \<exists>s'. loop_step\<^sup>*\<^sup>* s s' \<and> sm_tasks s' = []"
proof (induction "in_flight s" arbitrary: s rule: less_induct)
  case less
  show ?case
  proof (cases "sm_tasks s = []")
    case False
    obtain s1 where s1: "loop_step s s1" using loop_progress [OF less.prems False] by blast
    have o: "sm_only s = None" using less.prems(1) by (simp add: master_ok_def core_ok_def)
    from less.hyps [OF loop_step_facts(2) [OF s1 o] loop_step_ok [OF s1 less.prems(1)] loop_step_expected [OF s1 o less.prems(2)]]
    show ?thesis using s1 by (meson converse_rtranclp_into_rtranclp)
  qed blast
qed

section \<open>From the start to the results\<close>

definition foreign_only :: "int \<Rightarrow> (int \<times> nat \<times> 'r msg list) list \<Rightarrow> bool" where
  "foreign_only calc foreign \<longleftrightarrow> list_all (\<lambda>(c, t, ms). c \<noteq> calc) foreign"

lemma new_smap_ok:
  assumes "foreign_only calc foreign"
  shows "core_ok (new_smap calc ct expected foreign)" and "pending (new_smap calc ct expected foreign) = {#}"
proof -
  have "filter (\<lambda>(c, t, ms). c = calc) foreign = []"
    using assms by (auto simp: foreign_only_def filter_empty_conv list_all_iff)
  moreover have "streams_ok (new_smap calc ct expected foreign)"
    using assms by (intro streams_okI) (auto simp: new_smap_def foreign_only_def list_all_iff)
  ultimately show "core_ok (new_smap calc ct expected foreign)" by (simp add: core_ok_def own_nos_def new_smap_def)
  show "pending (new_smap calc ct expected foreign) = {#}"
    using assms by (induction foreign) (auto simp: pending_def new_smap_def stream_values_def foreign_only_def)
qed

lemma fold_submit_fields [simp]:
  "sm_calc (fold submit js s) = sm_calc s" "sm_ct (fold submit js s) = sm_ct s" "sm_expected (fold submit js s) = sm_expected s"
  "sm_only (fold submit js s) = sm_only s" "sm_queue (fold submit js s) = sm_queue s"
  "sm_n_out (fold submit js s) = sm_n_out s" "sm_results (fold submit js s) = sm_results s"
  by (induction js arbitrary: s) simp_all

lemma fold_submit_ok:
  assumes "core_ok s" "list_all ok_job js"
  shows "core_ok (fold submit js s)" and "pending (fold submit js s) = pending s + mset (concat (map job_values js))"
    and "js \<noteq> [] \<Longrightarrow> sm_tasks (fold submit js s) \<noteq> []"
proof -
  have "core_ok (fold submit js s) \<and> pending (fold submit js s) = pending s + mset (concat (map job_values js)) \<and>
    length (sm_tasks (fold submit js s)) = length (sm_tasks s) + length js"
    using assms
  proof (induction js arbitrary: s)
    case (Cons j js)
    have o: "sm_only s = None" using Cons.prems(1) by (simp add: core_ok_def)
    have j: "ok_job j" "list_all ok_job js" using Cons.prems(2) by simp_all
    show ?case using Cons.IH [OF core_submit [OF Cons.prems(1) j(1)] j(2)]
      by (simp add: pending_submit [OF o] submit_tasks [OF o] ac_simps)
  qed simp
  then show "core_ok (fold submit js s)" "pending (fold submit js s) = pending s + mset (concat (map job_values js))"
    "js \<noteq> [] \<Longrightarrow> sm_tasks (fold submit js s) \<noteq> []"
    by (auto dest: arg_cong [of _ "[]" length])
qed

lemma mset_job_values: "(\<Sum>j \<leftarrow> js. mset (job_values j)) = mset (concat (map job_values js))"
  by (induction js) simp_all

lemma started_facts:
  assumes "list_all ok_job jobs" "0 < ct" "foreign_only calc foreign"
  shows "master_ok (started lazy slurm jobs (new_smap calc ct expected foreign))"
    and "pending (started lazy slurm jobs (new_smap calc ct expected foreign)) = mset (concat (map job_values jobs))"
    and "sm_results (started lazy slurm jobs (new_smap calc ct expected foreign)) = []"
    and "sm_n_out (started lazy slurm jobs (new_smap calc ct expected foreign)) = 0"
    and "sm_expected (started lazy slurm jobs (new_smap calc ct expected foreign)) = expected"
proof -
  let ?n = "new_smap calc ct expected foreign"
  have core: "core_ok ?n" and pend: "pending ?n = {#}" using new_smap_ok [OF assms(3)] .
  have f: "sm_results ?n = []" "sm_n_out ?n = 0" "sm_expected ?n = expected" "sm_queue ?n = []" "sm_ct ?n = ct" "sm_tasks ?n = []"
    by (simp_all add: new_smap_def)
  let ?Q = "\<lambda>s. master_ok s \<and> pending s = mset (concat (map job_values jobs)) \<and> sm_results s = [] \<and> sm_n_out s = 0 \<and> sm_expected s = expected"
  have "?Q (started lazy slurm jobs ?n)"
  proof (cases "lazy \<or> slurm")
    case True
    let ?s = "fold submit jobs ?n"
    note ok = fold_submit_ok [OF core assms(1)]
    have "?Q ?s" using ok pend f by (simp add: master_ok_def)
    moreover have "loop_start slurm ?s = ?s" using f by (simp add: loop_start_def)
    ultimately show ?thesis using True by (simp add: started_def submit_all_def)
  next
    case False
    let ?t = "take ct jobs" and ?d = "drop ct jobs"
    have l: "list_all ok_job ?t" "list_all ok_job ?d" using assms(1) by (auto simp: list_all_iff dest: in_set_takeD in_set_dropD)
    have c1: "core_ok (?n\<lparr>sm_queue := ?d\<rparr>)" by (rule core_queue [OF core l(2)])
    have p1: "pending (?n\<lparr>sm_queue := ?d\<rparr>) = mset (concat (map job_values ?d))"
      using pend f by (simp add: pending_def mset_job_values)
    note ok = fold_submit_ok [OF c1 l(1)]
    have "mset (concat (map job_values ?d)) + mset (concat (map job_values ?t)) = mset (concat (map job_values jobs))"
      by (metis append_take_drop_id concat_append map_append mset_append union_commute)
    moreover have "?d \<noteq> [] \<Longrightarrow> ?t \<noteq> []" using assms(2) by auto
    ultimately have "?Q (fold submit ?t (?n\<lparr>sm_queue := ?d\<rparr>))" using ok p1 f by (simp add: master_ok_def)
    moreover have "?n\<lparr>sm_queue := jobs, sm_queue := ?d\<rparr> = ?n\<lparr>sm_queue := ?d\<rparr>" by simp
    ultimately show ?thesis using False f by (simp add: started_def submit_all_def loop_start_def)
  qed
  then show "master_ok (started lazy slurm jobs ?n)" "pending (started lazy slurm jobs ?n) = mset (concat (map job_values jobs))"
    "sm_results (started lazy slurm jobs ?n) = []" "sm_n_out (started lazy slurm jobs ?n) = 0"
    "sm_expected (started lazy slurm jobs ?n) = expected" by blast+
qed

lemma started_expected:
  assumes "list_all ok_job jobs" "0 < ct" "foreign_only calc foreign" "expected = 0 \<or> length (concat (map job_values jobs)) \<le> expected"
  shows "expected_ok (started lazy slurm jobs (new_smap calc ct expected foreign))"
  using started_facts [OF assms(1-3), of lazy slurm expected] assms(4) by (simp add: expected_ok_def)

lemma starmap_complete:
  assumes "list_all ok_job jobs" "0 < ct" "foreign_only calc foreign" "expected = 0 \<or> length (concat (map job_values jobs)) \<le> expected"
    "loop_step\<^sup>*\<^sup>* (started lazy slurm jobs (new_smap calc ct expected foreign)) s" "sm_tasks s = []"
  shows "sm_queue s = []" and "mset (sm_results s) = mset (concat (map job_values jobs))"
proof -
  note st = started_facts [OF assms(1-3), of lazy slurm expected]
  note r = loop_reach [OF assms(5) st(1) started_expected [OF assms(1-4)]]
  show "sm_queue s = []" using loop_end(1) r assms(6) by blast
  show "mset (sm_results s) = mset (concat (map job_values jobs))" using loop_end(2) [of s] r assms(6) st by simp
qed

lemma run_loop_steps: "run_loop is s = Some (Inr s') \<Longrightarrow> loop_step\<^sup>*\<^sup>* s s'"
proof (induction "is" s rule: run_loop.induct)
  case (2 i "is" s)
  show ?case
  proof (cases "sm_tasks s = []")
    case False
    then obtain s1 where s1: "deliver i s = Some (Inr s1)" "run_loop is s1 = Some (Inr s')"
      using "2.prems" by (auto split: option.splits sum.splits)
    have "loop_step s s1" using False s1(1) by (rule loop_step.arrival)
    then show ?thesis using "2.IH" [OF False s1(1) refl s1(2)] by (rule converse_rtranclp_into_rtranclp)
  qed (use "2.prems" in simp)
qed simp

section \<open>The reduction\<close>

lemma iter_reduce_vals: "iter_reduce agg acc (map Inr vs) = Inr (foldl agg acc vs)"
  by (induction vs arbitrary: acc) (simp_all add: iter_reduce_def result_get_def)

lemma iter_reduce_perm:
  assumes "mset results = mset (map Inr vs)" "\<And>a x y. agg (agg a x) y = agg (agg a y) x"
  shows "iter_reduce agg acc results = Inr (foldl agg acc vs)"
proof -
  have "set results \<subseteq> range Inr" using assms(1) by (metis image_subset_iff mset_eq_setD rangeI set_map)
  then have "\<exists>ws. results = map Inr ws"
    by (induction results) (auto, metis list.simps(9))
  then obtain ws where ws: "results = map Inr ws" by blast
  have m: "mset ws = mset vs"
    using arg_cong [OF assms(1), of "image_mset projr"] by (simp add: ws multiset.map_comp comp_def)
  have c: "(\<lambda>x a. agg a x) x \<circ> (\<lambda>x a. agg a x) y = (\<lambda>x a. agg a x) y \<circ> (\<lambda>x a. agg a x) x" for x y
    using assms(2) by (auto simp: fun_eq_iff)
  have "fold (\<lambda>x a. agg a x) ws = fold (\<lambda>x a. agg a x) vs" by (rule fold_multiset_equiv [OF c m])
  then show ?thesis by (simp add: ws iter_reduce_vals foldl_conv_fold)
qed

text \<open>A task that fails makes the reduction fail.\<close>

lemma iter_reduce_fails: "Inl e \<in> set results \<Longrightarrow> \<exists>e'. iter_reduce agg acc results = Inl e'"
proof (induction results arbitrary: acc)
  case (Cons r results)
  show ?case
  proof (cases r)
    case (Inl e')
    then show ?thesis by (simp add: iter_reduce_def result_get_def)
  next
    case (Inr v)
    then have "Inl e \<in> set results" using Cons.prems by simp
    from Cons.IH [OF this, of "agg acc v"] show ?thesis by (simp add: Inr iter_reduce_def result_get_def)
  qed
qed simp

section \<open>A task over blocks of items\<close>

lemma mset_buckets:
  "(\<And>x. x \<in> set xs \<Longrightarrow> p x < (k :: nat)) \<Longrightarrow> mset (concat (map (\<lambda>i. filter (\<lambda>x. p x = i) xs) [0..<k])) = mset xs"
proof (induction k arbitrary: xs)
  case 0
  then show ?case by (cases xs) auto
next
  case (Suc k)
  let ?ys = "filter (\<lambda>x. p x < k) xs"
  have "mset (concat (map (\<lambda>i. filter (\<lambda>x. p x = i) ?ys) [0..<k])) = mset ?ys" by (rule Suc.IH) simp
  moreover have "map (\<lambda>i. filter (\<lambda>x. p x = i) ?ys) [0..<k] = map (\<lambda>i. filter (\<lambda>x. p x = i) xs) [0..<k]"
    by (auto intro!: filter_cong)
  moreover have "filter (\<lambda>x. p x = k) xs = filter (\<lambda>x. \<not> p x < k) xs"
    using Suc.prems by (intro filter_cong refl) (auto simp: less_Suc_eq)
  moreover have "mset ?ys + mset (filter (\<lambda>x. \<not> p x < k) xs) = mset xs"
    unfolding mset_filter by (rule multiset_partition [symmetric])
  moreover have "mset (concat (map (\<lambda>i. filter (\<lambda>x. p x = i) xs) [0..<Suc k])) =
    mset (concat (map (\<lambda>i. filter (\<lambda>x. p x = i) xs) [0..<k])) + mset (filter (\<lambda>x. p x = k) xs)" by simp
  ultimately show ?case by metis
qed

lemma mset_task_slices:
  assumes "0 < outs_per_task" shows "mset (concat (task_slices els outs_per_task)) = mset els"
proof (cases "els = []")
  case False
  let ?n = "length els" and ?k = "min outs_per_task (length els)"
  have "0 < ?k" using assms False by simp
  then have "j mod ?k < ?k" for j by (rule mod_less_divisor)
  then have "mset (concat (map (\<lambda>i. filter (\<lambda>j. j mod ?k = i) [0..<?n]) [0..<?k])) = mset [0..<?n]" by (intro mset_buckets)
  then have "image_mset ((!) els) (mset (concat (map (\<lambda>i. filter (\<lambda>j. j mod ?k = i) [0..<?n]) [0..<?k]))) = image_mset ((!) els) (mset [0..<?n])"
    by (simp only:)
  moreover have "image_mset ((!) els) (mset [0..<?n]) = mset els" by (metis map_nth mset_map)
  moreover have "concat (task_slices els outs_per_task) = map ((!) els) (concat (map (\<lambda>i. filter (\<lambda>j. j mod ?k = i) [0..<?n]) [0..<?k]))"
    by (simp add: task_slices_def Let_def map_concat comp_def)
  ultimately show ?thesis by (metis mset_map)
qed (simp add: task_slices_def)

lemma split_task_values: "job_values (split_task f slow outs els) = map (Inr \<circ> f) (task_slices els outs)"
proof -
  have "concat (map yld_values (map (\<lambda>els. Val (f els)) l)) = map (Inr \<circ> f) l" for l by (induction l) simp_all
  moreover have "concat (map yld_values (map (\<lambda>els. Sub (Ret (Val (f els)))) l)) = map (Inr \<circ> f) l" for l by (induction l) simp_all
  moreover have "map (Inr \<circ> f) (take n l) @ map (Inr \<circ> f) (drop n l) = map (Inr \<circ> f) l" for n l
    by (metis append_take_drop_id map_append)
  ultimately show ?thesis by (cases slow) (simp_all add: split_task_def Let_def del: append_take_drop_id)
qed

lemma split_task_ok: "ok_job (split_task f slow outs els)"
  by (cases slow) (auto simp: split_task_def Let_def list_all_iff)

text \<open>
  \<open>Starmap.apply\<close> with \<open>split_in_blocks\<close>: a task of a sum over items, run on the blocks and possibly
  split again, gives the sum over all items.
\<close>

definition apply_split :: "('a list \<Rightarrow> 'r) \<Rightarrow> ('a list \<Rightarrow> nat option) \<Rightarrow> nat \<Rightarrow> 'a list list \<Rightarrow> 'r job list" where
  "apply_split func slow outs_per_task blocks = map (\<lambda>b. split_task func (slow b) outs_per_task b) blocks"

lemma apply_split_ok: "list_all ok_job (apply_split func slow outs blocks)"
  by (simp add: apply_split_def list_all_iff split_task_ok)

lemma apply_split_sum:
  fixes g :: "'a \<Rightarrow> 'r::comm_monoid_add"
  assumes "0 < outs"
  shows "\<exists>vs. concat (map job_values (apply_split (\<lambda>els. sum_list (map g els)) slow outs blocks)) = map Inr vs \<and>
    sum_list vs = sum_list (map (\<lambda>b. sum_list (map g b)) blocks)"
proof (induction blocks)
  case (Cons b blocks)
  then obtain vs where vs: "concat (map job_values (apply_split (\<lambda>els. sum_list (map g els)) slow outs blocks)) = map Inr vs"
    "sum_list vs = sum_list (map (\<lambda>b. sum_list (map g b)) blocks)" by blast
  let ?ws = "map (\<lambda>els. sum_list (map g els)) (task_slices b outs)"
  have "sum_list (map (\<lambda>els. sum_list (map g els)) l) = sum_list (map g (concat l))" for l by (induction l) simp_all
  then have "sum_list ?ws = sum_list (map g (concat (task_slices b outs)))" by blast
  also have "\<dots> = sum_list (map g b)" using mset_task_slices [OF assms, of b] by (metis mset_map sum_mset_sum_list)
  finally have "sum_list (?ws @ vs) = sum_list (map (\<lambda>b. sum_list (map g b)) (b # blocks))" by (simp add: vs(2))
  moreover have "concat (map job_values (apply_split (\<lambda>els. sum_list (map g els)) slow outs (b # blocks))) = map Inr (?ws @ vs)"
    using vs(1) by (simp add: apply_split_def split_task_values)
  ultimately show ?case by blast
qed (simp add: apply_split_def)

lemma parallel_sum:
  fixes g :: "'a \<Rightarrow> 'r::comm_monoid_add"
  assumes "split_items hint weight key xs = Inr blocks" "\<And>x. weight x \<le> 0 \<Longrightarrow> g x = 0" "0 < outs" "0 < ct" "foreign_only calc foreign"
    "loop_step\<^sup>*\<^sup>* (started lazy slurm (apply_split (\<lambda>els. sum_list (map g els)) slow outs blocks) (new_smap calc ct 0 foreign)) s"
    "sm_tasks s = []"
  shows "iter_reduce (+) 0 (sm_results s) = Inr (sum_list (map g xs))"
proof -
  obtain vs where vs: "concat (map job_values (apply_split (\<lambda>els. sum_list (map g els)) slow outs blocks)) = map Inr vs"
    "sum_list vs = sum_list (map (\<lambda>b. sum_list (map g b)) blocks)" using apply_split_sum [OF assms(3)] by blast
  have "mset (sm_results s) = mset (map Inr vs)"
    using starmap_complete(2) [OF apply_split_ok assms(4,5) _ assms(6,7)] by (simp add: vs(1))
  then have "iter_reduce (+) 0 (sm_results s) = Inr (foldl (+) 0 vs)" by (rule iter_reduce_perm) (simp add: ac_simps)
  moreover have "foldl (+) 0 vs = sum_list vs" by (induction vs rule: rev_induct) (simp_all add: ac_simps)
  moreover have positive: "sum_list (map g (filter (\<lambda>x. 0 < weight x) l)) = sum_list (map g l)" for l
    using assms(2) by (induction l) (auto simp: not_less)
  moreover have "sum_list (map (\<lambda>b. sum_list (map g b)) blocks) = sum_list (map g xs)"
    using sb.split_sum [OF assms(1), of g] by (simp add: positive)
  ultimately show ?thesis using vs(2) by simp
qed

section \<open>What can go wrong\<close>

text \<open>A function that raises \<open>StopIteration\<close> itself: the master fails on the second end of the task.\<close>

lemma stop_iteration_breaks:
  "run_loop [0, 0] (started False False [Raise StopIteration, Ret (Val (7 :: int))] (new_smap 1 2 0 [])) = Some (Inl ValueError)"
  by code_simp

text \<open>With \<open>OQ_TASK_NO\<close> set to a task that is not among the first ones nothing is run.\<close>

lemma only_task_lost:
  "started False False [Ret (Val (7 :: int)), Ret (Val 8), Ret (Val 9)] (new_smap 1 2 0 []\<lparr>sm_only := Some 2\<rparr>) =
     new_smap 1 2 0 []\<lparr>sm_only := Some 2, sm_queue := [Ret (Val 9)], sm_task_no := 2\<rparr>"
  by code_simp

text \<open>More outputs than expected stop the master.\<close>

lemma too_many_outputs:
  "run_loop [0, 0, 0] (started False False [Gen [Val (7 :: int), Val 8] None] (new_smap 1 2 1 [])) = Some (Inl AssertionError)"
  by code_simp

end
