(* ===== verification/Reinsurance.thy ===== *)
theory Reinsurance
  imports Utils Splitting Py_Float
begin

text \<open>
  The reinsurance of the losses (openquake/risklib/reinsurance.py, and \<open>insured_losses\<close> of
  openquake/risklib/scientific.py): the checks on the policies and the treaties, the cessions of a
  claim by policy, and the aggregation by event. Amounts are exact rationals, a matrix is the list
  of its rows. The main lemmas say that every event keeps claim = retention + cessions, so that the
  final check of the code cannot fail, and what the checks on the files ensure.
\<close>

section \<open>Treaties and policies\<close>

datatype treaty_type = Prop | Wxlr | Catxl

fun type_index :: "treaty_type \<Rightarrow> nat" where
  "type_index Prop = 0"
| "type_index Wxlr = 1"
| "type_index Catxl = 2"

definition read_type :: "string \<Rightarrow> treaty_type option" where
  "read_type s = map_of [(''prop'', Prop), (''wxlr'', Wxlr), (''catxl'', Catxl)] s"

record treaty =
  tr_id :: string
  tr_type :: treaty_type
  tr_deductible :: rat
  tr_limit :: rat
  tr_code :: char

text \<open>The policies of the CSV file: the cells by column, None for a missing number.\<close>

record policies =
  po_columns :: "string list"
  po_policy :: "string list"
  po_rows :: "(string, rat option) dict list"

text \<open>The field of a row; the reader gives every row every column.\<close>

definition cell :: "string \<Rightarrow> (string, rat option) dict \<Rightarrow> rat option" where
  "cell col row = (case map_of row col of None \<Rightarrow> None | Some v \<Rightarrow> v)"

definition column :: "policies \<Rightarrow> string \<Rightarrow> rat option list res" where
  "column df col = (if col \<in> set (po_columns df) then Inr (map (cell col) (po_rows df)) else Inl KeyError)"

definition attr_column :: "policies \<Rightarrow> string \<Rightarrow> rat option list res" where
  "attr_column df col = (if col \<in> set (po_columns df) then Inr (map (cell col) (po_rows df)) else Inl AttributeError)"

section \<open>Checks on the files\<close>

definition rej :: "bool \<Rightarrow> unit res" where
  "rej b = (if b then Inl InvalidFile else Inr ())"

text \<open>The order of the treaties in the XML file, each of which has a column.\<close>

fun check_order :: "policies \<Rightarrow> treaty_type option \<Rightarrow> (string \<times> treaty_type) list \<Rightarrow> unit res" where
  "check_order df prev [] = Inr ()"
| "check_order df prev ((t, ty) # rest) =
     bindE (rej (case prev of None \<Rightarrow> False | Some p \<Rightarrow> type_index ty < type_index p)) (\<lambda>_.
     bindE (rej (t \<notin> set (po_columns df))) (\<lambda>_. check_order df (Some ty) rest))"

fun columns_in_order :: "treaty_type list \<Rightarrow> bool" where
  "columns_in_order (a # b # l) = (type_index a \<le> type_index b \<and> columns_in_order (b # l))"
| "columns_in_order _ = True"

definition in_unit :: "rat option \<Rightarrow> bool" where
  "in_unit x = (case x of None \<Rightarrow> True | Some q \<Rightarrow> 0 \<le> q \<and> q \<le> 1)"

definition opt_sum :: "rat option list \<Rightarrow> rat option" where
  "opt_sum l = (if None \<in> set l then None else Some (sum_list (map the l)))"

text \<open>\<open>check_treaties\<close>; a missing fraction makes the sum fail. The policies get their index.\<close>

definition check_treaties :: "(string, int) dict \<Rightarrow> policies \<Rightarrow> (string \<times> treaty_type) list \<Rightarrow> int list res" where
  "check_treaties policyidx df treaties =
     bindE (mapE (\<lambda>(t, ty). if ty = Prop then Inr () else bindE (column df t) (\<lambda>c. rej (\<not> set c \<subseteq> {Some 0, Some 1}))) treaties) (\<lambda>_.
     let props = map fst (filter (\<lambda>(t, ty). ty = Prop) treaties) in
     bindE (mapE (\<lambda>t. bindE (column df t) (\<lambda>c. rej (\<not> list_all in_unit c))) props) (\<lambda>_.
     bindE (rej (\<not> list_all (\<lambda>row. case opt_sum (map (\<lambda>t. cell t row) props) of None \<Rightarrow> False | Some q \<Rightarrow> 0 \<le> q \<and> q \<le> 1) (po_rows df))) (\<lambda>_.
     bindE (mapE (dict_get policyidx) (po_policy df)) (\<lambda>idx.
     bindE (rej (\<not> {''policy'', ''deductible'', ''liability''} \<subseteq> set (po_columns df))) (\<lambda>_.
     bindE (rej (\<not> columns_in_order (List.map_filter (map_of treaties) (po_columns df)))) (\<lambda>_. Inr idx))))))"

definition check_fields :: "(string, int) dict \<Rightarrow> policies \<Rightarrow> (string \<times> treaty_type) list \<Rightarrow> int list res" where
  "check_fields policyidx df treaties =
     bindE (attr_column df ''deductible'') (\<lambda>ded. bindE (rej (None \<in> set ded)) (\<lambda>_.
     bindE (attr_column df ''liability'') (\<lambda>lia. bindE (rej (None \<in> set lia)) (\<lambda>_.
     bindE (rej (\<not> distinct (po_policy df))) (\<lambda>_.
     bindE (check_order df None treaties) (\<lambda>_.
     bindE (rej (\<not> set (tl (keys policyidx)) \<subseteq> set (po_policy df))) (\<lambda>_.
     bindE (rej (\<exists>q \<in> set lia. the q < 0)) (\<lambda>_. bindE (rej (\<exists>q \<in> set ded. the q < 0)) (\<lambda>_.
     check_treaties policyidx df treaties)))))))))"

text \<open>\<open>check_fractions\<close>: the fractions of a row are added column by column.\<close>

definition add_fraction :: "rat \<Rightarrow> rat \<Rightarrow> rat res" where
  "add_fraction tot q = bindE (checkE (0 \<le> q \<and> q \<le> 1) ValueError) (\<lambda>_. Inr (tot + q))"

definition check_fractions :: "rat list list \<Rightarrow> unit res" where
  "check_fractions colvalues = bindE (py_index colvalues 0) (\<lambda>c0.
     foldE (\<lambda>_ i. bindE (foldE (\<lambda>tot col. add_fraction tot (col ! i)) 0 colvalues) (\<lambda>tot. checkE (tot \<le> 1) ValueError))
       () [0..<length c0])"

section \<open>Reading the treaties\<close>

text \<open>A \<open>field\<close> node of the XML file.\<close>

record field_node =
  fn_oq :: "string option"
  fn_input :: string
  fn_type :: "string option"
  fn_max_cession :: "rat option"
  fn_limit :: "rat option"
  fn_deductible :: "rat option"

definition nolimit :: rat where
  "nolimit = 10 ^ 100"

definition read_field :: "(string, string) dict \<times> (string \<times> treaty_type \<times> rat \<times> rat) list \<Rightarrow> field_node \<Rightarrow>
    ((string, string) dict \<times> (string \<times> treaty_type \<times> rat \<times> rat) list) res" where
  "read_field st n = (case st of (fieldmap, treaties) \<Rightarrow>
     if fn_oq n \<in> {Some ''policy'', Some ''deductible'', Some ''liability''} then
       Inr (AList.update (fn_input n) (the (fn_oq n)) fieldmap, treaties)
     else case read_type (case fn_type n of None \<Rightarrow> ''prop'' | Some t \<Rightarrow> t) of
       None \<Rightarrow> Inl InvalidFile
     | Some Prop \<Rightarrow> Inr (fieldmap, treaties @ [(fn_input n, Prop, 0, case fn_max_cession n of None \<Rightarrow> nolimit | Some q \<Rightarrow> q)])
     | Some ty \<Rightarrow> (case (fn_limit n, fn_deductible n) of
          (Some l, Some d) \<Rightarrow> Inr (fieldmap, treaties @ [(fn_input n, ty, d, l)]) | _ \<Rightarrow> Inl KeyError))"

definition read_fields :: "field_node list \<Rightarrow> ((string, string) dict \<times> (string \<times> treaty_type \<times> rat \<times> rat) list) res" where
  "read_fields nodes = foldE read_field ([], []) nodes"

definition make_treaties :: "(string \<times> treaty_type \<times> rat \<times> rat) list \<Rightarrow> treaty list res" where
  "make_treaties l = mapE (\<lambda>(i, t, ty, d, li). if i < length base183
     then Inr \<lparr>tr_id = t, tr_type = ty, tr_deductible = d, tr_limit = li, tr_code = base183 ! i\<rparr> else Inl IndexError)
     (enumerate 0 l)"

section \<open>Cessions by policy\<close>

text \<open>\<open>insured_losses\<close> with one deductible and one limit.\<close>

definition insured_loss :: "rat \<Rightarrow> rat \<Rightarrow> rat \<Rightarrow> rat" where
  "insured_loss ded li loss = (if li < loss then li - ded else if loss < ded then 0 else loss - ded)"

definition insured_losses :: "rat list \<Rightarrow> rat \<Rightarrow> rat \<Rightarrow> rat list res" where
  "insured_losses losses ded li = bindE (checkE (losses = [] \<or> ded < li) AssertionError)
     (\<lambda>_. Inr (map (insured_loss ded li) losses))"

text \<open>\<open>apply_treaty\<close> on one element: the cession and the retention.\<close>

definition apply_treaty :: "rat \<Rightarrow> rat \<Rightarrow> rat \<times> rat \<Rightarrow> rat \<times> rat" where
  "apply_treaty deduc capacity cr = (case cr of (cession, ret) \<Rightarrow>
     if deduc < ret then (let overmax = ret - deduc in
       if capacity < overmax then (capacity, deduc + overmax - capacity) else (overmax, deduc))
     else (cession, ret))"

text \<open>A policy is a dictionary of numbers. The cessions of a policy before they are rounded: proportional
  ones, then those of the wxlr treaties, which lower the retention.\<close>

definition wxlr_step :: "rat list \<Rightarrow> (string, rat) dict \<Rightarrow> (string, rat list) dict \<Rightarrow> treaty \<Rightarrow> (string, rat list) dict res" where
  "wxlr_step claim policy out t = bindE (dict_get policy (tr_id t)) (\<lambda>flag.
     bindE (dict_get out ''retention'') (\<lambda>ret.
     let zeros = map (\<lambda>_. 0) claim in
     if flag = 0 then Inr (AList.update (tr_id t) zeros out)
     else let cr = map (apply_treaty (tr_deductible t) (tr_limit t - tr_deductible t)) (zip zeros ret) in
       Inr (AList.update ''retention'' (map snd cr) (AList.update (tr_id t) (map fst cr) out))))"

definition cessions :: "rat list \<Rightarrow> (string, rat) dict \<Rightarrow> treaty list \<Rightarrow> (string, rat list) dict res" where
  "cessions claim policy treaties = (let cols = map tr_id (filter (\<lambda>t. tr_type t = Prop) treaties) in
     bindE (mapE (dict_get policy) cols) (\<lambda>fractions.
     bindE (checkE (sum_list fractions \<le> 1) AssertionError) (\<lambda>_.
     let out = dict_update [(''retention'', map (\<lambda>c. c * (1 - sum_list fractions)) claim), (''claim'', claim)]
       (map (\<lambda>(col, q). (col, map (\<lambda>c. c * q) claim)) (zip cols fractions)) in
     foldE (wxlr_step claim policy) out (filter (\<lambda>t. tr_type t = Wxlr) treaties))))"

definition round6 :: "rat \<Rightarrow> rat" where
  "round6 x = of_int (round_even (x * 10 ^ 6)) / 10 ^ 6"

definition claim_to_cessions :: "rat list \<Rightarrow> (string, rat) dict \<Rightarrow> treaty list \<Rightarrow> (string, rat list) dict res" where
  "claim_to_cessions claim policy treaties = bindE (cessions claim policy treaties)
     (\<lambda>out. Inr (map (\<lambda>(k, v). (k, map round6 v)) out))"

definition build_policy_grp :: "(string, rat) dict \<Rightarrow> treaty list \<Rightarrow> string res" where
  "build_policy_grp policy treaties = mapE (\<lambda>t. if tr_type t = Catxl
     then bindE (dict_get policy (tr_id t)) (\<lambda>q. Inr (if q = 0 then CHR ''.'' else tr_code t)) else Inr (tr_code t)) treaties"

section \<open>Losses by event\<close>

text \<open>\<open>by_policy\<close> on rows (event, policy number minus one, loss); the rows without a claim are dropped.\<close>

record reins_row =
  rr_event :: int
  rr_policy :: int
  rr_values :: "(string, rat) dict"
  rr_grp :: string

definition by_policy :: "(int \<times> int \<times> rat) list \<Rightarrow> int \<Rightarrow> (string, rat) dict \<Rightarrow> treaty list \<Rightarrow> reins_row list res" where
  "by_policy rbe policy_id policy treaties = (let df = filter (\<lambda>(e, a, l). a = policy_id - 1) rbe in
     bindE (dict_get policy ''deductible'') (\<lambda>ded. bindE (dict_get policy ''liability'') (\<lambda>li.
     bindE (insured_losses (map (\<lambda>(e, a, l). l) df) ded li) (\<lambda>claim.
     bindE (claim_to_cessions claim policy treaties) (\<lambda>out.
     bindE (build_policy_grp policy treaties) (\<lambda>grp.
     let rows = map (\<lambda>(i, e, a, l). \<lparr>rr_event = e, rr_policy = policy_id, rr_values = map (\<lambda>(k, v). (k, v ! i)) out, rr_grp = grp\<rparr>)
       (enumerate 0 df) in
     Inr (filter (\<lambda>r. case map_of (rr_values r) ''claim'' of None \<Rightarrow> False | Some q \<Rightarrow> 0 < q) rows)))))))"

type_synonym matrix = "rat list list"

definition add_matrix :: "matrix \<Rightarrow> matrix \<Rightarrow> matrix" where
  "add_matrix a b = map2 (map2 (+)) a b"

text \<open>\<open>fast_agg2\<close> on matrices: the sorted distinct keys and the sum for each of them; an empty list of keys
  has no maximum.\<close>

definition agg_matrices :: "(string \<times> matrix) list \<Rightarrow> (string \<times> matrix) list res" where
  "agg_matrices l = (if l = [] then Inl ValueError else
     Inr (map (\<lambda>k. let ms = map snd (filter (\<lambda>(k', m). k' = k) l) in (k, foldl add_matrix (hd ms) (tl ms)))
       (sorted_list_of_set (set (map fst l)))))"

text \<open>The first treaty of a group on a row; \<open>c\<close> is the column of its cession. The overspill is returned.\<close>

definition treat_row :: "treaty \<Rightarrow> nat \<Rightarrow> rat list \<Rightarrow> rat list \<times> rat" where
  "treat_row t c row = (let ret = row ! 0; cession = row ! c; capacity = tr_limit t - tr_deductible t in
     case tr_type t of
       Catxl \<Rightarrow> (case apply_treaty (tr_deductible t) capacity (cession, ret) of (cession', ret') \<Rightarrow>
         (row[0 := ret', c := cession'], ret - tr_deductible t - capacity))
     | Prop \<Rightarrow> (if 0 < cession - capacity then row[0 := ret + (cession - tr_limit t), c := tr_limit t] else row, cession - capacity)
     | Wxlr \<Rightarrow> (row, 0))"

definition find_treaty :: "treaty list \<Rightarrow> char \<Rightarrow> (nat \<times> treaty) res" where
  "find_treaty treaties cd = of_option KeyError (List.find (\<lambda>(i, t). tr_code t = cd) (enumerate 0 treaties))"

text \<open>The first treaty of a group: the rest of the key, the new data and the overspills by treaty.\<close>

definition treat_group :: "treaty list \<Rightarrow> (string \<times> matrix) list \<times> (char, rat list) dict \<Rightarrow> string \<times> matrix \<Rightarrow>
    ((string \<times> matrix) list \<times> (char, rat list) dict) res" where
  "treat_group treaties st kd = (case (st, kd) of ((done, over), (key, data)) \<Rightarrow>
     (case key of [] \<Rightarrow> Inl IndexError
      | cd # newkey \<Rightarrow> if cd = CHR ''.'' then Inr (done @ [(newkey, data)], over)
          else bindE (find_treaty treaties cd) (\<lambda>(i, t).
            let rs = map (treat_row t (2 + i)) data in
            Inr (done @ [(newkey, map fst rs)],
              if \<exists>x \<in> set (map snd rs). 0 < x then AList.update cd (map (\<lambda>(r, x). max x 0) rs) over else over))))"

definition agg_step :: "treaty list \<Rightarrow> (string \<times> matrix) list \<times> (char, rat list) dict \<Rightarrow>
    ((string \<times> matrix) list \<times> (char, rat list) dict) res" where
  "agg_step treaties st = (case st of (groups, over) \<Rightarrow>
     bindE (foldE (treat_group treaties) ([], over) groups) (\<lambda>(new, over').
     bindE (agg_matrices new) (\<lambda>groups'. Inr (groups', over'))))"

lemma treat_groups_keys:
  "foldE (treat_group treaties) (done, over) groups = Inr (new, over') \<Longrightarrow>
     map fst new = map fst done @ map (tl \<circ> fst) groups \<and> (\<forall>g \<in> set groups. fst g \<noteq> [])"
proof (induction groups arbitrary: "done" over)
  case (Cons g groups)
  obtain k d where g: "g = (k, d)" by (cases g)
  obtain st1 where st1: "treat_group treaties (done, over) g = Inr st1" "foldE (treat_group treaties) st1 groups = Inr (new, over')"
    using Cons.prems by (auto simp: bindE_Inr_iff)
  obtain done1 over1 where st: "st1 = (done1, over1)" by (cases st1)
  have "k \<noteq> []" "map fst done1 = map fst done @ [tl k]"
    using st1(1) by (auto simp: treat_group_def g st bindE_Inr_iff Let_def split: list.splits if_splits)
  then show ?case using Cons.IH [OF st1(2) [unfolded st]] by (simp add: g)
qed simp

definition longest :: "(string \<times> matrix) list \<Rightarrow> nat" where
  "longest groups = Max (insert 0 (set (map (length \<circ> fst) groups)))"

lemma agg_step_shorter: "agg_step treaties (groups, over) = Inr (groups', over') \<Longrightarrow> longest groups' < longest groups"
proof -
  assume a: "agg_step treaties (groups, over) = Inr (groups', over')"
  then obtain new where n: "foldE (treat_group treaties) ([], over) groups = Inr (new, over')" "agg_matrices new = Inr groups'"
    by (auto simp: agg_step_def bindE_Inr_iff)
  have k: "map fst new = map (tl \<circ> fst) groups" "\<forall>g \<in> set groups. fst g \<noteq> []" using treat_groups_keys [OF n(1)] by simp_all
  have new: "new \<noteq> []" and "map fst groups' = sorted_list_of_set (set (map fst new))"
    using n(2) by (auto simp: agg_matrices_def Let_def comp_def split: if_splits)
  then have s: "set (map fst groups') = set (map fst new)" by (metis List.finite_set set_sorted_list_of_set)
  have ne: "groups \<noteq> []" using new k(1) by (metis list.map_disc_iff)
  have "length (fst g') < longest groups" if "g' \<in> set groups'" for g'
  proof -
    have "fst g' \<in> set (map (tl \<circ> fst) groups)" using that s k(1) by (metis image_eqI set_map)
    then obtain g where g: "g \<in> set groups" "fst g' = tl (fst g)" by auto
    then have "length (fst g') < length (fst g)" using k(2) by simp
    also have "\<dots> \<le> longest groups" unfolding longest_def by (rule Max_ge) (use g(1) in auto)
    finally show ?thesis .
  qed
  moreover have "0 < longest groups"
  proof -
    obtain g where g: "g \<in> set groups" using ne by (cases groups) auto
    then have "0 < length (fst g)" using k(2) by simp
    also have "\<dots> \<le> longest groups" unfolding longest_def by (rule Max_ge) (use g in auto)
    finally show ?thesis .
  qed
  ultimately show "longest groups' < longest groups" unfolding longest_def [of groups'] by (subst Max_less_iff) auto
qed

text \<open>\<open>clever_agg\<close>: the matrix that is left and the overspills.\<close>

function clever_agg :: "treaty list \<Rightarrow> (string \<times> matrix) list \<Rightarrow> (char, rat list) dict \<Rightarrow> (matrix \<times> (char, rat list) dict) res" where
  "clever_agg treaties groups over = (if length groups = 1 \<and> fst (hd groups) = [] then Inr (snd (hd groups), over)
     else case agg_step treaties (groups, over) of Inl e \<Rightarrow> Inl e | Inr (groups', over') \<Rightarrow> clever_agg treaties groups' over')"
  by pat_completeness auto
termination by (relation "measure (\<lambda>(t, groups, over). longest groups)") (auto simp: agg_step_shorter)

text \<open>\<open>by_event\<close>: the matrices of the groups, their aggregation, and the check on the result, that is exact here.\<close>

definition group_matrix :: "treaty list \<Rightarrow> int list \<Rightarrow> reins_row list \<Rightarrow> matrix res" where
  "group_matrix treaties eids rows = (let cols = ''claim'' # map tr_id (filter (\<lambda>t. tr_type t \<noteq> Catxl) treaties);
       width = 2 + length treaties in
     mapE (\<lambda>e. bindE (mapE (\<lambda>col. bindE (mapE (\<lambda>r. dict_get (rr_values r) col) (filter (\<lambda>r. rr_event r = e) rows))
         (\<lambda>vs. Inr (sum_list vs))) cols) (\<lambda>vals.
       let row = 0 # vals @ replicate (width - 1 - length vals) 0 in
       Inr (row[0 := row ! 1 - sum_list (drop 2 row)]))) eids)"

definition by_event :: "reins_row list \<Rightarrow> treaty list \<Rightarrow> ((int \<times> rat list) list \<times> (char, rat list) dict) res" where
  "by_event rbp treaties = (let eids = sorted_list_of_set (set (map rr_event rbp));
       grps = sorted_list_of_set (set (map rr_grp rbp)) in
     bindE (mapE (\<lambda>g. bindE (group_matrix treaties eids (filter (\<lambda>r. rr_grp r = g) rbp)) (\<lambda>m. Inr (g, m))) grps) (\<lambda>groups.
     bindE (clever_agg treaties groups []) (\<lambda>(res, over).
     bindE (checkE (list_all (\<lambda>row. sum_list (drop 2 row) + row ! 0 = row ! 1) res) AssertionError) (\<lambda>_.
     Inr (zip eids res, over)))))"

section \<open>Conservation\<close>

text \<open>The rows of the matrices: retention, claim and cessions; the catxl treaties that are still to come
  have ceded nothing.\<close>

definition row_ok :: "treaty list \<Rightarrow> nat \<Rightarrow> rat list \<Rightarrow> bool" where
  "row_ok ts p row \<longleftrightarrow> (\<exists>r cl cs. row = r # cl # cs \<and> length cs = length ts \<and> r + sum_list cs = cl \<and>
     (\<forall>q. p \<le> q \<longrightarrow> q < length ts \<longrightarrow> tr_type (ts ! q) = Catxl \<longrightarrow> cs ! q = 0))"

definition key_ok :: "treaty list \<Rightarrow> nat \<Rightarrow> string \<Rightarrow> bool" where
  "key_ok ts p key \<longleftrightarrow> p + length key = length ts \<and>
     (\<forall>q < length key. key ! q = tr_code (ts ! (p + q)) \<or> key ! q = CHR ''.'')"

definition group_ok :: "treaty list \<Rightarrow> nat \<Rightarrow> nat \<Rightarrow> string \<times> matrix \<Rightarrow> bool" where
  "group_ok ts n p g \<longleftrightarrow> key_ok ts p (fst g) \<and> length (snd g) = n \<and> list_all (row_ok ts p) (snd g)"

definition valid_treaties :: "treaty list \<Rightarrow> bool" where
  "valid_treaties ts \<longleftrightarrow> distinct (map tr_code ts) \<and> CHR ''.'' \<notin> set (map tr_code ts) \<and> sorted (map (type_index \<circ> tr_type) ts)"

lemma apply_treaty_sum: "apply_treaty d c (0, ret) = (x, r) \<Longrightarrow> x + r = ret"
  by (auto simp: apply_treaty_def Let_def split: if_splits)

lemma sum_list_set: "i < length cs \<Longrightarrow> sum_list (cs[i := x]) = sum_list cs + x - cs ! (i :: nat)" for cs :: "rat list"
  by (induction cs arbitrary: i) (auto split: nat.split)

lemma treat_row_ok:
  assumes "row_ok ts p row" "p < length ts"
  shows "row_ok ts (Suc p) (fst (treat_row (ts ! p) (2 + p) row))"
    and "fst (treat_row (ts ! p) (2 + p) row) ! 1 = row ! 1"
proof -
  let ?t = "ts ! p" and ?row' = "fst (treat_row (ts ! p) (2 + p) row)"
  obtain r cl cs where row: "row = r # cl # cs" and l: "length cs = length ts" and b: "r + sum_list cs = cl"
    and z: "\<And>q. p \<le> q \<Longrightarrow> q < length ts \<Longrightarrow> tr_type (ts ! q) = Catxl \<Longrightarrow> cs ! q = 0"
    using assms(1) unfolding row_ok_def by blast
  have "\<exists>r' x. ?row' = r' # cl # cs[p := x] \<and> r' + x = r + cs ! p"
  proof (cases "tr_type ?t")
    case Prop
    then show ?thesis by (auto simp: treat_row_def row Let_def intro!: exI [of _ "cs ! p"])
  next
    case Wxlr
    then show ?thesis by (auto simp: treat_row_def row Let_def intro!: exI [of _ "cs ! p"])
  next
    case Catxl
    obtain x r' where a: "apply_treaty (tr_deductible ?t) (tr_limit ?t - tr_deductible ?t) (0, r) = (x, r')" by fastforce
    have "cs ! p = 0" using z [of p] assms(2) Catxl by simp
    then show ?thesis using Catxl a apply_treaty_sum [OF a] by (auto simp: treat_row_def row Let_def)
  qed
  then obtain r' x where r': "?row' = r' # cl # cs[p := x]" "r' + x = r + cs ! p" by blast
  have "r' + sum_list (cs[p := x]) = cl" using b r'(2) assms(2) l by (simp add: sum_list_set)
  then show "row_ok ts (Suc p) ?row'" unfolding row_ok_def
    using r'(1) l z by (intro exI [of _ r'] exI [of _ cl] exI [of _ "cs[p := x]"]) auto
  have "?row' ! 1 = cl" unfolding r'(1) by simp
  moreover have "row ! 1 = cl" by (simp add: row)
  ultimately show "?row' ! 1 = row ! 1" by simp
qed

lemma row_ok_later: "row_ok ts p row \<Longrightarrow> row_ok ts (Suc p) row"
  unfolding row_ok_def by (elim exE conjE, intro exI conjI) (assumption, assumption, assumption, simp)

lemma find_treaty_nth:
  assumes "distinct (map tr_code ts)" "p < length ts"
  shows "find_treaty ts (tr_code (ts ! p)) = Inr (p, ts ! p)"
proof -
  have "List.find (\<lambda>(i, t). tr_code t = tr_code (ts ! p)) (enumerate 0 ts) = Some (p, ts ! p)"
    unfolding find_Some_iff using assms
    by (intro exI [of _ p]) (auto simp: nth_enumerate_eq distinct_conv_nth)
  then show ?thesis by (simp add: find_treaty_def)
qed

lemma treat_group_ok:
  assumes "group_ok ts n p g" "valid_treaties ts" "p < length ts"
  shows "\<exists>g' over'. treat_group ts (done, over) g = Inr (done @ [g'], over') \<and> group_ok ts n (Suc p) g' \<and>
    map (\<lambda>row. row ! 1) (snd g') = map (\<lambda>row. row ! 1) (snd g)"
proof -
  obtain key data where g: "g = (key, data)" by (cases g)
  have k: "key_ok ts p key" "length data = n" "list_all (row_ok ts p) data" using assms(1) by (simp_all add: group_ok_def g)
  then obtain c rest where key: "key = c # rest" using assms(3) by (cases key) (auto simp: key_ok_def)
  have rest: "key_ok ts (Suc p) rest" using k(1) unfolding key_ok_def key
    by (auto simp: nth_Cons' dest: spec [of _ "Suc _"])
  show ?thesis
  proof (cases "c = CHR ''.''")
    case True
    have "group_ok ts n (Suc p) (rest, data)" using rest k row_ok_later by (auto simp: group_ok_def list_all_iff)
    then show ?thesis using True by (auto simp: treat_group_def g key)
  next
    case False
    then have "c = tr_code (ts ! p)" using k(1) unfolding key_ok_def key by force
    then have f: "find_treaty ts c = Inr (p, ts ! p)" using find_treaty_nth assms(2,3) by (simp add: valid_treaties_def)
    let ?rs = "map (treat_row (ts ! p) (2 + p)) data"
    have "group_ok ts n (Suc p) (rest, map fst ?rs)" using rest k treat_row_ok(1) [OF _ assms(3)]
      by (auto simp: group_ok_def list_all_iff)
    moreover have "map (\<lambda>row. row ! 1) (map fst ?rs) = map (\<lambda>row. row ! 1) data" using k(3) treat_row_ok(2) [OF _ assms(3)]
      by (auto simp: list_all_iff)
    ultimately show ?thesis using False f by (auto simp: treat_group_def g key Let_def)
  qed
qed

lemma treat_groups_ok:
  assumes "list_all (group_ok ts n p) groups" "valid_treaties ts" "p < length ts"
  shows "\<exists>new over'. foldE (treat_group ts) (done, over) groups = Inr (done @ new, over') \<and> list_all (group_ok ts n (Suc p)) new \<and>
    map (\<lambda>g. map (\<lambda>row. row ! 1) (snd g)) new = map (\<lambda>g. map (\<lambda>row. row ! 1) (snd g)) groups"
  using assms(1)
proof (induction groups arbitrary: "done" over)
  case (Cons g groups)
  then have gg: "group_ok ts n p g" "list_all (group_ok ts n p) groups" by simp_all
  obtain g' over1 where g': "treat_group ts (done, over) g = Inr (done @ [g'], over1)" "group_ok ts n (Suc p) g'"
    "map (\<lambda>row. row ! 1) (snd g') = map (\<lambda>row. row ! 1) (snd g)"
    using treat_group_ok [OF gg(1) assms(2,3)] by blast
  obtain new over' where new: "foldE (treat_group ts) (done @ [g'], over1) groups = Inr ((done @ [g']) @ new, over')"
    "list_all (group_ok ts n (Suc p)) new" "map (\<lambda>g. map (\<lambda>row. row ! 1) (snd g)) new = map (\<lambda>g. map (\<lambda>row. row ! 1) (snd g)) groups"
    using Cons.IH [OF gg(2)] by blast
  show ?case using g' new by (intro exI [of _ "g' # new"] exI [of _ over']) simp
qed simp

subsection \<open>Sums of matrices\<close>

lemma map2_plus_sum: "length a = length b \<Longrightarrow> sum_list (map2 (+) a b) = sum_list a + sum_list (b :: rat list)"
  by (induction a b rule: list_induct2) simp_all

lemma row_ok_add:
  assumes "row_ok ts p a" "row_ok ts p b" shows "row_ok ts p (map2 (+) a b)"
proof -
  obtain r cl cs where a: "a = r # cl # cs" "length cs = length ts" "r + sum_list cs = cl"
    "\<And>q. p \<le> q \<Longrightarrow> q < length ts \<Longrightarrow> tr_type (ts ! q) = Catxl \<Longrightarrow> cs ! q = 0" using assms(1) unfolding row_ok_def by blast
  obtain r' cl' cs' where b: "b = r' # cl' # cs'" "length cs' = length ts" "r' + sum_list cs' = cl'"
    "\<And>q. p \<le> q \<Longrightarrow> q < length ts \<Longrightarrow> tr_type (ts ! q) = Catxl \<Longrightarrow> cs' ! q = 0" using assms(2) unfolding row_ok_def by blast
  have "map2 (+) a b = (r + r') # (cl + cl') # map2 (+) cs cs'" by (simp add: a(1) b(1))
  moreover have "(r + r') + sum_list (map2 (+) cs cs') = cl + cl'" using a(2,3) b(2,3) by (simp add: map2_plus_sum)
  moreover have "map2 (+) cs cs' ! q = 0" if "p \<le> q" "q < length ts" "tr_type (ts ! q) = Catxl" for q
    using a(2,4) b(2,4) that by simp
  ultimately show ?thesis unfolding row_ok_def using a(2) b(2)
    by (intro exI [of _ "r + r'"] exI [of _ "cl + cl'"] exI [of _ "map2 (+) cs cs'"]) simp
qed

definition mat_ok :: "treaty list \<Rightarrow> nat \<Rightarrow> nat \<Rightarrow> matrix \<Rightarrow> bool" where
  "mat_ok ts n p m \<longleftrightarrow> length m = n \<and> list_all (row_ok ts p) m"

lemma row_ok_length: "row_ok ts p row \<Longrightarrow> length row = 2 + length ts"
  by (auto simp: row_ok_def)

lemma add_matrix_ok:
  assumes "mat_ok ts n p a" "mat_ok ts n p b" shows "mat_ok ts n p (add_matrix a b)"
    and "e < n \<Longrightarrow> add_matrix a b ! e ! 1 = a ! e ! 1 + b ! e ! 1"
proof -
  have l: "length a = n" "length b = n" "\<And>e. e < n \<Longrightarrow> row_ok ts p (a ! e)" "\<And>e. e < n \<Longrightarrow> row_ok ts p (b ! e)"
    using assms by (auto simp: mat_ok_def list_all_length)
  show "mat_ok ts n p (add_matrix a b)"
    using l row_ok_add by (simp add: mat_ok_def add_matrix_def list_all_length)
  show "add_matrix a b ! e ! 1 = a ! e ! 1 + b ! e ! 1" if "e < n"
    using l(1,2) that row_ok_length [OF l(3) [OF that]] row_ok_length [OF l(4) [OF that]] by (simp add: add_matrix_def)
qed

lemma fold_matrix_ok:
  "mat_ok ts n p m \<Longrightarrow> list_all (mat_ok ts n p) ms \<Longrightarrow> mat_ok ts n p (foldl add_matrix m ms) \<and>
     (\<forall>e < n. foldl add_matrix m ms ! e ! 1 = m ! e ! 1 + sum_list (map (\<lambda>m. m ! e ! 1) ms))"
proof (induction ms arbitrary: m)
  case (Cons a ms)
  then have "mat_ok ts n p a" "list_all (mat_ok ts n p) ms" by simp_all
  then show ?case using Cons.IH [OF add_matrix_ok(1) [OF Cons.prems(1)]] add_matrix_ok(2) [OF Cons.prems(1)] by (simp add: add.assoc)
qed simp

lemma sum_by_keys:
  fixes f :: "'b \<Rightarrow> rat"
  assumes "distinct ks"
  shows "(\<Sum>k \<leftarrow> ks. sum_list (map f (filter (\<lambda>x. key x = k) l))) = sum_list (map f (filter (\<lambda>x. key x \<in> set ks) l))"
proof (induction l)
  case (Cons x l)
  have "(\<Sum>k \<leftarrow> ks. (if key x = k then f x else 0)) = (if key x \<in> set ks then f x else 0)"
    using assms by (induction ks) auto
  moreover have "(\<Sum>k \<leftarrow> ks. sum_list (map f (filter (\<lambda>x. key x = k) (x # l)))) =
    (\<Sum>k \<leftarrow> ks. (if key x = k then f x else 0)) + (\<Sum>k \<leftarrow> ks. sum_list (map f (filter (\<lambda>x. key x = k) l)))"
    unfolding sum_list_addf [symmetric] by (rule arg_cong [of _ _ sum_list], rule map_cong) auto
  ultimately show ?case using Cons by simp
qed simp

lemma sum_over_keys:
  fixes f :: "'b \<Rightarrow> rat"
  shows "(\<Sum>k \<leftarrow> sorted_list_of_set (set (map fst l)). sum_list (map (\<lambda>(k', m). f m) (filter (\<lambda>(k', m). k' = k) l))) = sum_list (map (\<lambda>(k', m). f m) (l :: (string \<times> 'b) list))"
  using sum_by_keys [of "sorted_list_of_set (set (map fst l))" "\<lambda>(k', m). f m" fst l] by (simp add: filter_True case_prod_unfold)

lemma agg_matrices_ok:
  assumes "new \<noteq> []" "list_all (group_ok ts n p) new"
  shows "\<exists>groups. agg_matrices new = Inr groups \<and> groups \<noteq> [] \<and> distinct (map fst groups) \<and> list_all (group_ok ts n p) groups \<and>
    (\<forall>e < n. sum_list (map (\<lambda>g. snd g ! e ! 1) groups) = sum_list (map (\<lambda>g. snd g ! e ! 1) new))"
proof -
  let ?ks = "sorted_list_of_set (set (map fst new))"
  let ?ms = "\<lambda>k. map snd (filter (\<lambda>(k', m). k' = k) new)"
  let ?g = "\<lambda>k. (k, foldl add_matrix (hd (?ms k)) (tl (?ms k)))"
  have agg: "agg_matrices new = Inr (map ?g ?ks)" using assms(1) by (simp add: agg_matrices_def Let_def)
  have mats: "key_ok ts p k \<and> ?ms k \<noteq> [] \<and> list_all (mat_ok ts n p) (?ms k)" if "k \<in> set ?ks" for k
  proof -
    have "k \<in> fst ` set new" using that by simp
    then obtain m where m: "(k, m) \<in> set new" by force
    then have "key_ok ts p k" using assms(2) by (auto simp: list_all_iff group_ok_def)
    moreover have "m \<in> set (?ms k)" using m by force
    moreover have "list_all (mat_ok ts n p) (?ms k)" using assms(2) by (auto simp: list_all_iff group_ok_def mat_ok_def)
    ultimately show ?thesis by (metis list.set_cases list.distinct(1))
  qed
  have facts: "mat_ok ts n p (snd (?g k)) \<and> (\<forall>e < n. snd (?g k) ! e ! 1 = sum_list (map (\<lambda>m. m ! e ! 1) (?ms k)))"
    if "k \<in> set ?ks" for k
  proof -
    note mk = mats [OF that]
    obtain m ms where ms: "?ms k = m # ms" using mk by (cases "?ms k") auto
    then have "mat_ok ts n p m" "list_all (mat_ok ts n p) ms" using mk by simp_all
    then show ?thesis using fold_matrix_ok [of ts n p m ms] by (simp add: ms)
  qed
  have "group_ok ts n p (?g k)" if "k \<in> set ?ks" for k
    using mats [OF that] facts [OF that] by (simp add: group_ok_def mat_ok_def)
  then have ok: "list_all (group_ok ts n p) (map ?g ?ks)" unfolding list_all_iff set_map by blast
  have "sum_list (map (\<lambda>g. snd g ! e ! 1) (map ?g ?ks)) = sum_list (map (\<lambda>g. snd g ! e ! 1) new)" if e: "e < n" for e
  proof -
    have "map (\<lambda>g. snd g ! e ! 1) (map ?g ?ks) = map (\<lambda>k. sum_list (map (\<lambda>(k', m). m ! e ! 1) (filter (\<lambda>(k', m). k' = k) new))) ?ks"
      unfolding map_map comp_def using facts e by (intro map_cong refl) (simp add: comp_def case_prod_unfold)
    then have "sum_list (map (\<lambda>g. snd g ! e ! 1) (map ?g ?ks)) =
      sum_list (map (\<lambda>k. sum_list (map (\<lambda>(k', m). m ! e ! 1) (filter (\<lambda>(k', m). k' = k) new))) ?ks)" by (rule arg_cong)
    also have "\<dots> = sum_list (map (\<lambda>(k', m). m ! e ! 1) new)" by (rule sum_over_keys)
    finally show ?thesis by (simp only: case_prod_unfold)
  qed
  moreover have "distinct (map fst (map ?g ?ks))" by (simp add: comp_def)
  moreover have "map ?g ?ks \<noteq> []" using assms(1) by simp
  ultimately show ?thesis using agg ok by blast
qed

lemma agg_step_ok:
  assumes "groups \<noteq> []" "list_all (group_ok ts n p) groups" "valid_treaties ts" "p < length ts"
  shows "\<exists>groups' over'. agg_step ts (groups, over) = Inr (groups', over') \<and> groups' \<noteq> [] \<and> distinct (map fst groups') \<and>
    list_all (group_ok ts n (Suc p)) groups' \<and>
    (\<forall>e < n. sum_list (map (\<lambda>g. snd g ! e ! 1) groups') = sum_list (map (\<lambda>g. snd g ! e ! 1) groups))"
proof -
  obtain new over' where new: "foldE (treat_group ts) ([], over) groups = Inr (new, over')" "list_all (group_ok ts n (Suc p)) new"
    "map (\<lambda>g. map (\<lambda>row. row ! 1) (snd g)) new = map (\<lambda>g. map (\<lambda>row. row ! 1) (snd g)) groups"
    using treat_groups_ok [OF assms(2-4), of "[]" over] by auto
  have "new \<noteq> []" using new(3) assms(1) by auto
  from agg_matrices_ok [OF this new(2)] obtain groups' where g: "agg_matrices new = Inr groups'" "groups' \<noteq> []" "distinct (map fst groups')"
    "list_all (group_ok ts n (Suc p)) groups'" and s: "\<And>e. e < n \<Longrightarrow> sum_list (map (\<lambda>g. snd g ! e ! 1) groups') = sum_list (map (\<lambda>g. snd g ! e ! 1) new)"
    by blast
  have "sum_list (map (\<lambda>g. snd g ! e ! 1) new) = sum_list (map (\<lambda>g. snd g ! e ! 1) groups)" if e: "e < n" for e
  proof -
    have nth: "map (\<lambda>g. snd g ! e ! 1) l = map (\<lambda>c. c ! e) (map (\<lambda>g. map (\<lambda>row. row ! 1) (snd g)) l)"
      if "list_all (group_ok ts n q) l" for l q
      using that e by (auto simp: list_all_iff group_ok_def)
    show ?thesis unfolding nth [OF new(2)] nth [OF assms(2)] new(3) ..
  qed
  then show ?thesis using new(1) g s by (simp add: agg_step_def)
qed

text \<open>The recursion ends with the rows of all the groups together.\<close>

lemma clever_agg_ok:
  assumes "groups \<noteq> []" "distinct (map fst groups)" "list_all (group_ok ts n p) groups" "valid_treaties ts" "p \<le> length ts"
  shows "\<exists>res over'. clever_agg ts groups over = Inr (res, over') \<and> mat_ok ts n (length ts) res \<and>
    (\<forall>e < n. res ! e ! 1 = sum_list (map (\<lambda>g. snd g ! e ! 1) groups))"
  using assms
proof (induction "length ts - p" arbitrary: p groups over)
  case 0
  then have p: "p = length ts" by simp
  have "fst g = []" if "g \<in> set groups" for g
    using "0.prems"(3) that by (auto simp: list_all_iff group_ok_def key_ok_def p)
  then have "set (map fst groups) \<subseteq> {[]}" by auto
  then have "length groups \<le> 1" using "0.prems"(2) by (metis card.empty card_insert_le_m1 card_mono distinct_card finite.emptyI finite.insertI le_zero_eq length_map card_insert_if empty_iff One_nat_def)
  then obtain g where g: "groups = [g]" using "0.prems"(1) by (cases groups) auto
  then have "fst g = []" "mat_ok ts n (length ts) (snd g)" using "0.prems"(3) by (auto simp: group_ok_def key_ok_def mat_ok_def p)
  then show ?case using g by (simp add: clever_agg.simps)
next
  case (Suc d)
  then have p: "p < length ts" by simp
  have "fst g \<noteq> []" if "g \<in> set groups" for g
    using Suc.prems(3) that p by (auto simp: list_all_iff group_ok_def key_ok_def)
  then have ne: "\<not> (length groups = 1 \<and> fst (hd groups) = [])" using Suc.prems(1) by auto
  obtain groups' over' where g': "agg_step ts (groups, over) = Inr (groups', over')" "groups' \<noteq> []" "distinct (map fst groups')"
    "list_all (group_ok ts n (Suc p)) groups'" and s: "\<And>e. e < n \<Longrightarrow> sum_list (map (\<lambda>g. snd g ! e ! 1) groups') = sum_list (map (\<lambda>g. snd g ! e ! 1) groups)"
    using agg_step_ok [OF Suc.prems(1,3,4) p, of over] by blast
  have d: "d = length ts - Suc p" "Suc p \<le> length ts" using Suc.hyps(2) p by simp_all
  obtain res over'' where "clever_agg ts groups' over' = Inr (res, over'')" "mat_ok ts n (length ts) res"
    "\<And>e. e < n \<Longrightarrow> res ! e ! 1 = sum_list (map (\<lambda>g. snd g ! e ! 1) groups')"
    using Suc.hyps(1) [OF d(1) g'(2-4) Suc.prems(4) d(2), of over'] by blast
  moreover have "clever_agg ts groups over = clever_agg ts groups' over'" by (subst clever_agg.simps) (use ne g'(1) in auto)
  ultimately show ?case using s by auto
qed

section \<open>The losses of all the events\<close>

definition row_claim :: "reins_row \<Rightarrow> rat" where
  "row_claim r = the (map_of (rr_values r) ''claim'')"

text \<open>A row as \<open>by_policy\<close> makes it: it has the claim and the cessions of the treaties that are not catxl.\<close>

definition valid_row :: "treaty list \<Rightarrow> reins_row \<Rightarrow> bool" where
  "valid_row ts r \<longleftrightarrow> key_ok ts 0 (rr_grp r) \<and>
     set (''claim'' # map tr_id (filter (\<lambda>t. tr_type t \<noteq> Catxl) ts)) \<subseteq> set (keys (rr_values r))"

lemma mapE_all: "(\<And>x. x \<in> set xs \<Longrightarrow> f x = Inr (g x)) \<Longrightarrow> mapE f xs = Inr (map g xs)"
  by (induction xs) simp_all

lemma noncat_prefix:
  assumes "sorted (map (type_index \<circ> tr_type) ts)" "q < length ts" "tr_type (ts ! q) = Catxl"
  shows "length (filter (\<lambda>t. tr_type t \<noteq> Catxl) ts) \<le> q"
proof -
  have "tr_type t = Catxl" if "t \<in> set (drop q ts)" for t
  proof -
    obtain i where "i < length (drop q ts)" "drop q ts ! i = t" using \<open>t \<in> set (drop q ts)\<close> unfolding in_set_conv_nth by blast
    then have i: "t = ts ! (q + i)" "q + i < length ts" by auto
    then have "type_index (tr_type (ts ! q)) \<le> type_index (tr_type t)" using sorted_nth_mono [OF assms(1), of q "q + i"] by simp
    then show ?thesis using assms(3) by (cases "tr_type t") simp_all
  qed
  then have "filter (\<lambda>t. tr_type t \<noteq> Catxl) (drop q ts) = []" by (simp add: filter_empty_conv)
  then have "filter (\<lambda>t. tr_type t \<noteq> Catxl) ts = filter (\<lambda>t. tr_type t \<noteq> Catxl) (take q ts)"
    by (metis append_Nil2 append_take_drop_id filter_append)
  then show ?thesis using length_filter_le [of "\<lambda>t. tr_type t \<noteq> Catxl" "take q ts"] by simp
qed

lemma first_row_ok:
  assumes "length nc = length (filter (\<lambda>t. tr_type t \<noteq> Catxl) ts)" "sorted (map (type_index \<circ> tr_type) ts)"
  shows "let row = 0 # (cl # nc) @ replicate (2 + length ts - 1 - length (cl # nc)) 0 in
    row_ok ts 0 (row[0 := row ! 1 - sum_list (drop 2 row)]) \<and> row[0 := row ! 1 - sum_list (drop 2 row)] ! 1 = (cl :: rat)"
proof -
  let ?cs = "nc @ replicate (length ts - length nc) 0"
  have l: "length nc \<le> length ts" using assms(1) by simp
  have "?cs ! q = 0" if "q < length ts" "tr_type (ts ! q) = Catxl" for q
    using noncat_prefix [OF assms(2) that] assms(1) that(1) by (simp add: nth_append)
  then have "row_ok ts 0 ((cl - sum_list ?cs) # cl # ?cs)" using l unfolding row_ok_def by auto
  then show ?thesis by (simp add: Let_def)
qed

lemma group_matrix_ok:
  assumes "list_all (valid_row ts) rows" "valid_treaties ts"
  shows "\<exists>m. group_matrix ts eids rows = Inr m \<and> mat_ok ts (length eids) 0 m \<and>
    (\<forall>e < length eids. m ! e ! 1 = sum_list (map row_claim (filter (\<lambda>r. rr_event r = eids ! e) rows)))"
proof -
  let ?nc = "map tr_id (filter (\<lambda>t. tr_type t \<noteq> Catxl) ts)"
  let ?v = "\<lambda>e col. sum_list (map (\<lambda>r. the (map_of (rr_values r) col)) (filter (\<lambda>r. rr_event r = e) rows))"
  let ?row = "\<lambda>e. 0 # (?v e ''claim'' # map (?v e) ?nc) @ replicate (2 + length ts - 1 - length (?v e ''claim'' # map (?v e) ?nc)) 0"
  let ?r = "\<lambda>e. (?row e)[0 := ?row e ! 1 - sum_list (drop 2 (?row e))]"
  have get: "mapE (\<lambda>r. dict_get (rr_values r) col) (filter (\<lambda>r. rr_event r = e) rows) =
      Inr (map (\<lambda>r. the (map_of (rr_values r) col)) (filter (\<lambda>r. rr_event r = e) rows))" if "col \<in> set (''claim'' # ?nc)" for col e
  proof (rule mapE_all)
    fix r assume "r \<in> set (filter (\<lambda>r. rr_event r = e) rows)"
    then have "col \<in> set (keys (rr_values r))" using assms(1) that by (auto simp: list_all_iff valid_row_def)
    then have "map_of (rr_values r) col \<noteq> None" by (simp add: map_of_eq_None_iff)
    then show "dict_get (rr_values r) col = Inr (the (map_of (rr_values r) col))" by (auto simp: dict_get_def)
  qed
  have vals: "mapE (\<lambda>col. bindE (mapE (\<lambda>r. dict_get (rr_values r) col) (filter (\<lambda>r. rr_event r = e) rows)) (\<lambda>vs. Inr (sum_list vs)))
    (''claim'' # ?nc) = Inr (map (?v e) (''claim'' # ?nc))" for e
    by (rule mapE_all) (use get in simp)
  have "group_matrix ts eids rows = Inr (map ?r eids)"
    unfolding group_matrix_def Let_def vals bindE_simps by (rule mapE_all) simp
  moreover have "row_ok ts 0 (?r e) \<and> ?r e ! 1 = ?v e ''claim''" for e
    using first_row_ok [of "map (?v e) ?nc" ts "?v e ''claim''"] assms(2) unfolding Let_def valid_treaties_def by simp
  ultimately show ?thesis by (auto simp: mat_ok_def list_all_iff row_claim_def [abs_def])
qed

lemma row_balanced: "row_ok ts p row \<Longrightarrow> sum_list (drop 2 row) + row ! 0 = row ! 1"
  by (auto simp: row_ok_def)

lemma by_event_ok:
  assumes "list_all (valid_row ts) rbp" "valid_treaties ts" "rbp \<noteq> []"
  shows "\<exists>rows over. by_event rbp ts = Inr (rows, over) \<and> map fst rows = sorted_list_of_set (set (map rr_event rbp)) \<and>
    (\<forall>(e, row) \<in> set rows. length row = 2 + length ts \<and> row ! 0 + sum_list (drop 2 row) = row ! 1 \<and>
      row ! 1 = sum_list (map row_claim (filter (\<lambda>r. rr_event r = e) rbp)))"
proof -
  let ?eids = "sorted_list_of_set (set (map rr_event rbp))" and ?grps = "sorted_list_of_set (set (map rr_grp rbp))"
  let ?n = "length ?eids" and ?of = "\<lambda>g. filter (\<lambda>r. rr_grp r = g) rbp"
  define M where "M g = projr (group_matrix ts ?eids (?of g))" for g
  have M: "group_matrix ts ?eids (?of g) = Inr (M g) \<and> mat_ok ts ?n 0 (M g) \<and>
      (\<forall>e < ?n. M g ! e ! 1 = sum_list (map row_claim (filter (\<lambda>r. rr_event r = ?eids ! e) (?of g))))" for g
  proof -
    have "list_all (valid_row ts) (?of g)" using assms(1) by (simp add: list_all_iff)
    from group_matrix_ok [OF this assms(2), of ?eids] show ?thesis by (auto simp: M_def)
  qed
  let ?groups = "map (\<lambda>g. (g, M g)) ?grps"
  have gs: "mapE (\<lambda>g. bindE (group_matrix ts ?eids (?of g)) (\<lambda>m. Inr (g, m))) ?grps = Inr ?groups"
    by (rule mapE_all) (simp only: conjunct1 [OF M] bindE_simps)
  have "group_ok ts ?n 0 (g, M g)" if "g \<in> set ?grps" for g
  proof -
    have "key_ok ts 0 g" using that assms(1) by (auto simp: list_all_iff valid_row_def)
    then show ?thesis using M [of g] by (simp add: group_ok_def mat_ok_def)
  qed
  then have ok: "list_all (group_ok ts ?n 0) ?groups" unfolding list_all_iff set_map by blast
  have ne: "?groups \<noteq> []" "distinct (map fst ?groups)" using assms(3) by (simp_all add: comp_def)
  obtain res over where res: "clever_agg ts ?groups [] = Inr (res, over)" "mat_ok ts ?n (length ts) res"
    and cl: "\<And>e. e < ?n \<Longrightarrow> res ! e ! 1 = sum_list (map (\<lambda>g. snd g ! e ! 1) ?groups)"
    using clever_agg_ok [OF ne ok assms(2) le0, of "[]"] by blast
  have rows: "length res = ?n" "\<And>row. row \<in> set res \<Longrightarrow> row_ok ts (length ts) row"
    using res(2) by (auto simp: mat_ok_def list_all_iff)
  have check: "list_all (\<lambda>row. sum_list (drop 2 row) + row ! 0 = row ! 1) res"
    unfolding list_all_iff using row_balanced [OF rows(2)] by blast
  have claim: "res ! e ! 1 = sum_list (map row_claim (filter (\<lambda>r. rr_event r = ?eids ! e) rbp))" if e: "e < ?n" for e
  proof -
    let ?rs = "filter (\<lambda>r. rr_event r = ?eids ! e) rbp"
    have "map (\<lambda>g. snd g ! e ! 1) ?groups = map (\<lambda>g. sum_list (map row_claim (filter (\<lambda>r. rr_grp r = g) ?rs))) ?grps"
      unfolding map_map comp_def using M e by (intro map_cong refl) (simp add: conj_commute)
    then have "res ! e ! 1 = (\<Sum>g \<leftarrow> ?grps. sum_list (map row_claim (filter (\<lambda>r. rr_grp r = g) ?rs)))" using cl [OF e] by (simp only:)
    also have "\<dots> = sum_list (map row_claim (filter (\<lambda>r. rr_grp r \<in> set ?grps) ?rs))" by (rule sum_by_keys) simp
    also have "filter (\<lambda>r. rr_grp r \<in> set ?grps) ?rs = ?rs" by (rule filter_True) auto
    finally show ?thesis .
  qed
  have "by_event rbp ts = Inr (zip ?eids res, over)" unfolding by_event_def Let_def gs bindE_simps res(1) using check by simp
  moreover have "length row = 2 + length ts \<and> row ! 0 + sum_list (drop 2 row) = row ! 1 \<and>
      row ! 1 = sum_list (map row_claim (filter (\<lambda>r. rr_event r = e) rbp))" if "(e, row) \<in> set (zip ?eids res)" for e row
  proof -
    have "\<exists>i. ?eids ! i = e \<and> res ! i = row \<and> i < ?n \<and> i < length res" using that unfolding in_set_zip fst_conv snd_conv .
    then obtain i where i: "e = ?eids ! i" "row = res ! i" "i < ?n" by (elim exE conjE) (rule that, simp_all)
    then have "row_ok ts (length ts) row" using rows by simp
    then show ?thesis using row_balanced row_ok_length claim [OF i(3)] i by (metis add.commute)
  qed
  moreover have "map fst (zip ?eids res) = ?eids" using rows(1) by (simp add: map_fst_zip)
  ultimately show ?thesis by blast
qed

section \<open>The cessions of a claim\<close>

text \<open>The dictionary of the cessions: the retention, the claim, and one list for each treaty so far.\<close>

definition split_claim :: "rat list \<Rightarrow> string list \<Rightarrow> (string, rat list) dict \<Rightarrow> bool" where
  "split_claim claim ids out \<longleftrightarrow> (\<exists>ret os. out = (''retention'', ret) # (''claim'', claim) # os \<and> map fst os = ids \<and>
     length ret = length claim \<and> (\<forall>(k, v) \<in> set os. length v = length claim) \<and>
     (\<forall>i < length claim. ret ! i + sum_list (map (\<lambda>(k, v). v ! i) os) = claim ! i))"

lemma wxlr_step_split:
  assumes "wxlr_step claim policy out t = Inr out'" "split_claim claim ids out" "tr_id t \<notin> set ids"
    "tr_id t \<noteq> ''retention''" "tr_id t \<noteq> ''claim''"
  shows "split_claim claim (ids @ [tr_id t]) out'"
proof -
  obtain ret os where out: "out = (''retention'', ret) # (''claim'', claim) # os" "map fst os = ids" "length ret = length claim"
    "\<forall>(k, v) \<in> set os. length v = length claim" and b: "\<And>i. i < length claim \<Longrightarrow> ret ! i + sum_list (map (\<lambda>(k, v). v ! i) os) = claim ! i"
    using assms(2) unfolding split_claim_def by blast
  let ?z = "map (\<lambda>_. 0 :: rat) claim"
  let ?cr = "map (apply_treaty (tr_deductible t) (tr_limit t - tr_deductible t)) (zip ?z ret)"
  have new: "AList.update (tr_id t) v out = (''retention'', ret) # (''claim'', claim) # os @ [(tr_id t, v)]" for v
    using keys_update_new [where d = out and k = "tr_id t" and v = v] assms(3-5) out(1,2) by auto
  have "out' = AList.update (tr_id t) ?z out \<or> out' = (''retention'', map snd ?cr) # (''claim'', claim) # os @ [(tr_id t, map fst ?cr)]"
    using assms(1) new by (auto simp: wxlr_step_def bindE_Inr_iff dict_get_def out(1) Let_def split: if_splits)
  then show ?thesis
  proof
    assume "out' = AList.update (tr_id t) ?z out"
    then show ?thesis unfolding split_claim_def new using out b
      by (intro exI [of _ ret] exI [of _ "os @ [(tr_id t, ?z)]"]) (auto simp: case_prod_unfold)
  next
    assume o: "out' = (''retention'', map snd ?cr) # (''claim'', claim) # os @ [(tr_id t, map fst ?cr)]"
    have "snd (?cr ! i) + fst (?cr ! i) = ret ! i" if "i < length claim" for i
      using that out(3) apply_treaty_sum [of "tr_deductible t" _ "ret ! i"] by (simp add: add.commute)
    then have "map snd ?cr ! i + sum_list (map (\<lambda>(k, v). v ! i) (os @ [(tr_id t, map fst ?cr)])) = claim ! i" if "i < length claim" for i
      using that b [OF that] out(3) by (simp add: algebra_simps)
    moreover have "length (map snd ?cr) = length claim" "\<forall>(k, v) \<in> set (os @ [(tr_id t, map fst ?cr)]). length v = length claim"
      using out(3,4) by auto
    ultimately show ?thesis unfolding split_claim_def o using out(2)
      by (intro exI [of _ "map snd ?cr"] exI [of _ "os @ [(tr_id t, map fst ?cr)]"]) simp
  qed
qed

lemma wxlr_fold_split:
  "foldE (wxlr_step claim policy) out ts = Inr out' \<Longrightarrow> split_claim claim ids out \<Longrightarrow>
     distinct (ids @ map tr_id ts) \<Longrightarrow> {''retention'', ''claim''} \<inter> set (map tr_id ts) = {} \<Longrightarrow>
     split_claim claim (ids @ map tr_id ts) out'"
proof (induction ts arbitrary: out ids)
  case (Cons t ts)
  obtain o1 where o1: "wxlr_step claim policy out t = Inr o1" "foldE (wxlr_step claim policy) o1 ts = Inr out'"
    using Cons.prems(1) by (auto simp: bindE_Inr_iff)
  have "split_claim claim (ids @ [tr_id t]) o1" by (rule wxlr_step_split [OF o1(1) Cons.prems(2)]) (use Cons.prems(3,4) in auto)
  from Cons.IH [OF o1(2) this] Cons.prems(3,4) show ?case by simp
qed simp

definition ceding_ids :: "treaty list \<Rightarrow> string list" where
  "ceding_ids ts = map tr_id (filter (\<lambda>t. tr_type t = Prop) ts) @ map tr_id (filter (\<lambda>t. tr_type t = Wxlr) ts)"

lemma cessions_split:
  assumes "cessions claim policy ts = Inr out" "distinct (ceding_ids ts)" "{''retention'', ''claim''} \<inter> set (ceding_ids ts) = {}"
  shows "split_claim claim (ceding_ids ts) out"
proof -
  let ?cols = "map tr_id (filter (\<lambda>t. tr_type t = Prop) ts)"
  obtain fs where fs: "mapE (dict_get policy) ?cols = Inr fs"
    and f: "foldE (wxlr_step claim policy) (dict_update [(''retention'', map (\<lambda>c. c * (1 - sum_list fs)) claim), (''claim'', claim)]
       (map (\<lambda>(col, q). (col, map (\<lambda>c. c * q) claim)) (zip ?cols fs))) (filter (\<lambda>t. tr_type t = Wxlr) ts) = Inr out"
    using assms(1) by (auto simp: cessions_def Let_def bindE_Inr_iff)
  let ?os = "map (\<lambda>(col, q). (col, map (\<lambda>c. c * q) claim)) (zip ?cols fs)"
  have l: "length fs = length ?cols" using mapE_length [OF fs] by simp
  have k: "map fst ?os = ?cols" using l by (simp add: comp_def case_prod_unfold map_fst_zip)
  have d: "distinct ?cols" "{''retention'', ''claim''} \<inter> set ?cols = {}" using assms(2,3) by (auto simp: ceding_ids_def)
  have out0: "dict_update [(''retention'', map (\<lambda>c. c * (1 - sum_list fs)) claim), (''claim'', claim)] ?os =
    (''retention'', map (\<lambda>c. c * (1 - sum_list fs)) claim) # (''claim'', claim) # ?os"
  proof -
    have "distinct (map fst [(''retention'', map (\<lambda>c. c * (1 - sum_list fs)) claim), (''claim'', claim)] @ map fst ?os)"
      unfolding k using d by simp
    from dict_update_distinct [OF this] show ?thesis by simp
  qed
  have sum: "sum_list (map (\<lambda>(k, v). v ! i) (map (\<lambda>(col, q). (col, map (\<lambda>c. c * q) claim)) (zip cols gs))) = claim ! i * sum_list gs"
    if "i < length claim" "length gs = length cols" for i gs and cols :: "string list"
    using that(2) by (induction gs cols rule: list_induct2) (use that(1) in \<open>simp_all add: algebra_simps\<close>)
  have "split_claim claim ?cols (dict_update [(''retention'', map (\<lambda>c. c * (1 - sum_list fs)) claim), (''claim'', claim)] ?os)"
    unfolding out0 split_claim_def using k sum [OF _ l]
    by (intro exI [of _ "map (\<lambda>c. c * (1 - sum_list fs)) claim"] exI [of _ ?os]) (auto simp: algebra_simps)
  from wxlr_fold_split [OF f this] assms(2,3) show ?thesis by (auto simp: ceding_ids_def)
qed

text \<open>Rounding moves every amount by at most half a millionth.\<close>

lemma round6_error: "\<bar>round6 x - x\<bar> \<le> 1 / 2000000"
proof -
  let ?y = "x * 10 ^ 6"
  have "\<bar>of_int (round_even ?y) - ?y\<bar> \<le> 1 / 2"
  proof -
    have f: "of_int \<lfloor>?y\<rfloor> \<le> ?y" "?y < of_int \<lfloor>?y\<rfloor> + 1" by linarith+
    show ?thesis unfolding round_even_def Let_def using f by (auto split: if_splits)
  qed
  moreover have "round6 x - x = (of_int (round_even ?y) - ?y) / 10 ^ 6" by (simp add: round6_def field_simps)
  then have "\<bar>round6 x - x\<bar> = \<bar>of_int (round_even ?y) - ?y\<bar> / 10 ^ 6" by (simp only: abs_divide) simp
  ultimately show ?thesis by simp
qed

lemma round6_sum: "\<bar>sum_list (map (round6 \<circ> f) l) - sum_list (map f l)\<bar> \<le> of_nat (length l) / 2000000"
proof (induction l)
  case (Cons a l)
  have "sum_list (map (round6 \<circ> f) (a # l)) - sum_list (map f (a # l)) =
    (round6 (f a) - f a) + (sum_list (map (round6 \<circ> f) l) - sum_list (map f l))" by simp
  also have "\<bar>\<dots>\<bar> \<le> 1 / 2000000 + of_nat (length l) / 2000000" using round6_error [of "f a"] Cons by linarith
  finally show ?case by (simp add: add_divide_distrib comp_def)
qed simp

lemma claim_to_cessions_balanced:
  assumes "claim_to_cessions claim policy ts = Inr out" "distinct (ceding_ids ts)"
    "{''retention'', ''claim''} \<inter> set (ceding_ids ts) = {}"
  shows "keys out = ''retention'' # ''claim'' # ceding_ids ts"
    and "\<And>i. i < length claim \<Longrightarrow> \<bar>sum_list (map (\<lambda>(k, v). v ! i) (filter (\<lambda>(k, v). k \<noteq> ''claim'') out)) - claim ! i\<bar> \<le>
      of_nat (1 + length (ceding_ids ts)) / 2000000"
proof -
  obtain o1 where o1: "cessions claim policy ts = Inr o1" "out = map (\<lambda>(k, v). (k, map round6 v)) o1"
    using assms(1) by (auto simp: claim_to_cessions_def bindE_Inr_iff)
  obtain ret os where sp: "o1 = (''retention'', ret) # (''claim'', claim) # os" "map fst os = ceding_ids ts" "length ret = length claim"
    "\<forall>(k, v) \<in> set os. length v = length claim" and b: "\<And>i. i < length claim \<Longrightarrow> ret ! i + sum_list (map (\<lambda>(k, v). v ! i) os) = claim ! i"
    using cessions_split [OF o1(1) assms(2,3)] unfolding split_claim_def by blast
  show "keys out = ''retention'' # ''claim'' # ceding_ids ts" using sp(2) by (simp add: o1(2) sp(1) comp_def case_prod_unfold)
  have nc: "filter (\<lambda>(k, v). k \<noteq> ''claim'') os = os"
  proof (rule filter_True, safe)
    fix v assume "(''claim'', v) \<in> set os"
    then have "''claim'' \<in> set (map fst os)" by force
    then show False using assms(3) unfolding sp(2) by auto
  qed
  let ?l = "(''retention'', ret) # os"
  have f: "filter (\<lambda>(k, v). k \<noteq> ''claim'') out = map (\<lambda>(k, v). (k, map round6 v)) ?l"
    using nc by (simp add: o1(2) sp(1) filter_map comp_def case_prod_unfold)
  have l: "length os = length (ceding_ids ts)" using sp(2) by (metis length_map)
  show "\<bar>sum_list (map (\<lambda>(k, v). v ! i) (filter (\<lambda>(k, v). k \<noteq> ''claim'') out)) - claim ! i\<bar> \<le>
      of_nat (1 + length (ceding_ids ts)) / 2000000" if i: "i < length claim" for i
  proof -
    have len: "\<forall>(k, v) \<in> set ?l. i < length v" using sp(3,4) i by auto
    then have "map (\<lambda>(k, v). v ! i) (filter (\<lambda>(k, v). k \<noteq> ''claim'') out) = map (round6 \<circ> (\<lambda>(k, v). v ! i)) ?l"
      unfolding f by (simp only: map_map) (auto intro!: map_cong)
    moreover have "sum_list (map (\<lambda>(k, v). v ! i) ?l) = claim ! i" using b [OF i] by simp
    ultimately show ?thesis using l round6_sum [of "\<lambda>(k, v). v ! i" ?l] by simp
  qed
qed

section \<open>What the checks ensure\<close>

lemma mapE_rej: "mapE (\<lambda>x. bindE (f x) (\<lambda>c. rej (P x c))) xs = Inr us \<Longrightarrow> x \<in> set xs \<Longrightarrow> \<exists>c. f x = Inr c \<and> \<not> P x c"
  by (induction xs arbitrary: us) (auto simp: bindE_Inr_iff rej_def split: if_splits)

lemma rej_Inr [simp]: "rej b = Inr u \<longleftrightarrow> \<not> b"
  by (simp add: rej_def)

lemma check_order_sorted:
  "check_order df prev l = Inr u \<Longrightarrow> sorted (map type_index (case prev of None \<Rightarrow> map snd l | Some p \<Rightarrow> p # map snd l)) \<and>
     set (map fst l) \<subseteq> set (po_columns df)"
proof (induction df prev l rule: check_order.induct)
  case (2 df prev t ty rest)
  then have "sorted (map type_index (ty # map snd rest)) \<and> set (map fst rest) \<subseteq> set (po_columns df)"
    "t \<in> set (po_columns df)" "case prev of None \<Rightarrow> True | Some p \<Rightarrow> type_index p \<le> type_index ty"
    by (auto simp: bindE_Inr_iff split: option.splits)
  then show ?case by (auto split: option.splits)
qed (auto split: option.splits)

lemma check_fields_ok:
  assumes "check_fields policyidx df treaties = Inr idx"
  shows "distinct (po_policy df)" and "set (tl (keys policyidx)) \<subseteq> set (po_policy df)"
    and "sorted (map (type_index \<circ> snd) treaties)" and "set (map fst treaties) \<subseteq> set (po_columns df)"
    and "\<And>row. row \<in> set (po_rows df) \<Longrightarrow> 0 \<le> the (cell ''liability'' row) \<and> 0 \<le> the (cell ''deductible'' row) \<and>
      cell ''liability'' row \<noteq> None \<and> cell ''deductible'' row \<noteq> None"
    and "\<And>row. row \<in> set (po_rows df) \<Longrightarrow> \<exists>q. opt_sum (map (\<lambda>t. cell t row) (map fst (filter (\<lambda>(t, ty). ty = Prop) treaties))) = Some q \<and> q \<le> 1"
    and "\<And>t ty row. (t, ty) \<in> set treaties \<Longrightarrow> ty \<noteq> Prop \<Longrightarrow> row \<in> set (po_rows df) \<Longrightarrow> cell t row \<in> {Some 0, Some 1}"
proof -
  have "\<exists>ded lia. attr_column df ''deductible'' = Inr ded \<and> None \<notin> set ded \<and> attr_column df ''liability'' = Inr lia \<and> None \<notin> set lia \<and>
    distinct (po_policy df) \<and> check_order df None treaties = Inr () \<and> set (tl (keys policyidx)) \<subseteq> set (po_policy df) \<and>
    \<not> (\<exists>q \<in> set lia. the q < 0) \<and> \<not> (\<exists>q \<in> set ded. the q < 0) \<and> check_treaties policyidx df treaties = Inr idx"
    using assms unfolding check_fields_def bindE_Inr_iff rej_Inr by auto
  then obtain ded lia where d: "attr_column df ''deductible'' = Inr ded" "None \<notin> set ded" "\<not> (\<exists>q \<in> set ded. the q < 0)"
    and l: "attr_column df ''liability'' = Inr lia" "None \<notin> set lia" "\<not> (\<exists>q \<in> set lia. the q < 0)"
    and r: "distinct (po_policy df)" "check_order df None treaties = Inr ()" "set (tl (keys policyidx)) \<subseteq> set (po_policy df)"
      "check_treaties policyidx df treaties = Inr idx" by blast
  show "distinct (po_policy df)" "set (tl (keys policyidx)) \<subseteq> set (po_policy df)" by (fact r)+
  show "sorted (map (type_index \<circ> snd) treaties)" "set (map fst treaties) \<subseteq> set (po_columns df)"
    using check_order_sorted [OF r(2)] by simp_all
  have cols: "ded = map (cell ''deductible'') (po_rows df)" "lia = map (cell ''liability'') (po_rows df)"
    using d(1) l(1) by (auto simp: attr_column_def split: if_splits)
  show "0 \<le> the (cell ''liability'' row) \<and> 0 \<le> the (cell ''deductible'' row) \<and>
      cell ''liability'' row \<noteq> None \<and> cell ''deductible'' row \<noteq> None" if "row \<in> set (po_rows df)" for row
    using d(2,3) l(2,3) that unfolding cols by (force simp: not_less)
  let ?props = "map fst (filter (\<lambda>(t, ty). ty = Prop) treaties)"
  have "\<exists>us. mapE (\<lambda>(t, ty). if ty = Prop then Inr () else bindE (column df t) (\<lambda>c. rej (\<not> set c \<subseteq> {Some 0, Some 1}))) treaties = Inr us"
    and sums: "list_all (\<lambda>row. case opt_sum (map (\<lambda>t. cell t row) ?props) of None \<Rightarrow> False | Some q \<Rightarrow> 0 \<le> q \<and> q \<le> 1) (po_rows df)"
    using r(4) unfolding check_treaties_def Let_def bindE_Inr_iff rej_Inr by blast+
  then obtain us where flags: "mapE (\<lambda>(t, ty). if ty = Prop then Inr () else bindE (column df t) (\<lambda>c. rej (\<not> set c \<subseteq> {Some 0, Some 1}))) treaties = Inr us"
    by blast
  show "\<exists>q. opt_sum (map (\<lambda>t. cell t row) ?props) = Some q \<and> q \<le> 1" if "row \<in> set (po_rows df)" for row
    using sums that unfolding list_all_iff by (fastforce split: option.splits)
  show "cell t row \<in> {Some 0, Some 1}" if "(t, ty) \<in> set treaties" "ty \<noteq> Prop" "row \<in> set (po_rows df)" for t ty row
  proof -
    have "is_ok (if ty = Prop then Inr () else bindE (column df t) (\<lambda>c. rej (\<not> set c \<subseteq> {Some 0, Some 1})))"
      using flags that(1) by (induction treaties arbitrary: us) (auto simp: bindE_Inr_iff rej_def)
    then have "set (map (cell t) (po_rows df)) \<subseteq> {Some 0, Some 1}"
      using that(2) by (auto simp: is_ok_iff bindE_Inr_iff column_def split: if_splits)
    then show ?thesis using that(3) by auto
  qed
qed

section \<open>From the policies to the events\<close>

lemma dot_not_base183: "CHR ''.'' \<notin> set base183"
  by code_simp

lemma make_treaties_valid:
  assumes "make_treaties l = Inr ts" "sorted (map (\<lambda>(t, ty, d, li). type_index ty) l)"
  shows "valid_treaties ts"
proof -
  let ?f = "\<lambda>(i, t, ty, d, li). if i < length base183
     then Inr \<lparr>tr_id = t, tr_type = ty, tr_deductible = d, tr_limit = li, tr_code = base183 ! i\<rparr> else Inl IndexError"
  have main: "mapE ?f (enumerate n l) = Inr ts \<Longrightarrow> map tr_code ts = map ((!) base183) [n..<n + length l] \<and>
      (l \<noteq> [] \<longrightarrow> n + length l \<le> length base183) \<and> map (type_index \<circ> tr_type) ts = map (\<lambda>(t, ty, d, li). type_index ty) l" for n l and ts :: "treaty list"
  proof (induction l arbitrary: n ts)
    case (Cons p l)
    obtain t ty d li where p: "p = (t, ty, d, li)" by (cases p)
    from Cons.prems obtain ts1 where n: "n < length base183" and ts1: "mapE ?f (enumerate (Suc n) l) = Inr ts1"
      "ts = \<lparr>tr_id = t, tr_type = ty, tr_deductible = d, tr_limit = li, tr_code = base183 ! n\<rparr> # ts1"
      by (auto simp: p bindE_Inr_iff split: if_splits)
    have "[n..<n + length (p # l)] = n # [Suc n..<Suc n + length l]" by (simp add: upt_rec)
    then show ?case using Cons.IH [OF ts1(1)] ts1(2) n by (auto simp: p)
  qed simp
  note m = main [OF assms(1) [unfolded make_treaties_def]]
  have le: "length l \<le> length base183" using m by (cases "l = []") auto
  then have "map tr_code ts = take (length l) base183" using m by (intro nth_equalityI) (auto simp: min_def)
  then show ?thesis using distinct_base183 dot_not_base183 m assms(2) unfolding valid_treaties_def
    by (auto dest: in_set_takeD)
qed

lemma build_policy_grp_ok: "build_policy_grp policy ts = Inr g \<Longrightarrow> key_ok ts 0 g"
proof (induction ts arbitrary: g)
  case (Cons t ts)
  then obtain c g' where g: "g = c # g'" "c = tr_code t \<or> c = CHR ''.''" "build_policy_grp policy ts = Inr g'"
    by (auto simp: build_policy_grp_def bindE_Inr_iff split: if_splits)
  then show ?case using Cons.IH [OF g(3)] by (auto simp: key_ok_def nth_Cons' less_Suc_eq_0_disj)
qed (simp add: build_policy_grp_def key_ok_def)

lemma noncat_ids: "set (map tr_id (filter (\<lambda>t. tr_type t \<noteq> Catxl) ts)) \<subseteq> set (ceding_ids ts)"
proof -
  have "ty = Prop \<or> ty = Wxlr" if "ty \<noteq> Catxl" for ty using that by (cases ty) simp_all
  then show ?thesis by (fastforce simp: ceding_ids_def)
qed

lemma by_policy_valid:
  assumes "by_policy rbe pid policy ts = Inr rows" "distinct (ceding_ids ts)" "{''retention'', ''claim''} \<inter> set (ceding_ids ts) = {}"
  shows "list_all (valid_row ts) rows"
proof -
  have "\<exists>claim out grp. claim_to_cessions claim policy ts = Inr out \<and> build_policy_grp policy ts = Inr grp \<and>
      (\<forall>r \<in> set rows. rr_grp r = grp \<and> keys (rr_values r) = keys out)"
    using assms(1) unfolding by_policy_def Let_def bindE_Inr_iff
    by (elim exE conjE) (intro exI conjI, assumption, assumption, force simp: comp_def case_prod_unfold)
  then obtain claim out grp where out: "claim_to_cessions claim policy ts = Inr out" and grp: "build_policy_grp policy ts = Inr grp"
    and rows: "\<And>r. r \<in> set rows \<Longrightarrow> rr_grp r = grp \<and> keys (rr_values r) = keys out" by blast
  obtain o1 where o1: "cessions claim policy ts = Inr o1" "out = map (\<lambda>(k, v). (k, map round6 v)) o1"
    using out by (auto simp: claim_to_cessions_def bindE_Inr_iff)
  obtain ret os where "o1 = (''retention'', ret) # (''claim'', claim) # os" "map fst os = ceding_ids ts"
    using cessions_split [OF o1(1) assms(2,3)] unfolding split_claim_def by blast
  then have "keys out = ''retention'' # ''claim'' # ceding_ids ts" by (simp add: o1(2) comp_def case_prod_unfold)
  then have "valid_row ts r" if "r \<in> set rows" for r
    using rows [OF that] build_policy_grp_ok [OF grp] noncat_ids [of ts] by (auto simp: valid_row_def)
  then show ?thesis by (simp add: list_all_iff)
qed

text \<open>
  \<open>reins_by_policy\<close>: the table of the losses, as rows (event, policy number minus one, loss type, loss), is
  read in slices, and each slice goes through all the policies. Without policies nothing is yielded.
\<close>

definition read_losses :: "(int \<times> int \<times> nat \<times> rat) list \<Rightarrow> nat \<Rightarrow> slice \<Rightarrow> (int \<times> int \<times> rat) list" where
  "read_losses rbe loss_id slc = map (\<lambda>(e, a, l, x). (e, a, x)) (filter (\<lambda>(e, a, l, x). l = loss_id)
     (take (nat (snd slc - fst slc)) (drop (nat (fst slc)) rbe)))"

definition reins_by_policy :: "int \<Rightarrow> (int \<times> int \<times> nat \<times> rat) list \<Rightarrow> (int \<times> (string, rat) dict) list \<Rightarrow> treaty list \<Rightarrow> nat \<Rightarrow>
    reins_row list option res" where
  "reins_by_policy max_rows rbe policies ts loss_id = bindE (gen_slices 0 (int (length rbe)) max_rows) (\<lambda>slcs.
     bindE (mapE (\<lambda>slc. mapE (\<lambda>(pid, policy). by_policy (read_losses rbe loss_id slc) pid policy ts) policies) slcs) (\<lambda>dfs.
     Inr (if concat dfs = [] then None else Some (concat (concat dfs)))))"

lemma reins_by_policy_valid:
  assumes "reins_by_policy max_rows rbe pols ts loss_id = Inr (Some rbp)" "distinct (ceding_ids ts)"
    "{''retention'', ''claim''} \<inter> set (ceding_ids ts) = {}"
  shows "list_all (valid_row ts) rbp"
proof -
  obtain slcs dfs where d: "mapE (\<lambda>slc. mapE (\<lambda>(pid, policy). by_policy (read_losses rbe loss_id slc) pid policy ts) pols) slcs = Inr dfs"
    "rbp = concat (concat dfs)"
    using assms(1) unfolding reins_by_policy_def bindE_Inr_iff by (elim exE conjE) (auto split: if_splits)
  have "list_all (valid_row ts) rows" if "df \<in> set dfs" "rows \<in> set df" for df rows
    using mapE_mem [OF d(1) that(1)] that(2) by (auto dest!: mapE_mem intro: by_policy_valid [OF _ assms(2,3)])
  then show ?thesis unfolding d(2) list_all_iff by auto
qed

end
