(* ===== verification/Nodes.thy ===== *)
theory Nodes
  imports Py_Show Containers
begin

text \<open>
  The nodes of baselib/node.py: trees with a tag, attributes, a text and subnodes. The values of the
  attributes and of the text are the objects that the validators make of the strings. The theory has
  the access to the subnodes and attributes, the comparison and the copy of nodes, and their
  conversion to nested dictionaries and back, with the conditions under which nothing is lost.
\<close>

section \<open>Objects\<close>

datatype obj = ONone | OBool bool | OInt int | OFloat pyfloat | OStr string | OList "obj list" | ODict "(string \<times> obj) list"

section \<open>Nodes\<close>

datatype node = Node (nd_tag: string) (nd_attrib: "(string, obj) dict") (nd_text: obj) (nd_nodes: "node list") (nd_line: "int option")

text \<open>\<open>striptag\<close>: a qualified tag is cut at its closing braces; the second piece is taken.\<close>

definition striptag :: "string \<Rightarrow> string res" where
  "striptag tag = (if startswith tag ''{'' then py_index (split_on CHR ''}'' tag) 1 else Inr tag)"

definition node_init :: "string \<Rightarrow> (string, obj) dict \<Rightarrow> obj \<Rightarrow> node list \<Rightarrow> int option \<Rightarrow> node res" where
  "node_init tag attrib text nodes line = bindE (checkE (nodes = [] \<or> text = ONone) ValueError) (\<lambda>_.
     Inr (Node tag attrib text nodes line))"

fun find_node :: "string \<Rightarrow> node list \<Rightarrow> node option res" where
  "find_node nm [] = Inr None"
| "find_node nm (n # ns) = bindE (striptag (nd_tag n)) (\<lambda>t. if t = nm then Inr (Some n) else find_node nm ns)"

definition node_getattr :: "node \<Rightarrow> string \<Rightarrow> node res" where
  "node_getattr n nm = (if startswith nm ''_'' then Inl AttributeError
     else bindE (find_node nm (nd_nodes n)) (\<lambda>r. case r of Some m \<Rightarrow> Inr m
       | None \<Rightarrow> bindE (striptag (nd_tag n)) (\<lambda>_. Inl AttributeError)))"

definition getnodes :: "node \<Rightarrow> string \<Rightarrow> node list res" where
  "getnodes n nm = bindE (mapE (\<lambda>m. bindE (striptag (nd_tag m)) (\<lambda>t. Inr (t, m))) (nd_nodes n)) (\<lambda>l.
     Inr (map snd (filter (\<lambda>(t, m). t = nm) l)))"

fun node_append :: "node \<Rightarrow> node \<Rightarrow> node" where
  "node_append (Node tag attrib text nodes line) m = Node tag attrib text (nodes @ [m]) line"

text \<open>The items of a node are its attributes, by name, and its subnodes, by position.\<close>

definition node_get_attr :: "node \<Rightarrow> string \<Rightarrow> obj res" where
  "node_get_attr n k = dict_get (nd_attrib n) k"

definition node_get_sub :: "node \<Rightarrow> int \<Rightarrow> node res" where
  "node_get_sub n i = py_index (nd_nodes n) i"

definition node_get :: "node \<Rightarrow> string \<Rightarrow> obj \<Rightarrow> obj" where
  "node_get n k d = (case map_of (nd_attrib n) k of None \<Rightarrow> d | Some v \<Rightarrow> v)"

fun node_set_attr :: "node \<Rightarrow> string \<Rightarrow> obj \<Rightarrow> node" where
  "node_set_attr (Node tag attrib text nodes line) k v = Node tag (AList.update k v attrib) text nodes line"

fun node_set_sub :: "node \<Rightarrow> int \<Rightarrow> node \<Rightarrow> node res" where
  "node_set_sub (Node tag attrib text nodes line) i m =
     bindE (norm_index (length nodes) i) (\<lambda>j. Inr (Node tag attrib text (nodes[j := m]) line))"

fun node_del_attr :: "node \<Rightarrow> string \<Rightarrow> node res" where
  "node_del_attr (Node tag attrib text nodes line) k =
     bindE (dict_get attrib k) (\<lambda>_. Inr (Node tag (dict_pop k attrib) text nodes line))"

fun node_del_sub :: "node \<Rightarrow> int \<Rightarrow> node res" where
  "node_del_sub (Node tag attrib text nodes line) i =
     bindE (norm_index (length nodes) i) (\<lambda>j. Inr (Node tag attrib text (take j nodes @ drop (Suc j) nodes) line))"

definition node_invert :: "node \<Rightarrow> obj res" where
  "node_invert n = (if nd_nodes n \<noteq> [] then Inl TypeError else Inr (nd_text n))"

text \<open>\<open>__eq__\<close> compares all the slots, the attributes as dictionaries; \<open>node_copy\<close> makes new nodes.\<close>

definition dict_eq :: "(string, obj) dict \<Rightarrow> (string, obj) dict \<Rightarrow> bool" where
  "dict_eq a b \<longleftrightarrow> length a = length b \<and> list_all (\<lambda>(k, v). map_of b k = Some v) a"

fun node_eq :: "node \<Rightarrow> node \<Rightarrow> bool" and nodes_eq :: "node list \<Rightarrow> node list \<Rightarrow> bool" where
  "node_eq (Node t a x ns l) (Node t' a' x' ns' l') = (t = t' \<and> dict_eq a a' \<and> x = x' \<and> nodes_eq ns ns' \<and> l = l')"
| "nodes_eq [] [] = True"
| "nodes_eq (n # ns) (m # ms) = (node_eq n m \<and> nodes_eq ns ms)"
| "nodes_eq _ _ = False"

fun node_copy :: "node \<Rightarrow> node res" and nodes_copy :: "node list \<Rightarrow> node list res" where
  "node_copy (Node t a x ns l) = bindE (nodes_copy ns) (\<lambda>ns'. node_init t a x ns' None)"
| "nodes_copy [] = Inr []"
| "nodes_copy (n # ns) = bindE (node_copy n) (\<lambda>n'. bindE (nodes_copy ns) (\<lambda>ns'. Inr (n' # ns')))"

text \<open>\<open>to_literal\<close>, a nested list.\<close>

fun to_literal :: "node \<Rightarrow> obj" where
  "to_literal (Node t a x ns l) = OList [OStr t, ODict a, x, OList (map to_literal ns)]"

section \<open>Nodes and dictionaries\<close>

text \<open>
  \<open>itertools.groupby\<close> on the items gives the runs of equal keys; a key with several runs keeps the
  last one.
\<close>

fun key_runs :: "(string \<times> obj) list \<Rightarrow> (string \<times> obj list) list" where
  "key_runs [] = []"
| "key_runs ((k, v) # l) = (case key_runs l of
     (k', vs) # r \<Rightarrow> if k' = k then (k, v # vs) # r else (k, [v]) # (k', vs) # r | [] \<Rightarrow> [(k, [v])])"

definition group_items :: "(string \<times> obj) list \<Rightarrow> (string, obj) dict" where
  "group_items items = foldl (\<lambda>d (k, vs). AList.update k (case vs of [v] \<Rightarrow> v | _ \<Rightarrow> OList vs) d) [] (key_runs items)"

definition attrib_items :: "(string, obj) dict \<Rightarrow> (string, obj) dict" where
  "attrib_items attrib = foldl (\<lambda>d (nam, val). AList.update (CHR ''_'' # nam) val d) [] attrib"

definition with_text :: "(string, obj) dict \<Rightarrow> obj \<Rightarrow> obj" where
  "with_text attrib text = (let d = attrib_items attrib;
       other = (if attrib \<noteq> [] then ODict (AList.update ''text'' text d) else text) in
     case text of ONone \<Rightarrow> ODict d | OStr s \<Rightarrow> if strip s = [] then ODict d else other | _ \<Rightarrow> other)"

fun node_item :: "node \<Rightarrow> (string \<times> obj) res" and node_items :: "node list \<Rightarrow> (string \<times> obj) list res" where
  "node_item (Node tag attrib text nodes line) = bindE (striptag tag) (\<lambda>t.
     let dic = with_text attrib text in
     if nodes = [] then Inr (t, dic)
     else case dic of
       ODict d \<Rightarrow> bindE (node_items nodes) (\<lambda>items. Inr (t, ODict (dict_update d (group_items items))))
     | _ \<Rightarrow> Inl AttributeError)"
| "node_items [] = Inr []"
| "node_items (n # ns) = bindE (node_item n) (\<lambda>i. bindE (node_items ns) (\<lambda>l. Inr (i # l)))"

definition node_to_dict :: "node \<Rightarrow> obj res" where
  "node_to_dict n = bindE (node_item n) (\<lambda>i. Inr (ODict [i]))"

text \<open>
  \<open>node_from_dict\<close> takes the text and the attributes off the dictionary, whose only other key is the
  tag of the subnodes.
\<close>

definition is_attr :: "string \<Rightarrow> bool" where
  "is_attr k \<longleftrightarrow> startswith k ''_''"

definition dict_attribs :: "(string, obj) dict \<Rightarrow> (string, obj) dict" where
  "dict_attribs d = map (\<lambda>n. (tl n, the (map_of d n))) (filter is_attr (sort (keys d)))"

definition dict_rest :: "(string, obj) dict \<Rightarrow> (string, obj) dict" where
  "dict_rest d = filter (\<lambda>(k, v). \<not> is_attr k) (dict_pop ''text'' d)"

definition as_list :: "obj \<Rightarrow> obj list" where
  "as_list v = (case v of OList vs \<Rightarrow> vs | _ \<Rightarrow> [v])"

lemma dict_rest_size: "(k, v) \<in> set (dict_rest d) \<Longrightarrow> size v < size (ODict d)"
proof -
  assume "(k, v) \<in> set (dict_rest d)"
  then have "(k, v) \<in> set d" by (auto simp: dict_rest_def dict_pop_def AList.delete_eq)
  then show ?thesis by (induction d) auto
qed

definition items_size :: "obj list \<Rightarrow> nat" where
  "items_size vs = sum_list (map (\<lambda>v. 2 * size v + 1) vs)"

lemma as_list_size: "items_size (as_list v) \<le> 2 * size v + 1"
proof -
  have "items_size vs \<le> 2 * size_list size vs" for vs by (induction vs) (auto simp: items_size_def)
  then have "items_size vs \<le> 2 * size (OList vs) + 1" for vs by (simp add: le_SucI)
  then show ?thesis by (cases v) (simp_all only: as_list_def obj.case, simp_all add: items_size_def)
qed

function from_item :: "string \<Rightarrow> obj \<Rightarrow> node res" and from_items :: "string \<Rightarrow> obj list \<Rightarrow> node list res" where
  "from_item tag v = (case v of
     ODict d \<Rightarrow> (let text = (case map_of d ''text'' of None \<Rightarrow> ONone | Some x \<Rightarrow> x); attrib = dict_attribs d in
       case dict_rest d of
         [] \<Rightarrow> node_init tag attrib text [] None
       | [(k, vs)] \<Rightarrow> bindE (from_items k (as_list vs)) (\<lambda>nodes. node_init tag attrib ONone nodes None)
       | _ \<Rightarrow> Inl ValueError)
   | _ \<Rightarrow> node_init tag [] v [] None)"
| "from_items k vs = (case vs of [] \<Rightarrow> Inr []
   | v # vs' \<Rightarrow> bindE (from_item k v) (\<lambda>n. bindE (from_items k vs') (\<lambda>ns. Inr (n # ns))))"
  by pat_completeness auto
termination
proof (relation "measure (case_sum (\<lambda>(t, v). 2 * size v) (\<lambda>(k, vs). items_size vs))", goal_cases)
  case (2 tag v d t0 attrib kv l k vs)
  then have "size vs < size (ODict d)" by (intro dict_rest_size [of k]) simp
  then show ?case using 2 as_list_size [of vs] by simp
qed (auto simp: items_size_def)

lemmas [simp del] = from_item.simps from_items.simps

definition node_from_dict :: "obj \<Rightarrow> node res" where
  "node_from_dict v = (case v of ODict [(tag, d)] \<Rightarrow> from_item tag d | ODict _ \<Rightarrow> Inl ValueError | _ \<Rightarrow> Inl AttributeError)"

section \<open>What the conversions keep\<close>

definition is_list :: "obj \<Rightarrow> bool" where
  "is_list v = (case v of OList vs \<Rightarrow> True | _ \<Rightarrow> False)"

definition text_ok :: "obj \<Rightarrow> bool" where
  "text_ok x = (case x of OList vs \<Rightarrow> False | ODict d \<Rightarrow> False | OStr s \<Rightarrow> strip s \<noteq> [] | _ \<Rightarrow> True)"

definition sub_tag :: "string \<Rightarrow> bool" where
  "sub_tag t \<longleftrightarrow> t \<noteq> ''text'' \<and> \<not> is_attr t"

text \<open>
  The nodes that a dictionary can hold: without namespaces and line numbers, with the attributes
  sorted, a text that is not blank, a list or together with subnodes, and subnodes of one tag only, which
  is not taken for a text or an attribute.
\<close>

fun flat_node :: "node \<Rightarrow> bool" where
  "flat_node (Node tag attrib text nodes line) = (\<not> startswith tag ''{'' \<and> line = None \<and> sorted_wrt (<) (keys attrib) \<and>
     text_ok text \<and> (nodes = [] \<or> text = ONone \<and> sub_tag (nd_tag (hd nodes))) \<and>
     list_all (\<lambda>m. nd_tag m = nd_tag (hd nodes)) nodes \<and> list_all flat_node nodes)"

lemma attrib_items_map: "distinct (keys a) \<Longrightarrow> attrib_items a = map (\<lambda>(n, v). (CHR ''_'' # n, v)) a"
proof -
  have "distinct (keys a) \<Longrightarrow> \<forall>n \<in> set (keys a). CHR ''_'' # n \<notin> set (keys acc) \<Longrightarrow>
      foldl (\<lambda>d (nam, val). AList.update (CHR ''_'' # nam) val d) acc a = acc @ map (\<lambda>(n, v). (CHR ''_'' # n, v)) a" for acc
  proof (induction a arbitrary: acc)
    case (Cons p a)
    obtain n v where p: "p = (n, v)" by fastforce
    have "\<forall>n' \<in> set (keys a). CHR ''_'' # n' \<notin> set (keys (acc @ [(CHR ''_'' # n, v)]))" using Cons.prems by (auto simp: p)
    then have "foldl (\<lambda>d (nam, val). AList.update (CHR ''_'' # nam) val d) (acc @ [(CHR ''_'' # n, v)]) a =
        (acc @ [(CHR ''_'' # n, v)]) @ map (\<lambda>(n, v). (CHR ''_'' # n, v)) a" using Cons.prems(1) by (intro Cons.IH) (simp_all add: p)
    moreover have "AList.update (CHR ''_'' # n) v acc = acc @ [(CHR ''_'' # n, v)]" using Cons.prems(2) by (intro keys_update_new) (simp add: p)
    ultimately show ?case by (simp add: p)
  qed simp
  from this [of "[]"] show "distinct (keys a) \<Longrightarrow> ?thesis" by (simp add: attrib_items_def)
qed

lemma key_runs_same: "vs \<noteq> [] \<Longrightarrow> key_runs (map (Pair t) vs) = [(t, vs)]"
proof (induction vs)
  case (Cons v vs)
  then show ?case by (cases "vs = []") simp_all
qed simp

lemma group_items_same: "vs \<noteq> [] \<Longrightarrow> group_items (map (Pair t) vs) = [(t, case vs of [v] \<Rightarrow> v | _ \<Rightarrow> OList vs)]"
  by (simp add: group_items_def key_runs_same)

lemma sorted_cons_keys: "sorted_wrt (<) ks \<Longrightarrow> sorted (map ((#) (c :: char)) ks)"
  by (induction ks) (auto simp: less_imp_le)

lemma dict_attribs_map:
  assumes "sorted_wrt (<) (keys a)" "\<And>k. k \<in> set (keys r) \<Longrightarrow> \<not> is_attr k"
  shows "dict_attribs (map (\<lambda>(n, v). (CHR ''_'' # n, v)) a @ r) = a"
proof -
  let ?m = "map (\<lambda>(n, v). (CHR ''_'' # n, v)) a"
  have keys: "keys ?m = map ((#) CHR ''_'') (keys a)" by (induction a) auto
  have "filter is_attr (keys r) = []" using assms(2) by (simp add: filter_empty_conv)
  moreover have "filter is_attr (keys ?m) = keys ?m" unfolding keys by (simp add: filter_id_conv is_attr_def)
  ultimately have f: "filter is_attr (sort (keys (?m @ r))) = keys ?m"
    by (simp only: filter_sort map_append filter_append append_Nil2) (simp only: keys sorted_sort_id [OF sorted_cons_keys [OF assms(1)]])
  have d: "distinct (keys a)" using assms(1) by (simp add: strict_sorted_iff)
  have "map_of (?m @ r) (CHR ''_'' # n) = Some v" if "(n, v) \<in> set a" for n v
  proof -
    have "distinct (keys ?m)" unfolding keys using d by (simp only: distinct_map inj_on_def list.inject) simp
    moreover have "(CHR ''_'' # n, v) \<in> set ?m" using that by force
    ultimately show ?thesis by (simp add: map_add_Some_iff)
  qed
  then have "map (\<lambda>n. (tl n, the (map_of (?m @ r) n))) (keys ?m) = map (\<lambda>(n, v). (n, v)) a"
    unfolding map_map by (intro map_cong) auto
  then show ?thesis unfolding dict_attribs_def f by simp
qed

lemma dict_rest_map: "sub_tag t \<Longrightarrow> dict_rest (map (\<lambda>(n, v). (CHR ''_'' # n, v)) a @ [(t, x)]) = [(t, x)]"
  "dict_rest (map (\<lambda>(n, v). (CHR ''_'' # n, v)) a @ [(''text'', x)]) = []"
  "dict_rest (map (\<lambda>(n, v). (CHR ''_'' # n, v)) a) = []"
  by (auto simp: dict_rest_def dict_pop_def AList.delete_eq sub_tag_def is_attr_def filter_empty_conv)

lemma text_item:
  assumes "text_ok x" "sorted_wrt (<) (keys a)"
  shows "\<not> is_list (with_text a x)" and "from_item t (with_text a x) = Inr (Node t a x [] None)"
proof -
  have "distinct (keys a)" using assms(2) by (simp add: strict_sorted_iff)
  note am = attrib_items_map [OF this]
  let ?m = "map (\<lambda>(n, v). (CHR ''_'' # n, v)) a"
  have no: "map_of ?m ''text'' = None" by (simp add: map_of_eq_None_iff image_iff split_beta)
  have u: "AList.update ''text'' y ?m = ?m @ [(''text'', y)]" for y by (rule keys_update_new) (auto simp: image_iff)
  have e: "from_item t (ODict ?m) = Inr (Node t a ONone [] None)"
    using dict_attribs_map [OF assms(2), of "[]"] dict_rest_map(3) [of a] no
    by (subst from_item.simps) (simp add: node_init_def)
  have f: "from_item t (ODict (?m @ [(''text'', x)])) = Inr (Node t a x [] None)"
    using dict_attribs_map [OF assms(2), of "[(''text'', x)]"] dict_rest_map(2) [of a x] no
    by (subst from_item.simps) (simp add: node_init_def is_attr_def map_add_def)
  have g: "x \<noteq> ONone \<Longrightarrow> a = [] \<Longrightarrow> from_item t x = Inr (Node t a x [] None)"
    using assms(1) by (subst from_item.simps) (auto simp: node_init_def text_ok_def split: obj.splits)
  show "\<not> is_list (with_text a x)" using assms(1) by (auto simp: with_text_def Let_def is_list_def text_ok_def split: obj.splits)
  have "with_text a x = (if x = ONone then ODict ?m else if a = [] then x else ODict (?m @ [(''text'', x)]))"
    using assms(1) by (cases x) (auto simp: with_text_def Let_def am u text_ok_def)
  then show "from_item t (with_text a x) = Inr (Node t a x [] None)" using e f g by simp
qed

lemma with_text_None: "with_text a ONone = ODict (attrib_items a)"
  by (simp add: with_text_def)

lemma flat_item: "flat_node n \<Longrightarrow> \<exists>v. node_item n = Inr (nd_tag n, v) \<and> \<not> is_list v \<and> from_item (nd_tag n) v = Inr n"
proof (induction n)
  case (Node tag a x ns line)
  then have f: "\<not> startswith tag ''{''" "line = None" "sorted_wrt (<) (keys a)" "text_ok x" by simp_all
  then have tag: "striptag tag = Inr tag" by (simp add: striptag_def)
  show ?case
  proof (cases "ns = []")
    case True
    then show ?thesis using text_item(1) [OF f(4,3)] text_item(2) [OF f(4,3), of tag] f(2) by (simp add: tag)
  next
    case False
    define t where "t = nd_tag (hd ns)"
    have x: "x = ONone" "sub_tag t" using Node.prems False by (simp_all add: t_def)
    have "list_all (\<lambda>m. nd_tag m = t \<and> flat_node m) ns" using Node.prems by (simp add: list_all_iff t_def)
    then have "\<exists>vs. node_items ns = Inr (map (Pair t) vs) \<and> list_all (\<lambda>v. \<not> is_list v) vs \<and> from_items t vs = Inr ns \<and> length vs = length ns"
      using Node.IH
    proof (induction ns)
      case Nil
      then show ?case by (intro exI [of _ "[]"]) (simp add: from_items.simps)
    next
      case (Cons m ns)
      then obtain vs where vs: "node_items ns = Inr (map (Pair t) vs)" "list_all (\<lambda>v. \<not> is_list v) vs" "from_items t vs = Inr ns"
        "length vs = length ns" by auto
      obtain v where v: "node_item m = Inr (t, v)" "\<not> is_list v" "from_item t v = Inr m" using Cons.prems by force
      show ?case using vs v by (intro exI [of _ "v # vs"]) (simp add: from_items.simps [of t "v # vs"])
    qed
    then obtain vs where vs: "node_items ns = Inr (map (Pair t) vs)" "list_all (\<lambda>v. \<not> is_list v) vs" "from_items t vs = Inr ns"
      "length vs = length ns" by blast
    have ne: "vs \<noteq> []" using vs(4) False by auto
    let ?v = "case vs of [v] \<Rightarrow> v | _ \<Rightarrow> OList vs" and ?m = "map (\<lambda>(n, v). (CHR ''_'' # n, v)) a"
    have al: "as_list ?v = vs" using vs(2) ne by (auto simp: as_list_def is_list_def split: list.split obj.splits)
    have "distinct (keys a)" using f(3) by (simp add: strict_sorted_iff)
    note am = attrib_items_map [OF this]
    have "\<not> has_key ?m t" using x(2) by (auto simp: sub_tag_def is_attr_def image_iff)
    then have u: "dict_update ?m [(t, ?v)] = ?m @ [(t, ?v)]" by (simp add: dict_update_def keys_update_new)
    have "node_item (Node tag a x ns line) = Inr (tag, ODict (?m @ [(t, ?v)]))"
      using False by (simp add: tag x(1) with_text_None am vs(1) group_items_same [OF ne] u)
    moreover have "from_item tag (ODict (?m @ [(t, ?v)])) = Inr (Node tag a x ns line)"
      using dict_attribs_map [OF f(3), of "[(t, ?v)]"] dict_rest_map(1) [OF x(2), of a ?v] x(2)
      by (subst from_item.simps) (simp add: node_init_def al vs(3) x(1) f(2) sub_tag_def)
    ultimately show ?thesis by (simp add: is_list_def)
  qed
qed

text \<open>A flat node comes back from its dictionary.\<close>

lemma dict_roundtrip: "flat_node n \<Longrightarrow> bindE (node_to_dict n) node_from_dict = Inr n"
  using flat_item [of n] by (auto simp: node_to_dict_def node_from_dict_def)

text \<open>Subnodes of one tag that are not together are lost but for the last run.\<close>

lemma last_run_kept:
  "node_to_dict (Node ''r'' [] ONone [Node ''a'' [] (OInt 1) [] None, Node ''b'' [] (OInt 2) [] None, Node ''a'' [] (OInt 3) [] None] None) =
     Inr (ODict [(''r'', ODict [(''a'', OInt 3), (''b'', OInt 2)])])"
  by code_simp

text \<open>A single subnode with a list as text comes back as several nodes.\<close>

lemma list_text_split:
  "bindE (node_to_dict (Node ''r'' [] ONone [Node ''p'' [] (OList [OInt 1, OInt 2]) [] None] None)) node_from_dict =
     Inr (Node ''r'' [] ONone [Node ''p'' [] (OInt 1) [] None, Node ''p'' [] (OInt 2) [] None] None)"
  by code_simp

section \<open>Access and copy\<close>

interpretation nd_store: store "\<lambda>n. map_of (nd_attrib n)" "\<lambda>k v n. node_set_attr n k v"
proof
  fix k v j and n :: node
  show "map_of (nd_attrib (node_set_attr n k v)) j = (if j = k then Some v else map_of (nd_attrib n) j)"
    by (cases n) (simp add: py_simps)
qed

lemma node_get_after_set: "node_get_attr (node_set_attr n k v) k = Inr v" "node_get (node_set_attr n k v) k d = v"
  by (simp_all add: node_get_attr_def node_get_def res_simps)

lemma node_del_then_get:
  assumes "node_del_attr n k = Inr n'"
  shows "node_get_attr n' k = Inl KeyError" and "j \<noteq> k \<Longrightarrow> node_get_attr n' j = node_get_attr n j"
proof -
  obtain t a x ns l where n: "n = Node t a x ns l" by (cases n)
  then have n': "n' = Node t (dict_pop k a) x ns l" using assms by (auto simp: res_simps)
  have "map_of (dict_pop k a) k = None" by (simp add: py_simps)
  then show "node_get_attr n' k = Inl KeyError" by (simp add: node_get_attr_def n' dict_get_def)
  show "j \<noteq> k \<Longrightarrow> node_get_attr n' j = node_get_attr n j" by (simp add: node_get_attr_def n n' dict_get_def py_simps)
qed

text \<open>The dot notation gives the first of the subnodes with a name.\<close>

lemma find_node_first:
  "mapE (\<lambda>m. bindE (striptag (nd_tag m)) (\<lambda>t. Inr (t, m))) ns = Inr l \<Longrightarrow>
     find_node nm ns = Inr (map_option snd (List.find (\<lambda>(t, m). t = nm) l))"
  by (induction ns arbitrary: l) (auto simp: bindE_Inr_iff)

lemma find_hd_filter: "List.find P l = (case filter P l of [] \<Rightarrow> None | x # xs \<Rightarrow> Some x)"
  by (induction l) auto

lemma getattr_first:
  assumes "getnodes n nm = Inr ms" "ms \<noteq> []" "\<not> startswith nm ''_''"
  shows "node_getattr n nm = Inr (hd ms)"
proof -
  obtain l where l: "mapE (\<lambda>m. bindE (striptag (nd_tag m)) (\<lambda>t. Inr (t, m))) (nd_nodes n) = Inr l" "ms = map snd (filter (\<lambda>(t, m). t = nm) l)"
    using assms(1) by (auto simp: getnodes_def bindE_Inr_iff)
  then obtain p ps where "filter (\<lambda>(t, m). t = nm) l = p # ps" using assms(2) by (cases "filter (\<lambda>(t, m). t = nm) l") auto
  then show ?thesis using assms(3) find_node_first [OF l(1), of nm] by (simp add: node_getattr_def find_hd_filter l(2))
qed

text \<open>A copy is the node without its line numbers; it fails when a node has a text and subnodes.\<close>

fun strip_lines :: "node \<Rightarrow> node" where
  "strip_lines (Node t a x ns l) = Node t a x (map strip_lines ns) None"

fun leaf_texts :: "node \<Rightarrow> bool" where
  "leaf_texts (Node t a x ns l) = ((ns = [] \<or> x = ONone) \<and> list_all leaf_texts ns)"

lemma node_copy_strips:
  "node_copy n = (if leaf_texts n then Inr (strip_lines n) else Inl ValueError)"
  "nodes_copy ns = (if list_all leaf_texts ns then Inr (map strip_lines ns) else Inl ValueError)"
  by (induction n and ns rule: node_copy_nodes_copy.induct) (auto simp: node_init_def)

lemma strip_lines_flat: "flat_node n \<Longrightarrow> leaf_texts n \<and> strip_lines n = n"
  by (induction n rule: flat_node.induct) (auto simp: list_all_iff map_idI)

end
