(* ===== verification/Node_Xml.thy ===== *)
theory Node_Xml
  imports Nodes
begin

text \<open>
  Nodes and XML (baselib/node.py): the elements of ElementTree that nodes are read from, the program
  that \<open>node_to_elem\<close> generates and executes, the validating parser as a handler of the events of the
  XML reader, and the writer of indented XML. The reader of the characters of a file is not part of the
  repository: what it gives is a sequence of events.
\<close>

section \<open>Elements\<close>

datatype elem = Elem (el_tag: string) (el_attrib: "(string, obj) dict") (el_text: obj) (el_subs: "elem list") (el_line: "int option")

fun node_from_elem :: "elem \<Rightarrow> node" where
  "node_from_elem (Elem tag attrib text subs line) =
     Node tag attrib (if subs = [] then text else ONone) (map node_from_elem subs) line"

text \<open>
  \<open>node_to_elem\<close> writes a program with one variable for each level, and runs it. The values are those
  whose \<open>repr\<close> evaluates to themselves. An element is an object that is changed when it gets a
  text or a subelement.
\<close>

datatype instr = NewRoot string "(string, obj) dict" | NewSub nat string "(string, obj) dict" | SetText nat obj

fun generate_elem :: "node \<Rightarrow> nat \<Rightarrow> instr list" where
  "generate_elem (Node tag attrib text nodes line) level =
     (if level = 1 then NewRoot tag attrib else NewSub level tag attrib) #
     (if nodes = [] then [SetText level text] else []) @ concat (map (\<lambda>x. generate_elem x (level + 1)) nodes)"

record elem_obj =
  eo_tag :: string
  eo_attrib :: "(string, obj) dict"
  eo_text :: obj
  eo_subs :: "nat list"

record exec_state =
  xs_heap :: "elem_obj list"
  xs_vars :: "(nat, nat) dict"

text \<open>The keyword \<open>attrib\<close> of \<open>Element\<close> must be a dictionary.\<close>

definition new_elem :: "string \<Rightarrow> (string, obj) dict \<Rightarrow> elem_obj res" where
  "new_elem tag attrib = (case map_of attrib ''attrib'' of
     None \<Rightarrow> Inr \<lparr>eo_tag = tag, eo_attrib = attrib, eo_text = ONone, eo_subs = []\<rparr>
   | Some (ODict d) \<Rightarrow> Inr \<lparr>eo_tag = tag, eo_attrib = dict_update d (dict_pop ''attrib'' attrib), eo_text = ONone, eo_subs = []\<rparr>
   | Some _ \<Rightarrow> Inl TypeError)"

definition get_var :: "exec_state \<Rightarrow> nat \<Rightarrow> nat res" where
  "get_var s l = of_option NameError (map_of (xs_vars s) l)"

fun exec_instr :: "exec_state \<Rightarrow> instr \<Rightarrow> exec_state res" where
  "exec_instr s (NewRoot tag attrib) = bindE (new_elem tag attrib) (\<lambda>e.
     Inr \<lparr>xs_heap = xs_heap s @ [e], xs_vars = AList.update 1 (length (xs_heap s)) (xs_vars s)\<rparr>)"
| "exec_instr s (NewSub level tag attrib) = bindE (get_var s (level - 1)) (\<lambda>p. bindE (new_elem tag attrib) (\<lambda>e.
     let a = length (xs_heap s); po = xs_heap s ! p in
     Inr \<lparr>xs_heap = (xs_heap s)[p := po\<lparr>eo_subs := eo_subs po @ [a]\<rparr>] @ [e], xs_vars = AList.update level a (xs_vars s)\<rparr>))"
| "exec_instr s (SetText level x) = bindE (get_var s level) (\<lambda>a.
     Inr (s\<lparr>xs_heap := (xs_heap s)[a := (xs_heap s ! a)\<lparr>eo_text := x\<rparr>]\<rparr>))"

text \<open>The tree of elements at an address.\<close>

fun read_elem :: "nat \<Rightarrow> elem_obj list \<Rightarrow> nat \<Rightarrow> elem option" where
  "read_elem 0 h a = None"
| "read_elem (Suc fuel) h a = (if length h \<le> a then None else
     let e = h ! a; subs = map (read_elem fuel h) (eo_subs e) in
     if None \<in> set subs then None else Some (Elem (eo_tag e) (eo_attrib e) (eo_text e) (map the subs) None))"

definition node_to_elem :: "node \<Rightarrow> elem option res" where
  "node_to_elem n = bindE (foldE exec_instr \<lparr>xs_heap = [], xs_vars = []\<rparr> (generate_elem n 1)) (\<lambda>s.
     bindE (get_var s 1) (\<lambda>a. Inr (read_elem (length (xs_heap s)) (xs_heap s) a)))"

section \<open>The generated program\<close>

text \<open>The elements that a node stands for; the text of a branch is left out.\<close>

fun elem_of :: "node \<Rightarrow> elem" where
  "elem_of (Node tag attrib text nodes line) = Elem tag attrib (if nodes = [] then text else ONone) (map elem_of nodes) None"

fun no_attrib_key :: "node \<Rightarrow> bool" where
  "no_attrib_key (Node tag attrib text nodes line) = (\<not> has_key attrib ''attrib'' \<and> list_all no_attrib_key nodes)"

text \<open>\<open>holds h a e\<close>: the heap \<open>h\<close> holds the tree \<open>e\<close> at \<open>a\<close>, within the addresses from \<open>lo\<close> to \<open>hi\<close>.\<close>

fun holds :: "elem_obj list \<Rightarrow> nat \<Rightarrow> elem \<Rightarrow> bool" where
  "holds h a (Elem tag attrib x subs line) = (a < length h \<and> line = None \<and> eo_tag (h ! a) = tag \<and> eo_attrib (h ! a) = attrib \<and> eo_text (h ! a) = x \<and>
     list_all2 (\<lambda>b e. a < b \<and> holds h b e) (eo_subs (h ! a)) subs)"

lemma holds_read: "holds h a e \<Longrightarrow> length h \<le> fuel + a \<Longrightarrow> read_elem fuel h a = Some e"
proof (induction e arbitrary: a fuel)
  case (Elem tag attrib x subs line)
  then have "a < length h" by simp
  then obtain f where f: "fuel = Suc f" using Elem.prems(2) by (cases fuel) auto
  have "list_all2 (\<lambda>b e. a < b \<and> holds h b e) (eo_subs (h ! a)) subs" using Elem.prems(1) by simp
  then have "list_all2 (\<lambda>b e. read_elem f h b = Some e) (eo_subs (h ! a)) subs"
  proof (rule list.rel_mono_strong)
    fix b e assume "b \<in> set (eo_subs (h ! a))" "e \<in> set subs" "a < b \<and> holds h b e"
    then show "read_elem f h b = Some e" using Elem.prems(2) f by (intro Elem.IH) auto
  qed
  then have "map (read_elem f h) (eo_subs (h ! a)) = map Some subs" by (induction rule: list_all2_induct) auto
  moreover from this have "None \<notin> set (map (read_elem f h) (eo_subs (h ! a)))" by simp
  ultimately show ?case using Elem.prems(1) by (simp add: f Let_def del: set_map)
qed

lemma holds_ext:
  assumes "\<And>b. a \<le> b \<Longrightarrow> b < length h \<Longrightarrow> h' ! b = h ! b" "length h \<le> length h'" "holds h a e"
  shows "holds h' a e"
  using assms
proof (induction e arbitrary: a)
  case (Elem tag attrib x subs line)
  have "list_all2 (\<lambda>b e. a < b \<and> holds h b e) (eo_subs (h ! a)) subs" using Elem.prems(3) by simp
  then have "list_all2 (\<lambda>b e. a < b \<and> holds h' b e) (eo_subs (h ! a)) subs"
  proof (rule list.rel_mono_strong)
    fix b e assume "b \<in> set (eo_subs (h ! a))" "e \<in> set subs" "a < b \<and> holds h b e"
    then show "a < b \<and> holds h' b e" using Elem.prems(1,2) by (intro conjI Elem.IH) auto
  qed
  moreover have "h' ! a = h ! a" "a < length h'" using Elem.prems by auto
  ultimately show ?case using Elem.prems(3) by simp
qed

abbreviation add_subs :: "elem_obj list \<Rightarrow> nat \<Rightarrow> nat list \<Rightarrow> elem_obj list" where
  "add_subs h a bs \<equiv> h[a := (h ! a)\<lparr>eo_subs := eo_subs (h ! a) @ bs\<rparr>]"

text \<open>What running the code of a node below the top does to the heap and to the variables of the lower levels.\<close>

definition adds_elem :: "node \<Rightarrow> nat \<Rightarrow> bool" where
  "adds_elem m l \<longleftrightarrow> (\<forall>h vs p. map_of vs (l - 1) = Some p \<longrightarrow> p < length h \<longrightarrow> (\<exists>new vs'.
     foldE exec_instr \<lparr>xs_heap = h, xs_vars = vs\<rparr> (generate_elem m l) = Inr \<lparr>xs_heap = add_subs h p [length h] @ new, xs_vars = vs'\<rparr> \<and>
     new \<noteq> [] \<and> holds (add_subs h p [length h] @ new) (length h) (elem_of m) \<and> (\<forall>k < l. map_of vs' k = map_of vs k)))"

lemma run_subs:
  assumes "list_all (\<lambda>m. adds_elem m (l + 1)) ns" "map_of vs l = Some a" "a < length h"
  shows "\<exists>bs new vs'. foldE exec_instr \<lparr>xs_heap = h, xs_vars = vs\<rparr> (concat (map (\<lambda>x. generate_elem x (l + 1)) ns)) =
      Inr \<lparr>xs_heap = add_subs h a bs @ new, xs_vars = vs'\<rparr> \<and>
    list_all2 (\<lambda>b e. length h \<le> b \<and> holds (add_subs h a bs @ new) b e) bs (map elem_of ns) \<and> (\<forall>k \<le> l. map_of vs' k = map_of vs k)"
  using assms
proof (induction ns arbitrary: h vs)
  case Nil
  then show ?case by (intro exI [of _ "[]"] exI [of _ vs]) simp
next
  case (Cons m ns)
  let ?h1 = "add_subs h a [length h]"
  obtain new1 vs1 where m: "foldE exec_instr \<lparr>xs_heap = h, xs_vars = vs\<rparr> (generate_elem m (l + 1)) = Inr \<lparr>xs_heap = ?h1 @ new1, xs_vars = vs1\<rparr>"
    "holds (?h1 @ new1) (length h) (elem_of m)" "\<forall>k < l + 1. map_of vs1 k = map_of vs k"
  proof -
    have "adds_elem m (l + 1)" using Cons.prems(1) by simp
    from this [unfolded adds_elem_def, rule_format, of vs a h] Cons.prems(2,3) show thesis using that by auto
  qed
  have l1: "map_of vs1 l = Some a" "a < length (?h1 @ new1)" using m(3) Cons.prems(2,3) by simp_all
  obtain bs new2 vs2 where ns: "foldE exec_instr \<lparr>xs_heap = ?h1 @ new1, xs_vars = vs1\<rparr> (concat (map (\<lambda>x. generate_elem x (l + 1)) ns)) =
      Inr \<lparr>xs_heap = add_subs (?h1 @ new1) a bs @ new2, xs_vars = vs2\<rparr>"
    "list_all2 (\<lambda>b e. length (?h1 @ new1) \<le> b \<and> holds (add_subs (?h1 @ new1) a bs @ new2) b e) bs (map elem_of ns)"
    "\<forall>k \<le> l. map_of vs2 k = map_of vs1 k"
    using Cons.IH [OF _ l1] Cons.prems(1) by auto
  have h2: "add_subs (?h1 @ new1) a bs @ new2 = add_subs h a (length h # bs) @ (new1 @ new2)"
    using Cons.prems(3) by (simp add: list_update_append nth_append)
  have "holds (add_subs h a (length h # bs) @ (new1 @ new2)) (length h) (elem_of m)"
    by (rule holds_ext [OF _ _ m(2)]) (use Cons.prems(3) in \<open>auto simp: nth_append nth_list_update\<close>)
  moreover have "list_all2 (\<lambda>b e. length h \<le> b \<and> holds (add_subs h a (length h # bs) @ (new1 @ new2)) b e) bs (map elem_of ns)"
    using ns(2) unfolding h2 by (rule list_all2_mono) simp
  ultimately show ?case using m(1,3) ns(1,3)
    by (intro exI [of _ "length h # bs"] exI [of _ "new1 @ new2"] exI [of _ vs2]) (simp add: foldE_append h2)
qed

lemma new_elem_plain: "\<not> has_key attrib ''attrib'' \<Longrightarrow> new_elem tag attrib = Inr \<lparr>eo_tag = tag, eo_attrib = attrib, eo_text = ONone, eo_subs = []\<rparr>"
proof -
  assume "\<not> has_key attrib ''attrib''"
  then have "map_of attrib ''attrib'' = None" by (simp add: map_of_eq_None_iff)
  then show ?thesis by (simp add: new_elem_def)
qed

text \<open>The code after the one that makes the element.\<close>

lemma run_body:
  assumes "list_all (\<lambda>m. adds_elem m (l + 1)) ns" "map_of vs l = Some (length h)"
  shows "\<exists>new vs'. foldE exec_instr \<lparr>xs_heap = h @ [\<lparr>eo_tag = t, eo_attrib = ats, eo_text = ONone, eo_subs = []\<rparr>], xs_vars = vs\<rparr>
      ((if ns = [] then [SetText l x] else []) @ concat (map (\<lambda>x. generate_elem x (l + 1)) ns)) = Inr \<lparr>xs_heap = h @ new, xs_vars = vs'\<rparr> \<and>
    new \<noteq> [] \<and> holds (h @ new) (length h) (elem_of (Node t ats x ns line)) \<and> (\<forall>k \<le> l. map_of vs' k = map_of vs k)"
proof (cases "ns = []")
  case True
  let ?e = "\<lparr>eo_tag = t, eo_attrib = ats, eo_text = x, eo_subs = []\<rparr>"
  show ?thesis using True assms(2) by (intro exI [of _ "[?e]"] exI [of _ vs]) (simp add: get_var_def)
next
  case False
  let ?h = "h @ [\<lparr>eo_tag = t, eo_attrib = ats, eo_text = ONone, eo_subs = []\<rparr>]"
  obtain bs new vs' where r: "foldE exec_instr \<lparr>xs_heap = ?h, xs_vars = vs\<rparr> (concat (map (\<lambda>x. generate_elem x (l + 1)) ns)) =
      Inr \<lparr>xs_heap = add_subs ?h (length h) bs @ new, xs_vars = vs'\<rparr>"
    "list_all2 (\<lambda>b e. length ?h \<le> b \<and> holds (add_subs ?h (length h) bs @ new) b e) bs (map elem_of ns)" "\<forall>k \<le> l. map_of vs' k = map_of vs k"
    using run_subs [OF assms, of ?h] by auto
  have h: "add_subs ?h (length h) bs @ new = h @ \<lparr>eo_tag = t, eo_attrib = ats, eo_text = ONone, eo_subs = bs\<rparr> # new" by simp
  have "list_all2 (\<lambda>b e. length h < b \<and> holds (h @ \<lparr>eo_tag = t, eo_attrib = ats, eo_text = ONone, eo_subs = bs\<rparr> # new) b e) bs (map elem_of ns)"
    using r(2) unfolding h by (rule list_all2_mono) simp
  then have "holds (h @ \<lparr>eo_tag = t, eo_attrib = ats, eo_text = ONone, eo_subs = bs\<rparr> # new) (length h) (elem_of (Node t ats x ns line))"
    using False by simp
  then show ?thesis using r(1,3) False unfolding h
    by (intro exI [of _ "\<lparr>eo_tag = t, eo_attrib = ats, eo_text = ONone, eo_subs = bs\<rparr> # new"] exI [of _ vs']) simp
qed

lemma adds_elem_node: "no_attrib_key n \<Longrightarrow> 2 \<le> l \<Longrightarrow> adds_elem n l"
proof (induction n arbitrary: l)
  case (Node t ats x ns line)
  have subs: "list_all (\<lambda>m. adds_elem m (l + 1)) ns" using Node.prems Node.IH by (simp add: list_all_iff)
  show ?case unfolding adds_elem_def
  proof (intro allI impI)
    fix h :: "elem_obj list" and vs p assume v: "map_of vs (l - 1) = Some p" "p < length h"
    let ?h = "add_subs h p [length h]" and ?vs = "AList.update l (length h) vs"
    have e: "new_elem t ats = Inr \<lparr>eo_tag = t, eo_attrib = ats, eo_text = ONone, eo_subs = []\<rparr>" using Node.prems(1) by (simp add: new_elem_plain)
    have "map_of ?vs l = Some (length ?h)" by (simp add: py_simps)
    from run_body [OF subs this, of t ats x line] obtain new vs' where
      r: "foldE exec_instr \<lparr>xs_heap = ?h @ [\<lparr>eo_tag = t, eo_attrib = ats, eo_text = ONone, eo_subs = []\<rparr>], xs_vars = ?vs\<rparr>
        ((if ns = [] then [SetText l x] else []) @ concat (map (\<lambda>x. generate_elem x (l + 1)) ns)) = Inr \<lparr>xs_heap = ?h @ new, xs_vars = vs'\<rparr>"
      "new \<noteq> []" "holds (?h @ new) (length h) (elem_of (Node t ats x ns line))" "\<forall>k \<le> l. map_of vs' k = map_of ?vs k" by auto
    have "foldE exec_instr \<lparr>xs_heap = h, xs_vars = vs\<rparr> (generate_elem (Node t ats x ns line) l) = Inr \<lparr>xs_heap = ?h @ new, xs_vars = vs'\<rparr>"
      using Node.prems(2) v e r(1) by (simp add: get_var_def Let_def)
    moreover have "\<forall>k < l. map_of vs' k = map_of vs k" using r(4) by (simp add: py_simps)
    ultimately show "\<exists>new vs'. foldE exec_instr \<lparr>xs_heap = h, xs_vars = vs\<rparr> (generate_elem (Node t ats x ns line) l) = Inr \<lparr>xs_heap = ?h @ new, xs_vars = vs'\<rparr> \<and>
       new \<noteq> [] \<and> holds (?h @ new) (length h) (elem_of (Node t ats x ns line)) \<and> (\<forall>k < l. map_of vs' k = map_of vs k)" using r(2,3) by blast
  qed
qed

text \<open>The generated program builds the elements of the node, and reading them back gives the node.\<close>

lemma node_to_elem_ok: "no_attrib_key n \<Longrightarrow> node_to_elem n = Inr (Some (elem_of n))"
proof -
  assume a: "no_attrib_key n"
  obtain t ats x ns line where n: "n = Node t ats x ns line" by (cases n)
  have subs: "list_all (\<lambda>m. adds_elem m (1 + 1)) ns" using a by (simp add: n list_all_iff adds_elem_node)
  have e: "new_elem t ats = Inr \<lparr>eo_tag = t, eo_attrib = ats, eo_text = ONone, eo_subs = []\<rparr>" using a by (simp add: n new_elem_plain)
  let ?e = "\<lparr>eo_tag = t, eo_attrib = ats, eo_text = ONone, eo_subs = []\<rparr>"
  have v: "map_of [(1, 0)] 1 = Some (length ([] :: elem_obj list))" by simp
  obtain new vs' where
    r: "foldE exec_instr \<lparr>xs_heap = [] @ [?e], xs_vars = [(1, 0)]\<rparr>
      ((if ns = [] then [SetText 1 x] else []) @ concat (map (\<lambda>x. generate_elem x (1 + 1)) ns)) = Inr \<lparr>xs_heap = [] @ new, xs_vars = vs'\<rparr>"
    "holds ([] @ new) (length ([] :: elem_obj list)) (elem_of (Node t ats x ns line))" "\<forall>k \<le> 1. map_of vs' k = map_of [(1, 0)] k"
    using run_body [OF subs v, of t ats x line] by blast
  have "exec_instr \<lparr>xs_heap = [], xs_vars = []\<rparr> (NewRoot t ats) = Inr \<lparr>xs_heap = [] @ [?e], xs_vars = [(1, 0)]\<rparr>" by (simp add: e)
  then have "foldE exec_instr \<lparr>xs_heap = [], xs_vars = []\<rparr> (generate_elem n 1) = Inr \<lparr>xs_heap = [] @ new, xs_vars = vs'\<rparr>"
    unfolding n generate_elem.simps using r(1) by (simp only: simp_thms if_True foldE.simps bindE_simps)
  moreover have "read_elem (length new) new 0 = Some (elem_of n)" using holds_read [OF r(2)] by (simp add: n)
  moreover have "map_of vs' 1 = Some 0" using r(3) by simp
  ultimately show ?thesis by (simp add: node_to_elem_def get_var_def)
qed

lemma node_from_elem_of: "leaf_texts n \<Longrightarrow> node_from_elem (elem_of n) = strip_lines n"
  by (induction n) (auto simp: list_all_iff)

end
