(* ===== verification/Xml_Parser.thy ===== *)
theory Xml_Parser
  imports Nodes
begin

text \<open>
  \<open>ValidatingXmlParser\<close> of baselib/node.py as a handler of the events of the XML reader: the stack of
  the elements that are open, the validators of texts and attributes, and the tag where to stop. The main
  lemma says that the parser computes the validated tree of the document, cut at the first element
  with that tag, however the characters between the tags are split into events.
\<close>

section \<open>The handlers\<close>

datatype event = Start string "(string \<times> string) list" int | End string | Chars string

type_synonym validators = "string \<Rightarrow> (string \<Rightarrow> obj res) option"

record parser =
  ps_stack :: "node list"
  ps_root :: "node option"
  ps_exit :: bool

text \<open>The texts of an element are collected in a list and joined at its end.\<close>

definition add_chunk :: "string \<Rightarrow> obj \<Rightarrow> obj" where
  "add_chunk s x = (case x of OList l \<Rightarrow> OList (l @ [OStr s]) | _ \<Rightarrow> OList [OStr s])"

definition chunk :: "obj \<Rightarrow> string" where
  "chunk x = (case x of OStr s \<Rightarrow> s | _ \<Rightarrow> [])"

definition join_chunks :: "obj \<Rightarrow> obj" where
  "join_chunks x = (case x of OList l \<Rightarrow> OStr (concat (map chunk l)) | _ \<Rightarrow> x)"

text \<open>\<open>_set_text\<close>, \<open>_set_attrib\<close> and \<open>_literalnode\<close>; what goes wrong in a validator is a ValueError.\<close>

definition call_validator :: "(string \<Rightarrow> obj res) \<Rightarrow> string \<Rightarrow> obj res" where
  "call_validator f s = (case f s of Inl e \<Rightarrow> Inl ValueError | Inr v \<Rightarrow> Inr v)"

definition set_text :: "validators \<Rightarrow> string \<Rightarrow> obj \<Rightarrow> obj res" where
  "set_text vals tag x = (case x of
     OStr s \<Rightarrow> (case vals tag of None \<Rightarrow> Inr x | Some f \<Rightarrow> call_validator f (strip s))
   | _ \<Rightarrow> Inr x)"

definition set_attrib :: "validators \<Rightarrow> string \<Rightarrow> string \<times> obj \<Rightarrow> (string \<times> obj) res" where
  "set_attrib vals tag nv = (case nv of (n, v) \<Rightarrow>
     case vals (tag @ ''.'' @ n) of Some f \<Rightarrow> bindE (call_validator f (chunk v)) (\<lambda>v'. Inr (n, v'))
     | None \<Rightarrow> (case vals n of Some f \<Rightarrow> bindE (call_validator f (chunk v)) (\<lambda>v'. Inr (n, v')) | None \<Rightarrow> Inr nv))"

fun literalnode :: "validators \<Rightarrow> node \<Rightarrow> node res" where
  "literalnode vals (Node tag a x ns l) = bindE (striptag tag) (\<lambda>t. bindE (set_text vals t x) (\<lambda>x'.
     bindE (mapE (set_attrib vals t) a) (\<lambda>a'. Inr (Node tag a' x' ns l))))"

fun join_node :: "node \<Rightarrow> node" where
  "join_node (Node tag a x ns l) = Node tag a (join_chunks x) ns l"

text \<open>The node that was closed goes into the one below on the stack.\<close>

definition put_node :: "node \<Rightarrow> parser \<Rightarrow> parser" where
  "put_node n st = st\<lparr>ps_stack := (case ps_stack st of [] \<Rightarrow> [] | p # ps \<Rightarrow> node_append p n # ps), ps_root := Some n\<rparr>"

definition end_element :: "validators \<Rightarrow> parser \<Rightarrow> parser res" where
  "end_element vals st = (case ps_stack st of [] \<Rightarrow> Inl IndexError
     | n # rest \<Rightarrow> bindE (literalnode vals (join_node n)) (\<lambda>n'. Inr (put_node n' (st\<lparr>ps_stack := rest\<rparr>))))"

text \<open>The local name of an element and the tag of its node.\<close>

definition split_name :: "string \<Rightarrow> string \<times> string" where
  "split_name longname = (case split_on CHR ''}'' longname of
     [ns, nm] \<Rightarrow> (nm, CHR ''{'' # longname) | _ \<Rightarrow> (longname, longname))"

text \<open>All the elements are closed when the parser stops.\<close>

definition close_all :: "validators \<Rightarrow> parser \<Rightarrow> parser res" where
  "close_all vals st = bindE (foldE (\<lambda>s anc. end_element vals s) st (ps_stack st)) (\<lambda>s. Inr (s\<lparr>ps_exit := True\<rparr>))"

definition start_element :: "validators \<Rightarrow> string option \<Rightarrow> string \<Rightarrow> (string \<times> string) list \<Rightarrow> int \<Rightarrow> parser \<Rightarrow> parser res" where
  "start_element vals stop longname attrs line st = (case split_name longname of (nm, tag) \<Rightarrow>
     let st' = st\<lparr>ps_stack := Node tag (map (\<lambda>(k, v). (k, OStr v)) attrs) ONone [] (Some line) # ps_stack st\<rparr> in
     if stop = Some nm \<and> nm \<noteq> [] then close_all vals st' else Inr st')"

definition char_data :: "string \<Rightarrow> parser \<Rightarrow> parser res" where
  "char_data s st = (if s = [] then Inr st else case ps_stack st of [] \<Rightarrow> Inl IndexError
     | Node tag a x ns l # rest \<Rightarrow> Inr (st\<lparr>ps_stack := Node tag a (add_chunk s x) ns l # rest\<rparr>))"

definition on_event :: "validators \<Rightarrow> string option \<Rightarrow> parser \<Rightarrow> event \<Rightarrow> parser res" where
  "on_event vals stop st e = (if ps_exit st then Inr st else case e of
     Start longname attrs line \<Rightarrow> start_element vals stop longname attrs line st
   | End longname \<Rightarrow> end_element vals st
   | Chars s \<Rightarrow> char_data s st)"

definition parse_events :: "validators \<Rightarrow> string option \<Rightarrow> event list \<Rightarrow> node option res" where
  "parse_events vals stop evs = bindE (foldE (on_event vals stop) \<lparr>ps_stack = [], ps_root = None, ps_exit = False\<rparr> evs)
     (\<lambda>st. Inr (ps_root st))"

section \<open>Documents\<close>

text \<open>A document as the reader sees it, its events, and where it is cut.\<close>

datatype doc = Txt string | Elt string "(string \<times> string) list" int "doc list"

fun events :: "doc \<Rightarrow> event list" and events_of :: "doc list \<Rightarrow> event list" where
  "events (Txt s) = [Chars s]"
| "events (Elt nm attrs line ds) = Start nm attrs line # events_of ds @ [End nm]"
| "events_of [] = []"
| "events_of (d # ds) = events d @ events_of ds"

fun cut_doc :: "string option \<Rightarrow> doc \<Rightarrow> doc \<times> bool" and cut_list :: "string option \<Rightarrow> doc list \<Rightarrow> doc list \<times> bool" where
  "cut_doc stop (Txt s) = (Txt s, False)"
| "cut_doc stop (Elt nm attrs line ds) = (if stop = Some (fst (split_name nm)) \<and> fst (split_name nm) \<noteq> [] then (Elt nm attrs line [], True)
     else case cut_list stop ds of (ds', hit) \<Rightarrow> (Elt nm attrs line ds', hit))"
| "cut_list stop [] = ([], False)"
| "cut_list stop (d # ds) = (case cut_doc stop d of (d', hit) \<Rightarrow> if hit then ([d'], True)
     else case cut_list stop ds of (ds', hit') \<Rightarrow> (d' # ds', hit'))"

text \<open>The tree of a document, with its values validated.\<close>

fun texts_of :: "doc list \<Rightarrow> string list" where
  "texts_of [] = []"
| "texts_of (Txt s # ds) = (if s = [] then texts_of ds else s # texts_of ds)"
| "texts_of (Elt nm attrs line es # ds) = texts_of ds"

definition text_of :: "doc list \<Rightarrow> obj" where
  "text_of ds = (if texts_of ds = [] then ONone else OStr (concat (texts_of ds)))"

fun doc_node :: "validators \<Rightarrow> doc \<Rightarrow> node list res" and doc_nodes :: "validators \<Rightarrow> doc list \<Rightarrow> node list res" where
  "doc_node vals (Txt s) = Inr []"
| "doc_node vals (Elt nm attrs line ds) = bindE (doc_nodes vals ds) (\<lambda>ns.
     bindE (literalnode vals (Node (snd (split_name nm)) (map (\<lambda>(k, v). (k, OStr v)) attrs) (text_of ds) ns (Some line))) (\<lambda>n. Inr [n]))"
| "doc_nodes vals [] = Inr []"
| "doc_nodes vals (d # ds) = bindE (doc_node vals d) (\<lambda>ns. bindE (doc_nodes vals ds) (\<lambda>ms. Inr (ns @ ms)))"

section \<open>The parser computes the tree\<close>

definition grow :: "string list \<Rightarrow> node list \<Rightarrow> parser \<Rightarrow> parser" where
  "grow txts ms st = st\<lparr>ps_stack := (case ps_stack st of [] \<Rightarrow> []
       | Node tag a x ns l # rest \<Rightarrow> Node tag a (foldl (\<lambda>x s. add_chunk s x) x txts) (ns @ ms) l # rest),
     ps_root := (if ms = [] then ps_root st else Some (last ms))\<rparr>"

definition finish_doc :: "validators \<Rightarrow> bool \<Rightarrow> parser \<Rightarrow> parser res" where
  "finish_doc vals hit st = (if hit then close_all vals st else Inr st)"

lemma grow_fields [simp]: "ps_exit (grow txts ms st) = ps_exit st" "ps_stack (grow txts ms st) = [] \<longleftrightarrow> ps_stack st = []"
  by (auto simp: grow_def split: list.splits node.splits)

lemma grow_grow: "grow t2 n2 (grow t1 n1 st) = grow (t1 @ t2) (n1 @ n2) st"
  by (auto simp: grow_def split: list.splits node.splits)

lemma grow_nothing: "grow [] [] st = st"
  by (cases st) (auto simp: grow_def split: list.splits node.splits)

lemma put_node_grow: "put_node n st = grow [] [n] st"
proof (cases "ps_stack st")
  case (Cons p ps)
  then show ?thesis by (cases p) (simp add: put_node_def grow_def)
qed (simp add: put_node_def grow_def)

lemma grow_root: "grow [] [n] (st\<lparr>ps_root := r\<rparr>) = grow [] [n] st"
  by (auto simp: grow_def split: list.splits node.splits)

lemma skip_events: "ps_exit st \<Longrightarrow> foldE (on_event vals stop) st evs = Inr st"
  by (induction evs) (simp_all add: on_event_def)

lemma close_all_exits: "bindE (close_all vals st) (\<lambda>s. foldE (on_event vals stop) s evs) = close_all vals st"
  by (cases "foldE (\<lambda>s anc. end_element vals s) st (ps_stack st)") (simp_all add: close_all_def skip_events)

lemma foldE_const_length: "length xs = length ys \<Longrightarrow> foldE (\<lambda>s _. f s) st xs = foldE (\<lambda>s _. f s) st ys"
proof (induction xs arbitrary: ys st)
  case (Cons x xs)
  then obtain y ys' where ys: "ys = y # ys'" "length xs = length ys'" by (cases ys) auto
  then show ?case by (cases "f st") (simp_all add: Cons.IH [OF ys(2)])
qed simp

lemma stack_length: "length (ps_stack (grow t n st)) = length (ps_stack st)"
  by (auto simp: grow_def split: list.splits node.splits)

lemma join_all: "join_chunks (foldl (\<lambda>x s. add_chunk s x) ONone (texts_of ds)) = text_of ds"
proof -
  have "foldl (\<lambda>x s. add_chunk s x) (OList l) ts = OList (l @ map OStr ts)" for l ts
    by (induction ts arbitrary: l) (simp_all add: add_chunk_def)
  moreover have "concat (map (chunk \<circ> OStr) ts) = concat ts" for ts by (induction ts) (simp_all add: chunk_def)
  ultimately show ?thesis by (cases "texts_of ds") (simp_all add: text_of_def join_chunks_def add_chunk_def chunk_def)
qed

lemma texts_of_Cons: "texts_of (d # ds) = texts_of [d] @ texts_of ds"
  by (cases d) simp_all

text \<open>Closing the element on the top of the stack.\<close>

lemma end_top:
  assumes "ps_stack st = Node tag a x ns l # rest"
  shows "end_element vals st = bindE (literalnode vals (Node tag a (join_chunks x) ns l)) (\<lambda>n. Inr (grow [] [n] (st\<lparr>ps_stack := rest\<rparr>)))"
  by (simp add: end_element_def assms put_node_grow)

lemma close_top:
  assumes "ps_stack st = Node tag a x ns l # rest"
  shows "close_all vals st = bindE (literalnode vals (Node tag a (join_chunks x) ns l)) (\<lambda>n. close_all vals (grow [] [n] (st\<lparr>ps_stack := rest\<rparr>)))"
proof (cases "literalnode vals (Node tag a (join_chunks x) ns l)")
  case (Inr n)
  let ?s = "grow [] [n] (st\<lparr>ps_stack := rest\<rparr>)"
  have "foldE (\<lambda>s _. end_element vals s) ?s rest = foldE (\<lambda>s _. end_element vals s) ?s (ps_stack ?s)"
    by (rule foldE_const_length) (simp add: stack_length)
  then show ?thesis using Inr by (simp add: close_all_def assms end_top [OF assms])
qed (simp add: close_all_def assms end_top [OF assms])

lemma run_doc:
  "\<not> ps_exit st \<Longrightarrow> ps_stack st \<noteq> [] \<or> (\<exists>nm attrs line ds. d = Elt nm attrs line ds) \<Longrightarrow>
     foldE (on_event vals stop) st (events d) = bindE (doc_node vals (fst (cut_doc stop d)))
       (\<lambda>ns. finish_doc vals (snd (cut_doc stop d)) (grow (texts_of [fst (cut_doc stop d)]) ns st))"
  "\<not> ps_exit st \<Longrightarrow> ps_stack st \<noteq> [] \<Longrightarrow>
     foldE (on_event vals stop) st (events_of ds) = bindE (doc_nodes vals (fst (cut_list stop ds)))
       (\<lambda>ns. finish_doc vals (snd (cut_list stop ds)) (grow (texts_of (fst (cut_list stop ds))) ns st))"
proof (induction d and ds arbitrary: st and st rule: events_events_of.induct)
  case (1 s)
  then obtain tag a x ns l rest where "ps_stack st = Node tag a x ns l # rest" by (metis neq_Nil_conv node.exhaust doc.distinct(1))
  then show ?case using 1 by (cases st) (auto simp: on_event_def char_data_def grow_def finish_doc_def)
next
  case (2 nm attrs line ds)
  let ?tag = "snd (split_name nm)" and ?a = "map (\<lambda>(k, v). (k, OStr v)) attrs"
  let ?st = "st\<lparr>ps_stack := Node ?tag ?a ONone [] (Some line) # ps_stack st\<rparr>"
  have e: "on_event vals stop st (Start nm attrs line) =
      (if stop = Some (fst (split_name nm)) \<and> fst (split_name nm) \<noteq> [] then close_all vals ?st else Inr ?st)"
    using "2.prems"(1) by (simp add: on_event_def start_element_def case_prod_unfold Let_def)
  show ?case
  proof (cases "stop = Some (fst (split_name nm)) \<and> fst (split_name nm) \<noteq> []")
    case True
    have t: "join_chunks ONone = text_of []" by (simp add: join_chunks_def text_of_def)
    have "foldE (on_event vals stop) st (events (Elt nm attrs line ds)) = close_all vals ?st"
      by (simp only: events.simps foldE.simps e if_P [OF True] close_all_exits)
    also have "\<dots> = bindE (literalnode vals (Node ?tag ?a (text_of []) [] (Some line))) (\<lambda>n. close_all vals (grow [] [n] st))"
      by (subst close_top [of _ ?tag ?a ONone "[]" "Some line" "ps_stack st"]) (simp_all add: t)
    also have "\<dots> = bindE (doc_node vals (fst (cut_doc stop (Elt nm attrs line ds)))) (\<lambda>ns. finish_doc vals (snd (cut_doc stop (Elt nm attrs line ds)))
        (grow (texts_of [fst (cut_doc stop (Elt nm attrs line ds))]) ns st))"
      using True by (cases "literalnode vals (Node ?tag ?a (text_of []) [] (Some line))") (simp_all add: finish_doc_def)
    finally show ?thesis .
  next
    case False
    obtain ds' hit where c: "cut_list stop ds = (ds', hit)" by fastforce
    have e': "on_event vals stop st (Start nm attrs line) = Inr ?st" unfolding e by (simp only: if_not_P [OF False])
    have f: "foldE (on_event vals stop) st (events (Elt nm attrs line ds)) =
        bindE (foldE (on_event vals stop) ?st (events_of ds)) (\<lambda>s. foldE (on_event vals stop) s [End nm])"
      by (simp only: events.simps foldE.simps e' bindE_simps foldE_append)
    have c2: "cut_doc stop (Elt nm attrs line ds) = (Elt nm attrs line ds', hit)" by (simp only: cut_doc.simps if_not_P [OF False] c prod.case)
    let ?x = "foldl (\<lambda>x s. add_chunk s x) ONone (texts_of ds')"
    have ih: "foldE (on_event vals stop) ?st (events_of ds) = bindE (doc_nodes vals ds') (\<lambda>ns. finish_doc vals hit (grow (texts_of ds') ns ?st))"
      using "2.IH" [of ?st] "2.prems"(1) c by simp
    have g: "ps_stack (grow (texts_of ds') ns ?st) = Node ?tag ?a ?x ns (Some line) # ps_stack st"
      "grow [] [n] (grow (texts_of ds') ns ?st\<lparr>ps_stack := ps_stack st\<rparr>) = grow [] [n] st" for ns n
      by (auto simp: grow_def split: list.splits node.splits)
    show ?thesis
    proof (cases "doc_nodes vals ds'")
      case (Inl er)
      then show ?thesis unfolding f ih c2 by simp
    next
      case (Inr ns)
      let ?g = "grow (texts_of ds') ns ?st"
      have "bindE (finish_doc vals hit ?g) (\<lambda>s. foldE (on_event vals stop) s [End nm]) =
        bindE (literalnode vals (Node ?tag ?a (text_of ds') ns (Some line))) (\<lambda>n. finish_doc vals hit (grow [] [n] st))"
      proof (cases hit)
        case True
        then show ?thesis
          by (simp only: finish_doc_def if_True close_all_exits) (simp only: close_top [OF g(1)] g(2) join_all)
      next
        case hit: False
        have "on_event vals stop ?g (End nm) = end_element vals ?g" using "2.prems"(1) by (simp add: on_event_def)
        then show ?thesis using hit
          by (cases "literalnode vals (Node ?tag ?a (text_of ds') ns (Some line))") (simp_all add: finish_doc_def end_top [OF g(1)] g(2) join_all)
      qed
      then show ?thesis using Inr unfolding f ih c2
        by (cases "literalnode vals (Node ?tag ?a (text_of ds') ns (Some line))") (simp_all del: literalnode.simps foldE.simps)
    qed
  qed
next
  case 3
  then show ?case by (simp add: finish_doc_def grow_nothing)
next
  case (4 d ds)
  obtain d' hit where c: "cut_doc stop d = (d', hit)" by fastforce
  obtain ds' hit' where cs: "cut_list stop ds = (ds', hit')" by fastforce
  have d: "foldE (on_event vals stop) st (events d) = bindE (doc_node vals d') (\<lambda>ns. finish_doc vals hit (grow (texts_of [d']) ns st))"
    using "4.IH"(1) [of st] "4.prems" c by simp
  show ?case
  proof (cases "doc_node vals d'")
    case (Inl er)
    then show ?thesis by (cases hit) (simp_all add: foldE_append d c cs)
  next
    case (Inr ns)
    show ?thesis
    proof (cases hit)
      case True
      then show ?thesis using Inr by (simp add: foldE_append d c finish_doc_def close_all_exits)
    next
      case False
      have "foldE (on_event vals stop) (grow (texts_of [d']) ns st) (events_of ds) =
          bindE (doc_nodes vals ds') (\<lambda>ms. finish_doc vals hit' (grow (texts_of ds') ms (grow (texts_of [d']) ns st)))"
        using "4.IH"(2) [of "grow (texts_of [d']) ns st"] "4.prems" cs by simp
      then show ?thesis using Inr False
        by (cases "doc_nodes vals ds'") (simp_all add: foldE_append d c cs finish_doc_def grow_grow texts_of_Cons [of d' ds'])
    qed
  qed
qed

text \<open>The whole document.\<close>

lemma doc_node_single: "doc_node vals (Elt nm attrs line ds) = Inr ns \<Longrightarrow> \<exists>n. ns = [n]"
  by (auto simp: bindE_Inr_iff)

lemma parse_document:
  "parse_events vals stop (events (Elt nm attrs line ds)) =
     bindE (doc_node vals (fst (cut_doc stop (Elt nm attrs line ds)))) (\<lambda>ns. Inr (Some (hd ns)))"
proof -
  let ?s0 = "\<lparr>ps_stack = [], ps_root = None, ps_exit = False\<rparr>" and ?d = "Elt nm attrs line ds"
  have r: "foldE (on_event vals stop) ?s0 (events ?d) = bindE (doc_node vals (fst (cut_doc stop ?d)))
       (\<lambda>ns. finish_doc vals (snd (cut_doc stop ?d)) (grow (texts_of [fst (cut_doc stop ?d)]) ns ?s0))"
    by (rule run_doc(1)) auto
  obtain es where es: "fst (cut_doc stop ?d) = Elt nm attrs line es"
    by (cases "cut_list stop ds"; cases "stop = Some (fst (split_name nm)) \<and> fst (split_name nm) \<noteq> []") auto
  show ?thesis
  proof (cases "doc_node vals (fst (cut_doc stop ?d))")
    case (Inl e)
    then show ?thesis by (simp add: parse_events_def r del: cut_doc.simps events.simps)
  next
    case (Inr ns)
    then obtain n where n: "ns = [n]" using doc_node_single unfolding es by blast
    then show ?thesis using Inr
      by (simp add: parse_events_def r finish_doc_def close_all_def grow_def n del: cut_doc.simps events.simps)
  qed
qed

lemma cut_None: "cut_doc None d = (d, False)" "cut_list None ds = (ds, False)"
  by (induction d and ds rule: events_events_of.induct) simp_all

text \<open>Splitting the characters differently does not change the tree.\<close>

lemma texts_split: "concat (texts_of (ds @ [Txt (s @ t)] @ es)) = concat (texts_of (ds @ [Txt s, Txt t] @ es))"
proof (induction ds)
  case (Cons d ds)
  then show ?case by (cases d) simp_all
qed simp

lemma doc_nodes_append: "doc_nodes vals (ds @ es) = bindE (doc_nodes vals ds) (\<lambda>ns. bindE (doc_nodes vals es) (\<lambda>ms. Inr (ns @ ms)))"
proof (induction ds)
  case Nil
  then show ?case by (cases "doc_nodes vals es") simp_all
next
  case (Cons d ds)
  then show ?case by (cases "doc_node vals d"; cases "doc_nodes vals ds"; cases "doc_nodes vals es") simp_all
qed

lemma texts_empty: "texts_of ds = [] \<longleftrightarrow> concat (texts_of ds) = []"
  by (induction ds rule: texts_of.induct) auto

lemma chunks_do_not_matter:
  "doc_node vals (Elt nm attrs line (ds @ [Txt (s @ t)] @ es)) = doc_node vals (Elt nm attrs line (ds @ [Txt s, Txt t] @ es))"
proof -
  have "text_of (ds @ [Txt (s @ t)] @ es) = text_of (ds @ [Txt s, Txt t] @ es)"
    unfolding text_of_def texts_empty texts_split ..
  moreover have "doc_nodes vals (ds @ [Txt (s @ t)] @ es) = doc_nodes vals (ds @ [Txt s, Txt t] @ es)"
    by (cases "doc_nodes vals es") (simp_all add: doc_nodes_append)
  ultimately show ?thesis by (simp only: doc_node.simps)
qed

end
