(* ===== verification/Xml_Writer.thy ===== *)
theory Xml_Writer
  imports Nodes
begin

text \<open>
  \<open>StreamingXMLWriter\<close> and \<open>scientificformat\<close> of baselib/node.py: numbers in scientific notation, the
  quoting of attributes, and the writing of a node in indented XML. The main lemmas say that writing a
  node appends the layout of its tree and leaves the indentation as it was, and that quoted attributes
  hold no markup.
\<close>

section \<open>Scientific notation\<close>

text \<open>\<open>'%w.pE' % x\<close>.\<close>

definition exp_pos :: "nat \<Rightarrow> rat \<Rightarrow> string" where
  "exp_pos p q = (let e = ilog10 q; d = round_even (q * pow10 (int p - e));
       (d', e') = (if d = 10 ^ (p + 1) then (10 ^ p, e + 1) else (d, e)); ds = show_digits d'; a = show_digits \<bar>e'\<bar> in
     take 1 ds @ (if p = 0 then [] else CHR ''.'' # drop 1 ds) @ CHR ''E'' # (if e' < 0 then CHR ''-'' else CHR ''+'') #
       (if length a < 2 then replicate (2 - length a) CHR ''0'' @ a else a))"

fun format_exp :: "nat \<Rightarrow> pyfloat \<Rightarrow> string" where
  "format_exp p (Fin q) = (if q = 0 then CHR ''0'' # (if p = 0 then [] else CHR ''.'' # replicate p CHR ''0'') @ ''E+00''
     else if 0 < q then exp_pos p q else CHR ''-'' # exp_pos p (- q))"
| "format_exp p PInf = ''INF''"
| "format_exp p NInf = ''-INF''"
| "format_exp p NaN = ''NAN''"

definition pad_left :: "nat \<Rightarrow> string \<Rightarrow> string" where
  "pad_left w s = replicate (w - length s) CHR '' '' @ s"

definition zeroset :: "char set" where
  "zeroset = {CHR ''E'', CHR ''-'', CHR ''+'', CHR ''.'', CHR ''0''}"

definition format_number :: "nat \<times> nat \<Rightarrow> pyfloat \<Rightarrow> string" where
  "format_number fmt x = (let s = pad_left (fst fmt) (format_exp (snd fmt) x) in
     if set s \<subseteq> zeroset then filter (\<lambda>c. c \<noteq> CHR ''-'') s else s)"

fun scientificformat :: "nat \<times> nat \<Rightarrow> string \<Rightarrow> string \<Rightarrow> obj \<Rightarrow> string" where
  "scientificformat fmt sep sep2 (OStr s) = s"
| "scientificformat fmt sep sep2 (OList vs) = join sep (map (scientificformat fmt sep2 '':'') vs)"
| "scientificformat fmt sep sep2 (ODict d) = join sep (map fst d)"
| "scientificformat fmt sep sep2 (OFloat x) = format_number fmt x"
| "scientificformat fmt sep sep2 (OInt i) = show_int i"
| "scientificformat fmt sep sep2 (OBool b) = (if b then ''True'' else ''False'')"
| "scientificformat fmt sep sep2 ONone = ''None''"

abbreviation sci :: "obj \<Rightarrow> string" where
  "sci \<equiv> scientificformat (13, 9) '' '' '':''"

lemma scientificformat_examples:
  "sci (OFloat (Fin 0)) = ''0.000000000E+00''" "sci (OFloat (fl (- 4 / 1000))) = ''-4.000000000E-03''"
  "sci (OList [OFloat (fl (4 / 1000))]) = ''4.000000000E-03''"
  "scientificformat (10, 6) '' '' '':'' (OList [OFloat (fl (1 / 100)), OFloat (fl (2 / 100))]) = ''1.000000E-02 2.000000E-02''"
  "scientificformat (4, 1) '' '' '':'' (OList [OList [OFloat (fl (1 / 10)), OFloat (fl (2 / 10))], OList [OFloat (fl (3 / 10)), OFloat (fl (4 / 10))]]) =
     ''1.0E-01:2.0E-01 3.0E-01:4.0E-01''"
  by code_simp+

section \<open>Quoting\<close>

text \<open>\<open>escape\<close> and \<open>quoteattr\<close> of the library \<open>xml.sax.saxutils\<close>.\<close>

definition escape_char :: "char \<Rightarrow> string" where
  "escape_char c = (if c = CHR ''&'' then ''&amp;'' else if c = CHR ''>'' then ''&gt;'' else if c = CHR ''<'' then ''&lt;'' else [c])"

definition escape :: "string \<Rightarrow> string" where
  "escape s = concat (map escape_char s)"

definition attr_char :: "char \<Rightarrow> string" where
  "attr_char c = (if c = CHR 10 then ''&#10;'' else if c = CHR 13 then ''&#13;'' else if c = CHR 9 then ''&#9;'' else escape_char c)"

definition quoteattr :: "string \<Rightarrow> string" where
  "quoteattr s = (let e = concat (map attr_char s) in
     if CHR 34 \<in> set e then
       (if CHR 39 \<in> set e then [CHR 34] @ replace_char (CHR 34) ''&quot;'' e @ [CHR 34] else [CHR 39] @ e @ [CHR 39])
     else [CHR 34] @ e @ [CHR 34])"

lemma quoteattr_quoted:
  "\<exists>q b. quoteattr s = [q] @ b @ [q] \<and> q \<in> {CHR 34, CHR 39} \<and> q \<notin> set b \<and> CHR ''<'' \<notin> set b \<and> CHR ''>'' \<notin> set b"
proof -
  let ?e = "concat (map attr_char s)"
  have c: "CHR ''<'' \<notin> set (attr_char c) \<and> CHR ''>'' \<notin> set (attr_char c)" for c by (simp add: attr_char_def escape_char_def)
  then have e: "CHR ''<'' \<notin> set ?e" "CHR ''>'' \<notin> set ?e" by auto
  have r: "CHR 34 \<notin> set (replace_char (CHR 34) ''&quot;'' ?e) \<and> CHR ''<'' \<notin> set (replace_char (CHR 34) ''&quot;'' ?e) \<and>
      CHR ''>'' \<notin> set (replace_char (CHR 34) ''&quot;'' ?e)" using e by (auto dest: set_replace_char)
  show ?thesis
  proof (cases "CHR 34 \<in> set ?e")
    case False
    then show ?thesis using e by (auto simp: quoteattr_def Let_def)
  next
    case True
    then show ?thesis using e r by (cases "CHR 39 \<in> set ?e") (auto simp: quoteattr_def Let_def)
  qed
qed

section \<open>The writer\<close>

record writer =
  wr_indent :: int
  wr_level :: int
  wr_nsmap :: "(string, string) dict option"
  wr_out :: "string list"

definition write_text :: "string \<Rightarrow> writer \<Rightarrow> writer" where
  "write_text t w = w\<lparr>wr_out := wr_out w @ [replicate (nat (wr_indent w * wr_level w)) CHR '' '' @ strip t @ [CHR 10]]\<rparr>"

definition shorten :: "(string, string) dict \<Rightarrow> string \<Rightarrow> string res" where
  "shorten nsmap tag = (if startswith tag ''{'' then
       (case split_on CHR ''}'' tag of [ns, t] \<Rightarrow> Inr ((case map_of nsmap (tl ns) of None \<Rightarrow> [] | Some p \<Rightarrow> p) @ t) | _ \<Rightarrow> Inl ValueError)
     else Inr tag)"

definition attr_text :: "string \<times> obj \<Rightarrow> string" where
  "attr_text nv = (case nv of (n, v) \<Rightarrow> n @ ''='' @ quoteattr (sci v))"

definition sorted_attrs :: "(string, obj) dict \<Rightarrow> (string \<times> obj) list" where
  "sorted_attrs attrs = sort_key fst attrs"

definition empty_element :: "string \<Rightarrow> (string, obj) dict \<Rightarrow> writer \<Rightarrow> writer" where
  "empty_element nm attrs w = write_text (''<'' @ nm @ '' '' @ join '' '' (map attr_text (sorted_attrs attrs)) @ ''/>'') w"

definition start_tag :: "string \<Rightarrow> (string, obj) dict \<Rightarrow> writer \<Rightarrow> writer" where
  "start_tag nm attrs w = (let w' = (if attrs = [] then write_text (''<'' @ nm @ ''>'') w
       else write_text ''>'' (foldl (\<lambda>w nv. write_text ('' '' @ attr_text nv) w) (write_text (''<'' @ nm) w) (sorted_attrs attrs))) in
     w'\<lparr>wr_level := wr_level w' + 1\<rparr>)"

definition end_tag :: "string \<Rightarrow> writer \<Rightarrow> writer" where
  "end_tag nm w = write_text (''</'' @ nm @ ''>'') (w\<lparr>wr_level := wr_level w - 1\<rparr>)"

text \<open>The coordinates of a \<open>posList\<close> are flattened as long as the first one is a list.\<close>

fun iter_items :: "obj \<Rightarrow> obj list res" where
  "iter_items (OList l) = Inr l"
| "iter_items (OStr s) = Inr (map (\<lambda>c. OStr [c]) s)"
| "iter_items (ODict d) = Inr (map (\<lambda>(k, v). OStr k) d)"
| "iter_items _ = Inl TypeError"

fun depth :: "obj \<Rightarrow> nat" where
  "depth (OList l) = Suc (Max (set (0 # map depth l)))"
| "depth _ = 0"

lemma depth_list: "depth (OList l) \<le> Suc n \<longleftrightarrow> (\<forall>v \<in> set l. depth v \<le> n)"
  by (induction l) auto

lemma depth_elem: "v \<in> set l \<Longrightarrow> depth v \<le> depth (OList l) - 1"
  using depth_list [of l "depth (OList l) - 1"] by simp

lemma iter_items_depth: "iter_items v = Inr l \<Longrightarrow> x \<in> set l \<Longrightarrow> depth x \<le> depth v - 1"
proof (induction v rule: iter_items.induct)
  case (1 l')
  then show ?case using depth_list [of l' "depth (OList l') - 1"] by (simp del: depth.simps) (simp del: set_simps add: depth.simps)
qed auto

function pos_flatten :: "obj \<Rightarrow> obj res" where
  "pos_flatten v = (case v of
     OList [] \<Rightarrow> Inl IndexError
   | OList (OList l0 # r) \<Rightarrow> (case mapE iter_items (OList l0 # r) of Inl e \<Rightarrow> Inl e | Inr ls \<Rightarrow> pos_flatten (OList (concat ls)))
   | _ \<Rightarrow> Inr v)"
  by pat_completeness auto
termination
proof (relation "measure depth", goal_cases)
  case (2 v l l0 r l0' ls)
  have d: "depth x \<le> depth (OList (OList l0' # r)) - 2" if x: "x \<in> set (concat ls)" for x
  proof -
    obtain l where l: "l \<in> set ls" "x \<in> set l" using x by auto
    then obtain v where v: "v \<in> set (OList l0' # r)" "iter_items v = Inr l" using 2 mapE_mem by metis
    have "depth v \<le> depth (OList (OList l0' # r)) - 1" using v(1) by (rule depth_elem)
    then show ?thesis using iter_items_depth [OF v(2) l(2)] by linarith
  qed
  have "1 \<le> depth (OList l0')" by simp
  then have "2 \<le> depth (OList (OList l0' # r))" using depth_elem [OF list.set_intros(1), of "OList l0'" r] by linarith
  moreover have "depth (OList (concat ls)) \<le> Suc (depth (OList (OList l0' # r)) - 2)" unfolding depth_list using d by blast
  ultimately have "depth (OList (concat ls)) < depth (OList (OList l0' # r))" by linarith
  then show ?case using 2 by simp
qed simp

lemmas [simp del] = pos_flatten.simps

definition text_string :: "string \<Rightarrow> obj \<Rightarrow> string res" where
  "text_string tag x = bindE (striptag tag) (\<lambda>t.
     if t = ''posList'' then bindE (pos_flatten x) (\<lambda>v. Inr (escape (strip (sci v)))) else Inr (strip (sci x)))"

text \<open>\<open>serialize\<close>.\<close>

fun serialize :: "node \<Rightarrow> writer \<Rightarrow> writer res" and serialize_list :: "node list \<Rightarrow> writer \<Rightarrow> writer res" where
  "serialize (Node tag a x ns l) w = bindE (case wr_nsmap w of None \<Rightarrow> Inr tag | Some m \<Rightarrow> shorten m tag) (\<lambda>t.
     if ns = [] \<and> x = ONone then Inr (empty_element t a w)
     else let w1 = start_tag t a w in
       bindE (if x = ONone then Inr w1
         else bindE (text_string tag x) (\<lambda>s. Inr (if s = [] then w1 else write_text s w1))) (\<lambda>w2.
       bindE (serialize_list ns w2) (\<lambda>w3. Inr (end_tag t w3))))"
| "serialize_list [] w = Inr w"
| "serialize_list (n # ns) w = bindE (serialize n w) (\<lambda>w'. serialize_list ns w')"

text \<open>\<open>node_to_xml\<close>: the namespaces become attributes of the node, and the declaration comes first.\<close>

definition add_namespaces :: "(string, string) dict \<Rightarrow> node \<Rightarrow> node" where
  "add_namespaces nsmap n = foldl (\<lambda>n (ns, prefix). if prefix \<noteq> [] then node_set_attr n (''xmlns:'' @ butlast prefix) (OStr ns)
     else node_set_attr n ''xmlns'' (OStr ns)) n nsmap"

definition xml_decl :: string where
  "xml_decl = ''<?xml version=\"1.0\" encoding=\"utf-8\"?>''"

definition node_to_xml :: "node \<Rightarrow> (string, string) dict option \<Rightarrow> (node \<times> string list) res" where
  "node_to_xml n nsmap = (let n' = (case nsmap of Some m \<Rightarrow> add_namespaces m n | None \<Rightarrow> n);
       w = write_text xml_decl \<lparr>wr_indent = 4, wr_level = 0, wr_nsmap = nsmap, wr_out = []\<rparr> in
     bindE (serialize n' w) (\<lambda>w'. Inr (n', wr_out w')))"

definition to_xml_string :: "node \<Rightarrow> int \<Rightarrow> (string, string) dict option \<Rightarrow> string res" where
  "to_xml_string n indent nsmap = bindE (serialize n \<lparr>wr_indent = indent, wr_level = 0, wr_nsmap = nsmap, wr_out = []\<rparr>)
     (\<lambda>w. Inr (concat (wr_out w)))"

section \<open>The layout\<close>

text \<open>The lines of a node at a level, without a writer.\<close>

definition layout_line :: "int \<Rightarrow> int \<Rightarrow> string \<Rightarrow> string" where
  "layout_line indent level t = replicate (nat (indent * level)) CHR '' '' @ strip t @ [CHR 10]"

definition open_lines :: "string \<Rightarrow> (string, obj) dict \<Rightarrow> string list" where
  "open_lines t a = (if a = [] then [''<'' @ t @ ''>''] else (''<'' @ t) # map (\<lambda>nv. '' '' @ attr_text nv) (sorted_attrs a) @ [''>''])"

fun layout :: "int \<Rightarrow> (string, string) dict option \<Rightarrow> int \<Rightarrow> node \<Rightarrow> string list res"
  and layouts :: "int \<Rightarrow> (string, string) dict option \<Rightarrow> int \<Rightarrow> node list \<Rightarrow> string list res" where
  "layout i m k (Node tag a x ns l) = bindE (case m of None \<Rightarrow> Inr tag | Some m \<Rightarrow> shorten m tag) (\<lambda>t.
     if ns = [] \<and> x = ONone then Inr [layout_line i k (''<'' @ t @ '' '' @ join '' '' (map attr_text (sorted_attrs a)) @ ''/>'')]
     else bindE (if x = ONone then Inr [] else bindE (text_string tag x) (\<lambda>s. Inr (if s = [] then [] else [layout_line i (k + 1) s]))) (\<lambda>ts.
       bindE (layouts i m (k + 1) ns) (\<lambda>ls. Inr (map (layout_line i k) (open_lines t a) @ ts @ ls @ [layout_line i k (''</'' @ t @ ''>'')]))))"
| "layouts i m k [] = Inr []"
| "layouts i m k (n # ns) = bindE (layout i m k n) (\<lambda>ls. bindE (layouts i m k ns) (\<lambda>ls'. Inr (ls @ ls')))"

lemma write_text_out: "write_text t w = w\<lparr>wr_out := wr_out w @ [layout_line (wr_indent w) (wr_level w) t]\<rparr>"
  by (simp add: write_text_def layout_line_def)

lemma write_texts: "foldl (\<lambda>w nv. write_text (f nv) w) w l = w\<lparr>wr_out := wr_out w @ map (\<lambda>nv. layout_line (wr_indent w) (wr_level w) (f nv)) l\<rparr>"
  by (induction l arbitrary: w) (simp_all add: write_text_out)

lemma start_tag_out: "start_tag t a w =
    w\<lparr>wr_level := wr_level w + 1, wr_out := wr_out w @ map (layout_line (wr_indent w) (wr_level w)) (open_lines t a)\<rparr>"
  unfolding start_tag_def Let_def write_texts by (simp add: write_text_out open_lines_def comp_def)

lemma end_tag_out: "end_tag t w =
    w\<lparr>wr_level := wr_level w - 1, wr_out := wr_out w @ [layout_line (wr_indent w) (wr_level w - 1) (''</'' @ t @ ''>'')]\<rparr>"
  by (simp add: end_tag_def write_text_out)

lemma serialize_layout:
  "serialize n w = bindE (layout (wr_indent w) (wr_nsmap w) (wr_level w) n) (\<lambda>ls. Inr (w\<lparr>wr_out := wr_out w @ ls\<rparr>))"
  "serialize_list ns w = bindE (layouts (wr_indent w) (wr_nsmap w) (wr_level w) ns) (\<lambda>ls. Inr (w\<lparr>wr_out := wr_out w @ ls\<rparr>))"
proof (induction n w and ns w rule: serialize_serialize_list.induct)
  case (1 tag a x ns l w)
  show ?case
  proof (cases "case wr_nsmap w of None \<Rightarrow> Inr tag | Some m \<Rightarrow> shorten m tag")
    case (Inl e)
    then show ?thesis by simp
  next
    case (Inr t)
    let ?w1 = "start_tag t a w"
    have f: "wr_indent ?w1 = wr_indent w" "wr_nsmap ?w1 = wr_nsmap w" "wr_level ?w1 = wr_level w + 1" by (simp_all add: start_tag_out)
    show ?thesis
    proof (cases "ns = [] \<and> x = ONone")
      case True
      then show ?thesis using Inr by (simp add: empty_element_def write_text_out)
    next
      case False
      let ?mid = "if x = ONone then Inr ?w1 else bindE (text_string tag x) (\<lambda>s. Inr (if s = [] then ?w1 else write_text s ?w1))"
      let ?ts = "if x = ONone then Inr [] else bindE (text_string tag x) (\<lambda>s. Inr (if s = [] then [] else [layout_line (wr_indent w) (wr_level w + 1) s]))"
      have mid: "?mid = bindE ?ts (\<lambda>ts. Inr (?w1\<lparr>wr_out := wr_out ?w1 @ ts\<rparr>))"
        by (cases "text_string tag x") (simp_all add: write_text_out f)
      have ih: "serialize_list ns (?w1\<lparr>wr_out := wr_out ?w1 @ ts\<rparr>) = bindE (layouts (wr_indent w) (wr_nsmap w) (wr_level w + 1) ns)
          (\<lambda>ls. Inr (?w1\<lparr>wr_out := wr_out ?w1 @ ts @ ls\<rparr>))" if "?ts = Inr ts" for ts
        using "1.IH" [OF False refl, of "?w1\<lparr>wr_out := wr_out ?w1 @ ts\<rparr>"] mid that f by simp
      show ?thesis
      proof (cases ?ts)
        case (Inl e)
        then have "?mid = Inl e" using mid by (simp only: bindE_simps)
        then show ?thesis using Inl False Inr by (simp only: serialize.simps layout.simps Let_def bindE_simps if_False)
      next
        case ts: (Inr ts)
        then have m: "?mid = Inr (?w1\<lparr>wr_out := wr_out ?w1 @ ts\<rparr>)" using mid by (simp only: bindE_simps)
        show ?thesis
          using False Inr m ts ih [OF ts]
          by (cases "layouts (wr_indent w) (wr_nsmap w) (wr_level w + 1) ns")
            (simp_all only: serialize.simps layout.simps Let_def bindE_simps if_False, simp_all add: end_tag_out start_tag_out)
      qed
    qed
  qed
next
  case (2 w)
  then show ?case by simp
next
  case (3 n ns w)
  show ?case
  proof (cases "layout (wr_indent w) (wr_nsmap w) (wr_level w) n")
    case (Inr ls)
    then have "serialize n w = Inr (w\<lparr>wr_out := wr_out w @ ls\<rparr>)" using "3.IH"(1) by simp
    then show ?thesis using "3.IH"(2) [of "w\<lparr>wr_out := wr_out w @ ls\<rparr>"] Inr
      by (cases "layouts (wr_indent w) (wr_nsmap w) (wr_level w) ns") simp_all
  qed (use "3.IH"(1) in simp)
qed

end
