(* ===== verification/Indices.thy ===== *)
theory Indices
  imports Utils Splitting
begin

text \<open>
  The index functions of baselib/performance.py: the runs of equal integers in an array, slices that do
  not cut a run, the positions of each integer, the splitting of an array on indices in any order (a
  counting sort), and the evaluation of a function once for each distinct argument. An array that is
  empty has no first element; the compiled functions are not called on it.
\<close>

section \<open>Runs\<close>

text \<open>The loop of \<open>idx_start_stop\<close>; \<open>i\<close> is the position of \<open>prev\<close>.\<close>

fun iss_loop :: "'a \<Rightarrow> nat \<Rightarrow> nat \<Rightarrow> 'a list \<Rightarrow> ('a \<times> nat \<times> nat) list" where
  "iss_loop prev start i [] = [(prev, start, i + 1)]"
| "iss_loop prev start i (v # vs) = (if v \<noteq> prev then (prev, start, i + 1) # iss_loop v (i + 1) (i + 1) vs
     else iss_loop v start (i + 1) vs)"

definition idx_start_stop :: "'a list \<Rightarrow> ('a \<times> nat \<times> nat) list res" where
  "idx_start_stop integers = (case integers of [] \<Rightarrow> Inl IndexError | x # xs \<Rightarrow> Inr (iss_loop x 0 0 xs))"

text \<open>\<open>get_slices\<close>: the slices of each integer.\<close>

fun slice_step :: "('a, (nat \<times> nat) list) dict \<Rightarrow> 'a \<times> nat \<times> nat \<Rightarrow> ('a, (nat \<times> nat) list) dict" where
  "slice_step d (idx, start, stop) = AList.update idx ((case map_of d idx of None \<Rightarrow> [] | Some ss \<Rightarrow> ss) @ [(start, stop)]) d"

definition get_slices :: "'a list \<Rightarrow> ('a, (nat \<times> nat) list) dict res" where
  "get_slices integers = (if integers = [] then Inr [] else bindE (idx_start_stop integers) (\<lambda>l.
     Inr (foldl slice_step [] l)))"

text \<open>The loop of \<open>split_slices\<close>.\<close>

fun ss_loop :: "nat \<Rightarrow> 'a \<Rightarrow> nat \<Rightarrow> nat \<Rightarrow> nat \<Rightarrow> 'a list \<Rightarrow> (nat \<times> nat) list" where
  "ss_loop sz prev start totsize i [] = [(start, i + 1)]"
| "ss_loop sz prev start totsize i (v # vs) = (let totsize = totsize + 1 in
     if v \<noteq> prev \<and> sz \<le> totsize then (start, i + 1) # ss_loop sz v (i + 1) 0 (i + 1) vs
     else ss_loop sz v start totsize (i + 1) vs)"

definition split_slices :: "'a list \<Rightarrow> nat \<Rightarrow> (nat \<times> nat) list res" where
  "split_slices integers sz = (case integers of [] \<Rightarrow> Inl IndexError | x # xs \<Rightarrow> Inr (ss_loop sz x 0 1 0 xs))"

section \<open>Splitting an array on indices\<close>

text \<open>\<open>_split\<close>: each value goes to the last free place of its index; a negative position counts from the end.\<close>

definition split_step :: "int list \<times> 'v list \<Rightarrow> nat \<times> 'v \<Rightarrow> int list \<times> 'v list" where
  "split_step st iv = (case (st, iv) of ((cumcounts, out), (idx, val)) \<Rightarrow>
     let c = cumcounts ! idx - 1; p = (if c < 0 then c + int (length out) else c) in
     (cumcounts[idx := c], out[nat p := val]))"

definition split_core :: "'v list \<Rightarrow> nat list \<Rightarrow> int list \<Rightarrow> int list \<Rightarrow> 'v \<Rightarrow> (int list \<times> 'v list) res" where
  "split_core values indices counts cumcounts zero =
     bindE (checkE (length indices = length values) AssertionError) (\<lambda>_. bindE (checkE (length counts \<le> length values) AssertionError) (\<lambda>_.
     Inr (foldl split_step (cumcounts, replicate (length values) zero) (zip indices values))))"

fun cumsum :: "int \<Rightarrow> int list \<Rightarrow> int list" where
  "cumsum acc [] = []"
| "cumsum acc (x # xs) = (acc + x) # cumsum (acc + x) xs"

text \<open>\<open>split_array\<close>; without counts the equal indices must be together.\<close>

definition split_array :: "'v list \<Rightarrow> nat list \<Rightarrow> int list option \<Rightarrow> 'v \<Rightarrow> 'v list list res" where
  "split_array arr indices counts zero = (case counts of
     None \<Rightarrow> bindE (idx_start_stop indices) (\<lambda>l. Inr (map (\<lambda>(i, s1, s2). py_slice s1 s2 arr) l))
   | Some cs \<Rightarrow> bindE (split_core arr indices cs (cumsum 0 cs) zero) (\<lambda>(cum, out).
       Inr (map (\<lambda>(s1, c). rev (py_slice (nat s1) (nat (s1 + c)) out)) (zip cum cs))))"

text \<open>\<open>vectorize_arg\<close>.\<close>

definition vectorize :: "('a::linorder \<Rightarrow> 'r res) \<Rightarrow> 'a list \<Rightarrow> 'r list res" where
  "vectorize f args = (case unique_inverse args of (uniq, inverse_idx) \<Rightarrow>
     bindE (mapE f uniq) (\<lambda>res. Inr (map ((!) res) inverse_idx)))"

section \<open>What the runs are\<close>

lemma upt_split: "a \<le> t \<Longrightarrow> t \<le> b \<Longrightarrow> [a..<b] = [a..<t] @ [t..<b]"
  using upt_add_eq_append [of a t "b - t"] by simp

text \<open>Slices one after the other, not empty, from \<open>a\<close> to \<open>b\<close>.\<close>

fun chain :: "nat \<Rightarrow> nat \<Rightarrow> (nat \<times> nat) list \<Rightarrow> bool" where
  "chain a b [] = (a = b)"
| "chain a b ((s, t) # l) = (s = a \<and> s < t \<and> chain t b l)"

lemma chain_append: "chain a b (l @ m) \<longleftrightarrow> (\<exists>c. chain a c l \<and> chain c b m)"
  by (induction l arbitrary: a) auto

lemma chain_cover: "chain a b l \<Longrightarrow> a \<le> b \<and> concat (map (\<lambda>(s, t). [s..<t]) l) = [a..<b]"
proof (induction l arbitrary: a)
  case (Cons p l)
  obtain s t where p: "p = (s, t)" by fastforce
  then have c: "s = a" "s < t" "chain t b l" using Cons.prems by auto
  then have "t \<le> b" "concat (map (\<lambda>(s, t). [s..<t]) l) = [t..<b]" using Cons.IH by blast+
  then show ?case using c p upt_split [of a t b] by simp
qed simp

text \<open>The runs that \<open>idx_start_stop\<close> gives: they follow each other, each holds one value, two neighbours differ.\<close>

lemma iss_loop_runs:
  assumes "start \<le> i" "i < length xs" "\<And>j. start \<le> j \<Longrightarrow> j \<le> i \<Longrightarrow> xs ! j = prev"
  shows "chain start (length xs) (map snd (iss_loop prev start i (drop (Suc i) xs)))"
    and "\<And>v s t j. (v, s, t) \<in> set (iss_loop prev start i (drop (Suc i) xs)) \<Longrightarrow> s \<le> j \<Longrightarrow> j < t \<Longrightarrow> xs ! j = v"
    and "fst (hd (iss_loop prev start i (drop (Suc i) xs))) = prev"
    and "distinct_adj (map fst (iss_loop prev start i (drop (Suc i) xs)))"
proof -
  have "chain start (length xs) (map snd (iss_loop prev start i (drop (Suc i) xs))) \<and>
    (\<forall>(v, s, t) \<in> set (iss_loop prev start i (drop (Suc i) xs)). \<forall>j. s \<le> j \<longrightarrow> j < t \<longrightarrow> xs ! j = v) \<and>
    fst (hd (iss_loop prev start i (drop (Suc i) xs))) = prev \<and> iss_loop prev start i (drop (Suc i) xs) \<noteq> [] \<and>
    distinct_adj (map fst (iss_loop prev start i (drop (Suc i) xs)))"
    using assms
  proof (induction "length xs - i" arbitrary: prev start i)
    case (Suc n)
    show ?case
    proof (cases "Suc i < length xs")
      case False
      then show ?thesis using Suc.prems by simp
    next
      case True
      then have d: "drop (Suc i) xs = xs ! Suc i # drop (Suc (Suc i)) xs" by (simp add: Cons_nth_drop_Suc)
      show ?thesis
      proof (cases "xs ! Suc i = prev")
        case True
        have "xs ! j = xs ! Suc i" if "start \<le> j" "j \<le> Suc i" for j using that Suc.prems(3) True by (cases "j = Suc i") auto
        from Suc.hyps(1) [where i = "Suc i" and start = start and prev = "xs ! Suc i", OF _ _ _ this] Suc.hyps(2) Suc.prems(1) \<open>Suc i < length xs\<close>
        show ?thesis unfolding d using True by simp
      next
        case False
        have "xs ! j = xs ! Suc i" if "Suc i \<le> j" "j \<le> Suc i" for j using that by simp
        from Suc.hyps(1) [where i = "Suc i" and start = "Suc i" and prev = "xs ! Suc i", OF _ _ _ this] Suc.hyps(2) \<open>Suc i < length xs\<close>
        have ih: "chain (Suc i) (length xs) (map snd (iss_loop (xs ! Suc i) (Suc i) (Suc i) (drop (Suc (Suc i)) xs)))"
          "\<forall>(v, s, t) \<in> set (iss_loop (xs ! Suc i) (Suc i) (Suc i) (drop (Suc (Suc i)) xs)). \<forall>j. s \<le> j \<longrightarrow> j < t \<longrightarrow> xs ! j = v"
          "fst (hd (iss_loop (xs ! Suc i) (Suc i) (Suc i) (drop (Suc (Suc i)) xs))) = xs ! Suc i"
          "iss_loop (xs ! Suc i) (Suc i) (Suc i) (drop (Suc (Suc i)) xs) \<noteq> []"
          "distinct_adj (map fst (iss_loop (xs ! Suc i) (Suc i) (Suc i) (drop (Suc (Suc i)) xs)))" by simp_all
        obtain y ys where l: "iss_loop (xs ! Suc i) (Suc i) (Suc i) (drop (Suc (Suc i)) xs) = y # ys" using ih(4) by (cases "iss_loop (xs ! Suc i) (Suc i) (Suc i) (drop (Suc (Suc i)) xs)") auto
        show ?thesis unfolding d using False ih Suc.prems l by (auto simp: distinct_adj_Cons)
      qed
    qed
  qed simp
  then show "chain start (length xs) (map snd (iss_loop prev start i (drop (Suc i) xs)))"
    and "\<And>v s t j. (v, s, t) \<in> set (iss_loop prev start i (drop (Suc i) xs)) \<Longrightarrow> s \<le> j \<Longrightarrow> j < t \<Longrightarrow> xs ! j = v"
    and "fst (hd (iss_loop prev start i (drop (Suc i) xs))) = prev"
    and "distinct_adj (map fst (iss_loop prev start i (drop (Suc i) xs)))" by fast+
qed

lemma idx_start_stop_runs:
  assumes "idx_start_stop xs = Inr l"
  shows "chain 0 (length xs) (map snd l)" and "\<And>v s t j. (v, s, t) \<in> set l \<Longrightarrow> s \<le> j \<Longrightarrow> j < t \<Longrightarrow> xs ! j = v"
    and "distinct_adj (map fst l)"
proof -
  obtain y ys where xs: "xs = y # ys" "l = iss_loop y 0 0 (drop (Suc 0) xs)"
    using assms by (auto simp: idx_start_stop_def split: list.splits)
  have "xs ! j = y" if "0 \<le> j" "j \<le> 0" for j using that xs by simp
  note r = iss_loop_runs [of 0 0 xs y, OF _ _ this]
  show "chain 0 (length xs) (map snd l)" "\<And>v s t j. (v, s, t) \<in> set l \<Longrightarrow> s \<le> j \<Longrightarrow> j < t \<Longrightarrow> xs ! j = v" "distinct_adj (map fst l)"
    using r xs by (simp_all del: drop_Suc_Cons)
qed

lemma chain_positions:
  assumes "chain a b (map snd l)" "\<And>v s t j. (v, s, t) \<in> set l \<Longrightarrow> s \<le> j \<Longrightarrow> j < t \<Longrightarrow> xs ! j = v"
  shows "filter (\<lambda>j. xs ! j = w) [a..<b] = concat (map (\<lambda>(v, s, t). [s..<t]) (filter (\<lambda>p. fst p = w) l))"
  using assms
proof (induction l arbitrary: a)
  case (Cons p l)
  obtain v s t where p: "p = (v, s, t)" by (metis prod_cases3)
  then have c: "s = a" "a < t" "chain t b (map snd l)" using Cons.prems(1) by auto
  then have "t \<le> b" using chain_cover by blast
  then have u: "[a..<b] = [a..<t] @ [t..<b]" using c(2) by (intro upt_split) simp_all
  have "\<forall>j \<in> set [a..<t]. xs ! j = v" using Cons.prems(2) [of v s t] p c(1) by simp
  then have "filter (\<lambda>j. xs ! j = w) [a..<t] = (if v = w then [a..<t] else [])" by (auto simp: filter_empty_conv filter_id_conv)
  moreover have "filter (\<lambda>j. xs ! j = w) [t..<b] = concat (map (\<lambda>(v, s, t). [s..<t]) (filter (\<lambda>p. fst p = w) l))"
    using Cons.prems(2) by (intro Cons.IH c(3)) (meson list.set_intros(2))
  ultimately show ?case using p c(1) by (simp add: u)
qed simp

lemma slices_fold:
  "map_of (foldl slice_step d l) w =
     (let ss = map snd (filter (\<lambda>p. fst p = w) l) in
      case map_of d w of None \<Rightarrow> (if ss = [] then None else Some ss) | Some s0 \<Rightarrow> Some (s0 @ ss))"
proof (induction l arbitrary: d)
  case Nil
  then show ?case by (simp split: option.split)
next
  case (Cons p l)
  obtain v s t where p: "p = (v, s, t)" by (metis prod_cases3)
  show ?case unfolding p foldl_Cons Cons.IH by (cases "map_of d v"; cases "v = w") (simp_all add: py_simps Let_def)
qed

text \<open>The slices of an integer are the positions where it is.\<close>

lemma get_slices_positions:
  assumes "get_slices xs = Inr d"
  shows "concat (map (\<lambda>(s, t). [s..<t]) (case map_of d w of None \<Rightarrow> [] | Some ss \<Rightarrow> ss)) = filter (\<lambda>j. xs ! j = w) [0..<length xs]"
    and "has_key d w \<longleftrightarrow> w \<in> set xs"
proof -
  have "(concat (map (\<lambda>(s, t). [s..<t]) (case map_of d w of None \<Rightarrow> [] | Some ss \<Rightarrow> ss)) = filter (\<lambda>j. xs ! j = w) [0..<length xs]) \<and>
    (has_key d w \<longleftrightarrow> w \<in> set xs)"
  proof (cases "xs = []")
    case True
    then show ?thesis using assms by (simp add: get_slices_def)
  next
    case False
    then obtain l where l: "idx_start_stop xs = Inr l"
      "d = foldl slice_step [] l"
      using assms by (auto simp: get_slices_def bindE_Inr_iff)
    let ?ss = "map snd (filter (\<lambda>p. fst p = w) l)"
    have m: "map_of d w = (if ?ss = [] then None else Some ?ss)" unfolding l(2) slices_fold by (simp add: Let_def)
    note r = idx_start_stop_runs [OF l(1)]
    have f: "filter (\<lambda>j. xs ! j = w) [0..<length xs] = concat (map (\<lambda>(s, t). [s..<t]) ?ss)"
      using chain_positions [OF r(1,2)] by (simp add: comp_def case_prod_unfold)
    then have "concat (map (\<lambda>(s, t). [s..<t]) (case map_of d w of None \<Rightarrow> [] | Some ss \<Rightarrow> ss)) = filter (\<lambda>j. xs ! j = w) [0..<length xs]"
      by (simp add: m)
    moreover have "has_key d w \<longleftrightarrow> w \<in> set xs"
    proof -
      have "has_key d w \<longleftrightarrow> map_of d w \<noteq> None" by (simp add: map_of_eq_None_iff)
      also have "\<dots> \<longleftrightarrow> ?ss \<noteq> []" using m by simp
      also have "\<dots> \<longleftrightarrow> concat (map (\<lambda>(s, t). [s..<t]) ?ss) \<noteq> []"
      proof -
        have "s < t" if "chain a b (map snd l)" "(v, s, t) \<in> set l" for a b v s t l
          using that by (induction l arbitrary: a) auto
        then have pos: "s < t" if "(s, t) \<in> set ?ss" for s t using that r(1) by auto
        show ?thesis
        proof (cases ?ss)
          case (Cons q qs)
          then have "fst q < snd q" using pos [of "fst q" "snd q"] by simp
          then have "[fst q..<snd q] \<noteq> []" by simp
          then show ?thesis unfolding Cons by (simp add: case_prod_unfold)
        qed (simp add: filter_empty_conv)
      qed
      also have "\<dots> \<longleftrightarrow> w \<in> set xs" unfolding f [symmetric] by (auto simp: filter_empty_conv in_set_conv_nth)
      finally show ?thesis .
    qed
    ultimately show ?thesis ..
  qed
  then show "concat (map (\<lambda>(s, t). [s..<t]) (case map_of d w of None \<Rightarrow> [] | Some ss \<Rightarrow> ss)) = filter (\<lambda>j. xs ! j = w) [0..<length xs]"
    and "has_key d w \<longleftrightarrow> w \<in> set xs" by blast+
qed

section \<open>Slices that do not cut a run\<close>

text \<open>
  The first slice may be one element shorter than the others, because the element at a border is not
  counted in the next slice.
\<close>

lemma ss_loop_slices:
  assumes "start \<le> i" "i < length xs" "tot + start \<le> i + 1" "xs ! i = prev"
  shows "chain start (length xs) (ss_loop sz prev start tot i (drop (Suc i) xs)) \<and>
    (\<forall>(s, t) \<in> set (ss_loop sz prev start tot i (drop (Suc i) xs)). t < length xs \<longrightarrow> xs ! (t - 1) \<noteq> xs ! t \<and> sz \<le> t - s + 1)"
  using assms
proof (induction "length xs - i" arbitrary: prev start tot i)
  case (Suc n)
  show ?case
  proof (cases "Suc i < length xs")
    case False
    then show ?thesis using Suc.prems by simp
  next
    case True
    then have d: "drop (Suc i) xs = xs ! Suc i # drop (Suc (Suc i)) xs" by (simp add: Cons_nth_drop_Suc)
    note ih = Suc.hyps(1) [where i = "Suc i" and prev = "xs ! Suc i", OF _ _ True _ refl]
    show ?thesis
    proof (cases "xs ! Suc i \<noteq> prev \<and> sz \<le> tot + 1")
      case cutting: True
      then have "sz \<le> Suc (Suc i - start)" using Suc.prems(1,3) by linarith
      then show ?thesis unfolding d using cutting ih [of "Suc i" 0] Suc.hyps(2) Suc.prems by (auto simp: Let_def)
    next
      case False
      then show ?thesis unfolding d using False ih [of start "tot + 1"] Suc.hyps(2) Suc.prems by (auto simp: Let_def)
    qed
  qed
qed simp

lemma split_slices_ok:
  assumes "split_slices xs sz = Inr l"
  shows "chain 0 (length xs) l" and "\<And>s t. (s, t) \<in> set l \<Longrightarrow> t < length xs \<Longrightarrow> xs ! (t - 1) \<noteq> xs ! t \<and> sz \<le> t - s + 1"
proof -
  obtain y ys where xs: "xs = y # ys" "l = ss_loop sz y 0 1 0 (drop (Suc 0) xs)"
    using assms by (auto simp: split_slices_def split: list.splits)
  from ss_loop_slices [of 0 0 xs 1 y sz] xs
  show "chain 0 (length xs) l" "\<And>s t. (s, t) \<in> set l \<Longrightarrow> t < length xs \<Longrightarrow> xs ! (t - 1) \<noteq> xs ! t \<and> sz \<le> t - s + 1"
    by auto
qed

section \<open>The counting sort\<close>

definition values_at :: "nat list \<Rightarrow> 'v list \<Rightarrow> nat \<Rightarrow> 'v list" where
  "values_at indices arr k = map snd (filter (\<lambda>p. fst p = k) (zip indices arr))"

definition before :: "nat list \<Rightarrow> nat \<Rightarrow> nat" where
  "before indices k = length (filter (\<lambda>i. i < k) indices)"

definition counts_of :: "nat list \<Rightarrow> nat \<Rightarrow> int list" where
  "counts_of indices K = map (\<lambda>k. int (count_list indices k)) [0..<K]"

lemma before_Suc: "before indices (Suc k) = before indices k + count_list indices k"
proof (induction indices)
  case (Cons i l)
  then show ?case by (auto simp: before_def less_Suc_eq)
qed (simp add: before_def)

lemma before_mono: "j \<le> k \<Longrightarrow> before indices j \<le> before indices k"
  using lift_Suc_mono_le [of "before indices" j k] before_Suc by simp

lemma before_all: "list_all (\<lambda>i. i < K) indices \<Longrightarrow> before indices K = length indices"
  by (simp add: before_def list_all_iff)

lemma values_length: "length indices = length arr \<Longrightarrow> length (values_at indices arr k) = count_list indices k"
  by (induction indices arr rule: list_induct2) (auto simp: values_at_def)

lemma values_at_snoc: "length indices = length arr \<Longrightarrow>
    values_at (indices @ [i]) (arr @ [v]) k = values_at indices arr k @ (if i = k then [v] else [])"
  by (simp add: values_at_def)

lemma cumsum_before: "cumsum 0 (counts_of indices K) = map (\<lambda>k. int (before indices (Suc k))) [0..<K]"
proof -
  have "cumsum (int (before indices a)) (map (\<lambda>k. int (count_list indices k)) [a..<K]) = map (\<lambda>k. int (before indices (Suc k))) [a..<K]" for a
  proof (induction "K - a" arbitrary: a)
    case (Suc n)
    then have "[a..<K] = a # [Suc a..<K]" by (simp add: upt_conv_Cons)
    moreover have "int (before indices a) + int (count_list indices a) = int (before indices (Suc a))" by (simp add: before_Suc)
    ultimately show ?case using Suc.hyps(1) [of "Suc a"] Suc.hyps(2) by simp
  qed simp
  from this [of 0] show ?thesis by (simp add: counts_of_def before_def)
qed

text \<open>The state after a prefix of the elements.\<close>

definition sort_state :: "nat list \<Rightarrow> nat \<Rightarrow> nat list \<Rightarrow> 'v list \<Rightarrow> int list \<times> 'v list \<Rightarrow> bool" where
  "sort_state indices K is vs st \<longleftrightarrow> length (snd st) = length indices \<and>
     fst st = map (\<lambda>k. int (before indices (Suc k)) - int (count_list is k)) [0..<K] \<and>
     (\<forall>k < K. \<forall>j < count_list is k. snd st ! (before indices (Suc k) - 1 - j) = values_at is vs k ! j)"

lemma sort_step:
  assumes st: "sort_state indices K is vs st" "length is = length vs" and i: "i < K" "count_list is i < count_list indices i"
    and le: "\<And>k. count_list is k \<le> count_list indices k" and all: "list_all (\<lambda>i. i < K) indices"
  shows "sort_state indices K (is @ [i]) (vs @ [v]) (split_step st (i, v))"
proof -
  obtain cum out where s: "st = (cum, out)" by fastforce
  have cum: "cum = map (\<lambda>k. int (before indices (Suc k)) - int (count_list is k)) [0..<K]" and len: "length out = length indices"
    and out: "\<And>k j. k < K \<Longrightarrow> j < count_list is k \<Longrightarrow> out ! (before indices (Suc k) - 1 - j) = values_at is vs k ! j"
    using st(1) by (auto simp: sort_state_def s)
  let ?p = "before indices (Suc i) - 1 - count_list is i"
  have b: "before indices (Suc i) = before indices i + count_list indices i" by (rule before_Suc)
  have bn: "before indices (Suc i) \<le> length indices" using before_mono [of "Suc i" K indices] i(1) before_all [OF all] by simp
  have c: "cum ! i - 1 = int ?p" using i b by (simp add: cum)
  have step: "split_step st (i, v) = (cum[i := int ?p], out[?p := v])"
    by (simp only: s split_step_def prod.case Let_def c) simp
  have p: "?p < length out" "before indices i \<le> ?p" using i(2) b bn len by linarith+
  have "cum[i := int ?p] = map (\<lambda>k. int (before indices (Suc k)) - int (count_list (is @ [i]) k)) [0..<K]"
    using i b by (intro nth_equalityI) (auto simp: cum nth_list_update)
  moreover have "out[?p := v] ! (before indices (Suc k) - 1 - j) = values_at (is @ [i]) (vs @ [v]) k ! j"
    if k: "k < K" "j < count_list (is @ [i]) k" for k j
  proof (cases "k = i \<and> j = count_list is i")
    case True
    then show ?thesis using p(1) values_length [OF st(2), of i] by (simp add: values_at_snoc [OF st(2)] nth_append)
  next
    case False
    then have j: "j < count_list is k" using k(2) by (auto split: if_splits)
    have "before indices (Suc k) - 1 - j \<noteq> ?p"
    proof (cases "k = i")
      case True
      then have "j < count_list is i" using j by simp
      then show ?thesis unfolding True using i(2) b by linarith
    next
      case ki: False
      have bk: "before indices (Suc k) = before indices k + count_list indices k" by (rule before_Suc)
      have jk: "j < count_list indices k" using j le [of k] by simp
      show ?thesis
      proof (cases "k < i")
        case True
        then have "before indices (Suc k) \<le> before indices i" by (intro before_mono) simp
        then show ?thesis using p(2) jk bk by linarith
      next
        case False
        then have "before indices (Suc i) \<le> before indices k" using ki by (intro before_mono) simp
        then show ?thesis using i(2) b jk bk by linarith
      qed
    qed
    then have "out[?p := v] ! (before indices (Suc k) - 1 - j) = values_at is vs k ! j" using out [OF k(1) j] by simp
    then show ?thesis using j values_length [OF st(2), of k] by (simp add: values_at_snoc [OF st(2)] nth_append)
  qed
  ultimately show ?thesis unfolding step sort_state_def by (simp add: len)
qed

lemma sort_loop:
  assumes "sort_state indices K is vs st" "length is = length vs" "is @ js = indices" "length js = length ws" "list_all (\<lambda>i. i < K) indices"
  shows "sort_state indices K indices (vs @ ws) (foldl split_step st (zip js ws))"
  using assms
proof (induction js arbitrary: "is" vs ws st)
  case (Cons i js)
  obtain w ws' where ws: "ws = w # ws'" using Cons.prems(4) by (cases ws) auto
  have c: "count_list is k + count_list (i # js) k = count_list indices k" for k using Cons.prems(3) by (metis count_list_append)
  have "sort_state indices K (is @ [i]) (vs @ [w]) (split_step st (i, w))"
  proof (rule sort_step [OF Cons.prems(1,2) _ _ _ Cons.prems(5)])
    show "i < K" using Cons.prems(3,5) by auto
    show "count_list is i < count_list indices i" using c [of i] by simp
    show "count_list is k \<le> count_list indices k" for k using c [of k] by linarith
  qed
  from Cons.IH [OF this, of ws'] Cons.prems show ?case by (simp add: ws)
qed simp

lemma sort_start: "sort_state indices K [] [] (cumsum 0 (counts_of indices K), replicate (length indices) z)"
  by (simp add: sort_state_def cumsum_before)

text \<open>With the counts of the indices, \<open>split_array\<close> gives for each index its values in their order.\<close>

lemma split_array_counts:
  assumes "length indices = length arr" "list_all (\<lambda>i. i < K) indices" "K \<le> length arr"
  shows "split_array arr indices (Some (counts_of indices K)) zero = Inr (map (values_at indices arr) [0..<K])"
proof -
  let ?st = "foldl split_step (cumsum 0 (counts_of indices K), replicate (length arr) zero) (zip indices arr)"
  have st: "sort_state indices K indices arr ?st"
    using sort_loop [of indices K "[]" "[]" "(cumsum 0 (counts_of indices K), replicate (length indices) zero)" indices arr] sort_start [of indices K zero] assms(1,2)
    by simp
  obtain cum out where o: "?st = (cum, out)" by fastforce
  have cum: "cum = map (\<lambda>k. int (before indices k)) [0..<K]" and len: "length out = length indices"
    and out: "\<And>k j. k < K \<Longrightarrow> j < count_list indices k \<Longrightarrow> out ! (before indices (Suc k) - 1 - j) = values_at indices arr k ! j"
    using st unfolding o sort_state_def by (auto simp: before_Suc)
  have "rev (py_slice (nat (int (before indices k))) (nat (int (before indices k) + int (count_list indices k))) out) = values_at indices arr k"
    if k: "k < K" for k
  proof -
    have b: "before indices (Suc k) = before indices k + count_list indices k" by (rule before_Suc)
    have "before indices (Suc k) \<le> length out" using before_mono [of "Suc k" K indices] k before_all [OF assms(2)] len by simp
    then have l: "length (py_slice (before indices k) (before indices (Suc k)) out) = count_list indices k" by (simp add: py_slice_def b)
    have "rev (py_slice (before indices k) (before indices (Suc k)) out) = values_at indices arr k"
    proof (rule nth_equalityI)
      show "length (rev (py_slice (before indices k) (before indices (Suc k)) out)) = length (values_at indices arr k)"
        using l values_length [OF assms(1)] by simp
      fix j assume "j < length (rev (py_slice (before indices k) (before indices (Suc k)) out))"
      then have j: "j < count_list indices k" using l by simp
      have "rev (py_slice (before indices k) (before indices (Suc k)) out) ! j = out ! (before indices k + (count_list indices k - 1 - j))"
        using j l \<open>before indices (Suc k) \<le> length out\<close> b by (simp add: rev_nth py_slice_def)
      also have "before indices k + (count_list indices k - 1 - j) = before indices (Suc k) - 1 - j" using j b by simp
      also have "out ! \<dots> = values_at indices arr k ! j" by (rule out [OF k j])
      finally show "rev (py_slice (before indices k) (before indices (Suc k)) out) ! j = values_at indices arr k ! j" .
    qed
    then show ?thesis by (simp add: b nat_int_add)
  qed
  then have "map (\<lambda>(s1, c). rev (py_slice (nat s1) (nat (s1 + c)) out)) (zip cum (counts_of indices K)) = map (values_at indices arr) [0..<K]"
    by (intro nth_equalityI) (simp_all add: cum counts_of_def)
  moreover have "length (counts_of indices K) \<le> length arr" using assms(3) by (simp add: counts_of_def)
  ultimately show ?thesis using assms(1) o by (simp add: split_array_def split_core_def)
qed

text \<open>Without counts, on sorted indices, it gives the values of each index that occurs.\<close>

lemma py_slice_nth: "t \<le> length xs \<Longrightarrow> py_slice s t xs = map ((!) xs) [s..<t]"
  by (rule nth_equalityI) (simp_all add: py_slice_def)

lemma values_at_nth: "length indices = length arr \<Longrightarrow>
    values_at indices arr k = map ((!) arr) (filter (\<lambda>j. indices ! j = k) [0..<length indices])"
proof -
  assume l: "length indices = length arr"
  have "zip indices arr = map (\<lambda>j. (indices ! j, arr ! j)) [0..<length indices]" using l by (intro nth_equalityI) simp_all
  then show ?thesis by (simp add: values_at_def filter_map comp_def)
qed

lemma filter_key: "distinct (map fst l) \<Longrightarrow> p \<in> set l \<Longrightarrow> filter (\<lambda>q. fst q = fst p) l = [p]"
proof (induction l)
  case (Cons q l)
  show ?case
  proof (cases "p = q")
    case True
    then show ?thesis using Cons.prems(1) by (simp add: filter_empty_conv image_iff) metis
  next
    case False
    then have "p \<in> set l" "fst p \<noteq> fst q" using Cons.prems by (auto simp: image_iff)
    then show ?thesis using Cons by simp
  qed
qed simp

lemma split_array_runs:
  assumes "split_array arr indices None zero = Inr ls" "length indices = length arr" "sorted indices"
  shows "ls = map (values_at indices arr) (sorted_list_of_set (set indices))" and "concat ls = arr"
proof -
  obtain l where l: "idx_start_stop indices = Inr l" "ls = map (\<lambda>(i, s1, s2). py_slice s1 s2 arr) l"
    using assms(1) by (auto simp: split_array_def bindE_Inr_iff)
  note r = idx_start_stop_runs [OF l(1)]
  have seg: "s < t \<and> t \<le> length indices \<and> a \<le> s" if "chain a (length indices) (map snd m)" "(v, s, t) \<in> set m" for a v s t m
    using that
  proof (induction m arbitrary: a)
    case (Cons p m)
    obtain v' s' t' where p: "p = (v', s', t')" by (metis prod_cases3)
    have c: "s' = a" "a < t'" "chain t' (length indices) (map snd m)" using Cons.prems(1) p by auto
    then have "t' \<le> length indices" using chain_cover by blast
    then show ?case using Cons.IH [OF c(3)] Cons.prems(2) c(1,2) p by auto
  qed simp
  have pos: "filter (\<lambda>j. indices ! j = w) [0..<length indices] = concat (map (\<lambda>(v, s, t). [s..<t]) (filter (\<lambda>p. fst p = w) l))" for w
    by (rule chain_positions [OF r(1)]) (rule r(2))
  have val: "indices ! s = v" if "(v, s, t) \<in> set l" for v s t using r(2) [OF that, of s] seg [OF r(1) that] by simp
  have srt: "sorted_wrt (<) (map fst m)" if "chain a (length indices) (map snd m)" "distinct_adj (map fst m)" "set m \<subseteq> set l" for a m
    using that
  proof (induction m arbitrary: a)
    case (Cons p m)
    obtain v s t where p: "p = (v, s, t)" by (metis prod_cases3)
    have c: "s = a" "a < t" "chain t (length indices) (map snd m)" using Cons.prems(1) p by auto
    have ih: "sorted_wrt (<) (map fst m)" using Cons.prems c(3) by (intro Cons.IH) (auto simp: distinct_adj_Cons split: list.splits)
    show ?case
    proof (cases m)
      case (Cons q m')
      obtain v' s' t' where q: "q = (v', s', t')" by (metis prod_cases3)
      have "s' = t" using c(3) by (simp add: Cons q)
      have m: "(v, s, t) \<in> set l" "(v', s', t') \<in> set l" using \<open>set (p # m) \<subseteq> set l\<close> by (auto simp: p Cons q)
      have "s \<le> s'" "s' < length indices" using \<open>s' = t\<close> c(1,2) seg [OF r(1) m(2)] by linarith+
      then have "v \<le> v'" using val [OF m(1)] val [OF m(2)] sorted_nth_mono [OF assms(3), of s s'] by simp
      moreover have "v \<noteq> v'" using Cons.prems(2) by (simp add: p Cons q)
      ultimately show ?thesis using ih by (auto simp: p Cons q)
    qed (simp add: p)
  qed simp
  have sl: "sorted_wrt (<) (map fst l)" by (rule srt [OF r(1,3) subset_refl])
  have "w \<in> set (map fst l) \<longleftrightarrow> w \<in> set indices" for w
  proof
    assume "w \<in> set (map fst l)"
    then obtain s t where "(w, s, t) \<in> set l" by force
    then show "w \<in> set indices" using val seg [OF r(1)] by (metis le_less_trans less_le_trans nth_mem not_le)
  next
    assume "w \<in> set indices"
    then have "filter (\<lambda>j. indices ! j = w) [0..<length indices] \<noteq> []" by (auto simp: filter_empty_conv in_set_conv_nth)
    then have "filter (\<lambda>p. fst p = w) l \<noteq> []" using pos [of w] by (metis concat.simps(1) list.map(1))
    then show "w \<in> set (map fst l)" by (auto simp: filter_empty_conv)
  qed
  then have keys: "map fst l = sorted_list_of_set (set indices)"
    using sl by (intro strict_sorted_equal) (auto simp: strict_sorted_list_of_set)
  have "py_slice s t arr = values_at indices arr v" if m: "(v, s, t) \<in> set l" for v s t
  proof -
    have "distinct (map fst l)" using sl by (simp add: strict_sorted_iff)
    then have "filter (\<lambda>p. fst p = v) l = [(v, s, t)]" using filter_key [of l "(v, s, t)"] m by simp
    then have "filter (\<lambda>j. indices ! j = v) [0..<length indices] = [s..<t]" using pos [of v] by simp
    then show ?thesis using seg [OF r(1) m] assms(2) by (simp add: py_slice_nth values_at_nth)
  qed
  then have "map (\<lambda>(i, s1, s2). py_slice s1 s2 arr) l = map (values_at indices arr) (map fst l)" by auto
  then show "ls = map (values_at indices arr) (sorted_list_of_set (set indices))" by (simp add: l(2) keys)
  have "concat (map (\<lambda>(s, t). py_slice s t arr) m) = py_slice a b arr" if "chain a b m" for a b m
    using that
  proof (induction m arbitrary: a)
    case (Cons p m)
    obtain s t where p: "p = (s, t)" by fastforce
    then have "s = a" "a < t" "chain t b m" using Cons.prems by auto
    then show ?case using Cons.IH chain_cover [of t b m] by (simp add: p py_slice_append)
  qed (simp add: py_slice_def)
  from this [OF r(1)] show "concat ls = arr" using assms(2) by (simp add: l(2) comp_def case_prod_unfold)
qed

text \<open>Evaluating a function on the distinct arguments only.\<close>

lemma first_position: "t \<in> set u \<Longrightarrow> length (takeWhile (\<lambda>x. x \<noteq> t) u) < length u \<and> u ! length (takeWhile (\<lambda>x. x \<noteq> t) u) = t"
proof -
  assume "t \<in> set u"
  then obtain xs ys where u: "u = xs @ t # ys" "t \<notin> set xs" by (meson split_list_first)
  then have "takeWhile (\<lambda>x. x \<noteq> t) u = xs" unfolding u(1) by (subst takeWhile_append2) auto
  then show ?thesis by (simp add: u(1))
qed

lemma vectorize_map:
  assumes "mapE f args = Inr rs" shows "vectorize f args = Inr rs"
proof -
  let ?u = "sorted_list_of_set (set args)"
  define pos where "pos t = length (takeWhile (\<lambda>x. x \<noteq> t) ?u)" for t
  have "\<forall>x \<in> set args. is_ok (f x)" using assms by (metis is_ok_simps(1) mapE_ok_iff)
  then have "is_ok (mapE f ?u)" by (simp add: mapE_ok_iff)
  then obtain us where us: "mapE f ?u = Inr us" by (auto simp: is_ok_iff)
  have "us ! pos (args ! i) = rs ! i" if i: "i < length args" for i
  proof -
    have m: "args ! i \<in> set ?u" using i by simp
    then have p: "pos (args ! i) < length ?u" "?u ! pos (args ! i) = args ! i"
      unfolding pos_def using first_position [OF m] by blast+
    then show ?thesis using mapE_nth [OF us p(1)] mapE_nth [OF assms i] by simp
  qed
  then have "map ((!) us) (map pos args) = rs" using mapE_length [OF assms] by (intro nth_equalityI) simp_all
  then show ?thesis by (simp add: vectorize_def unique_inverse_def Let_def us pos_def [abs_def] comp_def)
qed

end
