(* ===== verification/Source_Reader.thy ===== *)
theory Source_Reader
  imports Smlt Seq_Blocks
begin

text \<open>
  From the logic trees and the source models to groups of sources (openquake/hazardlib/
  source_reader.py): the checks on duplicated IDs, the false duplicates, and \<open>_build_groups\<close>, which
  applies the uncertainties of each realization of the source model logic tree and assigns to each
  source its region, realization and weight. A source is the one of Modify with the attributes that
  the reader sets; what its other attributes hold is of type \<open>'d\<close>, and the attribute \<open>trt_smr\<close>
  of type \<open>'t\<close>, first an index and later (Composite) a tuple of indices. The content of the files,
  the paths of the operating system and the digest \<open>adler32\<close> are given.
\<close>

section \<open>Sources, groups and models\<close>

record ('d, 't) msrc =
  ms_src :: source
  ms_data :: 'd
  ms_checksum :: "nat option"
  ms_mutex_weight :: rat
  ms_tom :: string
  ms_branch :: string
  ms_trt_smr :: 't
  ms_smweight :: rat
  ms_samples :: nat
  ms_grp_id :: nat
  ms_num :: int
  ms_offset :: int
  ms_num_ruptures :: int
  ms_weight :: rat

abbreviation ms_id :: "('d, 't) msrc \<Rightarrow> string" where
  "ms_id s \<equiv> so_source_id (ms_src s)"

abbreviation ms_trt :: "('d, 't) msrc \<Rightarrow> string" where
  "ms_trt s \<equiv> so_trt (ms_src s)"

definition ms_code :: "('d, 't) msrc \<Rightarrow> char" where
  "ms_code s = source_code (so_class (ms_src s))"

definition set_id :: "string \<Rightarrow> ('d, 't) msrc \<Rightarrow> ('d, 't) msrc" where
  "set_id i s = s\<lparr>ms_src := (ms_src s)\<lparr>so_source_id := i\<rparr>\<rparr>"

text \<open>\<open>SourceGroup\<close> without its name and its range of magnitudes, and the property \<open>atomic\<close>.\<close>

record ('d, 't) sgroup =
  gr_trt :: string
  gr_sources :: "('d, 't) msrc list"
  gr_src_interdep :: string
  gr_rup_interdep :: string
  gr_cluster :: bool
  gr_changes :: nat

definition atomic :: "('d, 't) sgroup \<Rightarrow> bool" where
  "atomic g \<longleftrightarrow> gr_cluster g \<or> gr_src_interdep g = ''mutex'' \<or> gr_rup_interdep g = ''mutex''"

definition check_source :: "string \<Rightarrow> string \<Rightarrow> ('d, 't) msrc \<Rightarrow> unit res" where
  "check_source trt rup_interdep src = (if ms_trt src \<noteq> trt then Inl AssertionError
     else if rup_interdep = ''mutex'' \<and> so_class (ms_src src) \<noteq> NonParametricSeismicSource then Inl ValueError
     else Inr ())"

definition source_group :: "string \<Rightarrow> ('d, 't) msrc list \<Rightarrow> string \<Rightarrow> string \<Rightarrow> bool \<Rightarrow> ('d, 't) sgroup res" where
  "source_group trt sources src_interdep rup_interdep cluster =
     (if src_interdep \<notin> set [''indep'', ''mutex''] \<or> rup_interdep \<notin> set [''indep'', ''mutex''] then Inl ValueError
      else bindE (mapE (check_source trt rup_interdep) sources) (\<lambda>_.
        Inr \<lparr>gr_trt = trt, gr_sources = sort_key ms_id sources, gr_src_interdep = src_interdep,
             gr_rup_interdep = rup_interdep, gr_cluster = cluster, gr_changes = 0\<rparr>))"

text \<open>
  A source model, and a geometry model, whose list of groups is empty; it has the keys of its
  sections.
\<close>

record 'd smodel =
  md_fname :: string
  md_branch :: string
  md_geometry :: bool
  md_sections :: "string list"
  md_groups :: "('d, int) sgroup list"

type_synonym 'd smdict = "(string, 'd smodel) dict"

text \<open>The loop over all the sources of all the models, each with its model and its group.\<close>

definition model_sources :: "'d smdict \<Rightarrow> (('d smodel \<times> ('d, int) sgroup) \<times> ('d, int) msrc) list" where
  "model_sources smdict = concat (map (\<lambda>(k, m). concat (map (\<lambda>g. map (Pair (m, g)) (gr_sources g)) (md_groups m))) smdict)"

text \<open>\<open>acc = AccumDict(accum=[])\<close> filled by \<open>acc[f(x)].append(x)\<close>.\<close>

definition collect :: "('a \<Rightarrow> 'k) \<Rightarrow> 'a list \<Rightarrow> ('k, 'a list) dict" where
  "collect f xs = foldl (\<lambda>d x. AList.update (f x)
     ((case map_of d (f x) of None \<Rightarrow> [] | Some l \<Rightarrow> l) @ [x]) d) [] xs"

lemma collect_snoc: "collect f (xs @ [x]) = AList.update (f x)
     ((case map_of (collect f xs) (f x) of None \<Rightarrow> [] | Some l \<Rightarrow> l) @ [x]) (collect f xs)"
  by (simp add: collect_def)

lemma collect_map_of:
  "map_of (collect f xs) k = (if k \<in> f ` set xs then Some (filter (\<lambda>x. f x = k) xs) else None)"
proof (induction xs rule: rev_induct)
  case (snoc x xs)
  have "filter (\<lambda>x. f x = k) xs = []" if "k \<notin> f ` set xs" using that by (auto simp: filter_empty_conv)
  then show ?case using snoc by (auto simp: collect_snoc py_simps)
qed (simp add: collect_def)

lemma collect_wf [simp]: "dict_wf (collect f xs)"
  by (induction xs rule: rev_induct) (simp_all add: collect_snoc, simp add: collect_def)

lemma collect_mem: "(k, l) \<in> set (collect f xs) \<longleftrightarrow> k \<in> f ` set xs \<and> l = filter (\<lambda>x. f x = k) xs"
proof -
  have "(k, l) \<in> set (collect f xs) \<longleftrightarrow> map_of (collect f xs) k = Some l"
    using collect_wf [of f xs] map_of_eq_Some_iff [of "collect f xs" k l] by (simp add: dict_wf_def)
  then show ?thesis by (simp only: collect_map_of) auto
qed

lemma collect_keys: "set (keys (collect f xs)) = f ` set xs"
proof -
  have "k \<in> set (keys (collect f xs)) \<longleftrightarrow> map_of (collect f xs) k \<noteq> None" for k
    by (simp add: map_of_eq_None_iff)
  then have "k \<in> set (keys (collect f xs)) \<longleftrightarrow> k \<in> f ` set xs" for k
    by (simp only: collect_map_of) simp
  then show ?thesis by blast
qed

section \<open>Duplicated IDs\<close>

text \<open>\<open>check_unique\<close>: for a list, and for a dictionary of lists.\<close>

definition check_unique :: "string list \<Rightarrow> bool \<Rightarrow> unit res" where
  "check_unique ids strict = checkE (strict \<longrightarrow> filter (\<lambda>u. 1 < count_list ids u) (sort (remdups ids)) = []) DuplicatedID"

definition check_unique_dict :: "(string, string list) dict \<Rightarrow> bool \<Rightarrow> unit res" where
  "check_unique_dict ids strict = (let all_ids = concat (map snd ids);
     dupls = filter (\<lambda>u. 1 < count_list all_ids u) (sort (remdups all_ids));
     bad = filter (\<lambda>dupl. filter (\<lambda>(k, l). dupl \<in> set l) ids \<noteq> []) dupls in
     checkE (strict \<longrightarrow> bad = []) DuplicatedID)"

lemma check_unique_iff: "check_unique ids strict = Inr () \<longleftrightarrow> (strict \<longrightarrow> distinct ids)"
proof -
  have "(\<forall>u \<in> set ids. \<not> 1 < count_list ids u) \<longleftrightarrow> distinct ids"
    by (induction ids) (auto simp: count_list_0_iff le_Suc_eq not_less split: if_splits)
  then show ?thesis by (simp add: check_unique_def filter_empty_conv)
qed

lemma check_unique_dict_iff:
  "check_unique_dict ids strict = Inr () \<longleftrightarrow> (strict \<longrightarrow> distinct (concat (map snd ids)))"
proof -
  let ?a = "concat (map snd ids)"
  have "\<exists>(k, l) \<in> set ids. u \<in> set l" if "u \<in> set ?a" for u using that by auto
  then have "check_unique_dict ids strict = check_unique ?a strict"
    by (auto simp: check_unique_dict_def check_unique_def Let_def filter_empty_conv checkE_def)
  then show ?thesis by (simp add: check_unique_iff)
qed

text \<open>\<open>check_branchID\<close>.\<close>

definition check_branchID :: "string \<Rightarrow> unit res" where
  "check_branchID branchID = checkE (CHR ''.'' \<notin> set branchID \<and> CHR '':'' \<notin> set branchID \<and> CHR '';'' \<notin> set branchID) InvalidFile"


section \<open>False duplicates\<close>

text \<open>
  What the checksum of a source is computed from: its attributes, less those whose name occurs in
  the string \<open>'source_id trt_smr smweight samples branch'\<close>; a checksum set before counts. The
  attributes that the composite source model sets (the number, the offset, the ruptures) are not
  there yet.
\<close>

type_synonym 'd content = "source \<times> 'd \<times> nat option \<times> rat \<times> string"

definition content :: "('d, 't) msrc \<Rightarrow> 'd content" where
  "content s = ((ms_src s)\<lparr>so_source_id := []\<rparr>, ms_data s, ms_checksum s, ms_mutex_weight s, ms_tom s)"

definition with_checksum :: "('d content \<Rightarrow> nat) \<Rightarrow> ('d, 't) msrc \<Rightarrow> ('d, 't) msrc" where
  "with_checksum adler s = s\<lparr>ms_checksum := Some (adler (content s))\<rparr>"

definition dupl_key :: "('d smodel \<times> ('d, int) sgroup) \<times> ('d, int) msrc \<Rightarrow> string" where
  "dupl_key x = (case x of ((m, g), s) \<Rightarrow> if atomic g then ms_id s else basename (ms_id s))"

definition different :: "('d content \<Rightarrow> nat) \<Rightarrow> (('d smodel \<times> ('d, int) sgroup) \<times> ('d, int) msrc) list \<Rightarrow> bool" where
  "different adler xs \<longleftrightarrow> 1 < length (remdups (map (adler \<circ> content \<circ> snd) xs))"

definition false_step :: "('d content \<Rightarrow> nat) \<Rightarrow> string list \<Rightarrow> string list \<Rightarrow>
    string \<times> (('d smodel \<times> ('d, int) sgroup) \<times> ('d, int) msrc) list \<Rightarrow> string list res" where
  "false_step adler atomics found item = (case item of (srcid, xs) \<Rightarrow>
     if 1 < length xs then
       (if list_ex (\<lambda>(mg, s). ms_id s \<in> set atomics) xs then Inl RuntimeError
        else if list_ex (\<lambda>(mg, s). ms_mutex_weight s \<noteq> 0) xs then Inl RuntimeError
        else if different adler xs then
          bindE (mapE (\<lambda>((m, g), s). check_branchID (md_branch m)) xs) (\<lambda>_. Inr (found @ [srcid]))
        else Inr found)
     else Inr found)"

text \<open>What the loop leaves in a source, and in all the models.\<close>

definition false_source :: "('d content \<Rightarrow> nat) \<Rightarrow> string list \<Rightarrow> string list \<Rightarrow> 'd smodel \<Rightarrow> ('d, int) sgroup \<Rightarrow>
    ('d, int) msrc \<Rightarrow> ('d, int) msrc" where
  "false_source adler dupl found m g s = (let k = dupl_key ((m, g), s);
     s1 = s\<lparr>ms_branch := md_branch m\<rparr>;
     s2 = (if k \<in> set dupl then with_checksum adler s1 else s1) in
     if k \<in> set found then set_id (ms_id s @ ''!'' @ md_branch m) s2 else s2)"

definition map_models :: "('d smodel \<Rightarrow> ('d, int) sgroup \<Rightarrow> ('d, int) msrc \<Rightarrow> ('d, int) msrc) \<Rightarrow> 'd smdict \<Rightarrow> 'd smdict" where
  "map_models f smdict = map (\<lambda>(k, m). (k, m\<lparr>md_groups :=
     map (\<lambda>g. g\<lparr>gr_sources := map (f m g) (gr_sources g)\<rparr>) (md_groups m)\<rparr>)) smdict"

definition find_false_duplicates :: "('d content \<Rightarrow> nat) \<Rightarrow> 'd smdict \<Rightarrow> (string list \<times> 'd smdict) res" where
  "find_false_duplicates adler smdict = (let xs = model_sources smdict; acc = collect dupl_key xs;
     atomics = map (\<lambda>((m, g), s). ms_id s) (filter (\<lambda>((m, g), s). atomic g) xs);
     dupl = keys (filter (\<lambda>(k, l). 1 < length l) acc) in
     bindE (foldE (false_step adler atomics) [] acc) (\<lambda>found.
     Inr (found, map_models (false_source adler dupl found) smdict)))"

text \<open>\<open>check_duplicates\<close>: in a file, in a branch, and the false duplicates.\<close>

definition check_group :: "('d, int) sgroup \<Rightarrow> unit res" where
  "check_group sg = checkE (gr_src_interdep sg = ''mutex'' \<longrightarrow>
     length (remdups (map (basename \<circ> ms_id) (gr_sources sg))) = 1) AssertionError"

definition check_model :: "bool \<Rightarrow> 'd smodel \<Rightarrow> unit res" where
  "check_model strict sm = bindE (mapE check_group (md_groups sm)) (\<lambda>_.
     check_unique (concat (map (\<lambda>sg. map ms_id (gr_sources sg)) (md_groups sm))) strict)"

definition ids_by_fname :: "'d smodel list \<Rightarrow> (string, string list) dict" where
  "ids_by_fname sms = foldl (\<lambda>d (fname, ids). AList.update fname
     ((case map_of d fname of None \<Rightarrow> [] | Some l \<Rightarrow> l) @ ids) d) []
     (concat (map (\<lambda>sm. map (\<lambda>sg. (md_fname sm, map ms_id (gr_sources sg))) (md_groups sm))
        (filter (\<lambda>sm. \<not> md_geometry sm) sms)))"

definition check_duplicate_ids :: "('d content \<Rightarrow> nat) \<Rightarrow> 'd smdict \<Rightarrow> bool \<Rightarrow> (string list \<times> 'd smdict) res" where
  "check_duplicate_ids adler smdict strict =
     bindE (mapE (check_model strict \<circ> snd) smdict) (\<lambda>_.
     bindE (mapE (\<lambda>(branch, sms). check_unique_dict (ids_by_fname sms) strict)
       (groupby (map snd smdict) md_branch id)) (\<lambda>_.
     find_false_duplicates adler smdict))"

lemma set_model_sources: "((m, g), s) \<in> set (model_sources smdict) \<longleftrightarrow>
    (\<exists>k. (k, m) \<in> set smdict) \<and> g \<in> set (md_groups m) \<and> s \<in> set (gr_sources g)"
  by (auto simp: model_sources_def)

lemma model_sources_map:
  assumes "((m', g'), s') \<in> set (model_sources (map_models f smdict))"
  obtains m g s where "((m, g), s) \<in> set (model_sources smdict)" "s' = f m g s"
    "md_branch m' = md_branch m" "atomic g' = atomic g"
proof -
  from assms obtain k where k: "(k, m') \<in> set (map_models f smdict)" "g' \<in> set (md_groups m')" "s' \<in> set (gr_sources g')"
    by (auto simp: set_model_sources)
  then obtain m where m: "(k, m) \<in> set smdict"
    "m' = m\<lparr>md_groups := map (\<lambda>g. g\<lparr>gr_sources := map (f m g) (gr_sources g)\<rparr>) (md_groups m)\<rparr>"
    by (auto simp: map_models_def)
  from k(2) m(2) obtain g where g: "g \<in> set (md_groups m)" "g' = g\<lparr>gr_sources := map (f m g) (gr_sources g)\<rparr>"
    by auto
  from k(3) g(2) obtain s where s: "s \<in> set (gr_sources g)" "s' = f m g s" by auto
  show thesis
    by (rule that [of m g s]) (use m g s in \<open>auto simp: set_model_sources atomic_def\<close>)
qed

lemma false_steps:
  assumes "foldE (false_step adler atomics) found0 acc = Inr found"
  shows "found = found0 @ keys (filter (\<lambda>(k, xs). 1 < length xs \<and> different adler xs) acc)"
  using assms
proof (induction acc arbitrary: found0)
  case (Cons item acc)
  obtain k xs where item: "item = (k, xs)" by fastforce
  from Cons.prems obtain f1 where f1: "false_step adler atomics found0 (k, xs) = Inr f1"
    and r: "foldE (false_step adler atomics) f1 acc = Inr found" by (auto simp: item bindE_Inr_iff)
  have "f1 = found0 @ (if 1 < length xs \<and> different adler xs then [k] else [])"
    using f1 by (auto simp: false_step_def bindE_Inr_iff split: if_splits)
  then show ?case using Cons.IH [OF r] unfolding item by simp
qed simp

lemma same_image: "card (h ` A) \<le> 1 \<Longrightarrow> finite A \<Longrightarrow> x \<in> A \<Longrightarrow> y \<in> A \<Longrightarrow> h x = h y"
  by (metis One_nat_def card_le_Suc0_iff_eq finite_imageI imageI)

lemma same_if_not_different:
  assumes "\<not> different adler xs" "x \<in> set xs" "y \<in> set xs"
  shows "adler (content (snd x)) = adler (content (snd y))"
  using same_image [of "adler \<circ> content \<circ> snd" "set xs" x y] assms
  by (simp add: different_def length_remdups_card_conv)

lemma single_filter:
  assumes "length (filter P xs) \<le> 1" "x \<in> set xs" "y \<in> set xs" "P x" "P y"
  shows "x = y"
proof -
  have "x \<in> set (filter P xs)" "y \<in> set (filter P xs)" using assms by simp_all
  moreover obtain l a where "filter P xs = l" "l = [] \<or> l = [a]"
    using assms(1) by (cases "filter P xs") auto
  ultimately show ?thesis by auto
qed

lemma append_bang:
  assumes "CHR ''!'' \<notin> set a" "CHR ''!'' \<notin> set b" "a @ ''!'' @ c = b @ ''!'' @ d"
  shows "a = b \<and> c = d"
proof -
  have t: "takeWhile (\<lambda>x. x \<noteq> CHR ''!'') (u @ ''!'' @ v) = u" if "CHR ''!'' \<notin> set u" for u v
    using that by (subst takeWhile_append2) auto
  have "a = b" using t [OF assms(1), of c] t [OF assms(2), of d] assms(3) by simp
  then show ?thesis using assms(3) by simp
qed

lemma bang_neq: "CHR ''!'' \<notin> set v \<Longrightarrow> u @ ''!'' @ c \<noteq> v"
  by auto

lemma find_false_split:
  assumes "find_false_duplicates adler smdict = Inr (found, smdict')"
  defines "acc \<equiv> collect dupl_key (model_sources smdict)"
  shows "found = keys (filter (\<lambda>(k, xs). 1 < length xs \<and> different adler xs) acc)"
    and "smdict' = map_models (false_source adler (keys (filter (\<lambda>(k, l). 1 < length l) acc)) found) smdict"
  using assms false_steps by (fastforce simp: find_false_duplicates_def Let_def bindE_Inr_iff)+

lemma in_filter_collect:
  "k \<in> set (keys (filter (\<lambda>(k, l). P l) (collect f xs))) \<longleftrightarrow> k \<in> f ` set xs \<and> P (filter (\<lambda>x. f x = k) xs)"
proof -
  have "k \<in> set (keys (filter (\<lambda>(k, l). P l) (collect f xs))) \<longleftrightarrow> (\<exists>l. (k, l) \<in> set (collect f xs) \<and> P l)"
    by (force simp: image_iff)
  then show ?thesis by (simp add: collect_mem)
qed


lemma dupl_key_plain: "basename (ms_id s) = ms_id s \<Longrightarrow> dupl_key ((m, g), s) = ms_id s"
  by (simp add: dupl_key_def)

lemma false_source_id: "ms_id (false_source adler dupl found m g s) =
    (if dupl_key ((m, g), s) \<in> set found then ms_id s @ ''!'' @ md_branch m else ms_id s)"
  by (simp add: false_source_def Let_def set_id_def with_checksum_def)

lemma false_source_checksum: "ms_checksum (false_source adler dupl found m g s) =
    (if dupl_key ((m, g), s) \<in> set dupl then Some (adler (content s)) else ms_checksum s)"
  by (simp add: false_source_def Let_def set_id_def with_checksum_def content_def)

lemma distinguish:
  assumes r: "find_false_duplicates adler smdict = Inr (found, smdict')"
    and plain: "\<And>x. x \<in> set (model_sources smdict) \<Longrightarrow>
      basename (ms_id (snd x)) = ms_id (snd x) \<and> CHR ''!'' \<notin> set (ms_id (snd x))"
    and x: "((m1, g1), s1) \<in> set (model_sources smdict')" "((m2, g2), s2) \<in> set (model_sources smdict')"
    and eq: "ms_id s1 = ms_id s2"
  shows "md_branch m1 = md_branch m2 \<or> ms_checksum s1 = ms_checksum s2"
proof -
  let ?xs = "model_sources smdict"
  define grp where "grp k = filter (\<lambda>x. dupl_key x = k) ?xs" for k
  define dupl where "dupl = keys (filter (\<lambda>(k, l). 1 < length l) (collect dupl_key ?xs))"
  note sp = find_false_split [OF r, folded dupl_def]
  obtain m g s where a: "((m, g), s) \<in> set ?xs" "s1 = false_source adler dupl found m g s" "md_branch m1 = md_branch m"
    using x(1) unfolding sp(2) by (rule model_sources_map)
  obtain n h t where b: "((n, h), t) \<in> set ?xs" "s2 = false_source adler dupl found n h t" "md_branch m2 = md_branch n"
    using x(2) unfolding sp(2) by (rule model_sources_map)
  have ka: "dupl_key ((m, g), s) = ms_id s" "CHR ''!'' \<notin> set (ms_id s)" using plain [OF a(1)] by (simp_all add: dupl_key_plain)
  have kb: "dupl_key ((n, h), t) = ms_id t" "CHR ''!'' \<notin> set (ms_id t)" using plain [OF b(1)] by (simp_all add: dupl_key_plain)
  have ids: "(if ms_id s \<in> set found then ms_id s @ ''!'' @ md_branch m else ms_id s)
      = (if ms_id t \<in> set found then ms_id t @ ''!'' @ md_branch n else ms_id t)"
    using eq by (simp add: a(2) b(2) false_source_id ka kb)
  consider "ms_id s \<in> set found" "ms_id t \<in> set found" | "ms_id s \<notin> set found" "ms_id s = ms_id t"
    using ids bang_neq [OF ka(2)] bang_neq [OF kb(2)] by (simp split: if_splits) metis+
  then show ?thesis
  proof cases
    case 1
    then show ?thesis using ids append_bang [OF ka(2) kb(2)] by (simp add: a(3) b(3))
  next
    case 2
    have mem: "((m, g), s) \<in> set (grp (ms_id s))" "((n, h), t) \<in> set (grp (ms_id s))"
      using a(1) b(1) ka kb 2(2) by (simp_all add: grp_def)
    have f: "k \<in> set found \<longleftrightarrow> k \<in> dupl_key ` set ?xs \<and> 1 < length (grp k) \<and> different adler (grp k)"
      "k \<in> set dupl \<longleftrightarrow> k \<in> dupl_key ` set ?xs \<and> 1 < length (grp k)" for k
      unfolding sp(1) dupl_def grp_def by (simp_all only: in_filter_collect)
    have key: "ms_id s \<in> dupl_key ` set ?xs" using a(1) ka(1) by (metis imageI)
    show ?thesis
    proof (cases "1 < length (grp (ms_id s))")
      case True
      then have "\<not> different adler (grp (ms_id s))" using 2(1) f(1) key by blast
      then have "adler (content s) = adler (content t)" using same_if_not_different [OF _ mem] by simp
      then show ?thesis using True key 2(2) by (simp add: a(2) b(2) false_source_checksum ka kb f(2))
    next
      case False
      then have "length (filter (\<lambda>x. dupl_key x = ms_id s) ?xs) \<le> 1" by (simp add: grp_def)
      from single_filter [OF this a(1) b(1)] have "((m, g), s) = ((n, h), t)" using ka(1) kb(1) 2(2) by simp
      then show ?thesis using a(3) b(3) by simp
    qed
  qed
qed


section \<open>Building the groups\<close>

text \<open>
  \<open>info.applytosources\<close> of \<open>collect_info\<close>: the IDs in \<open>applyToSources\<close> by the whole text of
  \<open>applyToBranches\<close>.
\<close>

definition applytosources :: "bs_node list \<Rightarrow> (string option, string list) dict" where
  "applytosources nodes = foldl (\<lambda>d bset. case bn_sources bset of None \<Rightarrow> d
     | Some s \<Rightarrow> AList.update (bn_branches bset)
         ((case map_of d (bn_branches bset) of None \<Rightarrow> [] | Some l \<Rightarrow> l) @ split_ws s) d) [] nodes"

text \<open>\<open>_groups_ids\<close>; \<open>fullname\<close> stands for the absolute path in the directory of the logic tree.\<close>

definition groups_ids :: "(string \<Rightarrow> string) \<Rightarrow> 'd smdict \<Rightarrow> string list \<Rightarrow>
    (('d, int) sgroup list \<times> string list) res" where
  "groups_ids fullname smdict fnames = bindE (mapE (\<lambda>f. dict_get smdict (fullname f)) fnames) (\<lambda>ms.
     let groups = concat (map md_groups ms) in
     Inr (groups, concat (map (\<lambda>g. map ms_id (gr_sources g)) groups)))"

text \<open>The \<open>while\<close> loop over the leading \<open>extendModel\<close> branchsets.\<close>

fun extend_models :: "(string \<Rightarrow> string) \<Rightarrow> 'd smdict \<Rightarrow> string list \<Rightarrow> ('d, int) sgroup list \<Rightarrow>
    (uval bset \<times> uval) list \<Rightarrow> (('d, int) sgroup list \<times> (uval bset \<times> uval) list) res" where
  "extend_models fullname smdict source_ids groups [] = Inr (groups, [])"
| "extend_models fullname smdict source_ids groups ((b, v) # rest) =
     (if bs_utype b = ''extendModel'' then
        (case v of UStr value \<Rightarrow> bindE (groups_ids fullname smdict (split_ws value)) (\<lambda>(extra, extra_ids).
             if list_ex (\<lambda>i. i \<in> set extra_ids) source_ids then Inl InvalidFile
             else extend_models fullname smdict source_ids (groups @ extra) rest)
         | _ \<Rightarrow> Inl AttributeError)
      else Inr (groups, (b, v) # rest))"

text \<open>\<open>apply_uncertainties\<close> on a group, whose sources keep their other attributes.\<close>

definition apply_to_group :: "(uval bset \<times> uval) list \<Rightarrow> ('d, int) sgroup \<Rightarrow> ('d, int) sgroup res" where
  "apply_to_group bset_values g = foldE (\<lambda>new s.
     bindE (apply_source bset_values (ms_src s)) (\<lambda>(srcs, changes).
       Inr (new\<lparr>gr_sources := gr_sources new @ map (\<lambda>x. s\<lparr>ms_src := x\<rparr>) srcs, gr_changes := gr_changes new + changes\<rparr>)))
     (g\<lparr>gr_sources := [], gr_changes := 0\<rparr>) (gr_sources g)"

text \<open>\<open>full_lt.set_trt_smr(sg, smr=rlz.ordinal)\<close>, which sets the attribute in the sources.\<close>

definition to_obj :: "('d, int) msrc \<Rightarrow> src_obj" where
  "to_obj s = \<lparr>sr_source_id = ms_id s, sr_trt = ms_trt s, sr_trt_smr = One (ms_trt_smr s)\<rparr>"

definition with_obj :: "('d, int) msrc \<Rightarrow> src_obj \<Rightarrow> ('d, int) msrc" where
  "with_obj s o' = (case sr_trt_smr o' of One n \<Rightarrow> s\<lparr>ms_trt_smr := n\<rparr> | _ \<Rightarrow> s)"

definition assign_smr :: "'g full_lt \<Rightarrow> nat \<Rightarrow> ('d, int) sgroup \<Rightarrow> ('d, int) sgroup res" where
  "assign_smr full smr g = bindE (set_trt_smr full (map to_obj (gr_sources g)) [] (Some (int smr))) (\<lambda>objs.
     Inr (g\<lparr>gr_sources := map2 with_obj (gr_sources g) objs\<rparr>))"

definition assign_weight :: "rat \<Rightarrow> nat \<Rightarrow> ('d, int) msrc \<Rightarrow> ('d, int) msrc" where
  "assign_weight w samples s = (if 1 < samples then s\<lparr>ms_smweight := w, ms_samples := samples\<rparr> else s\<lparr>ms_smweight := w\<rparr>)"

definition rlz_group :: "'g full_lt \<Rightarrow> rat \<Rightarrow> uval list realization \<Rightarrow> (uval bset \<times> uval) list \<Rightarrow>
    ('d, int) sgroup \<Rightarrow> ('d, int) sgroup res" where
  "rlz_group full share rlz bset_values src_group =
     bindE (apply_to_group bset_values src_group) (\<lambda>sg.
     bindE (assign_smr full (rz_ordinal rlz) sg) (\<lambda>sg.
     Inr (sg\<lparr>gr_sources := map (assign_weight (if fl_num_samples full \<noteq> 0 then rz_weight rlz else share) (rz_samples rlz))
           (gr_sources sg)\<rparr>)))"

definition fnames_of :: "uval list realization \<Rightarrow> string list res" where
  "fnames_of rlz = (case rz_value rlz of [] \<Rightarrow> Inl IndexError | UStr s # _ \<Rightarrow> Inr (split_ws s) | _ \<Rightarrow> Inl AttributeError)"

definition rlz_groups :: "(string \<Rightarrow> string) \<Rightarrow> 'd smdict \<Rightarrow> 'g full_lt \<Rightarrow> uval bset \<Rightarrow>
    (string option, string list) dict \<Rightarrow> rat \<Rightarrow> uval list realization \<Rightarrow> ('d, int) sgroup list res" where
  "rlz_groups fullname smdict full rootset applied share rlz =
     bindE (fnames_of rlz) (\<lambda>fnames.
     bindE (groups_ids fullname smdict fnames) (\<lambda>(src_groups, source_ids).
     bindE (get_bset_values rootset (rz_lt_path rlz)) (\<lambda>pairs.
     bindE (extend_models fullname smdict source_ids src_groups (tl pairs)) (\<lambda>(src_groups, bset_values).
     bindE (mapE (rlz_group full share rlz bset_values) src_groups) (\<lambda>groups.
     bindE (py_index (rz_lt_path rlz) 0) (\<lambda>sm_branch.
     bindE (checkE (list_all (\<lambda>srcid. srcid \<in> set source_ids)
       (case map_of applied (Some sm_branch) of None \<Rightarrow> [] | Some l \<Rightarrow> l)) ValueError) (\<lambda>_.
     Inr groups)))))))"

text \<open>
  \<open>_build_groups\<close>. The realizations are those of \<open>full_lt.sm_rlzs\<close>, with the values of their
  branches.
\<close>

definition build_groups :: "(string \<Rightarrow> string) \<Rightarrow> 'd smdict \<Rightarrow> 'g full_lt \<Rightarrow> uval bset \<Rightarrow>
    (string option, string list) dict \<Rightarrow> uval list realization list \<Rightarrow> ('d, int) sgroup list res" where
  "build_groups fullname smdict full rootset applied sm_rlzs =
     (if sm_rlzs = [] then Inl ZeroDivisionError else
      bindE (mapE (rlz_groups fullname smdict full rootset applied (1 / of_nat (length sm_rlzs))) sm_rlzs) (\<lambda>gss.
      Inr (concat gss)))"


section \<open>What the groups hold\<close>

text \<open>The index of a tectonic region, 0 when all the regions have the same GSIM.\<close>

definition region_index :: "'g full_lt \<Rightarrow> string \<Rightarrow> nat option" where
  "region_index full trt = (if fl_trti full = [(''*'', 0)] then Some 0 else map_of (fl_trti full) trt)"

lemma set_trt_step_some:
  assumes "set_trt_step full [] (Some n, out) src = Inr st"
  shows "\<exists>i. region_index full (sr_trt src) = Some i \<and>
      st = (Some n, out @ [src\<lparr>sr_trt_smr := One (int i * TWO24 + n)\<rparr>])"
  using assms by (auto simp: set_trt_step_def region_index_def Let_def bindE_Inr_iff dict_get_Inr_iff split: if_splits)

lemma set_trt_steps:
  assumes "foldE (set_trt_step full []) (Some n, out0) srcs = Inr (smr, out)"
  shows "\<exists>os. out = out0 @ os \<and> list_all2 (\<lambda>src obj. \<exists>i.
      region_index full (sr_trt src) = Some i \<and>
      obj = src\<lparr>sr_trt_smr := One (int i * TWO24 + n)\<rparr>) srcs os"
  using assms
proof (induction srcs arbitrary: out0)
  case (Cons src srcs)
  from Cons.prems obtain st where st: "set_trt_step full [] (Some n, out0) src = Inr st"
    and r: "foldE (set_trt_step full []) st srcs = Inr (smr, out)" by (auto simp: bindE_Inr_iff)
  obtain i where i: "region_index full (sr_trt src) = Some i"
    "st = (Some n, out0 @ [src\<lparr>sr_trt_smr := One (int i * TWO24 + n)\<rparr>])"
    using set_trt_step_some [OF st] by blast
  obtain os where os: "out = (out0 @ [src\<lparr>sr_trt_smr := One (int i * TWO24 + n)\<rparr>]) @ os"
    "list_all2 (\<lambda>src obj. \<exists>i. region_index full (sr_trt src) = Some i \<and>
      obj = src\<lparr>sr_trt_smr := One (int i * TWO24 + n)\<rparr>) srcs os"
    using Cons.IH [OF r [unfolded i(2)]] by blast
  show ?case
    by (rule exI [of _ "src\<lparr>sr_trt_smr := One (int i * TWO24 + n)\<rparr> # os"]) (use i(1) os in auto)
qed simp

text \<open>The index of a source in a realization: its region and the realization.\<close>

definition indexed :: "'g full_lt \<Rightarrow> nat \<Rightarrow> ('d, int) msrc \<Rightarrow> bool" where
  "indexed full smr s \<longleftrightarrow> (\<exists>i. region_index full (ms_trt s) = Some i \<and>
     ms_trt_smr s = trt_smr i smr)"

lemma assign_smr_indexed:
  assumes "assign_smr full smr g = Inr g'" "fl_trti full \<noteq> []"
  shows "length (gr_sources g') = length (gr_sources g) \<and> (\<forall>s \<in> set (gr_sources g'). indexed full smr s) \<and>
    map ms_src (gr_sources g') = map ms_src (gr_sources g)"
proof -
  from assms obtain sm objs where o: "foldE (set_trt_step full []) (Some (int smr), []) (map to_obj (gr_sources g)) = Inr (sm, objs)"
    and g': "g' = g\<lparr>gr_sources := map2 with_obj (gr_sources g) objs\<rparr>"
    by (auto simp: assign_smr_def set_trt_smr_def bindE_Inr_iff)
  have "list_all2 (\<lambda>s obj. indexed full smr (with_obj s obj) \<and> ms_src (with_obj s obj) = ms_src s) (gr_sources g) objs"
    using set_trt_steps [OF o] unfolding append_Nil list_all2_map1
    by (auto elim!: list.rel_mono_strong simp: indexed_def with_obj_def trt_smr_def to_obj_def)
  then have "length (map2 with_obj (gr_sources g) objs) = length (gr_sources g) \<and>
    (\<forall>s \<in> set (map2 with_obj (gr_sources g) objs). indexed full smr s) \<and>
    map ms_src (map2 with_obj (gr_sources g) objs) = map ms_src (gr_sources g)"
    by (induction rule: list_all2_induct) auto
  then show ?thesis by (simp add: g')
qed

lemma apply_to_group_trt:
  assumes "apply_to_group bvs g = Inr g'"
  shows "gr_trt g' = gr_trt g \<and> atomic g' = atomic g"
proof -
  have "(\<lambda>h. gr_trt h = gr_trt g \<and> atomic h = atomic g) g'"
    by (rule foldE_invariant [OF assms [unfolded apply_to_group_def]])
      (auto simp: atomic_def bindE_Inr_iff split: prod.splits)
  then show ?thesis .
qed

lemma rlz_group_facts:
  assumes "rlz_group full w0 rlz bvs g = Inr g'" "fl_trti full \<noteq> []"
  shows "gr_trt g' = gr_trt g \<and> atomic g' = atomic g \<and> (\<forall>s \<in> set (gr_sources g').
    indexed full (rz_ordinal rlz) s \<and> ms_smweight s = (if fl_num_samples full \<noteq> 0 then rz_weight rlz else w0))"
proof -
  from assms obtain g1 g2 where g1: "apply_to_group bvs g = Inr g1" and g2: "assign_smr full (rz_ordinal rlz) g1 = Inr g2"
    and g': "g' = g2\<lparr>gr_sources := map (assign_weight (if fl_num_samples full \<noteq> 0 then rz_weight rlz else w0) (rz_samples rlz))
           (gr_sources g2)\<rparr>"
    by (auto simp: rlz_group_def bindE_Inr_iff)
  have "gr_trt g2 = gr_trt g1 \<and> atomic g2 = atomic g1"
    using g2 by (auto simp: assign_smr_def bindE_Inr_iff atomic_def)
  moreover have "atomic g' = atomic g2 \<and> gr_trt g' = gr_trt g2" by (simp add: g' atomic_def)
  ultimately show ?thesis using apply_to_group_trt [OF g1] assign_smr_indexed [OF g2 assms(2)]
    by (auto simp: g' assign_weight_def indexed_def)
qed

lemma build_groups_split:
  assumes "build_groups fullname smdict full rootset applied rlzs = Inr groups"
  obtains gss where "groups = concat gss"
    "list_all2 (\<lambda>rlz gs. rlz_groups fullname smdict full rootset applied (1 / of_nat (length rlzs)) rlz = Inr gs) rlzs gss"
  using assms by (auto simp: build_groups_def bindE_Inr_iff mapE_Inr_iff split: if_splits)

lemma rlz_groups_mem:
  assumes "rlz_groups fullname smdict full rootset applied w0 rlz = Inr gs" "g \<in> set gs"
  shows "\<exists>bvs g0. rlz_group full w0 rlz bvs g0 = Inr g"
  using assms by (auto simp: rlz_groups_def bindE_Inr_iff split: prod.splits dest!: mapE_mem)

lemma rlz_groups_applied:
  assumes "rlz_groups fullname smdict full rootset applied w0 rlz = Inr gs"
  shows "\<exists>fnames src_groups ids. fnames_of rlz = Inr fnames \<and> groups_ids fullname smdict fnames = Inr (src_groups, ids) \<and>
    (\<forall>b path l. rz_lt_path rlz = b # path \<longrightarrow> map_of applied (Some b) = Some l \<longrightarrow> set l \<subseteq> set ids)"
  using assms by (fastforce simp: rlz_groups_def bindE_Inr_iff list_all_iff py_index_def norm_index_def split: prod.splits if_splits)

end
