(* ===== verification/Composite.thy ===== *)
theory Composite
  imports Source_Reader Splitting
begin

text \<open>
  The composite source model (openquake/hazardlib/source_reader.py): \<open>reduce_sources\<close>, \<open>_get_csm\<close>,
  which merges the copies of a source made for the realizations and regroups the sources,
  \<open>_fix_dupl_ids\<close>, and the operations of \<open>CompositeSourceModel\<close>: its initialisation, its tables, the
  offsets of the ruptures. Once regrouped, a source has the tuple of its indices, which is what the
  property \<open>trt_smrs\<close> returns in the code.
\<close>

section \<open>Reducing and regrouping the sources\<close>

definition with_smr :: "'u \<Rightarrow> ('d, 't) msrc \<Rightarrow> ('d, 'u) msrc" where
  "with_smr t s = \<lparr>ms_src = ms_src s, ms_data = ms_data s, ms_checksum = ms_checksum s,
     ms_mutex_weight = ms_mutex_weight s, ms_tom = ms_tom s, ms_branch = ms_branch s, ms_trt_smr = t,
     ms_smweight = ms_smweight s, ms_samples = ms_samples s, ms_grp_id = ms_grp_id s, ms_num = ms_num s,
     ms_offset = ms_offset s, ms_num_ruptures = ms_num_ruptures s, ms_weight = ms_weight s\<rparr>"

definition trt_smrs :: "('d, int) msrc \<Rightarrow> ('d, int list) msrc" where
  "trt_smrs s = with_smr [ms_trt_smr s] s"

definition group_smrs :: "('d, int) sgroup \<Rightarrow> ('d, int list) sgroup" where
  "group_smrs g = \<lparr>gr_trt = gr_trt g, gr_sources = map trt_smrs (gr_sources g), gr_src_interdep = gr_src_interdep g,
     gr_rup_interdep = gr_rup_interdep g, gr_cluster = gr_cluster g, gr_changes = gr_changes g\<rparr>"

definition reduce_sources :: "('d content \<Rightarrow> nat) \<Rightarrow> ('d, int) msrc list \<Rightarrow> ('d, int list) msrc list" where
  "reduce_sources adler srcs = sort_key ms_trt_smr (map (\<lambda>(c, ss). with_smr (map ms_trt_smr ss) (hd ss))
     (groupby (map (with_checksum adler) srcs) ms_checksum id))"

definition split_by_tom :: "('d, 't) msrc list \<Rightarrow> ('d, 't) msrc list list" where
  "split_by_tom sources = map snd (groupby sources ms_tom id)"

definition reduced :: "('d content \<Rightarrow> nat) \<Rightarrow> bool \<Rightarrow> ('d, int) msrc list \<Rightarrow> ('d, int list) msrc list" where
  "reduced adler event_based srcs = concat (map (\<lambda>(k, ss).
     if 1 < length ss \<and> \<not> event_based then reduce_sources adler ss else map trt_smrs ss)
     (groupby srcs (\<lambda>s. (ms_id s, ms_code s)) id))"

definition regroup :: "string \<Rightarrow> ('d, int list) msrc list \<Rightarrow> ('d, int list) sgroup list res" where
  "regroup trt lst = mapE (\<lambda>grp. source_group trt grp ''indep'' ''indep'' False)
     (concat (map (\<lambda>(k, sources). split_by_tom sources) (groupby lst ms_trt_smr id)))"

text \<open>\<open>_fix_dupl_ids\<close>: the \<open>i\<close>-th of the sources with the same ID gets the suffix \<open>;i\<close>.\<close>

definition fix_id :: "string list \<Rightarrow> string list \<Rightarrow> string \<Rightarrow> string" where
  "fix_id all seen i = (if 1 < count_list all i then i @ '';'' @ show_nat (count_list seen i) else i)"

fun fix_ids :: "string list \<Rightarrow> string list \<Rightarrow> ('d, 't) msrc list \<Rightarrow> ('d, 't) msrc list" where
  "fix_ids all seen [] = []"
| "fix_ids all seen (s # ss) = set_id (fix_id all seen (ms_id s)) s # fix_ids all (seen @ [ms_id s]) ss"

fun fix_groups :: "string list \<Rightarrow> string list \<Rightarrow> ('d, 't) sgroup list \<Rightarrow> ('d, 't) sgroup list" where
  "fix_groups all seen [] = []"
| "fix_groups all seen (g # gs) = g\<lparr>gr_sources := fix_ids all seen (gr_sources g)\<rparr>
     # fix_groups all (seen @ map ms_id (gr_sources g)) gs"

definition all_sources :: "('d, 't) sgroup list \<Rightarrow> ('d, 't) msrc list" where
  "all_sources gs = concat (map gr_sources gs)"

definition fix_dupl_ids :: "('d, 't) sgroup list \<Rightarrow> ('d, 't) sgroup list" where
  "fix_dupl_ids src_groups = fix_groups (map ms_id (all_sources src_groups)) [] src_groups"

definition sort_group :: "('d, 't) sgroup \<Rightarrow> ('d, 't) sgroup" where
  "sort_group sg = sg\<lparr>gr_sources := sort_key ms_id (gr_sources sg)\<rparr>"

text \<open>\<open>_get_csm\<close> up to the construction of the composite source model.\<close>

definition get_csm :: "('d content \<Rightarrow> nat) \<Rightarrow> bool \<Rightarrow> ('d, int) sgroup list \<Rightarrow> ('d, int list) sgroup list res" where
  "get_csm adler event_based groups = (let full_groups = filter (\<lambda>g. gr_sources g \<noteq> []) groups;
     acc = collect gr_trt (filter (\<lambda>g. \<not> atomic g) full_groups) in
     bindE (mapE (\<lambda>(trt, gs). regroup trt (reduced adler event_based (all_sources gs))) acc) (\<lambda>gss.
     Inr (map sort_group (fix_dupl_ids (concat gss @ map group_smrs (filter atomic full_groups))))))"


section \<open>Unique IDs\<close>

fun fix_names :: "string list \<Rightarrow> string list \<Rightarrow> string list \<Rightarrow> string list" where
  "fix_names all seen [] = []"
| "fix_names all seen (i # is) = fix_id all seen i # fix_names all (seen @ [i]) is"

lemma ms_id_set_id [simp]: "ms_id (set_id i s) = i"
  by (simp add: set_id_def)

lemma fix_ids_names: "map ms_id (fix_ids all seen ss) = fix_names all seen (map ms_id ss)"
  by (induction ss arbitrary: seen) auto

lemma fix_ids_append: "fix_ids all seen (xs @ ys) = fix_ids all seen xs @ fix_ids all (seen @ map ms_id xs) ys"
  by (induction xs arbitrary: seen) auto

lemma fix_groups_sources: "all_sources (fix_groups all seen gs) = fix_ids all seen (all_sources gs)"
  by (induction gs arbitrary: seen) (auto simp: all_sources_def fix_ids_append)

lemma fix_dupl_ids_sources:
  "all_sources (fix_dupl_ids gs) = fix_ids (map ms_id (all_sources gs)) [] (all_sources gs)"
  by (simp add: fix_dupl_ids_def fix_groups_sources)

lemma semicolon_split:
  assumes "CHR '';'' \<notin> set a"
  shows "takeWhile (\<lambda>c. c \<noteq> CHR '';'') (a @ '';'' @ u) = a" "takeWhile (\<lambda>c. c \<noteq> CHR '';'') a = a"
    "takeWhile (\<lambda>c. c \<noteq> CHR '';'') (fix_id all seen a) = a"
proof -
  show 1: "takeWhile (\<lambda>c. c \<noteq> CHR '';'') (a @ '';'' @ u) = a" for u
    using assms by (subst takeWhile_append2) auto
  show 2: "takeWhile (\<lambda>c. c \<noteq> CHR '';'') a = a" using assms by (auto simp: takeWhile_eq_all_conv)
  show "takeWhile (\<lambda>c. c \<noteq> CHR '';'') (fix_id all seen a) = a" using 1 2 by (simp add: fix_id_def del: append_Cons)
qed

lemma fix_names_mem:
  "x \<in> set (fix_names all seen is) \<Longrightarrow> \<exists>j n. j \<in> set is \<and> count_list seen j \<le> n \<and>
     x = (if 1 < count_list all j then j @ '';'' @ show_nat n else j)"
proof (induction "is" arbitrary: seen)
  case (Cons i "is")
  consider "x = fix_id all seen i" | "x \<in> set (fix_names all (seen @ [i]) is)" using Cons.prems by auto
  then show ?case
  proof cases
    case 1
    then show ?thesis by (intro exI [of _ i] exI [of _ "count_list seen i"]) (simp add: fix_id_def)
  next
    case 2
    then obtain j n where "j \<in> set is" "count_list (seen @ [i]) j \<le> n"
      "x = (if 1 < count_list all j then j @ '';'' @ show_nat n else j)" using Cons.IH by blast
    then show ?thesis by (intro exI [of _ j] exI [of _ n]) (auto split: if_splits)
  qed
qed simp

lemma fix_names_distinct:
  assumes "\<And>i. i \<in> set is \<Longrightarrow> CHR '';'' \<notin> set i" "\<And>j. count_list seen j + count_list is j \<le> count_list all j"
  shows "distinct (fix_names all seen is)"
  using assms
proof (induction "is" arbitrary: seen)
  case (Cons i "is")
  have "fix_id all seen i \<notin> set (fix_names all (seen @ [i]) is)"
  proof
    assume "fix_id all seen i \<in> set (fix_names all (seen @ [i]) is)"
    then obtain j n where j: "j \<in> set is" "count_list (seen @ [i]) j \<le> n"
      "fix_id all seen i = (if 1 < count_list all j then j @ '';'' @ show_nat n else j)"
      using fix_names_mem by blast
    have "CHR '';'' \<notin> set i" "CHR '';'' \<notin> set j" using Cons.prems(1) j(1) by auto
    then have "i = j"
      using arg_cong [OF j(3), of "takeWhile (\<lambda>c. c \<noteq> CHR '';'')"] semicolon_split(1) [of j "show_nat n"]
      by (simp add: semicolon_split(2,3) del: append_Cons split: if_splits)
    moreover have "0 < count_list is i" using j(1) \<open>i = j\<close> by (simp add: count_list_0_iff neq0_conv [symmetric] del: neq0_conv)
    then have "1 < count_list all i" using Cons.prems(2) [of i] by simp
    ultimately show False using j(2,3) by (simp add: fix_id_def)
  qed
  moreover have "count_list (seen @ [i]) j + count_list is j \<le> count_list all j" for j
    using Cons.prems(2) [of j] by (simp split: if_splits)
  then have "distinct (fix_names all (seen @ [i]) is)" using Cons.prems(1) by (intro Cons.IH) auto
  ultimately show ?case by simp
qed simp

lemma fix_dupl_ids_distinct:
  assumes "\<And>s. s \<in> set (all_sources gs) \<Longrightarrow> CHR '';'' \<notin> set (ms_id s)"
  shows "distinct (map ms_id (all_sources (fix_dupl_ids gs)))"
  using assms by (auto simp: fix_dupl_ids_sources fix_ids_names intro!: fix_names_distinct)


section \<open>What regrouping keeps\<close>

text \<open>
  A source with an index, as it comes from the groups of the realizations, and the sources with
  their tuples of indices taken apart; the suffix after the semicolon is not counted.
\<close>

definition base_src :: "source \<Rightarrow> source" where
  "base_src s = s\<lparr>so_source_id := takeWhile (\<lambda>c. c \<noteq> CHR '';'') (so_source_id s)\<rparr>"

definition part :: "('d, int) msrc \<Rightarrow> source \<times> 'd \<times> int" where
  "part s = (base_src (ms_src s), ms_data s, ms_trt_smr s)"

definition parts_of :: "('d, int list) msrc \<Rightarrow> (source \<times> 'd \<times> int) list" where
  "parts_of s = map (\<lambda>n. (base_src (ms_src s), ms_data s, n)) (ms_trt_smr s)"

definition parts :: "('d, int list) msrc list \<Rightarrow> (source \<times> 'd \<times> int) multiset" where
  "parts ss = mset (concat (map parts_of ss))"

lemma parts_simps [simp]:
  "parts [] = {#}" "parts (s # ss) = mset (parts_of s) + parts ss" "parts (ss @ ts) = parts ss + parts ts"
  by (simp_all add: parts_def)

lemma parts_sum: "parts ss = (\<Sum>s \<in># mset ss. mset (parts_of s))"
  by (induction ss) simp_all

lemma parts_mset: "mset ss = mset ts \<Longrightarrow> parts ss = parts ts"
  by (simp add: parts_sum)

lemma parts_concat: "parts (concat xss) = (\<Sum>xs \<leftarrow> xss. parts xs)"
  by (induction xss) simp_all

lemma mset_concat_map: "mset (concat (map f xs)) = (\<Sum>x \<leftarrow> xs. mset (f x))"
  by (induction xs) simp_all

lemma parts_of_smr [simp]: "parts_of (trt_smrs s) = [part s]"
  by (simp add: parts_of_def trt_smrs_def with_smr_def part_def)

lemma parts_smrs [simp]: "parts (map trt_smrs ss) = mset (map part ss)"
  by (induction ss) simp_all

lemma parts_fix_ids:
  assumes "\<And>s. s \<in> set ss \<Longrightarrow> CHR '';'' \<notin> set (ms_id s)"
  shows "parts (fix_ids all seen ss) = parts ss"
  using assms
proof (induction ss arbitrary: seen)
  case (Cons s ss)
  have "base_src (ms_src (set_id (fix_id all seen (ms_id s)) s)) = base_src (ms_src s)"
    using Cons.prems by (simp add: base_src_def set_id_def semicolon_split)
  then have "parts_of (set_id (fix_id all seen (ms_id s)) s) = parts_of s"
    by (simp add: parts_of_def set_id_def)
  then show ?case using Cons by simp
qed simp

text \<open>Sources with the same ID and checksum are the same, where the digest has no collision.\<close>

lemma same_content:
  assumes "inj_on adler (content ` A)" "s \<in> A" "t \<in> A" "ms_id s = ms_id t"
    "ms_checksum (with_checksum adler s) = ms_checksum (with_checksum adler t)"
  shows "ms_src s = ms_src t \<and> ms_data s = ms_data t"
proof -
  have "content s = content t" using assms by (auto simp: with_checksum_def dest: inj_onD)
  then have "(ms_src s)\<lparr>so_source_id := []\<rparr> = (ms_src t)\<lparr>so_source_id := []\<rparr>" "ms_data s = ms_data t"
    by (simp_all add: content_def)
  with assms(4) show ?thesis by (cases "ms_src s"; cases "ms_src t") simp
qed

lemma part_checksum [simp]: "part (with_checksum adler s) = part s"
  by (simp add: part_def with_checksum_def)

lemma parts_of_reduced:
  assumes "\<And>s. s \<in> set ss \<Longrightarrow> ms_src s = ms_src (hd ss) \<and> ms_data s = ms_data (hd ss)"
  shows "parts_of (with_smr (map ms_trt_smr ss) (hd ss)) = map part ss"
proof -
  have "map part ss = map (\<lambda>s. (base_src (ms_src (hd ss)), ms_data (hd ss), ms_trt_smr s)) ss"
    using assms by (intro map_cong [OF refl]) (simp only: part_def)
  then show ?thesis by (simp add: parts_of_def with_smr_def comp_def)
qed

lemma groupby_mem: "(k, l) \<in> set (groupby xs f id) \<Longrightarrow> l = filter (\<lambda>x. f x = k) xs \<and> k \<in> f ` set xs"
  by (auto simp: groupby_eq)

lemma concat_groupby: "(\<Sum>(k, l) \<leftarrow> groupby xs f id. mset (map g l)) = mset (map g xs)"
proof -
  have "mset (map g (concat (map snd (groupby xs f id)))) = (\<Sum>(k, l) \<leftarrow> groupby xs f id. mset (map g l))"
    by (simp only: map_concat mset_concat_map map_map comp_def case_prod_unfold)
  then show ?thesis by (simp only: mset_map groupby_lossless)
qed

lemma parts_reduce_sources:
  assumes inj: "inj_on adler (content ` set srcs)" and id: "\<And>s. s \<in> set srcs \<Longrightarrow> ms_id s = i"
  shows "parts (reduce_sources adler srcs) = mset (map part srcs)"
proof -
  let ?ys = "map (with_checksum adler) srcs"
  have one: "parts_of (with_smr (map ms_trt_smr l) (hd l)) = map part l"
    if "(c, l) \<in> set (groupby ?ys ms_checksum id)" for c l
  proof (rule parts_of_reduced)
    fix y assume y: "y \<in> set l"
    have z: "\<exists>s \<in> set srcs. z = with_checksum adler s \<and> ms_checksum z = c" if "z \<in> set l" for z
      using that groupby_mem [OF \<open>(c, l) \<in> set _\<close>] by auto
    have "hd l \<in> set l" using y by (cases l) auto
    with y z obtain s t where "s \<in> set srcs" "t \<in> set srcs" "y = with_checksum adler s" "hd l = with_checksum adler t"
      "ms_checksum y = ms_checksum (hd l)" by metis
    then show "ms_src y = ms_src (hd l) \<and> ms_data y = ms_data (hd l)"
      using same_content [OF inj, of s t] id by (simp add: with_checksum_def)
  qed
  have "parts (reduce_sources adler srcs)
      = parts (map (\<lambda>(c, l). with_smr (map ms_trt_smr l) (hd l)) (groupby ?ys ms_checksum id))"
    by (rule parts_mset) (simp add: reduce_sources_def)
  also have "\<dots> = (\<Sum>(c, l) \<leftarrow> groupby ?ys ms_checksum id. mset (map part l))"
    using one by (auto simp: parts_def mset_concat_map case_prod_unfold intro!: arg_cong [where f = sum_list] map_cong)
  also have "\<dots> = mset (map part srcs)" unfolding concat_groupby by (simp add: comp_def)
  finally show ?thesis .
qed

lemma parts_reduced:
  assumes inj: "inj_on adler (content ` set srcs)"
  shows "parts (reduced adler event_based srcs) = mset (map part srcs)"
proof -
  let ?g = "groupby srcs (\<lambda>s. (ms_id s, ms_code s)) id"
  have one: "parts (reduce_sources adler l) = mset (map part l)" if "(k, l) \<in> set ?g" for k l
  proof -
    have l: "l = filter (\<lambda>s. (ms_id s, ms_code s) = k) srcs" using groupby_mem [OF that] by simp
    show ?thesis
      by (rule parts_reduce_sources [where i = "fst k"]) (use inj l in \<open>auto intro: inj_on_subset\<close>)
  qed
  have "parts (reduced adler event_based srcs) = (\<Sum>(k, l) \<leftarrow> ?g. mset (map part l))"
    using one by (auto simp: reduced_def parts_concat case_prod_unfold comp_def intro!: arg_cong [where f = sum_list] map_cong)
  then show ?thesis by (simp only: concat_groupby)
qed


section \<open>The groups of the composite source model\<close>

definition src_key :: "('d, 't) msrc \<Rightarrow> string \<times> 't \<times> string" where
  "src_key s = (ms_trt s, ms_trt_smr s, ms_tom s)"

definition group_key :: "('d, 't) sgroup \<Rightarrow> string \<times> 't \<times> string" where
  "group_key g = src_key (hd (gr_sources g))"

definition homogeneous :: "('d, 't) sgroup \<Rightarrow> bool" where
  "homogeneous g \<longleftrightarrow> gr_sources g \<noteq> [] \<and> (\<forall>s \<in> set (gr_sources g). src_key s = group_key g \<and> ms_trt s = gr_trt g)"

lemma hd_const: "ss \<noteq> [] \<Longrightarrow> (\<And>s. s \<in> set ss \<Longrightarrow> f s = k) \<Longrightarrow> f (hd ss) = k"
  by simp

lemma source_group_Inr:
  assumes "source_group trt ss a b c = Inr g"
  shows "gr_trt g = trt" "gr_sources g = sort_key ms_id ss" "\<And>s. s \<in> set ss \<Longrightarrow> ms_trt s = trt"
    "gr_src_interdep g = a" "gr_rup_interdep g = b" "gr_cluster g = c"
proof -
  from assms obtain us where "list_all2 (\<lambda>s u. check_source trt b s = Inr u) ss us"
    "g = \<lparr>gr_trt = trt, gr_sources = sort_key ms_id ss, gr_src_interdep = a, gr_rup_interdep = b, gr_cluster = c, gr_changes = 0\<rparr>"
    by (auto simp: source_group_def bindE_Inr_iff mapE_Inr_iff split: if_splits)
  moreover have "\<forall>s \<in> set ss. ms_trt s = trt"
    using calculation(1) by (induction rule: list_all2_induct) (auto simp: check_source_def split: if_splits)
  ultimately show "gr_trt g = trt" "gr_sources g = sort_key ms_id ss" "\<And>s. s \<in> set ss \<Longrightarrow> ms_trt s = trt"
    "gr_src_interdep g = a" "gr_rup_interdep g = b" "gr_cluster g = c" by simp_all
qed

definition chunks :: "('d, int list) msrc list \<Rightarrow> ('d, int list) msrc list list" where
  "chunks lst = concat (map (\<lambda>(k, sources). split_by_tom sources) (groupby lst ms_trt_smr id))"

lemma concat_concats: "concat (concat xss) = concat (map concat xss)"
  by (induction xss) simp_all

lemma mset_chunks: "mset (concat (chunks lst)) = mset lst"
proof -
  have "mset (concat (chunks lst)) = (\<Sum>(k, l) \<leftarrow> groupby lst ms_trt_smr id. mset (concat (split_by_tom l)))"
    by (simp add: chunks_def concat_concats mset_concat_map case_prod_unfold comp_def)
  also have "\<dots> = (\<Sum>(k, l) \<leftarrow> groupby lst ms_trt_smr id. mset (map id l))"
    by (simp add: split_by_tom_def groupby_lossless)
  finally show ?thesis by (simp only: concat_groupby) simp
qed

lemma chunk_const:
  assumes "c \<in> set (chunks lst)"
  shows "c \<noteq> [] \<and> (\<forall>s \<in> set c. (ms_trt_smr s, ms_tom s) = (ms_trt_smr (hd c), ms_tom (hd c)))"
proof -
  from assms obtain k l t where l: "l = filter (\<lambda>s. ms_trt_smr s = k) lst"
    and c: "c = filter (\<lambda>s. ms_tom s = t) l" "t \<in> ms_tom ` set l"
    by (auto simp: chunks_def split_by_tom_def groupby_eq)
  have ne: "c \<noteq> []" using c by (auto simp: filter_empty_conv)
  have "\<forall>s \<in> set c. (ms_trt_smr s, ms_tom s) = (k, t)" using c l by simp
  with ne show ?thesis by (metis hd_in_set)
qed

lemma distinct_pairs:
  "distinct (map fst xs) \<Longrightarrow> (\<And>k ts. (k, ts) \<in> set xs \<Longrightarrow> distinct ts) \<Longrightarrow>
     distinct (concat (map (\<lambda>(k, ts). map (Pair k) ts) xs))"
proof (induction xs)
  case (Cons x xs)
  obtain k ts where x: "x = (k, ts)" by fastforce
  have "Pair k ` set ts \<inter> set (concat (map (\<lambda>(k, ts). map (Pair k) ts) xs)) = {}"
  proof -
    have mem: "fst p \<in> fst ` set xs" if "p \<in> set (concat (map (\<lambda>(k, ts). map (Pair k) ts) xs))" for p
      using that by force
    show ?thesis
    proof (rule equals0I)
      fix p assume "p \<in> Pair k ` set ts \<inter> set (concat (map (\<lambda>(k, ts). map (Pair k) ts) xs))"
      then have "fst p = k" "fst p \<in> fst ` set xs" using mem [of p] by auto
      then show False using Cons.prems(1) by (simp add: x)
    qed
  qed
  moreover have "distinct (concat (map (\<lambda>(k, ts). map (Pair k) ts) xs))"
    using Cons.prems by (intro Cons.IH) auto
  moreover have "distinct (map (Pair k) ts)" using Cons.prems(2) [of k ts] by (simp add: x distinct_map inj_on_def)
  ultimately show ?case by (simp add: x)
qed simp

lemma chunks_distinct: "distinct (map (\<lambda>c. (ms_trt_smr (hd c), ms_tom (hd c))) (chunks lst))"
proof -
  let ?g = "groupby lst ms_trt_smr id"
  have one: "map (\<lambda>c. (ms_trt_smr (hd c), ms_tom (hd c))) (split_by_tom l) = map (Pair k) (sorted_list_of_set (ms_tom ` set l))"
    if "(k, l) \<in> set ?g" for k l
  proof -
    have "(ms_trt_smr (hd c), ms_tom (hd c)) = (k, t)" if "c = filter (\<lambda>s. ms_tom s = t) l" "t \<in> ms_tom ` set l" for c t
    proof -
      have "c \<noteq> []" using that by (auto simp: filter_empty_conv)
      then have "hd c \<in> set c" by simp
      then show ?thesis using that(1) groupby_mem [OF \<open>(k, l) \<in> set ?g\<close>] by simp
    qed
    then show ?thesis by (simp add: split_by_tom_def groupby_eq comp_def)
  qed
  have "map (\<lambda>c. (ms_trt_smr (hd c), ms_tom (hd c))) (chunks lst)
      = concat (map (\<lambda>(k, ts). map (Pair k) ts) (map (\<lambda>(k, l). (k, sorted_list_of_set (ms_tom ` set l))) ?g))"
    unfolding chunks_def map_concat map_map
    by (rule arg_cong [where f = concat]) (use one in \<open>auto intro!: map_cong\<close>)
  moreover have "distinct \<dots>"
    by (rule distinct_pairs) (use groupby_wf [of lst ms_trt_smr id] in \<open>auto simp: dict_wf_def case_prod_unfold comp_def\<close>)
  ultimately show ?thesis by simp
qed


lemma regroup_chunks: "regroup trt lst = mapE (\<lambda>grp. source_group trt grp ''indep'' ''indep'' False) (chunks lst)"
  by (simp add: regroup_def chunks_def)

lemma regroup_groups:
  assumes "regroup trt lst = Inr gs"
  shows "list_all2 (\<lambda>c g. gr_sources g = sort_key ms_id c \<and> homogeneous g \<and> \<not> atomic g \<and>
    group_key g = (trt, ms_trt_smr (hd c), ms_tom (hd c))) (chunks lst) gs"
proof -
  have "list_all2 (\<lambda>c g. source_group trt c ''indep'' ''indep'' False = Inr g) (chunks lst) gs"
    using assms by (simp add: regroup_chunks mapE_Inr_iff)
  then show ?thesis
  proof (rule list.rel_mono_strong)
    fix c g assume c: "c \<in> set (chunks lst)" and g: "source_group trt c ''indep'' ''indep'' False = Inr g"
    note sg = source_group_Inr [OF g] and cc = chunk_const [OF c]
    have key: "src_key s = (trt, ms_trt_smr (hd c), ms_tom (hd c))" if "s \<in> set (gr_sources g)" for s
    proof -
      have "s \<in> set c" using that sg(2) by simp
      with cc have "ms_trt_smr s = ms_trt_smr (hd c)" "ms_tom s = ms_tom (hd c)" by blast+
      with sg(3) [OF \<open>s \<in> set c\<close>] show ?thesis by (simp only: src_key_def)
    qed
    have ne: "gr_sources g \<noteq> []" using sg(2) cc by (metis set_empty set_sort)
    then have gk: "group_key g = (trt, ms_trt_smr (hd c), ms_tom (hd c))"
      unfolding group_key_def by (intro key) simp
    show "gr_sources g = sort_key ms_id c \<and> homogeneous g \<and> \<not> atomic g \<and>
        group_key g = (trt, ms_trt_smr (hd c), ms_tom (hd c))"
      unfolding homogeneous_def atomic_def
    proof (intro conjI ballI)
      show "ms_trt s = gr_trt g" if "s \<in> set (gr_sources g)" for s using that sg(1-3) by simp
    qed (use sg ne gk key in simp_all)
  qed
qed

lemma regroup_facts:
  assumes "regroup trt lst = Inr gs"
  shows "mset (all_sources gs) = mset lst" "\<And>g. g \<in> set gs \<Longrightarrow> homogeneous g \<and> \<not> atomic g"
    "\<exists>ks. distinct ks \<and> map group_key gs = map (Pair trt) ks"
proof -
  note r = regroup_groups [OF assms]
  have "mset (all_sources gs) = mset (concat (chunks lst))"
    using r unfolding all_sources_def by (induction rule: list_all2_induct) auto
  then show "mset (all_sources gs) = mset lst" by (simp add: mset_chunks)
  show "homogeneous g \<and> \<not> atomic g" if "g \<in> set gs" for g
    using r that by (auto simp: list_all2_conv_all_nth in_set_conv_nth)
  have "map group_key gs = map (Pair trt) (map (\<lambda>c. (ms_trt_smr (hd c), ms_tom (hd c))) (chunks lst))"
    using r by (induction rule: list_all2_induct) auto
  then show "\<exists>ks. distinct ks \<and> map group_key gs = map (Pair trt) ks" using chunks_distinct by blast
qed

text \<open>What the new names and the sorting keep of a group.\<close>

definition same_group :: "('d, 't) sgroup \<Rightarrow> ('d, 't) sgroup \<Rightarrow> bool" where
  "same_group g g' \<longleftrightarrow> gr_trt g' = gr_trt g \<and> atomic g' = atomic g \<and>
     mset (map src_key (gr_sources g')) = mset (map src_key (gr_sources g)) \<and> sorted (map ms_id (gr_sources g'))"

lemma fix_ids_key: "map src_key (fix_ids all seen ss) = map src_key ss"
  by (induction ss arbitrary: seen) (auto simp: src_key_def set_id_def)

lemma fixed_groups: "list_all2 same_group gs (map sort_group (fix_groups all seen gs))"
proof (induction gs arbitrary: seen)
  case (Cons g gs)
  have "mset (map src_key (sort_key ms_id (fix_ids all seen (gr_sources g)))) = mset (map src_key (gr_sources g))"
    by (metis fix_ids_key mset_map mset_sort)
  then show ?case using Cons by (simp add: same_group_def sort_group_def atomic_def)
qed simp

lemma same_group_homogeneous:
  assumes "same_group g g'" "homogeneous g"
  shows "homogeneous g' \<and> group_key g' = group_key g"
proof -
  have m: "mset (map src_key (gr_sources g')) = mset (map src_key (gr_sources g))" using assms(1) by (simp add: same_group_def)
  have "src_key ` set (gr_sources g') = src_key ` set (gr_sources g)" using mset_eq_setD [OF m] by simp
  moreover have "src_key ` set (gr_sources g) = {group_key g}" 
    using assms(2) image_constant_conv [of "group_key g" "set (gr_sources g)"]
    by (simp add: homogeneous_def cong: image_cong_simp)
  ultimately have keys: "src_key ` set (gr_sources g') = {group_key g}" by simp
  then have ne: "gr_sources g' \<noteq> []" by auto
  have gk: "group_key g' = group_key g" using keys ne unfolding group_key_def [of g'] by (metis hd_in_set imageI singletonD)
  have "fst (group_key g) = gr_trt g" using assms(2) by (metis fst_conv group_key_def hd_in_set homogeneous_def src_key_def)
  moreover have "src_key s = group_key g" if "s \<in> set (gr_sources g')" for s using that keys by (metis imageI singletonD)
  ultimately have "src_key s = group_key g \<and> ms_trt s = gr_trt g" if "s \<in> set (gr_sources g')" for s
    using that by (metis fst_conv src_key_def)
  then show ?thesis using ne gk assms(1) by (simp add: homogeneous_def same_group_def)
qed


lemma collect_lossless: "mset (concat (map snd (collect f xs))) = mset xs"
proof -
  have c: "collect f xs = map (\<lambda>k. (k, filter (\<lambda>x. f x = k) xs)) (keys (collect f xs))"
    unfolding map_map by (rule map_idI [symmetric]) (auto simp: collect_mem)
  have d: "distinct (keys (collect f xs))" using collect_wf [of f xs] by (simp add: dict_wf_def)
  have "count (mset (concat (map (\<lambda>k. filter (\<lambda>y. f y = k) xs) ks))) x = (if f x \<in> set ks then count (mset xs) x else 0)"
    if "distinct ks" for ks x
    using that by (induction ks) (auto simp: mset_filter)
  from this [OF d] have "mset (concat (map (\<lambda>k. filter (\<lambda>y. f y = k) xs) (keys (collect f xs)))) = mset xs"
    unfolding collect_keys by (intro multiset_eqI) (auto simp: count_eq_zero_iff)
  then show ?thesis by (subst c) (simp add: comp_def)
qed

lemma all_sources_append [simp]: "all_sources (xs @ ys) = all_sources xs @ all_sources ys"
  by (simp add: all_sources_def)

lemma set_all_sources: "s \<in> set (all_sources gs) \<longleftrightarrow> (\<exists>g \<in> set gs. s \<in> set (gr_sources g))"
  by (auto simp: all_sources_def)

lemma all_sources_smrs: "all_sources (map group_smrs gs) = map trt_smrs (all_sources gs)"
  by (induction gs) (simp_all add: all_sources_def group_smrs_def)

lemma mset_all_sources: "mset (all_sources gs) = (\<Sum>g \<in># mset gs. mset (gr_sources g))"
  by (induction gs) (simp_all add: all_sources_def)

lemma sort_group_sources: "mset (all_sources (map sort_group gs)) = mset (all_sources gs)"
  by (induction gs) (simp_all add: all_sources_def sort_group_def)

lemma reduced_ids:
  assumes "s \<in> set (reduced adler event_based srcs)"
  shows "ms_id s \<in> ms_id ` set srcs"
proof -
  from assms obtain k l where l: "l = filter (\<lambda>s. (ms_id s, ms_code s) = k) srcs"
    and s: "s \<in> set (reduce_sources adler l) \<or> s \<in> set (map trt_smrs l)"
    by (auto simp: reduced_def groupby_eq split: if_splits)
  from s consider "s \<in> set (reduce_sources adler l)" | "s \<in> set (map trt_smrs l)" by blast
  then show ?thesis
  proof cases
    case 1
    then obtain c where c: "c \<in> ms_checksum ` set (map (with_checksum adler) l)"
      "s = with_smr (map ms_trt_smr (filter (\<lambda>x. ms_checksum x = c) (map (with_checksum adler) l)))
        (hd (filter (\<lambda>x. ms_checksum x = c) (map (with_checksum adler) l)))"
      by (auto simp: reduce_sources_def groupby_eq)
    have "filter (\<lambda>x. ms_checksum x = c) (map (with_checksum adler) l) \<noteq> []"
      using c(1) by (auto simp: filter_empty_conv)
    then have "hd (filter (\<lambda>x. ms_checksum x = c) (map (with_checksum adler) l)) \<in> set (map (with_checksum adler) l)"
      by (metis filter_is_subset hd_in_set subsetD)
    then show ?thesis unfolding c(2) l by (auto simp: with_smr_def with_checksum_def)
  next
    case 2
    then show ?thesis unfolding l by (auto simp: trt_smrs_def with_smr_def)
  qed
qed

lemma get_csm_split:
  assumes "get_csm adler event_based groups = Inr gs"
  obtains gss G where "gs = map sort_group (fix_dupl_ids G)"
    "G = concat gss @ map group_smrs (filter atomic (filter (\<lambda>g. gr_sources g \<noteq> []) groups))"
    "list_all2 (\<lambda>(trt, l) out. regroup trt (reduced adler event_based (all_sources l)) = Inr out)
       (collect gr_trt (filter (\<lambda>g. \<not> atomic g) (filter (\<lambda>g. gr_sources g \<noteq> []) groups))) gss"
  using assms by (auto simp: get_csm_def Let_def bindE_Inr_iff mapE_Inr_iff case_prod_unfold)


lemma all2_mem: "list_all2 P xs ys \<Longrightarrow> y \<in> set ys \<Longrightarrow> \<exists>x \<in> set xs. P x y"
  by (induction rule: list_all2_induct) auto

lemma all2_mem1: "list_all2 P xs ys \<Longrightarrow> x \<in> set xs \<Longrightarrow> \<exists>y \<in> set ys. P x y"
  by (induction rule: list_all2_induct) auto

lemma acc_mem:
  assumes "list_all2 (\<lambda>(trt, l) out. R trt l out) acc gss" "out \<in> set gss"
  shows "\<exists>trt l. (trt, l) \<in> set acc \<and> R trt l out"
  using all2_mem [OF assms] by auto

lemma csm_ids:
  assumes "list_all2 (\<lambda>(trt, l) out. regroup trt (reduced adler event_based (all_sources l)) = Inr out) (collect gr_trt ngs) gss"
    and "s \<in> set (all_sources (concat gss))"
  shows "ms_id s \<in> ms_id ` set (all_sources ngs)"
proof -
  obtain out where out: "out \<in> set gss" "s \<in> set (all_sources out)"
    using assms(2) by (auto simp: set_all_sources)
  then obtain trt l where l: "(trt, l) \<in> set (collect gr_trt ngs)"
    "regroup trt (reduced adler event_based (all_sources l)) = Inr out"
    using acc_mem [OF assms(1)] by blast
  have "s \<in> set (reduced adler event_based (all_sources l))"
    using out(2) mset_eq_setD [OF regroup_facts(1) [OF l(2)]] by simp
  then have "ms_id s \<in> ms_id ` set (all_sources l)" by (rule reduced_ids)
  moreover have "set (all_sources l) \<subseteq> set (all_sources ngs)"
    using l(1) by (auto simp: collect_mem all_sources_def)
  ultimately show ?thesis by blast
qed

lemma csm_parts:
  assumes "list_all2 (\<lambda>(trt, l) out. regroup trt (reduced adler event_based (all_sources l)) = Inr out) (collect gr_trt ngs) gss"
    and inj: "inj_on adler (content ` set (all_sources ngs))"
  shows "parts (all_sources (concat gss)) = mset (map part (all_sources ngs))"
proof -
  have one: "parts (all_sources out) = mset (map part (all_sources l))"
    if "regroup trt (reduced adler event_based (all_sources l)) = Inr out" "set l \<subseteq> set ngs" for trt l out
  proof -
    have "inj_on adler (content ` set (all_sources l))"
      by (rule inj_on_subset [OF inj]) (use that(2) in \<open>auto simp: all_sources_def\<close>)
    then show ?thesis using parts_mset [OF regroup_facts(1) [OF that(1)]] by (simp only: parts_reduced)
  qed
  have "parts (all_sources (concat gss)) = mset (map part (all_sources (concat (map snd acc))))"
    if "list_all2 (\<lambda>(trt, l) out. regroup trt (reduced adler event_based (all_sources l)) = Inr out) acc gss"
      "\<And>trt l. (trt, l) \<in> set acc \<Longrightarrow> set l \<subseteq> set ngs" for acc gss
    using that
  proof (induction rule: list_all2_induct)
    case (Cons x xs y ys)
    obtain a b where x: "x = (a, b)" by fastforce
    have "parts (all_sources y) = mset (map part (all_sources b))"
      by (rule one [of a]) (use Cons.hyps(1) Cons.prems [of a b] in \<open>simp_all add: x\<close>)
    moreover have "parts (all_sources (concat ys)) = mset (map part (all_sources (concat (map snd xs))))"
    proof (rule Cons.IH)
      fix t l assume "(t, l) \<in> set xs"
      then show "set l \<subseteq> set ngs" by (intro Cons.prems [of t]) simp
    qed
    ultimately show ?case by (simp add: x)
  qed (simp add: all_sources_def)
  from this [OF assms(1)] have "parts (all_sources (concat gss))
      = image_mset part (mset (all_sources (concat (map snd (collect gr_trt ngs)))))"
    by (auto simp: collect_mem)
  then show ?thesis by (simp add: mset_all_sources collect_lossless)
qed

lemma all_sources_nonempty: "all_sources (filter (\<lambda>g. gr_sources g \<noteq> []) groups) = all_sources groups"
  by (induction groups) (simp_all add: all_sources_def)

lemma all_sources_filter: "mset (all_sources (filter P gs)) + mset (all_sources (filter (\<lambda>g. \<not> P g) gs)) = mset (all_sources gs)"
  by (induction gs) (simp_all add: all_sources_def)

lemma csm_conserved:
  assumes r: "get_csm adler event_based groups = Inr gs"
    and ids: "\<And>s. s \<in> set (all_sources groups) \<Longrightarrow> CHR '';'' \<notin> set (ms_id s)"
  shows "distinct (map ms_id (all_sources gs))"
    and "inj_on adler (content ` set (all_sources groups)) \<Longrightarrow> parts (all_sources gs) = mset (map part (all_sources groups))"
proof -
  let ?full = "filter (\<lambda>g. gr_sources g \<noteq> []) groups"
  let ?ngs = "filter (\<lambda>g. \<not> atomic g) ?full"
  obtain gss G where gs: "gs = map sort_group (fix_dupl_ids G)"
    and G: "G = concat gss @ map group_smrs (filter atomic ?full)"
    and acc: "list_all2 (\<lambda>(trt, l) out. regroup trt (reduced adler event_based (all_sources l)) = Inr out) (collect gr_trt ?ngs) gss"
    using r by (rule get_csm_split)
  have sub: "set (all_sources ?ngs) \<subseteq> set (all_sources groups)" "set (all_sources (filter atomic ?full)) \<subseteq> set (all_sources groups)"
    by (auto simp: all_sources_def)
  have idG: "CHR '';'' \<notin> set (ms_id s)" if "s \<in> set (all_sources G)" for s
  proof -
    have "ms_id s \<in> ms_id ` set (all_sources groups)"
      using that csm_ids [OF acc, of s] sub
      by (auto simp: G all_sources_smrs trt_smrs_def with_smr_def)
    then show ?thesis using ids by auto
  qed
  have m: "mset (all_sources gs) = mset (all_sources (fix_dupl_ids G))" by (simp add: gs sort_group_sources)
  have "mset (map ms_id (all_sources gs)) = mset (map ms_id (all_sources (fix_dupl_ids G)))"
    using m by (metis mset_map)
  then show "distinct (map ms_id (all_sources gs))"
    using fix_dupl_ids_distinct [OF idG, of G] mset_eq_imp_distinct_iff by metis
  assume inj: "inj_on adler (content ` set (all_sources groups))"
  have "parts (all_sources gs) = parts (all_sources G)"
    using parts_mset [OF m] by (simp add: fix_dupl_ids_sources parts_fix_ids idG)
  also have "\<dots> = mset (map part (all_sources ?ngs)) + mset (map part (all_sources (filter atomic ?full)))"
    using csm_parts [OF acc inj_on_subset [OF inj image_mono [OF sub(1)]]] by (simp add: G all_sources_smrs)
  also have "\<dots> = image_mset part (mset (all_sources ?full))"
    using all_sources_filter [of atomic ?full] by (simp add: add.commute flip: image_mset_union)
  finally show "parts (all_sources gs) = mset (map part (all_sources groups))"
    by (simp add: all_sources_nonempty)
qed


lemma groups_keys:
  assumes "list_all2 same_group gs gs'" "\<And>g. g \<in> set gs \<Longrightarrow> \<not> atomic g \<Longrightarrow> homogeneous g"
  shows "map group_key (filter (\<lambda>g. \<not> atomic g) gs') = map group_key (filter (\<lambda>g. \<not> atomic g) gs) \<and>
    (\<forall>g \<in> set gs'. sorted (map ms_id (gr_sources g)) \<and> (\<not> atomic g \<longrightarrow> homogeneous g))"
  using assms
proof (induction rule: list_all2_induct)
  case (Cons x xs y ys)
  have "sorted (map ms_id (gr_sources y))" "atomic y = atomic x" using Cons.hyps(1) by (simp_all add: same_group_def)
  moreover have "\<not> atomic x \<Longrightarrow> homogeneous y \<and> group_key y = group_key x"
    using same_group_homogeneous [OF Cons.hyps(1)] Cons.prems by simp
  ultimately show ?case using Cons.IH Cons.prems by auto
qed simp

lemma same_group_nonempty: "same_group g g' \<Longrightarrow> gr_sources g \<noteq> [] \<Longrightarrow> gr_sources g' \<noteq> []"
  by (auto simp: same_group_def)

lemma regrouped_distinct:
  assumes "list_all2 (\<lambda>(trt, l) out. regroup trt (f l) = Inr out) acc gss" "distinct (keys acc)"
  shows "distinct (map group_key (concat gss)) \<and> fst ` group_key ` set (concat gss) \<subseteq> set (keys acc)"
  using assms
proof (induction rule: list_all2_induct)
  case (Cons x xs y ys)
  obtain t l where x: "x = (t, l)" by fastforce
  obtain ks where ks: "distinct ks" "map group_key y = map (Pair t) ks"
    using regroup_facts(3) [of t "f l" y] Cons.hyps(1) by (auto simp: x)
  have dy: "distinct (map group_key y)" unfolding ks(2) using ks(1) by (simp add: distinct_map inj_on_def)
  have ty: "group_key ` set y = Pair t ` set ks" using arg_cong [OF ks(2), of set] by simp
  have IH: "distinct (map group_key (concat ys))" "fst ` group_key ` set (concat ys) \<subseteq> set (keys xs)"
    using Cons.IH Cons.prems by simp_all
  have "t \<notin> set (keys xs)" using Cons.prems by (simp add: x)
  then have "group_key ` set y \<inter> group_key ` set (concat ys) = {}"
    unfolding ty using IH(2) by (auto simp: subset_iff image_iff) (metis fst_conv)
  then have "distinct (map group_key (concat (y # ys)))" using dy IH(1) by simp
  moreover have "fst ` group_key ` set (concat (y # ys)) \<subseteq> set (keys (x # xs))"
  proof -
    have "fst ` group_key ` set y \<subseteq> {t}" unfolding ty by auto
    then show ?thesis using IH(2) unfolding concat.simps set_append image_Un x list.map fst_conv list.set by blast
  qed
  ultimately show ?case by blast
qed simp

lemma csm_groups:
  assumes r: "get_csm adler event_based groups = Inr gs"
  shows "distinct (map group_key (filter (\<lambda>g. \<not> atomic g) gs))"
    and "g \<in> set gs \<Longrightarrow> gr_sources g \<noteq> [] \<and> sorted (map ms_id (gr_sources g)) \<and> (atomic g \<or> homogeneous g)"
proof -
  let ?full = "filter (\<lambda>g. gr_sources g \<noteq> []) groups"
  let ?ngs = "filter (\<lambda>g. \<not> atomic g) ?full"
  let ?at = "map group_smrs (filter atomic ?full)"
  obtain gss G where gs: "gs = map sort_group (fix_dupl_ids G)" and G: "G = concat gss @ ?at"
    and acc: "list_all2 (\<lambda>(trt, l) out. regroup trt (reduced adler event_based (all_sources l)) = Inr out) (collect gr_trt ?ngs) gss"
    using r by (rule get_csm_split)
  have at: "atomic a \<and> gr_sources a \<noteq> []" if "a \<in> set ?at" for a
    using that by (auto simp: group_smrs_def atomic_def)
  have ng: "homogeneous a \<and> \<not> atomic a" if "a \<in> set (concat gss)" for a
  proof -
    obtain out where "out \<in> set gss" "a \<in> set out" using \<open>a \<in> set (concat gss)\<close> by auto
    then obtain t l where "regroup t (reduced adler event_based (all_sources l)) = Inr out"
      using acc_mem [OF acc] by blast
    then show ?thesis using \<open>a \<in> set out\<close> by (rule regroup_facts(2))
  qed
  have all2: "list_all2 same_group G gs" by (simp add: gs fix_dupl_ids_def fixed_groups)
  have hom: "homogeneous a" if "a \<in> set G" "\<not> atomic a" for a using that ng at by (auto simp: G)
  have "filter (\<lambda>g. \<not> atomic g) G = concat gss" using ng at by (auto simp: G filter_id_conv filter_empty_conv)
  moreover have "distinct (map group_key (concat gss))"
    using regrouped_distinct [OF acc] collect_wf [of gr_trt ?ngs] by (simp add: dict_wf_def)
  ultimately show "distinct (map group_key (filter (\<lambda>g. \<not> atomic g) gs))"
    using groups_keys [OF all2 hom] by simp
  assume g: "g \<in> set gs"
  then obtain g0 where g0: "g0 \<in> set G" "same_group g0 g"
    using all2_mem [OF all2] by blast
  have "gr_sources g0 \<noteq> []" using g0(1) ng at by (auto simp: G homogeneous_def)
  then show "gr_sources g \<noteq> [] \<and> sorted (map ms_id (gr_sources g)) \<and> (atomic g \<or> homogeneous g)"
    using groups_keys [OF all2 hom] g same_group_nonempty [OF g0(2)] by auto
qed


section \<open>The composite source model\<close>

text \<open>
  \<open>CompositeSourceModel\<close>: \<open>__init__\<close> drops from the GSIM logic tree the regions without sources,
  \<open>init\<close> numbers the groups and collects the codes of the sources by base name.
\<close>

type_synonym 'd csource = "('d, int list) msrc"
type_synonym 'd cgroup = "('d, int list) sgroup"

record ('d, 'g) csm =
  cm_full :: "'g full_lt"
  cm_groups :: "'d cgroup list"
  cm_code :: "(string, char) dict"

definition reduce_bsets :: "string list \<Rightarrow> 'g gsim_lt \<Rightarrow> 'g gsim_lt" where
  "reduce_bsets trts lt = (if set trts \<subset> set (keys (gl_bsetdict lt))
     then lt\<lparr>gl_bsetdict := filter (\<lambda>(trt, bset). trt \<in> set trts) (gl_bsetdict lt)\<rparr> else lt)"

definition number_group :: "nat \<times> 'd cgroup \<Rightarrow> 'd cgroup res" where
  "number_group x = (case x of (grp_id, sg) \<Rightarrow> bindE (checkE (gr_sources sg \<noteq> []) AssertionError) (\<lambda>_.
     Inr (sg\<lparr>gr_sources := map (ms_grp_id_update (\<lambda>_. grp_id)) (gr_sources sg)\<rparr>)))"

definition codes_of :: "'d csource list \<Rightarrow> (string, char) dict" where
  "codes_of srcs = foldl (\<lambda>d src. AList.update (basename (ms_id src)) (ms_code src) d) []
     (filter (\<lambda>src. ms_code src \<noteq> CHR ''P'') srcs)"

definition csm_init :: "'g full_lt \<Rightarrow> 'd cgroup list \<Rightarrow> ('d, 'g) csm res" where
  "csm_init full src_groups = bindE (mapE number_group (enumerate 0 src_groups)) (\<lambda>groups.
     Inr \<lparr>cm_full = full\<lparr>fl_gsim := reduce_bsets (map gr_trt src_groups) (fl_gsim full)\<rparr>,
          cm_groups = groups, cm_code = codes_of (all_sources groups)\<rparr>)"

definition get_trt_smrs_of :: "('d, 'g) csm \<Rightarrow> int list list res" where
  "get_trt_smrs_of csm = bindE (mapE (\<lambda>sg. py_index (gr_sources sg) 0) (cm_groups csm)) (\<lambda>srcs.
     bindE (checkE (length srcs < 2 ^ 16) AssertionError) (\<lambda>_. Inr (map ms_trt_smr srcs)))"

definition get_sources :: "('d, 'g) csm \<Rightarrow> bool option \<Rightarrow> 'd csource list" where
  "get_sources csm atom = all_sources (case atom of None \<Rightarrow> cm_groups csm
     | Some a \<Rightarrow> filter (\<lambda>g. a = atomic g) (cm_groups csm))"

definition get_basenames :: "('d, 'g) csm \<Rightarrow> string list" where
  "get_basenames csm = sorted_list_of_set (set (map (\<lambda>src.
     takeWhile (\<lambda>c. c \<noteq> CHR ''!'') (foldl (\<lambda>s c. drop_number c s) (ms_id src) '';:.'')) (get_sources csm None)))"

definition csm_count_ruptures :: "('d csource \<Rightarrow> int) \<Rightarrow> ('d, 'g) csm \<Rightarrow> int" where
  "csm_count_ruptures cnt csm = sum_list (map cnt (get_sources csm None))"

definition get_max_weight :: "int \<Rightarrow> ('d, 'g) csm \<Rightarrow> rat res" where
  "get_max_weight concurrent_tasks csm = (let tot = sum_list (map ms_weight (get_sources csm None)) in
     bindE (checkE (tot \<noteq> 0) AssertionError) (\<lambda>_.
     Inr (tot / of_int (if concurrent_tasks = 0 then 1 else concurrent_tasks) * (105 / 100))))"

definition mutex_by_grp :: "('d, 't) sgroup list \<Rightarrow> (bool \<times> bool) list" where
  "mutex_by_grp src_groups = map (\<lambda>sg. (gr_src_interdep sg = ''mutex'', gr_rup_interdep sg = ''mutex'')) src_groups"

definition strip_colons :: "('d, 't) msrc list \<Rightarrow> string list" where
  "strip_colons srcs = sorted_list_of_set (set (map (takeWhile (\<lambda>c. c \<noteq> CHR '':'') \<circ> ms_id) srcs))"

text \<open>\<open>replace\<close> with the key \<open>source_id\<close>.\<close>

definition replace_sources :: "('d, 't) msrc list \<Rightarrow> (string, ('d, 't) msrc list) dict \<Rightarrow> ('d, 't) msrc list" where
  "replace_sources lst splitdic = concat (map (\<lambda>el. case map_of splitdic (ms_id el) of None \<Rightarrow> [el] | Some l \<Rightarrow> l) lst)"

text \<open>The tables written for mutually exclusive sources by \<open>get_csm\<close>: the segments of a group.\<close>

definition mutex_segments :: "'d cgroup \<Rightarrow> string list res" where
  "mutex_segments sg = bindE (mapE (\<lambda>src. py_index (split_on CHR '':'' (ms_id src)) 1) (gr_sources sg)) (\<lambda>segments.
     bindE (checkE (distinct segments) AssertionError) (\<lambda>_. Inr segments))"

text \<open>
  \<open>create_source_info\<close> and \<open>update_source_info\<close>: a row for each base name, with the computation
  time, the number of sites, the ruptures, the weight, the weight in the group and the region.
\<close>

record info_row =
  ir_source_id :: string
  ir_grp_id :: nat
  ir_code :: char
  ir_calc_time :: rat
  ir_num_sites :: nat
  ir_num_ruptures :: int
  ir_weight :: rat
  ir_mutex_weight :: rat
  ir_trti :: nat

definition info_of :: "('d, 'g) csm \<Rightarrow> string \<Rightarrow> 'd csource list \<Rightarrow> info_row" where
  "info_of csm srcid srcs = (let src = hd srcs in
     \<lparr>ir_source_id = srcid, ir_grp_id = ms_grp_id src, ir_code = ms_code src, ir_calc_time = 0, ir_num_sites = 0,
      ir_num_ruptures = sum_list (map ms_num_ruptures srcs), ir_weight = sum_list (map ms_weight srcs),
      ir_mutex_weight = ms_mutex_weight src,
      ir_trti = (case map_of (fl_trti (cm_full csm)) (ms_trt src) of None \<Rightarrow> 0 | Some i \<Rightarrow> i)\<rparr>)"

definition create_source_info :: "('d, 'g) csm \<Rightarrow> (string, info_row) dict" where
  "create_source_info csm = map (\<lambda>(srcid, srcs). (srcid, info_of csm srcid srcs))
     (groupby (get_sources csm None) (basename \<circ> ms_id) id)"

definition update_source_info :: "(string, info_row) dict \<Rightarrow> (string \<times> nat \<times> rat) list \<Rightarrow> (string, info_row) dict res" where
  "update_source_info info source_data = bindE (checkE (length source_data < 2 ^ 24) AssertionError) (\<lambda>_.
     foldE (\<lambda>info (src_id, nsites, ctimes). let baseid = basename src_id in
       bindE (dict_get info baseid) (\<lambda>row. Inr (AList.update baseid
         (row\<lparr>ir_calc_time := ir_calc_time row + ctimes, ir_num_sites := ir_num_sites row + nsites\<rparr>) info)))
       info source_data)"

section \<open>The offsets of the ruptures\<close>

text \<open>
  \<open>fix_src_offset\<close>. The fragments of a source are ordered by their number and get the number of
  the source and the count of the ruptures before them; \<open>cnt\<close> is \<open>src.count_ruptures()\<close>. The
  sources are the objects in the groups, known here by their position.
\<close>

definition TWO30 :: int where
  "TWO30 = 1073741824"

definition order_fragments :: "(nat \<times> 'd csource) list \<Rightarrow> (nat \<times> 'd csource) list res" where
  "order_fragments srcs = (if 1 < length srcs then
     bindE (mapE (\<lambda>x. bindE (fragmentno (ms_id (snd x))) (\<lambda>k. Inr (k, x))) srcs) (\<lambda>ks. Inr (map snd (sort_key fst ks)))
     else Inr srcs)"

fun offset_loop :: "('d csource \<Rightarrow> int) \<Rightarrow> int \<Rightarrow> int \<Rightarrow> (nat \<times> 'd csource) list \<Rightarrow> (nat \<times> 'd csource) list res" where
  "offset_loop cnt num offset [] = Inr []"
| "offset_loop cnt num offset ((p, s) # rest) =
     (let n = (if ms_num_ruptures s = 0 then cnt s else ms_num_ruptures s) in
      if TWO30 \<le> n then Inl ValueError
      else bindE (offset_loop cnt num (offset + n) rest) (\<lambda>out.
        Inr ((p, s\<lparr>ms_num := num, ms_offset := offset, ms_num_ruptures := n\<rparr>) # out)))"

fun number_sources :: "('d csource \<Rightarrow> int) \<Rightarrow> int \<Rightarrow> (string \<times> (nat \<times> 'd csource) list) list \<Rightarrow> (nat \<times> 'd csource) list res" where
  "number_sources cnt num [] = Inr []"
| "number_sources cnt num ((k, srcs) # rest) =
     bindE (order_fragments srcs) (\<lambda>srcs. bindE (offset_loop cnt num 0 srcs) (\<lambda>out.
     bindE (number_sources cnt (num + 1) rest) (\<lambda>more. Inr (out @ more))))"

definition fixed_sources :: "('d csource \<Rightarrow> int) \<Rightarrow> 'd csource list \<Rightarrow> (nat \<times> 'd csource) list res" where
  "fixed_sources cnt srcs = number_sources cnt 0 (groupby (enumerate 0 srcs) (basename \<circ> ms_id \<circ> snd) id)"

fun put_sources :: "(nat \<times> 'd csource) list \<Rightarrow> nat \<Rightarrow> 'd cgroup list \<Rightarrow> 'd cgroup list" where
  "put_sources out n [] = []"
| "put_sources out n (g # gs) = g\<lparr>gr_sources := map (\<lambda>i. the (map_of out i)) [n..<n + length (gr_sources g)]\<rparr>
     # put_sources out (n + length (gr_sources g)) gs"

definition fix_src_offset :: "('d csource \<Rightarrow> int) \<Rightarrow> ('d, 'g) csm \<Rightarrow> ('d, 'g) csm res" where
  "fix_src_offset cnt csm = bindE (fixed_sources cnt (get_sources csm None)) (\<lambda>out.
     Inr (csm\<lparr>cm_groups := put_sources out 0 (cm_groups csm)\<rparr>))"

text \<open>The identifier of the \<open>i\<close>-th rupture of a source (\<open>EBRupture\<close> of source/rupture.py).\<close>

definition rup_id :: "('d, 't) msrc \<Rightarrow> int \<Rightarrow> int" where
  "rup_id s i = ms_num s * TWO30 + (ms_offset s + i)"


definition rup_ids :: "('d, 't) msrc list \<Rightarrow> int list" where
  "rup_ids srcs = concat (map (\<lambda>s. map (rup_id s) [0..ms_num_ruptures s - 1]) srcs)"

definition num_rups :: "('d csource \<Rightarrow> int) \<Rightarrow> 'd csource \<Rightarrow> int" where
  "num_rups cnt s = (if ms_num_ruptures s = 0 then cnt s else ms_num_ruptures s)"

lemma rup_ids_append [simp]: "rup_ids (xs @ ys) = rup_ids xs @ rup_ids ys"
  by (simp add: rup_ids_def)

lemma map_rup_id: "map (rup_id s) [0..n - 1] = map (\<lambda>i. ms_num s * TWO30 + i) [ms_offset s..ms_offset s + n - 1]"
proof (rule nth_equalityI)
  show "map (rup_id s) [0..n - 1] ! i = map (\<lambda>i. ms_num s * TWO30 + i) [ms_offset s..ms_offset s + n - 1] ! i"
    if "i < length (map (rup_id s) [0..n - 1])" for i using that by (simp add: rup_id_def)
qed simp

lemma upto_split: "0 \<le> m \<Longrightarrow> 0 \<le> n \<Longrightarrow> [a..a + m - 1] @ [a + m..a + m + n - 1] = [a..a + (m + n) - 1]" for a m n :: int
  using upto_split1 [of a "a + m" "a + (m + n) - 1"] upto_split2 [of a "a + m - 1" "a + (m + n) - 1"]
  by (cases "n = 0") (simp_all add: algebra_simps)

lemma offset_loop_facts:
  assumes "offset_loop cnt num o1 xs = Inr out" "\<And>x. x \<in> set xs \<Longrightarrow> 0 \<le> num_rups cnt (snd x)"
  shows "rup_ids (map snd out) = map (\<lambda>i. num * TWO30 + i) [o1..o1 + (\<Sum>x \<leftarrow> xs. num_rups cnt (snd x)) - 1] \<and> map fst out = map fst xs"
  using assms
proof (induction xs arbitrary: o1 out)
  case (Cons x xs)
  obtain p s where x: "x = (p, s)" by fastforce
  define n where "n = num_rups cnt s"
  from Cons.prems(1) obtain more where more: "offset_loop cnt num (o1 + n) xs = Inr more"
    and out: "out = (p, s\<lparr>ms_num := num, ms_offset := o1, ms_num_ruptures := n\<rparr>) # more"
    by (auto simp: x Let_def n_def num_rups_def bindE_Inr_iff split: if_splits)
  let ?t = "\<Sum>x \<leftarrow> xs. num_rups cnt (snd x)"
  have IH: "rup_ids (map snd more) = map (\<lambda>i. num * TWO30 + i) [o1 + n..o1 + n + ?t - 1]" "map fst more = map fst xs"
    using Cons.IH [OF more] Cons.prems(2) by simp_all
  have n0: "0 \<le> n" using Cons.prems(2) [of "(p, s)"] by (simp add: x n_def)
  have t0: "0 \<le> ?t"
  proof (rule sum_list_nonneg)
    fix y assume "y \<in> set (map (\<lambda>x. num_rups cnt (snd x)) xs)"
    then obtain z where "z \<in> set xs" "y = num_rups cnt (snd z)" by auto
    then show "0 \<le> y" using Cons.prems(2) [of z] by (simp del: split_paired_All)
  qed
  from n0 t0 have sp: "[o1..o1 + n - 1] @ [o1 + n..o1 + n + ?t - 1] = [o1..o1 + (n + ?t) - 1]" by (rule upto_split)
  have "rup_ids (map snd out) = map (\<lambda>i. num * TWO30 + i) ([o1..o1 + n - 1] @ [o1 + n..o1 + n + ?t - 1])"
    using IH(1) map_rup_id [of "s\<lparr>ms_num := num, ms_offset := o1, ms_num_ruptures := n\<rparr>" n]
    by (simp add: out rup_ids_def)
  then show ?case using IH(2) unfolding sp by (simp add: out x n_def)
qed (simp add: rup_ids_def)

lemma order_fragments_mset: "order_fragments xs = Inr ys \<Longrightarrow> mset ys = mset xs"
proof -
  assume r: "order_fragments xs = Inr ys"
  show ?thesis
  proof (cases "1 < length xs")
    case True
    then obtain ks where ks: "mapE (\<lambda>x. bindE (fragmentno (ms_id (snd x))) (\<lambda>k. Inr (k, x))) xs = Inr ks" "ys = map snd (sort_key fst ks)"
      using r by (auto simp: order_fragments_def bindE_Inr_iff)
    have "map snd ks = xs" using ks(1) unfolding mapE_Inr_iff
      by (induction rule: list_all2_induct) (auto simp: bindE_Inr_iff)
    then show ?thesis unfolding ks(2) by (metis mset_map mset_sort)
  qed (use r in \<open>simp add: order_fragments_def\<close>)
qed

fun rup_tiles :: "int \<Rightarrow> int \<Rightarrow> int list \<Rightarrow> int list" where
  "rup_tiles c k [] = []"
| "rup_tiles c k (t # ts) = map (\<lambda>i. k * c + i) [0..t - 1] @ rup_tiles c (k + 1) ts"

lemma number_sources_facts:
  assumes "number_sources cnt num groups = Inr out"
    and "\<And>k l x. (k, l) \<in> set groups \<Longrightarrow> x \<in> set l \<Longrightarrow> 0 \<le> num_rups cnt (snd x)"
  shows "rup_ids (map snd out) = rup_tiles TWO30 num (map (\<lambda>(k, l). \<Sum>x \<leftarrow> l. num_rups cnt (snd x)) groups) \<and>
    mset (map fst out) = mset (map fst (concat (map snd groups)))"
  using assms
proof (induction groups arbitrary: num out)
  case (Cons g groups)
  obtain k l where g: "g = (k, l)" by fastforce
  from Cons.prems(1) obtain l' out1 more where l': "order_fragments l = Inr l'"
    and o1: "offset_loop cnt num 0 l' = Inr out1" and more: "number_sources cnt (num + 1) groups = Inr more"
    and out: "out = out1 @ more" by (auto simp: g bindE_Inr_iff)
  note m = order_fragments_mset [OF l']
  have "0 \<le> num_rups cnt (snd x)" if "x \<in> set l'" for x
    using that mset_eq_setD [OF m] Cons.prems(2) [of k l x] by (simp add: g)
  note o1' = offset_loop_facts [OF o1 this]
  have "mset (map (\<lambda>x. num_rups cnt (snd x)) l') = mset (map (\<lambda>x. num_rups cnt (snd x)) l)" using m by simp
  then have "(\<Sum>x \<leftarrow> l'. num_rups cnt (snd x)) = (\<Sum>x \<leftarrow> l. num_rups cnt (snd x))" by (rule mset_eq_sum_list)
  moreover have "rup_ids (map snd more) = rup_tiles TWO30 (num + 1) (map (\<lambda>(k, l). \<Sum>x \<leftarrow> l. num_rups cnt (snd x)) groups) \<and>
    mset (map fst more) = mset (map fst (concat (map snd groups)))"
    by (rule Cons.IH [OF more]) (rule Cons.prems, auto)
  moreover have "mset (map fst l') = mset (map fst l)" using m by simp
  ultimately show ?case using o1' by (simp add: out g)
qed (simp add: rup_ids_def)


lemma rup_tiles_ge: "0 \<le> c \<Longrightarrow> x \<in> set (rup_tiles c k ts) \<Longrightarrow> k * c \<le> x"
proof (induction ts arbitrary: k)
  case (Cons t ts)
  then have "x \<in> set (rup_tiles c (k + 1) ts) \<Longrightarrow> (k + 1) * c \<le> x" by blast
  then have "x \<in> set (rup_tiles c (k + 1) ts) \<Longrightarrow> k * c \<le> x" using Cons.prems(1) by (simp add: distrib_right)
  then show ?case using Cons.prems(2) by auto
qed simp

lemma rup_tiles_distinct:
  assumes "0 < c" "\<And>t. t \<in> set ts \<Longrightarrow> 0 < t"
  shows "distinct (rup_tiles c k ts) \<longleftrightarrow> (\<forall>t \<in> set (butlast ts). t \<le> c)"
  using assms
proof (induction ts arbitrary: k)
  case (Cons t ts)
  have IH: "distinct (rup_tiles c (k + 1) ts) \<longleftrightarrow> (\<forall>t \<in> set (butlast ts). t \<le> c)" using Cons by simp
  have d: "distinct (map (\<lambda>i. k * c + i) [0..t - 1])" by (simp add: distinct_map inj_on_def)
  show ?case
  proof (cases ts)
    case (Cons u us)
    have u: "0 < u" using Cons.prems(2) Cons by simp
    have "set (map (\<lambda>i. k * c + i) [0..t - 1]) \<inter> set (rup_tiles c (k + 1) ts) = {} \<longleftrightarrow> t \<le> c"
    proof
      assume e: "set (map (\<lambda>i. k * c + i) [0..t - 1]) \<inter> set (rup_tiles c (k + 1) ts) = {}"
      have "(k + 1) * c \<in> set (rup_tiles c (k + 1) ts)" using u by (force simp: Cons)
      then have "(k + 1) * c \<notin> (\<lambda>i. k * c + i) ` {0..t - 1}" using e by auto
      then have "c \<notin> {0..t - 1}" by (auto simp: distrib_right image_iff)
      then show "t \<le> c" using assms(1) by simp
    next
      assume t: "t \<le> c"
      have "(k + 1) * c \<le> x" if "x \<in> set (rup_tiles c (k + 1) ts)" for x
        using rup_tiles_ge [OF _ that] assms(1) by simp
      then show "set (map (\<lambda>i. k * c + i) [0..t - 1]) \<inter> set (rup_tiles c (k + 1) ts) = {}"
        using t by (fastforce simp: distrib_right)
    qed
    moreover have "distinct (rup_tiles c k (t # ts)) \<longleftrightarrow>
        set (map (\<lambda>i. k * c + i) [0..t - 1]) \<inter> set (rup_tiles c (k + 1) ts) = {} \<and> distinct (rup_tiles c (k + 1) ts)"
      using d by (simp only: rup_tiles.simps distinct_append) blast
    moreover have "butlast (t # ts) = t # butlast ts" by (simp add: Cons)
    ultimately show ?thesis using IH by simp
  qed (use d in simp)
qed simp

lemma butlast_sorted:
  assumes "sorted ks" "distinct ks"
  shows "k \<in> set (butlast ks) \<longleftrightarrow> k \<in> set ks \<and> (\<exists>k' \<in> set ks. k < k')"
  using assms
proof (induction ks)
  case (Cons a ks)
  show ?case
  proof (cases "ks = []")
    case False
    have lt: "\<forall>x \<in> set ks. a < x" using Cons.prems by (auto simp: less_le)
    have IH: "k \<in> set (butlast ks) \<longleftrightarrow> k \<in> set ks \<and> (\<exists>k' \<in> set ks. k < k')" using Cons by simp
    obtain b where "b \<in> set ks" using False by (cases ks) auto
    then show ?thesis using IH lt False by (auto dest: order.asym)
  qed simp
qed simp

lemma put_sources_all:
  "all_sources (put_sources out n gs) = map (\<lambda>i. the (map_of out i)) [n..<n + length (all_sources gs)]"
proof (induction gs arbitrary: n)
  case (Cons g gs)
  then show ?case
    using upt_add_eq_append [of n "n + length (gr_sources g)" "length (all_sources gs)"]
    by (simp add: all_sources_def add.assoc flip: map_append)
qed (simp add: all_sources_def)

lemma map_the_perm:
  assumes "mset (map fst out) = mset [0..<n]"
  shows "mset (map (\<lambda>i. the (map_of out i)) [0..<n]) = mset (map snd out)"
proof -
  have d: "distinct (map fst out)" using mset_eq_imp_distinct_iff [OF assms] by simp
  have "map (\<lambda>i. the (map_of out i)) (map fst out) = map snd out"
    using d by (auto simp: map_of_is_SomeI)
  then show ?thesis using assms by (metis mset_map)
qed


text \<open>
  The rupture IDs of a model whose sources all have ruptures are distinct exactly when no base name
  but the last has more than \<open>2 ** 30\<close> ruptures in all; the code bounds the single fragments.
\<close>

definition total_ruptures :: "('d csource \<Rightarrow> int) \<Rightarrow> ('d, 'g) csm \<Rightarrow> string \<Rightarrow> int" where
  "total_ruptures cnt csm b = (\<Sum>s \<leftarrow> filter (\<lambda>s. basename (ms_id s) = b) (get_sources csm None). num_rups cnt s)"

lemma map_snd_enumerate_filter: "map snd (filter (\<lambda>x. P (snd x)) (enumerate n xs)) = filter P xs"
  by (induction xs arbitrary: n) auto

definition basenames :: "('d, 'g) csm \<Rightarrow> string set" where
  "basenames csm = (basename \<circ> ms_id) ` set (get_sources csm None)"

lemma mset_rup_ids: "mset xs = mset ys \<Longrightarrow> mset (rup_ids xs) = mset (rup_ids ys)"
proof -
  have "mset (rup_ids xs) = (\<Sum>s \<in># mset xs. mset (map (rup_id s) [0..ms_num_ruptures s - 1]))" for xs :: "('a, 'b) msrc list"
    by (induction xs) (simp_all add: rup_ids_def)
  then show "mset xs = mset ys \<Longrightarrow> mset (rup_ids xs) = mset (rup_ids ys)" by simp
qed

lemma offset_rup_ids:
  assumes r: "fix_src_offset cnt csm = Inr csm'"
    and pos: "\<And>s. s \<in> set (get_sources csm None) \<Longrightarrow> 0 \<le> num_rups cnt s"
  shows "mset (rup_ids (get_sources csm' None))
    = mset (rup_tiles TWO30 0 (map (total_ruptures cnt csm) (sorted_list_of_set (basenames csm))))"
proof -
  let ?src = "get_sources csm None"
  let ?f = "basename \<circ> ms_id \<circ> snd"
  let ?g = "groupby (enumerate 0 ?src) ?f id"
  from r obtain out where out: "number_sources cnt 0 ?g = Inr out"
    and csm': "csm' = csm\<lparr>cm_groups := put_sources out 0 (cm_groups csm)\<rparr>"
    by (auto simp: fix_src_offset_def fixed_sources_def bindE_Inr_iff)
  have set_enum: "snd ` set (enumerate 0 ?src) = set ?src" by (metis list.set_map map_snd_enumerate)
  have nn: "0 \<le> num_rups cnt (snd x)" if "(k, l) \<in> set ?g" "x \<in> set l" for k l x
    using groupby_mem [OF that(1)] that(2) set_enum pos [of "snd x"] by auto
  note nf = number_sources_facts [OF out nn]
  have "mset (map fst (concat (map snd ?g))) = mset (map fst (enumerate 0 ?src))"
    by (simp only: mset_map groupby_lossless)
  then have "mset (map fst out) = mset (map fst (enumerate 0 ?src))" using nf [THEN conjunct2] by simp
  then have "mset (map (\<lambda>i. the (map_of out i)) [0..<length ?src]) = mset (map snd out)"
    by (intro map_the_perm) (simp add: map_fst_enumerate_upt)
  then have "mset (rup_ids (get_sources csm' None)) = mset (rup_ids (map snd out))"
    by (intro mset_rup_ids) (simp add: get_sources_def csm' put_sources_all)
  moreover have "(\<Sum>x \<leftarrow> filter (\<lambda>x. ?f x = k) (enumerate 0 ?src). num_rups cnt (snd x)) = total_ruptures cnt csm k" for k
    using arg_cong [OF map_snd_enumerate_filter [of "\<lambda>s. basename (ms_id s) = k" 0 ?src], of "map (num_rups cnt)"]
    by (simp add: total_ruptures_def comp_def)
  moreover have "?f ` set (enumerate 0 ?src) = basenames csm"
    unfolding basenames_def set_enum [symmetric] by (simp add: image_image)
  ultimately show ?thesis using nf [THEN conjunct1] unfolding groupby_eq by (simp add: comp_def)
qed

lemma total_pos:
  assumes "b \<in> basenames csm" "\<And>s. s \<in> set (get_sources csm None) \<Longrightarrow> 0 < num_rups cnt s"
  shows "0 < total_ruptures cnt csm b"
proof -
  obtain s where s: "s \<in> set (filter (\<lambda>s. basename (ms_id s) = b) (get_sources csm None))"
    using assms(1) by (auto simp: basenames_def)
  have "num_rups cnt s \<le> total_ruptures cnt csm b"
    unfolding total_ruptures_def by (rule member_le_sum_list) (use s assms(2) in \<open>auto intro: less_imp_le\<close>)
  then show ?thesis using assms(2) [of s] s by auto
qed

lemma offsets_distinct_iff_totals:
  assumes r: "fix_src_offset cnt csm = Inr csm'"
    and pos: "\<And>s. s \<in> set (get_sources csm None) \<Longrightarrow> 0 < num_rups cnt s"
  shows "distinct (rup_ids (get_sources csm' None)) \<longleftrightarrow>
    (\<forall>b \<in> basenames csm. \<forall>b' \<in> basenames csm. b < b' \<longrightarrow> total_ruptures cnt csm b \<le> TWO30)"
proof -
  let ?ks = "sorted_list_of_set (basenames csm)"
  have ks: "set ?ks = basenames csm" by (simp add: basenames_def)
  have "distinct (rup_ids (get_sources csm' None)) \<longleftrightarrow> distinct (rup_tiles TWO30 0 (map (total_ruptures cnt csm) ?ks))"
    by (intro mset_eq_imp_distinct_iff offset_rup_ids [OF r]) (auto intro: less_imp_le pos)
  also have "\<dots> \<longleftrightarrow> (\<forall>t \<in> set (butlast (map (total_ruptures cnt csm) ?ks)). t \<le> TWO30)"
    using total_pos [OF _ pos] ks by (intro rup_tiles_distinct) (auto simp: TWO30_def)
  also have "\<dots> \<longleftrightarrow> (\<forall>b \<in> basenames csm. \<forall>b' \<in> basenames csm. b < b' \<longrightarrow> total_ruptures cnt csm b \<le> TWO30)"
    using butlast_sorted [of ?ks] ks by (auto simp: map_butlast [symmetric])
  finally show ?thesis .
qed

text \<open>Numbering the groups and reducing the branchsets keep everything else.\<close>

lemma csm_init_groups:
  assumes "csm_init full gs = Inr csm"
  shows "list_all2 (\<lambda>g g'. gr_trt g' = gr_trt g \<and> map ms_trt_smr (gr_sources g') = map ms_trt_smr (gr_sources g) \<and>
      map ms_id (gr_sources g') = map ms_id (gr_sources g) \<and> gr_sources g \<noteq> []) gs (cm_groups csm)"
    and "i < length gs \<Longrightarrow> s \<in> set (gr_sources (cm_groups csm ! i)) \<Longrightarrow> ms_grp_id s = i"
proof -
  from assms have m: "mapE number_group (enumerate 0 gs) = Inr (cm_groups csm)"
    by (auto simp: csm_init_def bindE_Inr_iff)
  have n: "gr_sources (gs ! i) \<noteq> [] \<and> cm_groups csm ! i =
      (gs ! i)\<lparr>gr_sources := map (ms_grp_id_update (\<lambda>_. i)) (gr_sources (gs ! i))\<rparr>" if "i < length gs" for i
    using mapE_nth [OF m, of i] that by (auto simp: nth_enumerate_eq number_group_def bindE_Inr_iff)
  have "length (cm_groups csm) = length gs" using mapE_length [OF m] by simp
  then show "list_all2 (\<lambda>g g'. gr_trt g' = gr_trt g \<and> map ms_trt_smr (gr_sources g') = map ms_trt_smr (gr_sources g) \<and>
      map ms_id (gr_sources g') = map ms_id (gr_sources g) \<and> gr_sources g \<noteq> []) gs (cm_groups csm)"
    using n by (simp add: list_all2_conv_all_nth comp_def)
  show "ms_grp_id s = i" if "i < length gs" "s \<in> set (gr_sources (cm_groups csm ! i))"
    using n [OF that(1)] that(2) by auto
qed


section \<open>From the realizations to the composite source model\<close>

lemma in_parts: "x \<in># parts ss \<longleftrightarrow> (\<exists>s \<in> set ss. \<exists>n \<in> set (ms_trt_smr s). x = (base_src (ms_src s), ms_data s, n))"
  by (auto simp: parts_def parts_of_def)

lemma built_indexed:
  assumes "build_groups fullname smdict full rootset applied rlzs = Inr groups" "fl_trti full \<noteq> []"
    and "s \<in> set (all_sources groups)"
  shows "\<exists>rlz \<in> set rlzs. indexed full (rz_ordinal rlz) s"
proof -
  obtain gss where gss: "groups = concat gss"
    "list_all2 (\<lambda>rlz gs. rlz_groups fullname smdict full rootset applied (1 / of_nat (length rlzs)) rlz = Inr gs) rlzs gss"
    using assms(1) by (rule build_groups_split)
  obtain gs g where g: "gs \<in> set gss" "g \<in> set gs" "s \<in> set (gr_sources g)"
    using assms(3) by (auto simp: gss(1) all_sources_def)
  obtain rlz where rlz: "rlz \<in> set rlzs"
    "rlz_groups fullname smdict full rootset applied (1 / of_nat (length rlzs)) rlz = Inr gs"
    using all2_mem [OF gss(2) g(1)] by blast
  obtain bvs g0 where "rlz_group full (1 / of_nat (length rlzs)) rlz bvs g0 = Inr g"
    using rlz_groups_mem [OF rlz(2) g(2)] by blast
  from rlz_group_facts [OF this assms(2)] show ?thesis using g(3) rlz(1) by blast
qed

lemma base_src_trt: "base_src a = base_src b \<Longrightarrow> so_trt a = so_trt b"
  by (metis base_src_def source.select_convs(3) source.surjective source.update_convs(2))

end
