(* ===== verification/Loss_Curves.thy ===== *)
theory Loss_Curves
  imports Splitting
begin

text \<open>
  Loss curves (openquake/risklib/scientific.py): the return periods, the losses by return period with
  their insurance and aggregation variants, the loss ratio at a given probability, average losses.
  Losses are exact rationals, a missing value (NaN) is None. The interpolation of numpy and scipy
  is a parameter with the contract of the locale \<open>interpolation\<close>, the logarithm a parameter that
  is strictly increasing.
\<close>

section \<open>Interpolation\<close>

text \<open>
  \<open>numpy.interp(x, xp, fp)\<close> and \<open>scipy.interpolate.interp1d\<close> inside the range: the values at the nodes,
  and values between those of the two neighbours elsewhere.
\<close>

locale interpolation =
  fixes ip :: "'a::linorder list \<Rightarrow> rat list \<Rightarrow> 'a \<Rightarrow> rat"
  assumes node: "sorted_wrt (<) xs \<Longrightarrow> length ys = length xs \<Longrightarrow> i < length xs \<Longrightarrow> ip xs ys (xs ! i) = ys ! i"
    and between: "sorted_wrt (<) xs \<Longrightarrow> length ys = length xs \<Longrightarrow> Suc i < length xs \<Longrightarrow> xs ! i \<le> x \<Longrightarrow> x \<le> xs ! Suc i \<Longrightarrow>
      min (ys ! i) (ys ! Suc i) \<le> ip xs ys x \<and> ip xs ys x \<le> max (ys ! i) (ys ! Suc i)"
begin

lemma bracket: "(xs :: 'a list) ! 0 \<le> x \<Longrightarrow> x < xs ! n \<Longrightarrow> \<exists>i < n. xs ! i \<le> x \<and> x < xs ! Suc i"
proof (induction n)
  case (Suc n)
  show ?case
  proof (cases "xs ! n \<le> x")
    case True
    then show ?thesis using Suc.prems by blast
  next
    case False
    then have "\<exists>i < n. xs ! i \<le> x \<and> x < xs ! Suc i" using Suc.IH Suc.prems(1) by (simp add: not_le)
    then show ?thesis using less_SucI by blast
  qed
qed simp

lemma increasing_bounds:
  assumes "sorted_wrt (<) xs" "length ys = length xs" "sorted ys" "xs \<noteq> []" "hd xs \<le> x" "x \<le> last xs"
  shows "hd ys \<le> ip xs ys x \<and> ip xs ys x \<le> last ys"
proof -
  have ne: "ys \<noteq> []" using assms(2,4) by auto
  have hl: "hd ys = ys ! 0" "last ys = ys ! (length xs - 1)" "hd xs = xs ! 0" "last xs = xs ! (length xs - 1)"
    using assms(2,4) ne by (simp_all add: hd_conv_nth last_conv_nth)
  have mono: "ys ! i \<le> ys ! j" if "i \<le> j" "j < length ys" for i j using assms(3) that by (rule sorted_nth_mono)
  show ?thesis
  proof (cases "x = last xs")
    case True
    then have "ip xs ys x = ys ! (length xs - 1)"
      using node [OF assms(1,2), of "length xs - 1"] assms(4) by (simp add: hl)
    then show ?thesis using mono [of 0 "length xs - 1"] assms(2,4) by (simp add: hl)
  next
    case False
    then have "x < xs ! (length xs - 1)" using assms(6) by (simp add: hl)
    then obtain i where i: "i < length xs - 1" "xs ! i \<le> x" "x < xs ! Suc i"
      using bracket [of xs x "length xs - 1"] assms(5) by (auto simp: hl)
    then have "min (ys ! i) (ys ! Suc i) \<le> ip xs ys x \<and> ip xs ys x \<le> max (ys ! i) (ys ! Suc i)"
      by (intro between [OF assms(1,2)]) auto
    moreover have "ys ! 0 \<le> ys ! i" "ys ! i \<le> ys ! Suc i" "ys ! Suc i \<le> ys ! (length xs - 1)"
      using mono i(1) assms(2) by simp_all
    ultimately show ?thesis by (simp add: hl)
  qed
qed

end

text \<open>Linear interpolation meets the contract.\<close>

fun lin_interp :: "rat list \<Rightarrow> rat list \<Rightarrow> rat \<Rightarrow> rat" where
  "lin_interp (x0 # x1 # xs) (y0 # y1 # ys) x =
     (if x \<le> x0 then y0 else if x \<le> x1 then y0 + (y1 - y0) / (x1 - x0) * (x - x0)
      else lin_interp (x1 # xs) (y1 # ys) x)"
| "lin_interp xs (y0 # ys) x = y0"
| "lin_interp xs [] x = 0"

lemma lin_bounds:
  fixes x0 x1 y0 y1 x :: rat
  assumes "x0 \<le> x" "x \<le> x1" "x0 < x1"
  shows "min y0 y1 \<le> y0 + (y1 - y0) / (x1 - x0) * (x - x0) \<and> y0 + (y1 - y0) / (x1 - x0) * (x - x0) \<le> max y0 y1"
proof -
  define t where "t = (x - x0) / (x1 - x0)"
  have t: "0 \<le> t" "t \<le> 1" using assms by (simp_all add: t_def field_simps)
  have e: "y0 + (y1 - y0) / (x1 - x0) * (x - x0) = y0 + t * (y1 - y0)" by (simp add: t_def)
  show ?thesis
  proof (cases "y0 \<le> y1")
    case True
    then have "0 \<le> t * (y1 - y0)" "t * (y1 - y0) \<le> y1 - y0" using t by (simp_all add: mult_left_le_one_le)
    then show ?thesis using True unfolding e by auto
  next
    case False
    then have "0 \<le> t * (y0 - y1)" "t * (y0 - y1) \<le> y0 - y1" using t by (simp_all add: mult_left_le_one_le)
    then show ?thesis using False unfolding e by (auto simp: algebra_simps)
  qed
qed

lemma lin_interp_step: "x0 < x1 \<Longrightarrow> x1 < x \<Longrightarrow> lin_interp (x0 # x1 # xs) (y0 # y1 # ys) x = lin_interp (x1 # xs) (y1 # ys) x"
  by simp

lemma lin_interp_node:
  "sorted_wrt (<) xs \<Longrightarrow> length ys = length xs \<Longrightarrow> i < length xs \<Longrightarrow> lin_interp xs ys (xs ! i) = ys ! i"
proof (induction i arbitrary: xs ys)
  case 0
  then show ?case by (cases xs; cases "tl xs"; cases ys; cases "tl ys") auto
next
  case (Suc i)
  obtain x0 x1 xs' where xs: "xs = x0 # x1 # xs'" using Suc.prems by (cases xs; cases "tl xs") auto
  obtain y0 y1 ys' where ys: "ys = y0 # y1 # ys'" using Suc.prems xs by (cases ys; cases "tl ys") auto
  have IH: "lin_interp (x1 # xs') (y1 # ys') ((x1 # xs') ! i) = (y1 # ys') ! i"
    using Suc.prems by (intro Suc.IH) (simp_all add: xs ys)
  show ?case
  proof (cases i)
    case 0
    then show ?thesis using Suc.prems by (simp add: xs ys)
  next
    case (Suc j)
    then have "x1 < (x1 # xs') ! i" using Suc.prems by (simp add: xs)
    then show ?thesis using IH Suc.prems lin_interp_step [of x0 x1 "(x1 # xs') ! i"] by (simp add: xs ys)
  qed
qed

lemma lin_interp_between:
  "sorted_wrt (<) xs \<Longrightarrow> length ys = length xs \<Longrightarrow> Suc i < length xs \<Longrightarrow> xs ! i \<le> x \<Longrightarrow> x \<le> xs ! Suc i \<Longrightarrow>
     min (ys ! i) (ys ! Suc i) \<le> lin_interp xs ys x \<and> lin_interp xs ys x \<le> max (ys ! i) (ys ! Suc i)"
proof (induction i arbitrary: xs ys)
  case 0
  obtain x0 x1 xs' where xs: "xs = x0 # x1 # xs'" using 0 by (cases xs; cases "tl xs") auto
  obtain y0 y1 ys' where ys: "ys = y0 # y1 # ys'" using 0 xs by (cases ys; cases "tl ys") auto
  show ?case using 0 lin_bounds [of x0 x x1 y0 y1] by (auto simp: xs ys)
next
  case (Suc i)
  obtain x0 x1 xs' where xs: "xs = x0 # x1 # xs'" using Suc.prems by (cases xs; cases "tl xs") auto
  obtain y0 y1 ys' where ys: "ys = y0 # y1 # ys'" using Suc.prems xs by (cases ys; cases "tl ys") auto
  have IH: "min ((y1 # ys') ! i) ((y1 # ys') ! Suc i) \<le> lin_interp (x1 # xs') (y1 # ys') x \<and>
      lin_interp (x1 # xs') (y1 # ys') x \<le> max ((y1 # ys') ! i) ((y1 # ys') ! Suc i)"
    using Suc.prems by (intro Suc.IH) (simp_all add: xs ys)
  have le: "x1 \<le> (x1 # xs') ! i" using Suc.prems by (cases i) (simp_all add: xs less_imp_le)
  have "(x1 # xs') ! i \<le> x" using Suc.prems by (simp add: xs)
  show ?case
  proof (cases "x = x1")
    case True
    have "x1 < xs' ! j" if "j < length xs'" for j using that Suc.prems(1) by (simp add: xs)
    then have "i = 0" using True Suc.prems(3) \<open>(x1 # xs') ! i \<le> x\<close> by (cases i) (auto simp: xs not_le [symmetric])
    then show ?thesis using True Suc.prems lin_interp_node [of xs ys 1] by (simp add: xs ys)
  next
    case False
    then have "x1 < x" using le \<open>(x1 # xs') ! i \<le> x\<close> by simp
    then show ?thesis using IH Suc.prems lin_interp_step [of x0 x1 x] by (simp add: xs ys)
  qed
qed

interpretation lin: interpolation lin_interp
  by unfold_locales (simp_all add: lin_interp_node lin_interp_between)


section \<open>Return periods\<close>

text \<open>
  The inner loop of \<open>return_periods\<close> over 1, 2, 5: the periods and whether the outer loop goes on. The
  outer loop may not end for other arguments, so its value is optional. Periods below \<open>2 ** 32\<close> are
  not changed by the conversion of the result.
\<close>

fun period_loop :: "rat \<Rightarrow> rat \<Rightarrow> int \<Rightarrow> int list \<Rightarrow> int list \<times> bool" where
  "period_loop min_time eff_time period [] = ([], True)"
| "period_loop min_time eff_time period (v # vs) = (let time = period * v in
     if min_time \<le> of_int time then
       (if eff_time < of_int time then ([], False)
        else (let (ts, go) = period_loop min_time eff_time period vs in (time # ts, go)))
     else period_loop min_time eff_time period vs)"

partial_function (option) periods_from :: "rat \<Rightarrow> rat \<Rightarrow> int \<Rightarrow> int list option" where
  "periods_from min_time eff_time period = (case period_loop min_time eff_time period [1, 2, 5] of
     (ts, go) \<Rightarrow> if go then Option.bind (periods_from min_time eff_time (period * 10)) (\<lambda>rest. Some (ts @ rest))
       else Some ts)"

declare periods_from.simps [code]

definition return_periods :: "rat \<Rightarrow> int \<Rightarrow> int list res option" where
  "return_periods eff_time num_losses = (if eff_time < 2 then Some (Inl ValueError)
     else if num_losses < 2 then Some (Inl ValueError)
     else (case periods_from (eff_time / of_int num_losses) eff_time 1 of None \<Rightarrow> None | Some ps \<Rightarrow> Some (Inr ps)))"

section \<open>Losses by return period\<close>

text \<open>
  \<open>fix_losses\<close>: the losses, with zeros on the left, and the periods of the events. Which of several
  equal losses an index of \<open>argsort\<close> means is not used further on.
\<close>

definition fix_losses :: "rat list \<Rightarrow> nat \<Rightarrow> rat \<Rightarrow> bool \<Rightarrow> (rat list \<times> rat list) res" where
  "fix_losses orig_losses num_events eff_time sorting = (let sorted_losses = (if sorting then sort orig_losses else orig_losses);
     num_losses = length sorted_losses in
     bindE (if num_losses < num_events then Inr (replicate (num_events - num_losses) 0 @ sorted_losses)
            else if num_losses = num_events then Inr sorted_losses else Inl ValueError) (\<lambda>losses.
     Inr (losses, map (\<lambda>k. eff_time / of_nat k) (rev [1..<Suc num_events]))))"

definition loss_curve :: "(rat \<Rightarrow> 'a) \<Rightarrow> ('a list \<Rightarrow> rat list \<Rightarrow> 'a \<Rightarrow> rat) \<Rightarrow> rat list \<Rightarrow> rat list \<Rightarrow> rat list \<Rightarrow>
    rat option list res" where
  "loss_curve lg ip rps losses eperiods = (
     let num_left = length (filter (\<lambda>rp. rp < hd eperiods) rps);
         num_right = length (filter (\<lambda>rp. rp > last eperiods) rps);
         rperiods = filter (\<lambda>rp. hd eperiods \<le> rp \<and> rp \<le> last eperiods) rps in
     if num_left + length rperiods + num_right \<noteq> length rps then Inl ValueError
     else Inr (replicate num_left (Some 0) @ map (\<lambda>rp. Some (ip (map lg eperiods) losses (lg rp))) rperiods
       @ replicate num_right None))"

definition losses_by_period :: "(rat \<Rightarrow> 'a) \<Rightarrow> ('a list \<Rightarrow> rat list \<Rightarrow> 'a \<Rightarrow> rat) \<Rightarrow> (rat \<Rightarrow> rat) option \<Rightarrow>
    rat list \<Rightarrow> rat list \<Rightarrow> nat \<Rightarrow> rat option \<Rightarrow> bool \<Rightarrow> string \<Rightarrow> (string, rat option list) dict res" where
  "losses_by_period lg ip pla losses rps num_events eff_time sorting name =
     bindE (checkE (losses \<noteq> []) AssertionError) (\<lambda>_.
     bindE (case eff_time of None \<Rightarrow> py_index rps (- 1) | Some t \<Rightarrow> Inr t) (\<lambda>eff_time.
     bindE (fix_losses losses num_events eff_time sorting) (\<lambda>(losses, eperiods).
     bindE (loss_curve lg ip rps losses eperiods) (\<lambda>curve.
     case pla of None \<Rightarrow> Inr [(name, curve)]
     | Some f \<Rightarrow> bindE (loss_curve lg ip rps (map2 (\<lambda>l e. l * f e) losses eperiods) eperiods) (\<lambda>amplified.
         Inr [(name, curve), (''pla_'' @ name, amplified)])))))"

definition maximum_probable_loss :: "(rat \<Rightarrow> 'a) \<Rightarrow> ('a list \<Rightarrow> rat list \<Rightarrow> 'a \<Rightarrow> rat) \<Rightarrow> rat list \<Rightarrow> rat \<Rightarrow> rat \<Rightarrow> bool \<Rightarrow>
    rat option res" where
  "maximum_probable_loss lg ip losses return_period eff_time sorting =
     bindE (losses_by_period lg ip None losses [return_period] (length losses) (Some eff_time) sorting ''curve'') (\<lambda>res.
     bindE (dict_get res ''curve'') (\<lambda>curve. py_index curve 0))"

text \<open>
  \<open>LossCurvesMapsBuilder\<close>: the fields that \<open>build_curve\<close> reads; the groups of \<open>pandas.groupby\<close> are in the
  order of the years.
\<close>

record curves_builder =
  cb_periods :: "rat list"
  cb_eff_time :: rat
  cb_pla :: "(rat \<Rightarrow> rat) option"

definition builder_init :: "rat list \<Rightarrow> rat \<Rightarrow> (rat \<Rightarrow> rat) option \<Rightarrow> curves_builder res" where
  "builder_init rps eff_time pla = bindE (py_index rps (- 1)) (\<lambda>longest.
     if eff_time < longest then Inl ValueError
     else Inr \<lparr>cb_periods = rps, cb_eff_time = eff_time, cb_pla = pla\<rparr>)"

fun split_comma_space :: "string \<Rightarrow> string list" where
  "split_comma_space [] = [[]]"
| "split_comma_space (x # s) = (if x = CHR '','' \<and> s \<noteq> [] \<and> hd s = CHR '' '' then [] # split_comma_space (tl s)
     else (x # hd (split_comma_space s)) # tl (split_comma_space s))"

definition by_year :: "nat list \<Rightarrow> rat list \<Rightarrow> (rat list \<Rightarrow> rat) \<Rightarrow> rat list" where
  "by_year years losses agg = map snd (groupby (zip years losses) fst (agg \<circ> map snd))"

definition build_curve :: "(rat \<Rightarrow> 'a) \<Rightarrow> ('a list \<Rightarrow> rat list \<Rightarrow> 'a \<Rightarrow> rat) \<Rightarrow> curves_builder \<Rightarrow> nat list \<Rightarrow> string \<Rightarrow>
    rat list \<Rightarrow> string \<Rightarrow> nat \<Rightarrow> (string, rat option list) dict res" where
  "build_curve lg ip cb years col losses agg_types ne = (let types = split_comma_space agg_types;
     lbp = (\<lambda>ls name. losses_by_period lg ip (cb_pla cb) ls (cb_periods cb) ne (Some (cb_eff_time cb)) True name) in
     bindE (if ''ep'' \<in> set types then lbp losses col else Inr []) (\<lambda>ep.
     if years = [] then Inr ep else
     bindE (checkE (length years = length losses) ValueError) (\<lambda>_.
     bindE (if ''aep'' \<in> set types then lbp (by_year years losses sum_list) (col @ ''_aep'') else Inr []) (\<lambda>aep.
     bindE (if ''oep'' \<in> set types then lbp (by_year years losses (\<lambda>l. Max (set l))) (col @ ''_oep'') else Inr []) (\<lambda>oep.
     Inr (dict_update (dict_update ep aep) oep))))))"


subsection \<open>The return periods\<close>

definition kept_period :: "rat \<Rightarrow> rat \<Rightarrow> int \<Rightarrow> bool" where
  "kept_period min_time eff_time t \<longleftrightarrow> min_time \<le> of_int t \<and> of_int t \<le> eff_time"

lemma period_loop_facts:
  assumes "sorted_wrt (<) vs" "0 < period" "min_time \<le> eff_time"
  shows "fst (period_loop min_time eff_time period vs) = filter (kept_period min_time eff_time) (map ((*) period) vs) \<and>
    (snd (period_loop min_time eff_time period vs) \<longleftrightarrow> (\<forall>v \<in> set vs. of_int (period * v) \<le> eff_time))"
  using assms
proof (induction vs)
  case (Cons v vs)
  have IH: "fst (period_loop min_time eff_time period vs) = filter (kept_period min_time eff_time) (map ((*) period) vs)"
    "snd (period_loop min_time eff_time period vs) \<longleftrightarrow> (\<forall>v \<in> set vs. of_int (period * v) \<le> eff_time)" using Cons by simp_all
  show ?case
  proof (cases "eff_time < of_int (period * v)")
    case True
    have "eff_time < of_int (period * w)" if "w \<in> set vs" for w
    proof -
      have "period * v < period * w" using that Cons.prems by simp
      then have "(of_int (period * v) :: rat) < of_int (period * w)" by (simp only: of_int_less_iff)
      then show ?thesis using True by (rule less_trans [rotated])
    qed
    then have "\<forall>t \<in> set (map ((*) period) vs). \<not> kept_period min_time eff_time t" by (auto simp: kept_period_def not_le)
    then have "filter (kept_period min_time eff_time) (map ((*) period) vs) = []" by (simp add: filter_empty_conv)
    moreover have "\<not> kept_period min_time eff_time (period * v)" using True by (simp add: kept_period_def not_le)
    moreover have "min_time \<le> of_int (period * v)" using True assms(3) by simp
    ultimately show ?thesis using True by (simp add: Let_def not_le)
  next
    case False
    moreover have "kept_period min_time eff_time (period * v) \<longleftrightarrow> min_time \<le> of_int (period * v)"
      using False by (simp add: kept_period_def)
    ultimately show ?thesis using IH by (simp add: Let_def case_prod_unfold not_less)
  qed
qed simp

definition decades :: "int \<Rightarrow> int set" where
  "decades p = {p * 10 ^ k * v | k v. v \<in> {1, 2, 5}}"

lemma decades_step: "decades p = {p, p * 2, p * 5} \<union> decades (p * 10)"
proof (intro equalityI subsetI)
  fix t assume "t \<in> decades p"
  then obtain k v where t: "t = p * 10 ^ k * v" "v \<in> {1, 2, 5}" by (auto simp: decades_def)
  show "t \<in> {p, p * 2, p * 5} \<union> decades (p * 10)"
  proof (cases k)
    case (Suc j)
    then have "t = p * 10 * 10 ^ j * v" using t(1) by simp
    then show ?thesis using t(2) unfolding decades_def by blast
  qed (use t in auto)
next
  fix t assume "t \<in> {p, p * 2, p * 5} \<union> decades (p * 10)"
  then consider "t \<in> {p, p * 2, p * 5}" | "t \<in> decades (p * 10)" by blast
  then show "t \<in> decades p"
  proof cases
    case 1
    then have "\<exists>v \<in> {1, 2, 5}. t = p * 10 ^ 0 * v" by auto
    then show ?thesis unfolding decades_def by blast
  next
    case 2
    then obtain k v where "t = p * 10 * 10 ^ k * v" "v \<in> {1, 2, 5}" unfolding decades_def by blast
    then have "t = p * 10 ^ Suc k * v" by simp
    then show ?thesis using \<open>v \<in> {1, 2, 5}\<close> unfolding decades_def by blast
  qed
qed

lemma decades_ge: "0 < p \<Longrightarrow> t \<in> decades p \<Longrightarrow> p \<le> t"
proof -
  assume p: "0 < p" and "t \<in> decades p"
  then obtain k v where t: "t = p * 10 ^ k * v" "1 \<le> v" by (auto simp: decades_def)
  have "1 \<le> (10 :: int) ^ k * v" using t(2) mult_mono [of 1 "10 ^ k" 1 v] by simp
  then have "p * 1 \<le> p * (10 ^ k * v)" using p by (intro mult_left_mono) auto
  then show ?thesis by (simp add: t(1) mult.assoc)
qed


lemma periods_from_spec:
  assumes "0 < period" "min_time \<le> eff_time"
  shows "\<exists>ps. periods_from min_time eff_time period = Some ps \<and> sorted_wrt (<) ps \<and>
    set ps = {t \<in> decades period. kept_period min_time eff_time t}"
  using assms
proof (induction "nat (\<lceil>eff_time\<rceil> - period)" arbitrary: period rule: less_induct)
  case less
  have f: "fst (period_loop min_time eff_time period [1, 2, 5]) = filter (kept_period min_time eff_time) [period, period * 2, period * 5]"
    "snd (period_loop min_time eff_time period [1, 2, 5]) \<longleftrightarrow> (\<forall>v \<in> {1, 2, 5}. of_int (period * v) \<le> eff_time)"
    using period_loop_facts [of "[1, 2, 5]" period min_time eff_time] less.prems by simp_all
  obtain ts go where tg: "period_loop min_time eff_time period [1, 2, 5] = (ts, go)" by fastforce
  note ts = f(1) [unfolded tg fst_conv] and go = f(2) [unfolded tg snd_conv]
  have set_ts: "set ts = {t \<in> {period, period * 2, period * 5}. kept_period min_time eff_time t}" unfolding ts set_filter by simp
  have st: "sorted_wrt (<) ts" unfolding ts using less.prems(1) by (intro sorted_wrt_filter) simp
  show ?case
  proof (cases go)
    case True
    then have "of_int period \<le> eff_time" using go by (metis insertCI mult.right_neutral)
    then have le: "period \<le> \<lceil>eff_time\<rceil>" by (metis ceiling_mono ceiling_of_int)
    have "of_int (period * 5) \<le> eff_time" using True go by blast
    then have "period * 5 \<le> \<lceil>eff_time\<rceil>" by (metis ceiling_mono ceiling_of_int)
    then have "nat (\<lceil>eff_time\<rceil> - period * 10) < nat (\<lceil>eff_time\<rceil> - period)" using less.prems(1) by simp
    from less.hyps [OF this] obtain ps where ps: "periods_from min_time eff_time (period * 10) = Some ps"
      "sorted_wrt (<) ps" "set ps = {t \<in> decades (period * 10). kept_period min_time eff_time t}" using less.prems by auto
    have "periods_from min_time eff_time period = Some (ts @ ps)"
      by (subst periods_from.simps) (simp add: tg True ps(1) del: period_loop.simps)
    moreover have "a < b" if "a \<in> set ts" "b \<in> set ps" for a b
    proof -
      have "period * 10 \<le> b" using that(2) ps(3) less.prems(1) decades_ge [of "period * 10" b] by simp
      moreover have "a \<le> period * 5" using that(1) less.prems(1) by (auto simp: ts split: if_splits)
      ultimately show ?thesis using less.prems(1) by simp
    qed
    then have "sorted_wrt (<) (ts @ ps)" using st ps(2) by (simp add: sorted_wrt_append)
    moreover have "set (ts @ ps) = {t \<in> decades period. kept_period min_time eff_time t}"
      unfolding set_append ps(3) set_ts decades_step [of period] by blast
    ultimately show ?thesis by blast
  next
    case False
    then obtain v where v: "v \<in> {1, 2, 5}" "eff_time < of_int (period * v)"
      using go by (meson not_le)
    have no: "\<not> kept_period min_time eff_time t" if "t \<in> decades (period * 10)" for t
    proof -
      have "period * v \<le> period * 10" using v(1) less.prems(1) by auto
      also have "period * 10 \<le> t" using decades_ge [of "period * 10" t] that less.prems(1) by simp
      finally have "period * v \<le> t" .
      then have "(of_int (period * v) :: rat) \<le> of_int t" by (simp only: of_int_le_iff)
      then show ?thesis using v(2) by (simp add: kept_period_def not_le)
    qed
    have "periods_from min_time eff_time period = Some ts"
      by (subst periods_from.simps) (simp add: tg False del: period_loop.simps)
    moreover have "set ts = {t \<in> decades period. kept_period min_time eff_time t}"
      unfolding set_ts decades_step [of period] using no by blast
    ultimately show ?thesis using st by blast
  qed
qed

lemma return_periods_total:
  assumes "2 \<le> eff_time" "2 \<le> num_losses"
  shows "\<exists>ps. return_periods eff_time num_losses = Some (Inr ps) \<and> sorted_wrt (<) ps \<and>
    set ps = {t \<in> decades 1. eff_time / of_int num_losses \<le> of_int t \<and> of_int t \<le> eff_time}"
proof -
  have "eff_time / of_int num_losses \<le> eff_time" using assms by (simp add: divide_le_eq mult_le_cancel_left1)
  from periods_from_spec [of 1, OF _ this] obtain ps where
    "periods_from (eff_time / of_int num_losses) eff_time 1 = Some ps" "sorted_wrt (<) ps"
    "set ps = {t \<in> decades 1. kept_period (eff_time / of_int num_losses) eff_time t}" by auto
  then show ?thesis using assms by (simp add: return_periods_def kept_period_def not_less)
qed


subsection \<open>The losses\<close>

lemma eperiods_sorted:
  fixes eff_time :: rat
  assumes "0 < eff_time"
  shows "sorted_wrt (<) (map (\<lambda>k. eff_time / of_nat k) (rev [1..<Suc n]))"
proof -
  have "sorted_wrt (\<lambda>a b. eff_time / of_nat a < eff_time / of_nat b) (rev [1..<Suc n])"
    unfolding sorted_wrt_rev
    by (rule sorted_wrt_mono_rel [OF _ sorted_wrt_upt]) (use assms in \<open>auto intro!: divide_strict_left_mono\<close>)
  then show ?thesis by (simp add: sorted_wrt_map del: upt_Suc)
qed

lemma fix_losses_facts:
  assumes "fix_losses orig n eff_time sorting = Inr (losses, eperiods)"
  shows "length losses = n" "length eperiods = n" "mset losses = replicate_mset (n - length orig) 0 + mset orig"
    "\<forall>i < n. eperiods ! i = eff_time / of_nat (n - i)" "length orig \<le> n"
    "eperiods = map (\<lambda>k. eff_time / of_nat k) (rev [1..<Suc n])"
    "sorting \<or> sorted orig \<Longrightarrow> \<forall>x \<in> set orig. 0 \<le> x \<Longrightarrow> sorted losses"
  using assms
  by (auto simp: fix_losses_def Let_def bindE_Inr_iff rev_nth sorted_append simp del: upt_Suc split: if_splits)

lemma fix_losses_error: "fix_losses orig n eff_time sorting = Inl e \<longleftrightarrow> e = ValueError \<and> n < length orig"
  by (auto simp: fix_losses_def Let_def bindE_Inl_iff split: if_splits)

lemma sorted_split:
  fixes a b :: rat
  assumes "sorted rps" "a \<le> b"
  shows "rps = filter (\<lambda>r. r < a) rps @ filter (\<lambda>r. a \<le> r \<and> r \<le> b) rps @ filter (\<lambda>r. r > b) rps"
  using assms
proof (induction rps)
  case (Cons r rps)
  have IH: "rps = filter (\<lambda>r. r < a) rps @ filter (\<lambda>r. a \<le> r \<and> r \<le> b) rps @ filter (\<lambda>r. r > b) rps" using Cons by simp
  have ge: "r \<le> x" if "x \<in> set rps" for x using that Cons.prems by simp
  have e: "a \<le> r \<Longrightarrow> filter (\<lambda>r. r < a) rps = []" "b < r \<Longrightarrow> filter (\<lambda>r. a \<le> r \<and> r \<le> b) rps = []"
    using ge by (force simp: filter_empty_conv)+
  consider "r < a" | "a \<le> r" "r \<le> b" | "b < r" by linarith
  then show ?case
    using IH e Cons.prems(2) by cases auto
qed simp

text \<open>The curve at a return period, position by position, for sorted return periods.\<close>

definition loss_at :: "(rat \<Rightarrow> 'a) \<Rightarrow> ('a list \<Rightarrow> rat list \<Rightarrow> 'a \<Rightarrow> rat) \<Rightarrow> rat list \<Rightarrow> rat list \<Rightarrow> rat \<Rightarrow> rat option" where
  "loss_at lg ip losses eperiods rp = (if rp < hd eperiods then Some 0 else if last eperiods < rp then None
     else Some (ip (map lg eperiods) losses (lg rp)))"

lemma loss_curve_pointwise:
  assumes "sorted rps" "hd eperiods \<le> last eperiods"
  shows "loss_curve lg ip rps losses eperiods = Inr (map (loss_at lg ip losses eperiods) rps)"
proof -
  note sp = sorted_split [OF assms]
  let ?l = "filter (\<lambda>r. r < hd eperiods) rps" and ?m = "filter (\<lambda>r. hd eperiods \<le> r \<and> r \<le> last eperiods) rps"
    and ?r = "filter (\<lambda>r. r > last eperiods) rps"
  have len: "length ?l + length ?m + length ?r = length rps" using arg_cong [OF sp, of length] by simp
  have "map (loss_at lg ip losses eperiods) rps = map (loss_at lg ip losses eperiods) (?l @ ?m @ ?r)" using sp by simp
  also have "\<dots> = map (\<lambda>_. Some 0) ?l @ map (\<lambda>rp. Some (ip (map lg eperiods) losses (lg rp))) ?m @ map (\<lambda>_. None) ?r"
    using assms(2) by (auto simp: loss_at_def not_less)
  finally show ?thesis using len by (simp add: loss_curve_def map_replicate_const)
qed


lemma eperiods_ends:
  assumes "fix_losses losses n eff_time sorting = Inr (fixed, eperiods)" "0 < n"
  shows "hd eperiods = eff_time / of_nat n" "last eperiods = eff_time" "eperiods \<noteq> []"
proof -
  note f = fix_losses_facts [OF assms(1)]
  show ne: "eperiods \<noteq> []" using f(2) assms(2) by auto
  show "hd eperiods = eff_time / of_nat n" using ne f(4) assms(2) by (simp add: hd_conv_nth)
  show "last eperiods = eff_time" using ne f(2,4) assms(2) by (simp add: last_conv_nth)
qed

lemma eff_time_div: "0 < n \<Longrightarrow> 0 < eff_time \<Longrightarrow> eff_time / of_nat n \<le> (eff_time :: rat)"
  by (simp add: divide_le_eq mult_le_cancel_left1)

lemma losses_by_period_curve:
  assumes "losses_by_period lg ip pla losses rps n (Some eff_time) sorting name = Inr res"
    and "sorted rps" "0 < eff_time"
  shows "\<exists>fixed eperiods. fix_losses losses n eff_time sorting = Inr (fixed, eperiods) \<and> 0 < n \<and>
    map_of res name = Some (map (loss_at lg ip fixed eperiods) rps)"
proof -
  from assms(1) obtain fixed eperiods curve where f: "fix_losses losses n eff_time sorting = Inr (fixed, eperiods)"
    and c: "loss_curve lg ip rps fixed eperiods = Inr curve" and r: "map_of res name = Some curve" and ne: "losses \<noteq> []"
    by (auto simp: losses_by_period_def bindE_Inr_iff split: option.splits)
  have n: "0 < n" using fix_losses_facts(5) [OF f] ne by (cases losses) auto
  have "hd eperiods \<le> last eperiods" using eperiods_ends [OF f n] eff_time_div [OF n assms(3)] by simp
  then have "curve = map (loss_at lg ip fixed eperiods) rps"
    using loss_curve_pointwise [OF assms(2), of eperiods lg ip fixed] c by simp
  then show ?thesis using f r n by auto
qed

text \<open>What the curve says: zeros before the first period of the events, missing values after the last, the
  losses at the periods of the events, and values within the losses in between.\<close>

lemma loss_at_facts:
  fixes lg :: "rat \<Rightarrow> 'a::linorder"
  assumes ip: "interpolation ip" and lg: "\<And>x y. 0 < x \<Longrightarrow> x < y \<Longrightarrow> lg x < lg y"
    and f: "fix_losses losses n eff_time sorting = Inr (fixed, eperiods)" and pos: "0 < eff_time" "0 < n"
  shows "i < n \<Longrightarrow> loss_at lg ip fixed eperiods (eff_time / of_nat (n - i)) = Some (fixed ! i)"
    and "sorted fixed \<Longrightarrow> eff_time / of_nat n \<le> rp \<Longrightarrow> rp \<le> eff_time \<Longrightarrow>
      \<exists>l. loss_at lg ip fixed eperiods rp = Some l \<and> hd fixed \<le> l \<and> l \<le> last fixed"
    and "rp < eff_time / of_nat n \<Longrightarrow> loss_at lg ip fixed eperiods rp = Some 0"
    and "eff_time < rp \<Longrightarrow> loss_at lg ip fixed eperiods rp = None"
proof -
  note ff = fix_losses_facts [OF f] and ends = eperiods_ends [OF f pos(2)]
  have epos: "0 < x" if "x \<in> set eperiods" for x using that pos(1) unfolding ff(6) by auto
  have "sorted_wrt (<) eperiods" unfolding ff(6) by (rule eperiods_sorted [OF pos(1)])
  then have srt: "sorted_wrt (<) (map lg eperiods)"
    unfolding sorted_wrt_map by (rule sorted_wrt_mono_rel [rotated]) (use epos lg in blast)
  have len: "length fixed = length (map lg eperiods)" using ff(1,2) by simp
  have le: "eff_time / of_nat n \<le> eff_time" by (rule eff_time_div [OF pos(2,1)])
  show "rp < eff_time / of_nat n \<Longrightarrow> loss_at lg ip fixed eperiods rp = Some 0"
    by (simp add: loss_at_def ends)
  show "eff_time < rp \<Longrightarrow> loss_at lg ip fixed eperiods rp = None" using le by (simp add: loss_at_def ends)
  show "loss_at lg ip fixed eperiods (eff_time / of_nat (n - i)) = Some (fixed ! i)" if i: "i < n"
  proof -
    have e: "eff_time / of_nat (n - i) = eperiods ! i" using ff(4) i by simp
    have "eff_time / of_nat (n - i) \<le> eff_time" by (rule eff_time_div) (use i pos in simp_all)
    moreover have "eff_time / of_nat n \<le> eff_time / of_nat (n - i)" using pos i by (intro divide_left_mono) auto
    ultimately have "loss_at lg ip fixed eperiods (eff_time / of_nat (n - i)) = Some (ip (map lg eperiods) fixed (lg (eperiods ! i)))"
      by (simp add: loss_at_def ends e)
    then show ?thesis using interpolation.node [OF ip srt len, of i] i ff(2) by simp
  qed
  show "\<exists>l. loss_at lg ip fixed eperiods rp = Some l \<and> hd fixed \<le> l \<and> l \<le> last fixed"
    if "sorted fixed" "eff_time / of_nat n \<le> rp" "rp \<le> eff_time"
  proof -
    have rp: "0 < rp" using that(2) pos by (meson divide_pos_pos less_le_trans of_nat_0_less_iff)
    have mono: "lg x \<le> lg y" if "0 < x" "x \<le> y" for x y using that lg [of x y] by (cases "x = y") auto
    have "hd (map lg eperiods) \<le> lg rp" "lg rp \<le> last (map lg eperiods)"
      using ends that(2,3) rp pos by (auto simp: hd_map last_map intro!: mono)
    then have "hd fixed \<le> ip (map lg eperiods) fixed (lg rp) \<and> ip (map lg eperiods) fixed (lg rp) \<le> last fixed"
      using ends(3) by (intro interpolation.increasing_bounds [OF ip srt len that(1)]) simp_all
    then show ?thesis using that(2,3) by (simp add: loss_at_def ends)
  qed
qed


text \<open>The losses by period exist for any losses that are not more than the events.\<close>

lemma loss_at_cases:
  fixes lg :: "rat \<Rightarrow> 'a::linorder"
  assumes ip: "interpolation ip" and lg: "\<And>x y. 0 < x \<Longrightarrow> x < y \<Longrightarrow> lg x < lg y"
    and le: "losses \<noteq> []" "length losses \<le> n" and rps: "sorted rps" and pos: "0 < eff_time" "\<forall>x \<in> set losses. 0 \<le> x"
    and fixed: "fixed = replicate (n - length losses) 0 @ sort losses"
  shows "\<exists>res curve. losses_by_period lg ip pla losses rps n (Some eff_time) True name = Inr res \<and>
    map_of res name = Some curve \<and> length curve = length rps \<and> (\<forall>i < length rps.
      (rps ! i < eff_time / of_nat n \<longrightarrow> curve ! i = Some 0) \<and>
      (eff_time / of_nat n \<le> rps ! i \<and> rps ! i \<le> eff_time \<longrightarrow>
        (\<exists>l. curve ! i = Some l \<and> hd fixed \<le> l \<and> l \<le> Max (set losses))) \<and>
      (\<forall>k \<in> {1..n}. rps ! i = eff_time / of_nat k \<longrightarrow> curve ! i = Some (fixed ! (n - k))) \<and>
      (eff_time < rps ! i \<longrightarrow> curve ! i = None))"
proof -
  define eperiods where "eperiods = map (\<lambda>k. eff_time / of_nat k) (rev [1..<Suc n])"
  have n: "0 < n" using le by (cases losses) auto
  have f: "fix_losses losses n eff_time True = Inr (fixed, eperiods)"
    using le(2) by (auto simp: fix_losses_def fixed eperiods_def Let_def simp del: upt_Suc)
  note ends = eperiods_ends [OF f n]
  have mid: "hd eperiods \<le> last eperiods" using ends eff_time_div [OF n pos(1)] by simp
  note curve = loss_curve_pointwise [OF rps mid, of lg ip]
  have srt: "sorted fixed" using fix_losses_facts(7) [OF f] pos(2) by simp
  have "last fixed = last (sort losses)" using le(1) by (simp add: fixed set_empty [symmetric] del: set_empty)
  also have "\<dots> \<in> set losses" using le(1) by (metis last_in_set set_empty set_sort)
  finally have last: "last fixed \<le> Max (set losses)" by simp
  let ?at = "loss_at lg ip fixed eperiods"
  have at: "?at (eff_time / of_nat (n - j)) = Some (fixed ! j)" if "j < n" for j
    by (rule loss_at_facts(1) [OF ip _ f pos(1) n that]) (rule lg)
  have mids: "\<exists>l. ?at rp = Some l \<and> hd fixed \<le> l \<and> l \<le> Max (set losses)"
    if "eff_time / of_nat n \<le> rp" "rp \<le> eff_time" for rp
  proof -
    have "\<exists>l. ?at rp = Some l \<and> hd fixed \<le> l \<and> l \<le> last fixed"
      by (rule loss_at_facts(2) [OF ip _ f pos(1) n srt that]) (rule lg)
    then show ?thesis using last by fastforce
  qed
  have left: "?at rp = Some 0" if "rp < eff_time / of_nat n" for rp using that by (simp add: loss_at_def ends)
  have right: "?at rp = None" if "eff_time < rp" for rp
    using that mid by (simp add: loss_at_def ends)
  let ?c = "map ?at rps"
  have "\<exists>res. losses_by_period lg ip pla losses rps n (Some eff_time) True name = Inr res \<and> map_of res name = Some ?c"
    using le(1) by (auto simp: losses_by_period_def f curve loss_curve_pointwise [OF rps mid] res_simps split: option.splits)
  then obtain res where res: "losses_by_period lg ip pla losses rps n (Some eff_time) True name = Inr res"
    "map_of res name = Some ?c" by blast
  have node: "?at (eff_time / of_nat k) = Some (fixed ! (n - k))" if "k \<in> {1..n}" for k
    using at [of "n - k"] that by simp
  have "\<forall>i < length rps. (rps ! i < eff_time / of_nat n \<longrightarrow> ?c ! i = Some 0) \<and>
      (eff_time / of_nat n \<le> rps ! i \<and> rps ! i \<le> eff_time \<longrightarrow>
        (\<exists>l. ?c ! i = Some l \<and> hd fixed \<le> l \<and> l \<le> Max (set losses))) \<and>
      (\<forall>k \<in> {1..n}. rps ! i = eff_time / of_nat k \<longrightarrow> ?c ! i = Some (fixed ! (n - k))) \<and>
      (eff_time < rps ! i \<longrightarrow> ?c ! i = None)"
    using left mids node right by simp
  then show ?thesis using res by (intro exI [of _ res] exI [of _ ?c]) simp
qed

text \<open>The check of the builder leaves no missing value in any of its curves.\<close>

lemma last_ge: "sorted rps \<Longrightarrow> r \<in> set rps \<Longrightarrow> r \<le> (last rps :: rat)"
  by (induction rps) auto

lemma no_missing_period:
  assumes "losses_by_period lg ip pla losses rps n (Some eff_time) sorting name = Inr res"
    and "sorted rps" "\<forall>r \<in> set rps. r \<le> eff_time" "0 < eff_time" "c \<in> snd ` set res"
  shows "None \<notin> set c \<and> length c = length rps"
proof -
  from assms(1,5) obtain fixed eperiods ls where f: "fix_losses losses n eff_time sorting = Inr (fixed, eperiods)"
    and ne: "losses \<noteq> []" and c: "loss_curve lg ip rps ls eperiods = Inr c"
    by (auto simp: losses_by_period_def res_simps split: option.splits)
  have n: "0 < n" using fix_losses_facts(5) [OF f] ne by (cases losses) auto
  note ends = eperiods_ends [OF f n]
  have mid: "hd eperiods \<le> last eperiods" using ends eff_time_div [OF n assms(4)] by simp
  have "c = map (loss_at lg ip ls eperiods) rps" using c [unfolded loss_curve_pointwise [OF assms(2) mid]] by auto
  then show ?thesis using assms(3) ends by (auto simp: loss_at_def)
qed

lemma values_dict_update: "snd ` set (dict_update a b) \<subseteq> snd ` set a \<union> snd ` set b"
proof (induction b arbitrary: a)
  case (Cons x b)
  obtain k v where x: "x = (k, v)" by (cases x)
  have "snd ` set (AList.update k v a) \<subseteq> insert v (snd ` set a)"
    by (induction a) auto
  moreover have "dict_update a (x # b) = dict_update (AList.update k v a) b" by (simp add: dict_update_def x)
  ultimately show ?case using Cons [of "AList.update k v a"] by (simp add: x) blast
qed (simp add: dict_update_def)

lemma no_missing_values:
  assumes init: "builder_init rps eff_time pla = Inr cb" and rps: "sorted rps" "0 < eff_time"
    and built: "build_curve lg ip cb years col losses agg_types n = Inr dic" and c: "c \<in> snd ` set dic"
  shows "None \<notin> set c \<and> length c = length rps"
proof -
  have cb: "cb = \<lparr>cb_periods = rps, cb_eff_time = eff_time, cb_pla = pla\<rparr>" and le: "\<forall>r \<in> set rps. r \<le> eff_time"
    using init last_ge [OF rps(1)]
    by (auto simp: builder_init_def res_simps py_index_def norm_index_def last_conv_nth nat_diff_distrib' not_less
      split: if_splits intro: order_trans)
  have part: "None \<notin> set c \<and> length c = length rps"
    if "(if b then losses_by_period lg ip pla ls rps n (Some eff_time) True name else Inr []) = Inr res" "c \<in> snd ` set res"
    for b ls name res
    using that no_missing_period [of lg ip pla ls rps n eff_time True name res c] rps le by (auto split: if_splits)
  from built obtain ep aep oep where parts: "dic = ep \<or> dic = dict_update (dict_update ep aep) oep"
    "(if ''ep'' \<in> set (split_comma_space agg_types) then losses_by_period lg ip pla losses rps n (Some eff_time) True col
      else Inr []) = Inr ep"
    "years \<noteq> [] \<Longrightarrow> (if ''aep'' \<in> set (split_comma_space agg_types) then
      losses_by_period lg ip pla (by_year years losses sum_list) rps n (Some eff_time) True (col @ ''_aep'') else Inr []) = Inr aep"
    "years \<noteq> [] \<Longrightarrow> (if ''oep'' \<in> set (split_comma_space agg_types) then
      losses_by_period lg ip pla (by_year years losses (\<lambda>l. Max (set l))) rps n (Some eff_time) True (col @ ''_oep'') else Inr []) = Inr oep"
    "years = [] \<Longrightarrow> dic = ep"
    unfolding build_curve_def cb Let_def by (auto simp: res_simps split: if_splits)
  consider "c \<in> snd ` set ep" | "years \<noteq> []" "c \<in> snd ` set aep" | "years \<noteq> []" "c \<in> snd ` set oep"
    using c parts(1,5) values_dict_update [of "dict_update ep aep" oep] values_dict_update [of ep aep] by blast
  then show ?thesis
    by cases (rule part [OF parts(2)] part [OF parts(3)] part [OF parts(4)]; assumption)+
qed

section \<open>The loss ratio at a probability\<close>

text \<open>
  \<open>conditional_loss_ratio\<close>; \<open>bisect.bisect_right\<close> is the number of the leading values that are not
  greater, on a sorted list. A division by zero is not an error in numpy, its value is no number:
  \<open>conditional_between\<close> shows that it does not happen on probabilities that do not increase.
\<close>

definition bisect_right :: "rat list \<Rightarrow> rat \<Rightarrow> nat" where
  "bisect_right xs x = length (takeWhile (\<lambda>y. y \<le> x) xs)"

definition conditional_loss_ratio :: "rat list \<Rightarrow> rat list \<Rightarrow> rat \<Rightarrow> rat option res" where
  "conditional_loss_ratio loss_ratios poes probability = bindE (checkE (3 \<le> length loss_ratios) AssertionError) (\<lambda>_.
     bindE (py_index poes 0) (\<lambda>first. bindE (py_index poes (- 1)) (\<lambda>lst.
     if first < probability then Inr (Some 0)
     else if probability < lst then bindE (py_index loss_ratios (- 1)) (\<lambda>l. Inr (Some l))
     else if probability \<in> set poes then
       (if length poes \<noteq> length loss_ratios then Inl IndexError
        else Inr (Some (Max (set (map fst (filter (\<lambda>(l, p). p = probability) (zip loss_ratios poes)))))))
     else (let k = bisect_right (rev poes) probability;
           pair = (\<lambda>xs. if k = 1 then py_slice (length xs - 2) (length xs) xs
                        else py_slice (length xs - (k + 1)) (length xs - (k - 1)) xs) in
       if k = length poes then Inr None
       else case (pair poes, pair loss_ratios) of
         ([x1, x2], [y1, y2]) \<Rightarrow> if x2 = x1 then Inr None
            else Inr (Some ((y2 - y1) / (x2 - x1) * (probability - x1) + y1))
       | _ \<Rightarrow> Inl ValueError))))"

text \<open>\<open>average_loss\<close> on a pair of columns, with the differences and the means of neighbours.\<close>

fun pairwise :: "'a list \<Rightarrow> ('a \<times> 'a) list" where
  "pairwise (x # y # xs) = (x, y) # pairwise (y # xs)"
| "pairwise xs = []"

definition pairwise_mean :: "rat list \<Rightarrow> rat list" where
  "pairwise_mean vals = map (\<lambda>(x, y). (x + y) / 2) (pairwise vals)"

definition pairwise_diff :: "rat list \<Rightarrow> bool \<Rightarrow> rat list res" where
  "pairwise_diff vals addlast = (let diff = map (\<lambda>(x, y). x - y) (pairwise vals) in
     if addlast then bindE (py_index vals (- 1)) (\<lambda>l. Inr (diff @ [l])) else Inr diff)"

definition average_loss :: "rat list \<Rightarrow> rat list \<Rightarrow> rat res" where
  "average_loss losses poes = bindE (pairwise_diff losses False) (\<lambda>d.
     if length d \<noteq> length (pairwise_mean poes) then Inl ValueError
     else Inr (- sum_list (map2 (*) d (pairwise_mean poes))))"

text \<open>Which of the four cases of the docstring holds.\<close>

lemma count_le_desc:
  assumes "sorted_wrt (\<ge>) poes" "p \<notin> set poes" "poes \<noteq> []" "p \<le> hd poes" "last poes \<le> p"
  shows "\<exists>i. Suc i < length poes \<and> poes ! Suc i < p \<and> p < poes ! i \<and> bisect_right (rev poes) p = length poes - Suc i"
proof -
  let ?a = "takeWhile (\<lambda>y. p < y) poes" and ?b = "dropWhile (\<lambda>y. p < y) poes"
  have split: "poes = ?a @ ?b" by simp
  have "hd poes \<noteq> p" "last poes \<noteq> p" using assms(2,3) by (metis hd_in_set, metis last_in_set)
  then have ends: "p < hd poes" "last poes < p" using assms(4,5) by simp_all
  have a: "?a \<noteq> []" using ends(1) assms(3) by (cases poes) auto
  have b: "?b \<noteq> []" using ends(2) assms(3) by (metis dropWhile_eq_Nil_conv last_in_set less_asym)
  have "\<not> p < hd ?b" using b by (rule hd_dropWhile)
  moreover have "hd ?b \<in> set poes" using b by (metis hd_in_set set_dropWhileD)
  ultimately have hb: "hd ?b < p" using assms(2) by (metis not_less_iff_gr_or_eq)
  have lb: "y < p" if "y \<in> set ?b" for y
  proof -
    have "sorted_wrt (\<ge>) ?b" using assms(1) split by (metis sorted_wrt_append)
    then have "y \<le> hd ?b" using that by (cases ?b) auto
    then show ?thesis using hb by simp
  qed
  have la: "p < y" if "y \<in> set ?a" for y using that by (rule set_takeWhileD [THEN conjunct2])
  have "takeWhile (\<lambda>y. y \<le> p) (rev poes) = rev ?b"
    by (subst split, simp only: rev_append, subst takeWhile_append2)
      (use lb la a in \<open>auto simp: less_imp_le takeWhile_eq_Nil_iff hd_rev not_le dest: last_in_set\<close>)
  then have k: "bisect_right (rev poes) p = length ?b" by (simp add: bisect_right_def)
  define i where "i = length ?a - 1"
  have i: "Suc i = length ?a" using a by (simp add: i_def)
  have len: "length poes = length ?a + length ?b" by (metis split length_append)
  have "(?a @ ?b) ! Suc i = ?b ! 0" by (simp only: nth_append i less_irrefl if_False diff_self_eq_0)
  then have "poes ! Suc i = hd ?b" by (simp only: split [symmetric] hd_conv_nth [OF b])
  moreover have "(?a @ ?b) ! i = ?a ! i" using i by (simp only: nth_append) simp
  then have "poes ! i = last ?a" by (simp only: split [symmetric] last_conv_nth [OF a] i_def)
  moreover have "p < last ?a" using la a by simp
  ultimately show ?thesis using hb k len i b by (intro exI [of _ i]) auto
qed


lemma slice_pair: "Suc i < length xs \<Longrightarrow> py_slice i (Suc (Suc i)) xs = [xs ! i, xs ! Suc i]"
  by (simp add: py_slice_def numeral_2_eq_2 take_Suc_conv_app_nth flip: Cons_nth_drop_Suc)

lemma conditional_between:
  assumes len: "length loss_ratios = length poes" "3 \<le> length poes"
    and mono: "sorted_wrt (\<ge>) poes" "sorted loss_ratios"
    and p: "p \<notin> set poes" "p \<le> hd poes" "last poes \<le> p"
  shows "\<exists>i y. Suc i < length poes \<and> poes ! Suc i < p \<and> p < poes ! i \<and>
    conditional_loss_ratio loss_ratios poes p = Inr (Some y) \<and> loss_ratios ! i \<le> y \<and> y \<le> loss_ratios ! Suc i \<and>
    y = loss_ratios ! i + (loss_ratios ! Suc i - loss_ratios ! i) / (poes ! Suc i - poes ! i) * (p - poes ! i)"
proof -
  have ne: "poes \<noteq> []" "loss_ratios \<noteq> []" using len by auto
  obtain i where i: "Suc i < length poes" "poes ! Suc i < p" "p < poes ! i"
    "bisect_right (rev poes) p = length poes - Suc i" using count_le_desc [OF mono(1) p(1) ne(1) p(2,3)] by blast
  define k where "k = length poes - Suc i"
  have k: "1 \<le> k" "k < length poes" "i = length poes - (k + 1)" "Suc (Suc i) = length poes - (k - 1)" "k = 1 \<Longrightarrow> i = length poes - 2"
    using i(1) by (simp_all add: k_def)
  let ?pair = "\<lambda>xs :: rat list. if k = 1 then py_slice (length xs - 2) (length xs) xs
       else py_slice (length xs - (k + 1)) (length xs - (k - 1)) xs"
  have pair: "?pair xs = [xs ! i, xs ! Suc i]" if "length xs = length poes" for xs
  proof -
    have "?pair xs = py_slice i (Suc (Suc i)) xs" using that k by (auto simp: Suc_diff_Suc numeral_2_eq_2)
    then show ?thesis using slice_pair [of i xs] i(1) that by simp
  qed
  define y where "y = (loss_ratios ! Suc i - loss_ratios ! i) / (poes ! Suc i - poes ! i) * (p - poes ! i) + loss_ratios ! i"
  have "py_index poes 0 = Inr (hd poes)" "py_index poes (- 1) = Inr (last poes)"
    using ne by (simp_all add: py_index_def norm_index_def hd_conv_nth last_conv_nth nat_diff_distrib' split: if_splits)
  then have "conditional_loss_ratio loss_ratios poes p = Inr (Some y)"
    using len p k(2) i(2,3) pair [of poes] pair [OF len(1)]
    by (simp add: conditional_loss_ratio_def Let_def i(4) k_def [symmetric] y_def not_less)
  moreover have "loss_ratios ! i \<le> loss_ratios ! Suc i" using mono(2) i(1) len(1) by (simp add: sorted_iff_nth_Suc)
  moreover have "loss_ratios ! i \<le> y \<and> y \<le> loss_ratios ! Suc i"
  proof -
    define t where "t = (p - poes ! i) / (poes ! Suc i - poes ! i)"
    have t: "0 \<le> t" "t \<le> 1" using i(2,3) by (simp_all add: t_def divide_nonpos_neg neg_divide_le_eq)
    have "y = loss_ratios ! i + t * (loss_ratios ! Suc i - loss_ratios ! i)" by (simp add: y_def t_def)
    moreover have "0 \<le> t * (loss_ratios ! Suc i - loss_ratios ! i)"
      "t * (loss_ratios ! Suc i - loss_ratios ! i) \<le> loss_ratios ! Suc i - loss_ratios ! i"
      using t \<open>loss_ratios ! i \<le> loss_ratios ! Suc i\<close> by (simp_all add: mult_left_le_one_le)
    ultimately show ?thesis by linarith
  qed
  ultimately show ?thesis using i(1-3) by (intro exI [of _ i] exI [of _ y]) (simp add: y_def)
qed

text \<open>A sum of differences of neighbours telescopes.\<close>

lemma pairwise_diff_sum: "sum_list (map (\<lambda>(x, y). x - y) (pairwise (x # xs))) = x - last (x # xs)" for x :: rat
  by (induction xs arbitrary: x) auto

lemma length_pairwise: "length (pairwise xs) = length xs - 1"
  by (induction xs rule: pairwise.induct) auto

end
