(* ===== verification/Spec2Isabelle.thy ===== *)
theory Spec2Isabelle
  imports Records Smlt Imt Upgrade JobDb OqValid Starmap Reinsurance Node_Xml Xml_Parser Xml_Writer Indices
    Composite Loss_Curves
begin

text \<open>
  A verification library for the logic of the OpenQuake engine: the sequences, containers and
  validators of its base libraries, and its logic trees from the source model to the realizations.

  Parts of the program and theories. Under src/openquake:
    \<^item> Py_Base, Py_Regex, Py_Float, Py_Show: what the code uses of Python. Exceptions are the left
      values of a sum, dictionaries are association lists in insertion order, a float is a rational
      in the value domain of the code (rounded where a literal or a division is), an infinity or NaN.
    \<^item> Seq_Blocks, Splitting (baselib/general.py):
      \<open>WeightedSequence\<close>, \<open>groupby\<close> and its relatives, \<open>block_splitter\<close>, \<open>split_in_slices\<close>,
      \<open>gen_slices\<close>, \<open>split_in_blocks\<close>. The locale \<open>splitter\<close> is what a user of a splitter relies on; it
      is interpreted on \<open>block_splitter\<close>, \<open>groupby\<close> and \<open>split_in_blocks\<close>.
    \<^item> Containers, Records, Utils (baselib/general.py): \<open>Cache\<close>, \<open>CallableDict\<close>, \<open>pack\<close>, \<open>AccumDict\<close>,
      \<open>DictArray\<close>, \<open>RecordBuilder\<close>, free ports, class trees, extensions, categories, aggregation. The
      locale \<open>store\<close> is the interface of a dictionary, interpreted on \<open>dict\<close>, \<open>Cache\<close> and \<open>AccumDict\<close>.
    \<^item> Imt (hazardlib/imt.py): intensity measure types, their constructors and their order.
    \<^item> Valid, Params (hazardlib/valid.py): the validators of strings, and \<open>ParamSet\<close>. The locale
      \<open>validator\<close> says that what is accepted is well-formed and that a rejection is a ValueError.
    \<^item> Lt, Lt_Build, Modify (hazardlib/lt.py, and \<open>modify\<close> in hazardlib/source/base.py and
      hazardlib/mfd): branches and branchsets as a tree and, while they are put together, as a heap
      of linked objects; enumeration, lookup, sampling; the composite logic tree; the dispatch of the
      uncertainties to the sources.
    \<^item> Gsim_Lt (hazardlib/gsim_lt.py): the GSIM logic tree with weights by intensity measure type.
    \<^item> Logictree, Full_Lt, Smlt (hazardlib/logictree.py): effective realizations; the source model
      logic tree, from the nodes of the file to its paths; the full logic tree, its realizations and
      the index under which the realizations of a group of sources are found.
    \<^item> Dbapi (commonlib/dbapi.py): the expansion of the SQL templates and the shape of the results.
    \<^item> Upgrade (server/db/upgrade_manager.py): the upgrade scripts, their order and their execution on a
      database with explicit transactions.
    \<^item> JobDb (server/db/actions.py): the tables of the job database and the operations of the server on
      them, as a step relation with an integrity invariant.
    \<^item> OqValid (commonlib/oqvalidation.py, \<open>get_risk_files\<close> of risklib/riskmodels.py): the checks on
      the parameters of a job.
    \<^item> Starmap (baselib/parallel.py): the master of the parallel tasks as a step relation on the messages
      of the workers, whose order of arrival is free; \<open>split_task\<close> and \<open>IterResult.reduce\<close>.
    \<^item> Reinsurance (risklib/reinsurance.py, \<open>insured_losses\<close> of risklib/scientific.py): the checks on the
      policies, the cessions by policy and their aggregation by event.
    \<^item> Nodes, Node_Xml, Xml_Parser, Xml_Writer (baselib/node.py): the nodes and their conversions to
      dictionaries and to elements, the program that \<open>node_to_elem\<close> generates as instructions on a
      heap of elements, the validating parser as a handler of events, the indented XML writer.
    \<^item> Indices (baselib/performance.py): runs and slices of equal integers, the splitting of arrays.
    \<^item> Source_Reader, Composite (hazardlib/source_reader.py): from the logic trees and the source models
      to the composite source model. A source has an abstract content, the digest of the content is a
      parameter, objects changed in place are returned in a new model at their position.
    \<^item> Loss_Curves (risklib/scientific.py): return periods, losses by return period and their builder, the
      loss ratio at a probability, average losses; amounts are exact rationals, the interpolation of
      numpy and the logarithm are parameters, NaN is None.
  How they interact: \<open>Smlt.parse_tree\<close> grows the heap of Lt_Build branchset by branchset and leaves a
  root that \<open>read_bset\<close> unfolds into a tree of Lt, whose paths become the realizations of the source
  model; \<open>Full_Lt.full_init\<close> combines those with the realizations of \<open>Gsim_Lt.gsim_iter\<close>; the
  indices of \<open>rlzs_by_gsim_dic\<close> are what the groups of sources carry in \<open>trt_smr\<close>; the values along a
  path are applied to the sources by \<open>Modify.apply_uncertainties\<close>.

  What the lemmas show: for each container its contents after every operation; for each validator its
  soundness and its only exception; for the trees that attaching branchsets keeps the heap
  well-formed, so that weights sum to one on every tree that can be read, that enumerations have the
  counted length, the numbering and the order that the code promises, that the fast count of the
  paths is the slow one, and that the indices are injective, decodable and aligned.
  The theorems below, each with an instance, state the main ones; some state what the code does where
  that is not what it means to do.

  Bounds and fuel: \<open>read_bset\<close> unfolds the links of the heap with as much fuel as there are
  branchsets, which is enough unless a link leads back (a linear tree of that many branchsets is
  read to the end, lemma \<open>chain_count\<close>); a branchset that names its own branch in \<open>applyToBranches\<close>
  makes a cycle, on which the enumeration of the code never ends and \<open>read_bset\<close> fails for every fuel.
  \<open>slices_loop\<close> and \<open>periods_from\<close> are partial functions and are shown to return. Weights are exact
  rationals: the rounding of the sums of weights is not modelled, nor is the tolerance with which they
  are compared.
  Integers of Python are unbounded; the conversions to 32-bit arrays are the identity in the ranges
  that the code asserts.

  Parameters: random numbers, files read, the values of uncertainties given by structured XML nodes,
  the construction of GSIM objects. Not modelled: ground motion models, geometry, magnitude
  distributions and probability maps (numeric array code), HDF5, XML and CSV input and output, the
  process pools, the web server and the command line.
\<close>

section \<open>The source model logic tree\<close>









section \<open>The full logic tree\<close>

definition two_gsims :: "lt_level list" where
  "two_gsims = [BranchSetNode \<lparr>ub_utype = ''gmpeModel'', ub_id = ''bs1'', ub_trt = Some ''Volcanic'',
     ub_branches = [\<lparr>um_weights = [(None, 2/5)], um_model = ''A''\<rparr>, \<lparr>um_weights = [(None, 3/5)], um_model = ''B''\<rparr>]\<rparr>]"

definition two_gsim_lt :: "string gsim_lt" where
  "two_gsim_lt = projr (gsim_lt_init Inr False [''Volcanic''] two_gsims)"

lemma two_gsim_lt_init: "gsim_lt_init Inr False [''Volcanic''] two_gsims = Inr two_gsim_lt"
  by code_simp

definition two_models :: "string realization list" where
  "two_models = [\<lparr>rz_value = ''a'', rz_weight = 1/3, rz_ordinal = 0, rz_lt_path = [''b1''], rz_samples = 1\<rparr>,
     \<lparr>rz_value = ''b'', rz_weight = 2/3, rz_ordinal = 1, rz_lt_path = [''b2''], rz_samples = 1\<rparr>]"

definition before_init :: "string full_lt" where
  "before_init = \<lparr>fl_num_samples = 0, fl_method = ''early_weights'', fl_fake = False, fl_source_id = [],
     fl_source_data = [], fl_gsim = two_gsim_lt, fl_sm_rlzs = [], fl_trti = [], fl_trts = []\<rparr>"

definition two_by_two :: "string full_lt" where
  "two_by_two = projr (full_init two_models before_init)"

lemma two_by_two_init: "full_init two_models before_init = Inr two_by_two"
  by code_simp

lemma two_by_two_gsim: "fl_gsim before_init = two_gsim_lt" "fl_num_samples before_init = 0" "\<not> fl_fake before_init"
  by (simp_all add: before_init_def)

definition four_rlzs :: "string lt_rlz list" where
  "four_rlzs = projr (get_realizations [] two_by_two)"

lemma four_rlzs_made: "get_realizations [] two_by_two = Inr four_rlzs"
  by code_simp

text \<open>C3: in full enumeration the realizations of the full logic tree are as many as \<open>get_num_paths\<close>
  says, numbered from zero, and their weights (last column) sum to one.\<close>

theorem full_realizations:
  assumes "gsim_lt_init valid_gsim oq regions ltnode = Inr lt" "regions \<noteq> []" "fl_gsim full0 = lt"
    "fl_num_samples full0 = 0" "full_init sm_lt full0 = Inr full" "get_realizations [] full = Inr rlzs"
  shows "length rlzs = full_num_paths full \<and> map lr_ordinal rlzs = [0..<full_num_paths full] \<and>
    sum_list (map (\<lambda>r. last (lr_weight r)) rlzs) = 1"
proof -
  have "gsim_ok (fl_gsim full0)" "gl_branches (fl_gsim full0) \<noteq> []"
    using gsim_lt_init_ok [OF assms(1)] assms(2,3) by auto
  then show ?thesis using full_enumeration [OF assms(5,4)] assms(6) by blast
qed

theorem full_realizations_witness:
  "length four_rlzs = 4 \<and> map lr_ordinal four_rlzs = [0..<4] \<and> sum_list (map (\<lambda>r. last (lr_weight r)) four_rlzs) = 1"
proof -
  have "full_num_paths two_by_two = 4" by code_simp
  then show ?thesis
    using full_realizations [OF two_gsim_lt_init _ two_by_two_gsim(1,2) two_by_two_init four_rlzs_made] by simp
qed

text \<open>C4: \<open>get_rlzs_by_gsim_dic\<close> partitions the realizations: under the index of a region and of a source
  model realization, a GSIM has exactly the ordinals of the realizations in the slice of that source
  model realization whose GSIM for the region it is.\<close>

theorem rlzs_partition:
  assumes "gsim_lt_init valid_gsim oq regions ltnode = Inr lt" "regions \<noteq> []" "fl_gsim full0 = lt"
    "fl_num_samples full0 = 0" "full_init sm_lt full0 = Inr full" "get_realizations [] full = Inr rlzs"
    "\<not> fl_fake full0" "map rz_ordinal sm_lt = [0..<length sm_lt]"
  shows "\<exists>dic. rlzs_by_gsim_dic full rlzs = Inr dic \<and> (\<forall>i t g. i < length sm_lt \<longrightarrow> t < length (gl_values lt) \<longrightarrow>
    map_of (rlzs_by_gsim_of dic (trt_smr t i)) g =
      (let rs = filter (\<lambda>r. gs_value (lr_gsim_rlz (rlzs ! r)) ! t = g)
         [i * gsim_num_paths lt..<Suc i * gsim_num_paths lt] in if rs = [] then None else Some rs))"
proof -
  have ok: "gsim_ok (fl_gsim full0)" "gl_branches (fl_gsim full0) \<noteq> []"
    using gsim_lt_init_ok [OF assms(1)] assms(2,3) by auto
  note e = full_enumeration [OF assms(5,4) ok assms(6)] and i = full_init_Inr [OF assms(5)]
  have sm: "fl_sm_rlzs full = map (rz_samples_update (\<lambda>_. gsim_num_paths lt)) sm_lt"
    using i(4) assms(3,4) by simp
  have n: "full_num_paths full = length sm_lt * gsim_num_paths lt"
    using i(1,2) assms(3,4) by (simp add: full_num_paths_def sm)
  have "\<exists>dic. rlzs_by_gsim_dic full rlzs = Inr dic \<and> (\<forall>i t g. i < length (fl_sm_rlzs full) \<longrightarrow>
    t < length (gl_values (fl_gsim full)) \<longrightarrow> map_of (rlzs_by_gsim_of dic (trt_smr t i)) g =
     (let rs = filter (\<lambda>r. gs_value (lr_gsim_rlz (rlzs ! r)) ! t = g)
        [smr_start (fl_sm_rlzs full) i..<smr_start (fl_sm_rlzs full) (Suc i)] in
      if rs = [] then None else Some rs))"
  proof (rule rlzs_by_gsim_dic_lookup)
    show "\<not> fl_fake full" using i(3) assms(7) by simp
    show "map rz_ordinal (fl_sm_rlzs full) = [0..<length (fl_sm_rlzs full)]"
      using assms(8) by (simp add: sm comp_def)
    show "int (length (fl_sm_rlzs full)) \<le> TWO24" by (rule i(5))
    show "map lr_ordinal rlzs = [0..<length rlzs]" by (simp only: e(1,2))
    show "smr_start (fl_sm_rlzs full) (length (fl_sm_rlzs full)) \<le> length rlzs"
      by (simp add: e(1) n) (simp add: sm enumerated_smr_start)
  qed (rule e(4))
  then obtain dic where dic: "rlzs_by_gsim_dic full rlzs = Inr dic"
    and lookup: "\<And>i t g. i < length (fl_sm_rlzs full) \<Longrightarrow> t < length (gl_values (fl_gsim full)) \<Longrightarrow>
      map_of (rlzs_by_gsim_of dic (trt_smr t i)) g = (let rs = filter (\<lambda>r. gs_value (lr_gsim_rlz (rlzs ! r)) ! t = g)
        [smr_start (fl_sm_rlzs full) i..<smr_start (fl_sm_rlzs full) (Suc i)] in if rs = [] then None else Some rs)"
    by blast
  have start: "smr_start (fl_sm_rlzs full) i = i * gsim_num_paths lt" if "i \<le> length sm_lt" for i
    using that by (simp only: sm enumerated_smr_start)
  have len: "length (fl_sm_rlzs full) = length sm_lt" "gl_values (fl_gsim full) = gl_values lt"
    by (simp add: sm) (simp add: i(1) assms(3))
  show ?thesis
  proof (intro exI conjI allI impI, rule dic)
    fix i t g assume "i < length sm_lt" "t < length (gl_values lt)"
    then show "map_of (rlzs_by_gsim_of dic (trt_smr t i)) g = (let rs = filter (\<lambda>r. gs_value (lr_gsim_rlz (rlzs ! r)) ! t = g)
         [i * gsim_num_paths lt..<Suc i * gsim_num_paths lt] in if rs = [] then None else Some rs)"
      using lookup [of i t g] start [of i] start [of "Suc i"] by (simp only: len)
  qed
qed

theorem rlzs_partition_witness:
  "\<exists>dic. rlzs_by_gsim_dic two_by_two four_rlzs = Inr dic \<and>
     map_of (rlzs_by_gsim_of dic (trt_smr 0 1)) ''B'' = Some [3]"
proof -
  have o: "map rz_ordinal two_models = [0..<length two_models]" "1 < length two_models"
    by (simp_all add: two_models_def upt_rec)
  have g: "0 < length (gl_values two_gsim_lt)" by code_simp
  have f: "filter (\<lambda>r. gs_value (lr_gsim_rlz (four_rlzs ! r)) ! 0 = ''B'')
      [1 * gsim_num_paths two_gsim_lt..<Suc 1 * gsim_num_paths two_gsim_lt] = [3]" by code_simp
  obtain dic where d: "rlzs_by_gsim_dic two_by_two four_rlzs = Inr dic" and
    "\<forall>i t g. i < length two_models \<longrightarrow> t < length (gl_values two_gsim_lt) \<longrightarrow>
    map_of (rlzs_by_gsim_of dic (trt_smr t i)) g =
      (let rs = filter (\<lambda>r. gs_value (lr_gsim_rlz (four_rlzs ! r)) ! t = g)
         [i * gsim_num_paths two_gsim_lt..<Suc i * gsim_num_paths two_gsim_lt] in if rs = [] then None else Some rs)"
    using rlzs_partition [OF two_gsim_lt_init _ two_by_two_gsim(1,2) two_by_two_init four_rlzs_made two_by_two_gsim(3) o(1)]
    by auto
  then have "map_of (rlzs_by_gsim_of dic (trt_smr 0 1)) ''B'' = Some [3]"
    using o(2) g f unfolding Let_def by fastforce
  then show ?thesis using d by blast
qed

text \<open>C5: the index \<open>trt_smr\<close> is a round trip: it gives back the position of the region and the ordinal
  of the source model realization, two pairs in range never share an index, \<open>trt_by\<close> finds the
  region, and \<open>trti\<close> its position.\<close>

theorem trt_smr_roundtrip:
  assumes "gsim_lt_init valid_gsim oq regions ltnode = Inr lt" "regions \<noteq> []" "fl_gsim full0 = lt"
    "full_init sm_lt full0 = Inr full" "i < length (fl_sm_rlzs full)" "t < length (fl_trts full)"
  shows "trt_by full (trt_smr t i) = Inr (fl_trts full ! t) \<and> map_of (fl_trti full) (fl_trts full ! t) = Some t \<and>
    trt_smr t i div TWO24 = int t \<and> trt_smr t i mod TWO24 = int i"
proof -
  note f = full_init_Inr [OF assms(4)]
  have lt24: "int i < TWO24" using f(5) assms(5) by simp
  note d = trt_smr_decode [OF lt24]
  have "distinct (fl_trts full)"
    using gsim_lt_init_ok [OF assms(1)] assms(3) by (simp add: f(6) gsim_ok_def dict_wf_def)
  then have "map_of (fl_trti full) (fl_trts full ! t) = Some t"
    using assms(6) by (simp add: f(7) map_of_eq_Some_iff comp_def case_prod_unfold)
      (rule image_eqI [of _ _ "(t, fl_trts full ! t)"], simp_all add: in_set_enumerate_eq)
  moreover have "trt_by full (trt_smr t i) = Inr (fl_trts full ! t)"
  proof (cases "length (fl_trts full) = 1")
    case True
    then have "py_index (fl_trts full) (int 0) = Inr (fl_trts full ! 0)" by (intro py_index_nonneg) simp
    then show ?thesis using True assms(6) by (simp add: trt_by_def)
  qed (use assms(6) d(1) in \<open>simp add: trt_by_def py_index_nonneg\<close>)
  ultimately show ?thesis using d by simp
qed

theorem trt_smr_roundtrip_witness:
  "trt_by two_by_two (trt_smr 0 1) = Inr ''Volcanic'' \<and> trt_smr 0 1 mod TWO24 = 1"
proof -
  have l: "1 < length (fl_sm_rlzs two_by_two)" "0 < length (fl_trts two_by_two)" by code_simp+
  have "fl_trts two_by_two ! 0 = ''Volcanic''" by code_simp
  then show ?thesis
    using trt_smr_roundtrip [OF two_gsim_lt_init _ two_by_two_gsim(1) two_by_two_init l] by simp
qed



text \<open>The effective realizations of a sample are numbered, have distinct paths, and keep the total
  weight and the number of samples.\<close>

lemma effective_realizations:
  "map rz_ordinal (get_effective_rlzs rlzs) = [0..<length (get_effective_rlzs rlzs)] \<and>
   map rz_pid (get_effective_rlzs rlzs) = sorted_list_of_set (rz_pid ` set rlzs) \<and>
   sum_list (map rz_weight (get_effective_rlzs rlzs)) = sum_list (map rz_weight rlzs) \<and>
   sum_list (map rz_samples (get_effective_rlzs rlzs)) = length rlzs"
  using get_effective_rlzs_facts by blast


section \<open>Logic trees\<close>

text \<open>C8: a tree put together by \<open>CompositeLogicTree\<close> from branchsets whose weights sum to one has,
  whatever the branchsets apply to, realizations whose weights sum to one.\<close>

theorem composite_weights:
  assumes "heap_ok h" "set bs \<subseteq> {..<length (lh_bsets h)}" "composite_init bs h = Inr (h', paths)"
    "b < length (lh_bsets h)" "read_bset n h' b = Some t" "enumerate_paths t = Inr rows"
  shows "sum_list (map fst rows) = 1"
proof -
  have "heap_ok h'" "b < length (lh_bsets h')"
    using composite_init_built [OF assms(3,1,2)] assms(4) by auto
  then have "proper t" using assms(5) by (rule read_bset_proper)
  with assms(6) show ?thesis
    by (auto simp: enumerate_paths_def bindE_Inr_iff comp_def dest: enum_paths_weight)
qed

definition two_sets :: "nat lt_heap" where
  "two_sets = build_heap [(''maxMagGRAbsolute'', FStr [], [(''A'', 0, 1/2), (''B'', 1, 1/2)]),
     (''bGRRelative'', FStr [], [(''C'', 2, 1/3), (''D'', 3, 2/3)])] []"

theorem composite_weights_witness:
  "sum_list (map fst (projr (enumerate_paths (the (read_bset 3 (fst (projr (composite_init [0, 1] two_sets))) 0))))) = 1"
proof (rule composite_weights [where h = two_sets and bs = "[0, 1]" and b = 0 and n = 3])
  show "heap_ok two_sets"
    by (simp add: two_sets_def build_heap_def build_step_def heap_ok_def bset_ok_def Let_def upt_rec)
  show "set [0, 1] \<subseteq> {..<length (lh_bsets two_sets)}" "0 < length (lh_bsets two_sets)"
    by (simp_all add: two_sets_def build_heap_def build_step_def Let_def)
  show "composite_init [0, 1] two_sets = Inr (fst (projr (composite_init [0, 1] two_sets)),
      snd (projr (composite_init [0, 1] two_sets)))"
    by code_simp
  show "read_bset 3 (fst (projr (composite_init [0, 1] two_sets))) 0
      = Some (the (read_bset 3 (fst (projr (composite_init [0, 1] two_sets))) 0))"
    by code_simp
  show "enumerate_paths (the (read_bset 3 (fst (projr (composite_init [0, 1] two_sets))) 0))
      = Inr (projr (enumerate_paths (the (read_bset 3 (fst (projr (composite_init [0, 1] two_sets))) 0))))"
    by code_simp
qed

text \<open>Along every path of a plain tree, \<open>get_bset_values\<close> gives back the values of the branches
  on the path.\<close>

lemma path_values:
  assumes "plain b" "enumerate_paths b = Inr rows" "(w, brs) \<in> set rows"
  shows "\<exists>pairs. get_bset_values b (map br_branch_id brs) = Inr pairs \<and> map snd pairs = map br_value brs"
proof -
  obtain ps p where "enum_paths b [] = Inr ps" "p \<in> set ps" "brs = rev p"
    using assms(2,3) by (auto simp: enumerate_paths_def bindE_Inr_iff)
  with get_bset_values_path [OF assms(1)] show ?thesis by fastforce
qed

definition one_set :: "nat bset" where
  "one_set = BSet ''maxMagGRAbsolute'' 0 [] False [Branch ''bs0'' ''b1'' (1/2) 7 ''A'' None, Branch ''bs0'' ''b2'' (1/2) 8 ''B'' None]"

lemma path_values_witness:
  "\<exists>pairs. get_bset_values one_set [''b2''] = Inr pairs \<and> map snd pairs = [8]"
proof -
  have p: "plain one_set" unfolding one_set_def by (rule plainI) auto
  have e: "enumerate_paths one_set = Inr [(1/2, [Branch ''bs0'' ''b1'' (1/2) 7 ''A'' None]),
      (1/2, [Branch ''bs0'' ''b2'' (1/2) 8 ''B'' None])]"
    by code_simp
  show ?thesis using path_values [OF p e, of "1/2" "[Branch ''bs0'' ''b2'' (1/2) 8 ''B'' None]"] by simp
qed



text \<open>C10: a change of the upper seismogenic depth by \<open>setUpperSeismDepthAbsolute\<close> fails for every
  source, since the keyword it passes is not the one that any \<open>modify\<close> method accepts.\<close>

theorem upper_depth_always_fails:
  "\<not> is_ok (apply_uncertainty ''setUpperSeismDepthAbsolute'' src (UNum v))"
  by (simp add: apply_uncertainty_def modify_upper_lsd u_float_def)

text \<open>C11: applying the uncertainties of a path without collapsed branchsets keeps the sources of a
  group one to one, with their classes, IDs and regions, and counts one change for each filter passed.\<close>

theorem apply_uncertainties_one_to_one:
  assumes "apply_uncertainties bvs sg = Inr sg'" "\<And>b v. (b, v) \<in> set bvs \<Longrightarrow> \<not> bs_collapsed b"
  shows "list_all2 same_source (sg_sources sg) (sg_sources sg') \<and>
    sg_changes sg' = sum_list (map (\<lambda>src. length (filter
       (\<lambda>(b, v). filter_source (bs_filters b) src = Inr True) bvs)) (sg_sources sg))"
  using apply_uncertainties_uncollapsed [OF assms(1)] assms(2) by blast

definition one_source :: source where
  "one_source = \<lparr>so_class = PointSource, so_source_id = ''1'', so_trt = ''Volcanic'', so_mfd = TruncatedGRMFD,
     so_scaling_rate = 1, so_log = []\<rparr>"

definition b_value :: "uval bset" where
  "b_value = BSet ''bGRRelative'' 1 [] False []"

theorem apply_uncertainties_one_to_one_witness:
  "\<exists>sg'. apply_uncertainties [(b_value, UNum (Fin (1/2)))] \<lparr>sg_sources = [one_source], sg_changes = 0\<rparr> = Inr sg' \<and>
     list_all2 same_source [one_source] (sg_sources sg') \<and> sg_changes sg' = 1"
proof -
  let ?sg = "\<lparr>sg_sources = [one_source], sg_changes = 0\<rparr>"
  let ?r = "apply_uncertainties [(b_value, UNum (Fin (1/2)))] ?sg"
  have ok: "?r = Inr (projr ?r)" by code_simp
  have f: "length (filter (\<lambda>(b, v). filter_source (bs_filters b) one_source = Inr True) [(b_value, UNum (Fin (1/2)))]) = 1"
    by (simp add: b_value_def)
  show ?thesis
    using apply_uncertainties_one_to_one [OF ok] ok f by (auto simp: b_value_def)
qed

text \<open>C12: a GSIM logic tree that the constructor accepts can be enumerated, has as many realizations
  as \<open>get_num_paths\<close> says, and the weights in the column of an intensity measure type sum to the
  product over the regions of the sums over their branches.\<close>

theorem gsim_enumeration:
  assumes "gsim_lt_init valid_gsim oq regions ltnode = Inr lt" "regions \<noteq> []"
  shows "\<exists>rlzs. gsim_iter lt = Inr rlzs \<and> length rlzs = gsim_num_paths lt \<and>
    (\<forall>imt j. map_of (imti lt) imt = Some j \<longrightarrow> sum_list (map (\<lambda>r. gs_weight r ! j) rlzs) =
       prod_list (map (\<lambda>t. sum_list (map (factor imt) (branches_of lt t))) (keys (gl_values lt))))"
proof -
  have ok: "gsim_ok lt" "gl_branches lt \<noteq> []" using gsim_lt_init_ok [OF assms(1)] assms(2) by auto
  then show ?thesis using gsim_iter_length gsim_iter_column by blast
qed

theorem gsim_enumeration_witness:
  "\<exists>rlzs. gsim_iter two_gsim_lt = Inr rlzs \<and> length rlzs = gsim_num_paths two_gsim_lt \<and>
     sum_list (map (\<lambda>r. gs_weight r ! 0) rlzs) = 1"
proof -
  note ok = two_gsim_lt_init
  have i: "map_of (imti two_gsim_lt) ''weight'' = Some 0" by code_simp
  have s: "prod_list (map (\<lambda>t. sum_list (map (factor ''weight'') (branches_of two_gsim_lt t)))
     (keys (gl_values two_gsim_lt))) = 1" by code_simp
  show ?thesis using gsim_enumeration [OF ok] i s by fastforce
qed

text \<open>With weights that do not depend on the intensity measure type, every realization that
  \<open>GsimLogicTree.__iter__\<close> yields has the ordinal 0: the loop over the weights reuses the loop variable
  of the enumeration.\<close>

lemma gsim_ordinals_zero:
  assumes "gsim_lt_init valid_gsim oq regions ltnode = Inr lt" "regions \<noteq> []"
    "\<forall>b \<in> set (gl_branches lt). keys (gb_weight b) = [''weight'']"
    "gsim_iter lt = Inr rlzs" "r \<in> set rlzs"
  shows "gs_ordinal r = 0"
  using gsim_lt_init_ok [OF assms(1)] assms gsim_iter_ordinals by blast

lemma gsim_ordinals_zero_witness:
  "map gs_ordinal (projr (gsim_iter two_gsim_lt)) = [0, 0]"
proof -
  note ok = two_gsim_lt_init
  have w: "\<forall>b \<in> set (gl_branches two_gsim_lt). keys (gb_weight b) = [''weight'']" by code_simp
  have e: "gsim_iter two_gsim_lt = Inr (projr (gsim_iter two_gsim_lt))" by code_simp
  have l: "length (projr (gsim_iter two_gsim_lt)) = 2" by code_simp
  have "gs_ordinal r = 0" if "r \<in> set (projr (gsim_iter two_gsim_lt))" for r
    using gsim_ordinals_zero [OF ok _ w e that] by simp
  then have "map gs_ordinal (projr (gsim_iter two_gsim_lt)) = replicate 2 0"
    using l by (metis map_replicate_const map_eq_conv)
  then show ?thesis by (simp add: numeral_2_eq_2)
qed

section \<open>The job database\<close>

text \<open>C13: the text of an SQL query depends on the values of the arguments only through their names, their
  number and which of them are None: other values of the same shape give the same query, so that no
  value given as \<open>?x\<close>, \<open>?X\<close>, \<open>?D\<close>, \<open>?A\<close> or \<open>?O\<close> can change what is executed.\<close>

theorem query_independent_of_values:
  assumes "match_templ m_templ args = Inr (q, xs)" "args = [] \<longleftrightarrow> args' = []"
    "agree_all (placeholders (strip_comments m_templ)) args args'"
  shows "\<exists>xs'. match_templ m_templ args' = Inr (q, xs')"
  using assms by (rule match_templ_agree)

theorem query_independent_of_values_witness:
  "\<exists>xs'. match_templ ''SELECT * FROM job WHERE id=?x AND ?A'' [Arg (VStr ''0 OR 1=1''), Dic [(''status'', VStr ''?x'')]] =
     Inr (''SELECT * FROM job WHERE id=? AND status=?'', xs')"
proof -
  have "match_templ ''SELECT * FROM job WHERE id=?x AND ?A'' [Arg (VInt 3), Dic [(''status'', VStr ''complete'')]] =
     Inr (''SELECT * FROM job WHERE id=? AND status=?'', [Arg (VInt 3), Arg (VStr ''complete'')])" by code_simp
  moreover have "agree_all (placeholders (strip_comments ''SELECT * FROM job WHERE id=?x AND ?A''))
     [Arg (VInt 3), Dic [(''status'', VStr ''complete'')]] [Arg (VStr ''0 OR 1=1''), Dic [(''status'', VStr ''?x'')]]" by code_simp
  ultimately show ?thesis by (intro query_independent_of_values) simp_all
qed

text \<open>An expanded template has one question mark for every argument that goes to the driver, when
  neither the template nor the names written into it have a question mark of their own.\<close>

lemma query_marks_arguments:
  assumes "replacer_match templ args = Inr (q, xs)" "literal_marks templ = 0"
    "\<And>p arg a. (p, arg) \<in> set (zip (placeholders templ) args) \<Longrightarrow> a \<in> set (arg_names p arg) \<Longrightarrow> CHR ''?'' \<notin> set a"
  shows "count_list q CHR ''?'' = length xs"
  using assms by (rule match_templ_marks)

lemma query_marks_arguments_witness:
  "count_list ''INSERT INTO job (id, value) VALUES (?, ?)'' CHR ''?'' = length [Arg (VInt 3), Arg (VInt 44)]"
proof (rule query_marks_arguments [of "''INSERT INTO ?s (?S) VALUES (?X)''"
      "[Arg (VStr ''job''), Args [VStr ''id'', VStr ''value''], Args [VInt 3, VInt 44]]"])
  show "replacer_match ''INSERT INTO ?s (?S) VALUES (?X)'' [Arg (VStr ''job''), Args [VStr ''id'', VStr ''value''], Args [VInt 3, VInt 44]] =
    Inr (''INSERT INTO job (id, value) VALUES (?, ?)'', [Arg (VInt 3), Arg (VInt 44)])" by code_simp
  show "literal_marks ''INSERT INTO ?s (?S) VALUES (?X)'' = 0" by code_simp
  have "placeholders ''INSERT INTO ?s (?S) VALUES (?X)'' = ''sSX''" by code_simp
  then show "CHR ''?'' \<notin> set a" if "(p, arg) \<in> set (zip (placeholders ''INSERT INTO ?s (?S) VALUES (?X)'')
      [Arg (VStr ''job''), Args [VStr ''id'', VStr ''value''], Args [VInt 3, VInt 44]])" "a \<in> set (arg_names p arg)" for p arg a
    using that by (auto simp: arg_names_def)
qed

text \<open>The start time of a request for calculations is not an argument of the query but part of its
  text, so that it can change what is executed.\<close>

lemma start_time_in_query:
  assumes "set t \<inter> set ''?{}'' = {}" "\<forall>c \<in> set t. \<not> line_break c"
  shows "\<exists>s1 s2. db_expand (calcs_templ (Some t) 100 False) [Dic [], Args []] =
    Inr (''SELECT * FROM job WHERE 1 AND 1 AND start_time >= '' @ s1 @ t @ s2)"
  by (intro exI) (rule calcs_query_verbatim [OF assms])

lemma start_time_in_query_witness:
  "\<exists>s1 s2. db_expand (calcs_templ (Some ([CHR 0x27] @ '' OR 1 --'')) 100 False) [Dic [], Args []] =
    Inr (''SELECT * FROM job WHERE 1 AND 1 AND start_time >= '' @ s1 @ ([CHR 0x27] @ '' OR 1 --'') @ s2)"
proof (rule start_time_in_query)
  show "\<forall>c \<in> set ([CHR 0x27] @ '' OR 1 --''). \<not> line_break c" by (rule line_break_const) code_simp
qed simp


definition two_jobs :: jobdb where
  "two_jobs = fst (projr (create_job ''2025'' ''/data'' ''event_based'' ''child'' ''bob'' (Some 1) None
     (fst (projr (create_job ''2024'' ''/data'' ''classical'' ''parent'' ''ann'' None None empty_db)))))"





text \<open>The calculations that are shared are listed for everybody, also when the request asks for other
  modes, states, times or identifiers: the last alternative of the query has no parentheses around it.\<close>

lemma shared_always_listed:
  assumes "get_calcs db request allowed acl i = Inr js" "map_of request ''limit'' = Some l" "py_int l = Inr n" "n < 0"
    "j \<in> set (jd_jobs db)" "jb_status j = ''shared''"
  shows "j \<in> set js"
  using assms by (rule get_calcs_shared)

definition shared_db :: jobdb where
  "shared_db = snd (projr (share_job 1 True (finish ''2026'' 1 ''complete'' two_jobs)))"

lemma shared_always_listed_witness:
  "hd (jd_jobs shared_db) \<in> set (projr (get_calcs shared_db [(''is_running'', ''true''), (''limit'', ''-1'')] [] True (Some 2)))"
proof (rule shared_always_listed)
  show "get_calcs shared_db [(''is_running'', ''true''), (''limit'', ''-1'')] [] True (Some 2) =
    Inr (projr (get_calcs shared_db [(''is_running'', ''true''), (''limit'', ''-1'')] [] True (Some 2)))" by code_simp
  show "py_int ''-1'' = Inr (- 1)" by code_simp
  show "hd (jd_jobs shared_db) \<in> set (jd_jobs shared_db)" "jb_status (hd (jd_jobs shared_db)) = ''shared''" by code_simp+
qed simp_all

section \<open>The upgrades of the database\<close>







section \<open>The parameters of a job\<close>

text \<open>C18: a disaggregation whose parameters are accepted has the same probabilities under both names, and
  either probabilities or intensities, not both.\<close>

theorem disaggregation_poes:
  assumes "check_hazard oq = Inr oq'" "oq_calculation_mode oq = ''disaggregation''"
  shows "oq_poes oq' = oq_poes_disagg oq' \<and> (oq_poes oq' \<noteq> []) \<noteq> (oq_iml_disagg oq' \<noteq> [])"
  using assms by (rule check_hazard_poes)

definition demo_oq :: oqparam where
  "demo_oq = \<lparr>oq_calculation_mode = ''disaggregation'', oq_inputs = [(''job_ini'', IFile ''job.ini''), (''gsim_logic_tree'', IFile ''g.xml'')],
     oq_hazard_imtls = [(''PGA'', [1/10])], oq_risk_imtls = [], oq_hc_id = None, oq_sites = Some [(0, 0, 0)], oq_region = None,
     oq_region_grid_spacing = None, oq_ground_motion_fields = True, oq_hazard_curves_from_gmfs = False, oq_hazard_maps = False,
     oq_uniform_hazard_spectra = False, oq_poes = [], oq_poes_disagg = [1/100], oq_iml_disagg = [],
     oq_disagg_bin_edges = [''mag''], oq_vars = [], oq_disagg_outputs = [''Mag''], oq_num_epsilon_bins = 3, oq_rlz_index = None,
     oq_num_rlzs_disagg = 1, oq_postproc_func = [], oq_minimum_intensity = [], oq_extreme_gmv = [],
     oq_minimum_magnitude = [(''Stable'', 5)], oq_maximum_distance = [(''Active'', 200), (''Stable'', 300)],
     oq_ps_grid_spacing = 0, oq_ses_per_logic_tree_path = 1, oq_number_of_logic_tree_samples = 0,
     oq_investigation_time = Some 50, oq_risk_investigation_time = None, oq_return_periods = [], oq_conditional_loss_poes = [],
     oq_truncation_level = Some 3, oq_correlation_model = None, oq_aggregate_by = [], oq_total_losses = None,
     oq_all_cost_types = None, oq_quantiles = [], oq_mean = True, oq_std = False, oq_max = False, oq_individual_rlzs = None,
     oq_collect_rlzs = None, oq_soil_intensities = None, oq_amplification_method = ''convolution'', oq_specific_assets = [],
     oq_use_rates = False, oq_sampling_method = ''early_weights'', oq_disagg_by_src = False, oq_concurrent_tasks = 0,
     oq_shakemap_uri = [], oq_shakemap_id = None, oq_minimum_engine_version = None, oq_risk_files = [],
     oq_trts = [''Active'', ''Volcanic''], oq_complex_fault_mesh_spacing = None, oq_rupture_mesh_spacing = Some 5,
     oq_intensity_measure_types = [], oq_has_imtls = False\<rparr>"

theorem disaggregation_poes_witness:
  "oq_poes (projr (check_hazard demo_oq)) = [1/100]"
proof -
  have "check_hazard demo_oq = Inr (projr (check_hazard demo_oq))" by code_simp
  moreover have "oq_poes_disagg (projr (check_hazard demo_oq)) = [1/100]" by code_simp
  moreover have "oq_calculation_mode demo_oq = ''disaggregation''" by code_simp
  ultimately show ?thesis using disaggregation_poes by metis
qed

text \<open>The check on the maximum distances lets a missing region pass as soon as there is a distance for a
  region that is only in the minimum magnitudes; the look-up of the missing region then fails.\<close>

lemma maximum_distance_gap_accepted:
  assumes "r \<in> set (keys (oq_maximum_distance oq))" "r \<notin> set (oq_trts oq)"
    "set (keys (oq_maximum_distance oq)) \<subseteq> set (oq_trts oq) \<union> set (keys (oq_minimum_magnitude oq))"
    "t \<in> set (oq_trts oq)" "t \<notin> set (keys (oq_maximum_distance oq))" "''default'' \<notin> set (keys (oq_maximum_distance oq))"
  shows "is_valid_maximum_distance oq \<and> getdefault (oq_maximum_distance oq) t = Inl KeyError"
  using maximum_distance_gap [OF assms(1-3)] getdefault_missing [OF assms(5,6)] by blast

lemma maximum_distance_gap_accepted_witness:
  "is_valid_maximum_distance demo_oq \<and> getdefault (oq_maximum_distance demo_oq) ''Volcanic'' = Inl KeyError"
  by (rule maximum_distance_gap_accepted [of "''Stable''"]) (simp_all add: demo_oq_def)

text \<open>The check for the risk-targeted ground motion asks for SA(1.0) only, although it is meant to ask
  for PGA and SA(0.2) as well.\<close>

lemma rtgm_check:
  assumes "contains (oq_postproc_func oq) ''rtgm''"
  shows "check_rtgm oq = Inr () \<longleftrightarrow> (\<exists>imtls. imtls_of oq = Inr imtls \<and> has_key imtls ''SA(1.0)'')"
  using assms by (rule check_rtgm_iff)

lemma rtgm_check_witness:
  "check_rtgm (demo_oq\<lparr>oq_postproc_func := ''compute_rtgm.main'', oq_hazard_imtls := [(''SA(1.0)'', [1])]\<rparr>) = Inr ()"
proof -
  let ?o = "demo_oq\<lparr>oq_postproc_func := ''compute_rtgm.main'', oq_hazard_imtls := [(''SA(1.0)'', [1])]\<rparr>"
  have "contains (oq_postproc_func ?o) ''rtgm''" by code_simp
  moreover have "imtls_of ?o = Inr [(''SA(1.0)'', [1])]" by code_simp
  ultimately show ?thesis using rtgm_check [of ?o] by simp
qed

text \<open>When the legacy names have been fixed none of them is left.\<close>

lemma legacy_names_fixed:
  assumes "fix_legacy_names d = Inr d'" "map_of aliases a \<noteq> None"
  shows "a \<notin> set (keys d')"
  using assms by (rule no_legacy_name)

lemma legacy_names_fixed_witness:
  "''mean_hazard_curves'' \<notin> set (keys [(''poes'', 1 :: int), (''mean'', 2)])"
proof (rule legacy_names_fixed)
  show "fix_legacy_names [(''mean_hazard_curves'', 2), (''poes'', 1 :: int)] = Inr [(''poes'', 1), (''mean'', 2)]" by code_simp
  show "map_of aliases ''mean_hazard_curves'' \<noteq> None" by code_simp
qed

section \<open>Parallel tasks\<close>

text \<open>C19: whatever the order in which the results of the workers arrive, the loop of the master goes on as
  long as a task is running, every message that it reads leaves less work to do, and the end, with no task
  left, can be reached. The tasks may yield, fail and spawn subtasks, and messages of other
  calculations may come in between.\<close>

theorem starmap_returns:
  assumes "list_all ok_job jobs" "0 < ct" "foreign_only calc foreign"
    "expected = 0 \<or> length (concat (map job_values jobs)) \<le> expected"
  shows "loop_step\<^sup>*\<^sup>* (started lazy slurm jobs (new_smap calc ct expected foreign)) s \<Longrightarrow>
    (sm_tasks s \<noteq> [] \<longrightarrow> (\<exists>s'. loop_step s s')) \<and> (\<forall>s'. loop_step s s' \<longrightarrow> in_flight s' < in_flight s) \<and>
    (\<exists>s'. loop_step\<^sup>*\<^sup>* s s' \<and> sm_tasks s' = [])"
proof -
  assume r: "loop_step\<^sup>*\<^sup>* (started lazy slurm jobs (new_smap calc ct expected foreign)) s"
  have ok: "master_ok s" "expected_ok s"
    using loop_reach [OF r started_facts(1) [OF assms(1-3)] started_expected [OF assms]] by simp_all
  then have "sm_only s = None" by (simp add: master_ok_def core_ok_def)
  then show ?thesis using loop_progress [OF ok] loop_finishes [OF ok] loop_step_facts(2) by blast
qed

theorem starmap_returns_witness:
  "\<exists>s'. loop_step\<^sup>*\<^sup>* (started False False [Gen [Val (1 :: int), Sub (Ret (Val 2))] (Some KeyError), Raise ValueError]
     (new_smap 7 1 0 [(9, 0, [MVal 5])])) s' \<and> sm_tasks s' = []"
proof -
  let ?jobs = "[Gen [Val (1 :: int), Sub (Ret (Val 2))] (Some KeyError), Raise ValueError]" and ?foreign = "[(9 :: int, 0 :: nat, [MVal (5 :: int)])]"
  have "list_all ok_job ?jobs" by simp
  moreover have "foreign_only 7 ?foreign" by (simp add: foreign_only_def)
  ultimately show ?thesis
    using starmap_returns [of ?jobs 1 7 ?foreign 0 False False "started False False ?jobs (new_smap 7 1 0 ?foreign)"]
    by (elim meta_impE conjE) simp_all
qed

text \<open>C20: when the loop of the master ends, every value of every task and subtask has been delivered
  exactly once, the errors included, nothing else has been, and no task is left in the queue.\<close>

theorem starmap_delivers_once:
  assumes "list_all ok_job jobs" "0 < ct" "foreign_only calc foreign"
    "expected = 0 \<or> length (concat (map job_values jobs)) \<le> expected"
    "loop_step\<^sup>*\<^sup>* (started lazy slurm jobs (new_smap calc ct expected foreign)) s" "sm_tasks s = []"
  shows "sm_queue s = [] \<and> mset (sm_results s) = mset (concat (map job_values jobs))"
  using starmap_complete [OF assms] by blast

theorem starmap_delivers_once_witness:
  "\<exists>s. run_loop [0, 0, 1, 1, 0, 2, 2] (started False False [Gen [Val (1 :: int), Sub (Ret (Val 2))] None, Ret (Val 3)]
     (new_smap 7 2 0 [])) = Some (Inr s) \<and> sm_results s = [Inr 1, Inr 3, Inr 2] \<and> mset (sm_results s) = mset [Inr 1, Inr 2, Inr 3]"
proof -
  let ?jobs = "[Gen [Val (1 :: int), Sub (Ret (Val 2))] None, Ret (Val 3)]"
  let ?s = "\<lparr>sm_calc = 7, sm_ct = 2, sm_expected = 0, sm_only = None, sm_queue = [], sm_tasks = [], sm_task_no = 3,
    sm_finished = [2, 0, 1], sm_n_out = 3, sm_results = [Inr 1, Inr 3, Inr 2], sm_streams = [(7, 0, []), (7, 1, []), (7, 2, [])]\<rparr>"
  have r: "run_loop [0, 0, 1, 1, 0, 2, 2] (started False False ?jobs (new_smap 7 2 0 [])) = Some (Inr ?s)" by code_simp
  have "mset (sm_results ?s) = mset (concat (map job_values ?jobs))"
    using starmap_delivers_once [OF _ _ _ _ run_loop_steps [OF r]] by (simp add: foreign_only_def)
  then show ?thesis using r by (intro exI [of _ ?s]) simp
qed

text \<open>C21: a sum over items done in parallel is the sequential sum. The items are split in blocks by weight, a
  slow task splits itself again into subtasks, and the results are added in the order of their arrival.\<close>

theorem parallel_sum_sequential:
  fixes g :: "'a \<Rightarrow> 'r::comm_monoid_add"
  assumes "split_items hint weight key xs = Inr blocks" "\<And>x. weight x \<le> 0 \<Longrightarrow> g x = 0" "0 < outs" "0 < ct" "foreign_only calc foreign"
    "loop_step\<^sup>*\<^sup>* (started lazy slurm (apply_split (\<lambda>els. sum_list (map g els)) slow outs blocks) (new_smap calc ct 0 foreign)) s"
    "sm_tasks s = []"
  shows "iter_reduce (+) 0 (sm_results s) = Inr (sum_list (map g xs))"
  using assms by (rule parallel_sum)

theorem parallel_sum_sequential_witness:
  "\<exists>bs s. split_items 2 (\<lambda>x. 1) (None :: (int \<Rightarrow> nat) option) [1, 2, 3, 4] = Inr bs \<and>
     run_loop [0, 0, 1, 1, 1, 0, 2, 2] (started False False (apply_split sum_list (\<lambda>b. if b = [1, 2] then Some 0 else None) 2 bs) (new_smap 7 2 0 [])) = Some (Inr s) \<and>
     iter_reduce (+) 0 (sm_results s) = Inr 10"
proof -
  let ?bs = "[[1, 2], [3, 4 :: int]]"
  let ?jobs = "apply_split sum_list (\<lambda>b. if b = [1, 2] then Some 0 else None) 2 ?bs"
  have b: "split_items 2 (\<lambda>x. 1) (None :: (int \<Rightarrow> nat) option) [1, 2, 3, 4] = Inr ?bs" by code_simp
  let ?s = "\<lparr>sm_calc = 7, sm_ct = 2, sm_expected = 0, sm_only = None, sm_queue = [], sm_tasks = [], sm_task_no = 3,
    sm_finished = [2, 0, 1], sm_n_out = 4, sm_results = [Inr 1, Inr 3, Inr 4, Inr 2], sm_streams = [(7, 0, []), (7, 1, []), (7, 2, [])]\<rparr>"
  have r: "run_loop [0, 0, 1, 1, 1, 0, 2, 2] (started False False ?jobs (new_smap 7 2 0 [])) = Some (Inr ?s)" by code_simp
  have "iter_reduce (+) 0 (sm_results ?s) = Inr (sum_list (map (\<lambda>x. x) [1, 2, 3, 4 :: int]))"
    by (rule parallel_sum_sequential [OF b, where outs = 2 and ct = 2 and calc = 7 and foreign = "[]"])
      (use run_loop_steps [OF r] in \<open>simp_all add: foreign_only_def\<close>)
  then show ?thesis using b r by (intro exI [of _ ?bs] exI [of _ ?s]) simp
qed

section \<open>Reinsurance\<close>

text \<open>A proportional treaty with a maximal cession and a catastrophe treaty.\<close>

definition two_treaties :: "treaty list" where
  "two_treaties = [\<lparr>tr_id = ''qs'', tr_type = Prop, tr_deductible = 0, tr_limit = 5000, tr_code = CHR ''A''\<rparr>,
     \<lparr>tr_id = ''cat'', tr_type = Catxl, tr_deductible = 50000, tr_limit = 90000, tr_code = CHR ''B''\<rparr>]"

text \<open>C22: what is ceded to the treaties and what is retained add up to the claim. The claims of a policy,
  shared among its proportional and excess-of-loss treaties, are balanced up to the rounding to six
  decimals of each share.\<close>

theorem cessions_balanced:
  assumes "claim_to_cessions claim policy ts = Inr out" "distinct (ceding_ids ts)"
    "{''retention'', ''claim''} \<inter> set (ceding_ids ts) = {}"
  shows "keys out = ''retention'' # ''claim'' # ceding_ids ts \<and>
    (\<forall>i < length claim. \<bar>sum_list (map (\<lambda>(k, v). v ! i) (filter (\<lambda>(k, v). k \<noteq> ''claim'') out)) - claim ! i\<bar> \<le>
      of_nat (1 + length (ceding_ids ts)) / 2000000)"
  by (intro conjI allI impI claim_to_cessions_balanced [OF assms])

theorem cessions_balanced_witness:
  "\<exists>out. claim_to_cessions [1000, 31] [(''qs'', 1/3), (''xl'', 1)] [\<lparr>tr_id = ''qs'', tr_type = Prop, tr_deductible = 0, tr_limit = 500, tr_code = CHR ''A''\<rparr>,
      \<lparr>tr_id = ''xl'', tr_type = Wxlr, tr_deductible = 100, tr_limit = 300, tr_code = CHR ''B''\<rparr>] = Inr out \<and>
    map_of out ''xl'' = Some [200, 0] \<and> map_of out ''retention'' = Some [466666667/1000000, 20666667/1000000] \<and>
    \<bar>sum_list (map (\<lambda>(k, v). v ! 0) (filter (\<lambda>(k, v). k \<noteq> ''claim'') out)) - 1000\<bar> \<le> 3/2000000"
proof -
  let ?ts = "[\<lparr>tr_id = ''qs'', tr_type = Prop, tr_deductible = 0, tr_limit = 500, tr_code = CHR ''A''\<rparr>,
      \<lparr>tr_id = ''xl'', tr_type = Wxlr, tr_deductible = 100, tr_limit = 300, tr_code = CHR ''B''\<rparr>]"
  let ?out = "[(''retention'', [466666667/1000000, 20666667/1000000]), (''claim'', [1000, 31]),
    (''qs'', [333333333/1000000, 10333333/1000000]), (''xl'', [200, 0])] :: (string, rat list) dict"
  have o: "claim_to_cessions [1000, 31] [(''qs'', 1/3), (''xl'', 1)] ?ts = Inr ?out" by code_simp
  have "ceding_ids ?ts = [''qs'', ''xl'']" by (simp add: ceding_ids_def)
  then have "\<bar>sum_list (map (\<lambda>(k, v). v ! 0) (filter (\<lambda>(k, v). k \<noteq> ''claim'') ?out)) - [1000, 31] ! 0\<bar> \<le> 3/2000000"
    using cessions_balanced [OF o] by (elim meta_impE conjE) (auto simp: numeral_eq_Suc)
  then show ?thesis using o by (intro exI [of _ ?out]) simp
qed

text \<open>C23: the tables of the policies that pass the checks of \<open>check_fields\<close> have one row for each policy,
  every policy of the exposure among them, the treaties in the order of their types, deductibles and
  liabilities that are not negative, flags that are zero or one for the treaties that are not
  proportional, and for each policy fractions of the proportional treaties that sum to at most one.\<close>

theorem policies_checked:
  assumes "check_fields policyidx df treaties = Inr idx"
  shows "distinct (po_policy df) \<and> set (tl (keys policyidx)) \<subseteq> set (po_policy df) \<and> sorted (map (type_index \<circ> snd) treaties) \<and>
    (\<forall>row \<in> set (po_rows df). (\<exists>d l. cell ''deductible'' row = Some d \<and> 0 \<le> d \<and> cell ''liability'' row = Some l \<and> 0 \<le> l) \<and>
      (\<exists>q. opt_sum (map (\<lambda>t. cell t row) (map fst (filter (\<lambda>(t, ty). ty = Prop) treaties))) = Some q \<and> q \<le> 1) \<and>
      (\<forall>(t, ty) \<in> set treaties. ty \<noteq> Prop \<longrightarrow> cell t row \<in> {Some 0, Some 1}))"
proof (intro conjI ballI)
  note ok = check_fields_ok [OF assms]
  show "distinct (po_policy df)" "set (tl (keys policyidx)) \<subseteq> set (po_policy df)" "sorted (map (type_index \<circ> snd) treaties)"
    by (fact ok)+
  fix row assume r: "row \<in> set (po_rows df)"
  show "\<exists>d l. cell ''deductible'' row = Some d \<and> 0 \<le> d \<and> cell ''liability'' row = Some l \<and> 0 \<le> l" using ok(5) [OF r] by auto
  show "\<exists>q. opt_sum (map (\<lambda>t. cell t row) (map fst (filter (\<lambda>(t, ty). ty = Prop) treaties))) = Some q \<and> q \<le> 1" by (rule ok(6) [OF r])
  fix tt assume "tt \<in> set treaties"
  moreover obtain t ty where "tt = (t, ty)" by fastforce
  ultimately show "case tt of (t, ty) \<Rightarrow> ty \<noteq> Prop \<longrightarrow> cell t row \<in> {Some 0, Some 1}" using ok(7) [OF _ _ r, of t ty] by simp
qed

theorem policies_checked_witness:
  "check_fields [(''?'', 0), (''P1'', 1)] \<lparr>po_columns = [''policy'', ''deductible'', ''liability'', ''qs'', ''xl''], po_policy = [''P1''],
     po_rows = [[(''deductible'', Some 10), (''liability'', Some 99), (''qs'', Some (1/4)), (''xl'', Some 1)]]\<rparr> [(''qs'', Prop), (''xl'', Wxlr)] = Inr [1] \<and>
   sorted (map (type_index \<circ> snd) [(''qs'', Prop), (''xl'', Wxlr)])"
proof -
  have c: "check_fields [(''?'', 0), (''P1'', 1)] \<lparr>po_columns = [''policy'', ''deductible'', ''liability'', ''qs'', ''xl''], po_policy = [''P1''],
     po_rows = [[(''deductible'', Some 10), (''liability'', Some 99), (''qs'', Some (1/4)), (''xl'', Some 1)]]\<rparr> [(''qs'', Prop), (''xl'', Wxlr)] = Inr [1]"
    by code_simp
  then show ?thesis using policies_checked [OF c] by blast
qed

text \<open>C24: from the treaties of the model file and the losses of all policies to the losses by event: the
  aggregation succeeds, gives one row for each event, and in each row the retention and the cessions
  of all treaties add up to the claim, which is the sum of the claims of the policies for the event.\<close>

theorem event_losses_balanced:
  assumes "read_fields nodes = Inr (fieldmap, l)" "check_fields policyidx df (map (\<lambda>(t, ty, d, li). (t, ty)) l) = Inr idx"
    "make_treaties l = Inr ts" "distinct (ceding_ids ts)" "{''retention'', ''claim''} \<inter> set (ceding_ids ts) = {}"
    "reins_by_policy max_rows rbe pols ts loss_id = Inr (Some rbp)" "rbp \<noteq> []"
  shows "\<exists>rows over. by_event rbp ts = Inr (rows, over) \<and> map fst rows = sorted_list_of_set (set (map rr_event rbp)) \<and>
    (\<forall>(e, row) \<in> set rows. length row = 2 + length ts \<and> row ! 0 + sum_list (drop 2 row) = row ! 1 \<and>
      row ! 1 = sum_list (map row_claim (filter (\<lambda>r. rr_event r = e) rbp)))"
proof (rule by_event_ok)
  show "list_all (valid_row ts) rbp" by (rule reins_by_policy_valid [OF assms(6,4,5)])
  have "sorted (map (type_index \<circ> snd) (map (\<lambda>(t, ty, d, li). (t, ty)) l))" by (rule check_fields_ok(3) [OF assms(2)])
  then show "valid_treaties ts" by (intro make_treaties_valid [OF assms(3)]) (simp add: comp_def case_prod_unfold)
qed (fact assms(7))

text \<open>The limit of a treaty is applied to each group of policies with the same treaties, not to the event:
  here two policies, of which only one has the catastrophe treaty, cede for the same event twice
  the maximal cession of the proportional treaty, and the overspill of one of the groups is forgotten.\<close>

lemma event_limit_exceeded:
  "\<exists>rbp row. reins_by_policy 100 [(1, 0, 0, 20000), (1, 1, 0, 30000)]
      [(1, [(''deductible'', 0), (''liability'', 99000), (''qs'', 1/2), (''cat'', 1)]),
       (2, [(''deductible'', 0), (''liability'', 99000), (''qs'', 1/2), (''cat'', 0)])] two_treaties 0 = Inr (Some rbp) \<and>
    by_event rbp two_treaties = Inr ([(1, row)], [(CHR ''A'', [5000])]) \<and> tr_limit (two_treaties ! 0) = 5000 \<and> row ! 2 = 10000"
proof -
  let ?row = "\<lambda>p r g. \<lparr>rr_event = 1, rr_policy = p, rr_values = [(''retention'', r), (''claim'', 2 * r), (''qs'', r)], rr_grp = g\<rparr>"
  have "reins_by_policy 100 [(1, 0, 0, 20000), (1, 1, 0, 30000)]
      [(1, [(''deductible'', 0), (''liability'', 99000), (''qs'', 1/2), (''cat'', 1)]),
       (2, [(''deductible'', 0), (''liability'', 99000), (''qs'', 1/2), (''cat'', 0)])] two_treaties 0 =
     Inr (Some [?row 1 10000 ''AB'', ?row 2 15000 ''A.''])" by code_simp
  moreover have "by_event [?row 1 10000 ''AB'', ?row 2 15000 ''A.''] two_treaties =
    Inr ([(1, [40000, 50000, 10000, 0])], [(CHR ''A'', [5000])])" by code_simp
  moreover have "tr_limit (two_treaties ! 0) = 5000" by code_simp
  ultimately show ?thesis
    by (intro exI [of _ "[?row 1 10000 ''AB'', ?row 2 15000 ''A.'']"] exI [of _ "[40000, 50000, 10000, 0]"]) simp
qed
theorem event_losses_balanced_witness:
  "\<exists>rbp over. reins_by_policy 100 [(1, 0, 0, 20000), (2, 0, 0, 600)] [(1, [(''deductible'', 100), (''liability'', 9000), (''qs'', 1/2)])]
     [\<lparr>tr_id = ''qs'', tr_type = Prop, tr_deductible = 0, tr_limit = 4000, tr_code = CHR ''A''\<rparr>] 0 = Inr (Some rbp) \<and>
   by_event rbp [\<lparr>tr_id = ''qs'', tr_type = Prop, tr_deductible = 0, tr_limit = 4000, tr_code = CHR ''A''\<rparr>] =
     Inr ([(1, [4900, 8900, 4000]), (2, [250, 500, 250])], over) \<and> 4900 + sum_list [4000] = (8900 :: rat)"
proof -
  let ?ts = "[\<lparr>tr_id = ''qs'', tr_type = Prop, tr_deductible = 0, tr_limit = 4000, tr_code = CHR ''A''\<rparr>]"
  let ?nodes = "[\<lparr>fn_oq = Some ''policy'', fn_input = ''Policy'', fn_type = None, fn_max_cession = None, fn_limit = None, fn_deductible = None\<rparr>,
    \<lparr>fn_oq = None, fn_input = ''qs'', fn_type = None, fn_max_cession = Some 4000, fn_limit = None, fn_deductible = None\<rparr>]"
  let ?df = "\<lparr>po_columns = [''policy'', ''deductible'', ''liability'', ''qs''], po_policy = [''P1''],
     po_rows = [[(''deductible'', Some 100), (''liability'', Some 9000), (''qs'', Some (1/2))]]\<rparr>"
  let ?row = "\<lambda>e r. \<lparr>rr_event = e, rr_policy = 1, rr_values = [(''retention'', r), (''claim'', 2 * r), (''qs'', r)], rr_grp = ''A''\<rparr>"
  let ?pols = "[(1, [(''deductible'', 100), (''liability'', 9000), (''qs'', 1/2)])]"
  let ?l = "[(''qs'', Prop, 0, 4000)]"
  have n: "read_fields ?nodes = Inr ([(''Policy'', ''policy'')], ?l)" by code_simp
  have c: "check_fields [(''?'', 0), (''P1'', 1)] ?df (map (\<lambda>(t, ty, d, li). (t, ty)) ?l) = Inr [1]" by code_simp
  have m: "make_treaties ?l = Inr ?ts" by code_simp
  have r: "reins_by_policy 100 [(1, 0, 0, 20000), (2, 0, 0, 600)] ?pols ?ts 0 = Inr (Some [?row 1 4450, ?row 2 250])" by code_simp
  have b: "by_event [?row 1 4450, ?row 2 250] ?ts = Inr ([(1, [4900, 8900, 4000]), (2, [250, 500, 250])], [(CHR ''A'', [450, 0])])" by code_simp
  have ids: "ceding_ids ?ts = [''qs'']" by (simp add: ceding_ids_def)
  have "\<exists>rows over. by_event [?row 1 4450, ?row 2 250] ?ts = Inr (rows, over) \<and>
      (\<forall>(e, row) \<in> set rows. row ! 0 + sum_list (drop 2 row) = row ! 1)"
    using event_losses_balanced [OF n c m _ _ r] by (fastforce simp: ids)
  then have "4900 + sum_list [4000] = (8900 :: rat)" unfolding b by auto
  then show ?thesis using r b by blast
qed

section \<open>Nodes and XML\<close>

text \<open>C25: a node converted to a dictionary comes back as it was, when it has no namespaces and line
  numbers, its attributes are sorted, its text is not blank and not a list, and its subnodes have one
  tag that is not taken for a text or an attribute.\<close>

theorem node_dict_roundtrip:
  assumes "flat_node n"
  shows "\<exists>v. node_to_dict n = Inr (ODict [(nd_tag n, v)]) \<and> node_from_dict (ODict [(nd_tag n, v)]) = Inr n"
  using flat_item [OF assms] by (auto simp: node_to_dict_def node_from_dict_def)

theorem node_dict_roundtrip_witness:
  "\<exists>v. node_to_dict (Node ''r'' [(''id'', OStr ''x'')] ONone [Node ''a'' [] (OStr ''1'') [] None, Node ''a'' [(''k'', OInt 2)] (OStr ''3'') [] None] None) =
     Inr (ODict [(''r'', v)]) \<and>
   node_from_dict (ODict [(''r'', v)]) =
     Inr (Node ''r'' [(''id'', OStr ''x'')] ONone [Node ''a'' [] (OStr ''1'') [] None, Node ''a'' [(''k'', OInt 2)] (OStr ''3'') [] None] None)"
proof -
  let ?n = "Node ''r'' [(''id'', OStr ''x'')] ONone [Node ''a'' [] (OStr ''1'') [] None, Node ''a'' [(''k'', OInt 2)] (OStr ''3'') [] None] None"
  have "flat_node ?n" by code_simp
  from node_dict_roundtrip [OF this] show ?thesis by simp
qed

text \<open>Subnodes with one tag that do not follow each other are lost in the dictionary, but for the last
  ones.\<close>

lemma dict_loses_nodes:
  "node_to_dict (Node ''r'' [] ONone [Node ''a'' [] (OInt 1) [] None, Node ''b'' [] (OInt 2) [] None, Node ''a'' [] (OInt 3) [] None] None) =
     Inr (ODict [(''r'', ODict [(''a'', OInt 3), (''b'', OInt 2)])])"
  by code_simp



text \<open>C27: on the events of a document the validating parser returns the tree of the document, with its
  texts and attributes validated from the leaves to the root, or the error of the first validation
  that fails; with a tag where to stop it returns the tree of the document cut at the first element with
  that tag. It does not matter how the characters of a text are split into events.\<close>

theorem parser_refines_tree:
  "parse_events vals stop (events (Elt nm attrs line ds)) =
     bindE (doc_node vals (fst (cut_doc stop (Elt nm attrs line ds)))) (\<lambda>ns. Inr (Some (hd ns))) \<and>
   parse_events vals None (events (Elt nm attrs line (ds1 @ [Txt (s @ t)] @ ds2))) =
     parse_events vals None (events (Elt nm attrs line (ds1 @ [Txt s, Txt t] @ ds2)))"
proof
  show "parse_events vals stop (events (Elt nm attrs line ds)) =
     bindE (doc_node vals (fst (cut_doc stop (Elt nm attrs line ds)))) (\<lambda>ns. Inr (Some (hd ns)))" by (rule parse_document)
  show "parse_events vals None (events (Elt nm attrs line (ds1 @ [Txt (s @ t)] @ ds2))) =
     parse_events vals None (events (Elt nm attrs line (ds1 @ [Txt s, Txt t] @ ds2)))"
    unfolding parse_document cut_None(1) fst_conv chunks_do_not_matter ..
qed


text \<open>The values of attributes are written between quotes and without markup, but the text of a leaf is
  written as it is, markup included.\<close>

lemma text_not_escaped:
  "to_xml_string (Node ''a'' [(''x'', OStr ''1<2'')] (OStr ''1<2'') [] None) 4 None =
     Inr (''<a'' @ [CHR 10] @ ''x='' @ [CHR 34] @ ''1&lt;2'' @ [CHR 34] @ [CHR 10] @ ''>'' @ [CHR 10] @ ''    1<2'' @ [CHR 10] @ ''</a>'' @ [CHR 10])"
  by code_simp

section \<open>Indices\<close>

text \<open>C29: splitting an array on indices in any order, with their counts, is a stable distribution: it
  succeeds and gives for each index the values with that index in their order. On sorted indices the
  version without counts gives the same for the indices that occur.\<close>

theorem split_array_stable:
  assumes "length indices = length arr" "list_all (\<lambda>i. i < K) indices" "K \<le> length arr"
  shows "split_array arr indices (Some (counts_of indices K)) zero = Inr (map (values_at indices arr) [0..<K]) \<and>
    (sorted indices \<longrightarrow> arr \<noteq> [] \<longrightarrow>
       split_array arr indices None zero = Inr (map (values_at indices arr) (sorted_list_of_set (set indices))))"
proof (intro conjI impI)
  show "split_array arr indices (Some (counts_of indices K)) zero = Inr (map (values_at indices arr) [0..<K])"
    by (rule split_array_counts [OF assms])
  assume "sorted indices" "arr \<noteq> []"
  then obtain ls where "split_array arr indices None zero = Inr ls"
    using assms(1) by (cases indices) (auto simp: split_array_def idx_start_stop_def)
  then show "split_array arr indices None zero = Inr (map (values_at indices arr) (sorted_list_of_set (set indices)))"
    using split_array_runs(1) [OF _ assms(1) \<open>sorted indices\<close>] by simp
qed

theorem split_array_stable_witness:
  "split_array [10, 20, 30, 40 :: int] [1, 0, 1, 0] (Some [2, 2]) 0 = Inr [[20, 40], [10, 30]]"
proof -
  have "counts_of [1, 0, 1, 0] 2 = [2, 2]" by (simp add: counts_of_def upt_rec numeral_2_eq_2)
  moreover have "map (values_at [1, 0, 1, 0] [10, 20, 30, 40 :: int]) [0..<2] = [[20, 40], [10, 30]]"
    by (simp add: values_at_def upt_rec numeral_2_eq_2)
  ultimately show ?thesis using split_array_stable [of "[1, 0, 1, 0]" "[10, 20, 30, 40 :: int]" 2 0] by simp
qed

text \<open>The slices of an integer in an array are exactly the positions where it is, in their order, and
  every integer of the array has some.\<close>

lemma slices_are_positions:
  assumes "get_slices xs = Inr d"
  shows "concat (map (\<lambda>(s, t). [s..<t]) (case map_of d w of None \<Rightarrow> [] | Some ss \<Rightarrow> ss)) = filter (\<lambda>j. xs ! j = w) [0..<length xs] \<and>
    (has_key d w \<longleftrightarrow> w \<in> set xs)"
  using get_slices_positions [OF assms] by blast

lemma slices_are_positions_witness:
  "get_slices [0, 0, 3, 3, 3, 2, 2, 0 :: int] = Inr [(0, [(0, 2), (7, 8)]), (3, [(2, 5)]), (2, [(5, 7)])] \<and>
   filter (\<lambda>j. [0, 0, 3, 3, 3, 2, 2, 0 :: int] ! j = 0) [0..<8] = [0, 1, 7]"
proof -
  have g: "get_slices [0, 0, 3, 3, 3, 2, 2, 0 :: int] = Inr [(0, [(0, 2), (7, 8)]), (3, [(2, 5)]), (2, [(5, 7)])]" by code_simp
  have a: "concat (map (\<lambda>(s, t). [s..<t]) [(0, 2), (7, 8)]) = filter (\<lambda>j. [0, 0, 3, 3, 3, 2, 2, 0 :: int] ! j = 0) [0..<8]"
  proof -
    have m: "map_of [(0, [(0, 2), (7, 8)]), (3, [(2, 5)]), (2, [(5, 7 :: nat)])] (0 :: int) = Some [(0 :: nat, 2), (7, 8)]"
      and l: "length [0, 0, 3, 3, 3, 2, 2, 0 :: int] = 8" by simp_all
    show ?thesis using conjunct1 [OF slices_are_positions [OF g, of 0]] unfolding m l option.case .
  qed
  have b: "concat (map (\<lambda>(s, t). [s..<t]) [(0, 2), (7, 8)]) = [0, 1, 7 :: nat]" by code_simp
  show ?thesis by (rule conjI [OF g trans [OF a [symmetric] b]])
qed

section \<open>The composite source model\<close>

text \<open>C30: after \<open>find_false_duplicates\<close> two sources with the same ID come from the same branch of the
  source model logic tree or have the same checksum, if no ID has a fragment number or an
  exclamation mark before.\<close>

theorem false_duplicates_distinguished:
  assumes "find_false_duplicates adler smdict = Inr (found, smdict')"
    and "\<forall>x \<in> set (model_sources smdict). basename (ms_id (snd x)) = ms_id (snd x) \<and> CHR ''!'' \<notin> set (ms_id (snd x))"
    and "((m1, g1), s1) \<in> set (model_sources smdict')" "((m2, g2), s2) \<in> set (model_sources smdict')"
    and "ms_id s1 = ms_id s2"
  shows "md_branch m1 = md_branch m2 \<or> ms_checksum s1 = ms_checksum s2"
  using distinguish [OF assms(1) _ assms(3,4,5)] assms(2) by blast

definition area_source :: "string \<Rightarrow> nat \<Rightarrow> (nat, int) msrc" where
  "area_source i d = \<lparr>ms_src = \<lparr>so_class = AreaSource, so_source_id = i, so_trt = ''Volcanic'', so_mfd = TruncatedGRMFD,
     so_scaling_rate = 1, so_log = []\<rparr>, ms_data = d, ms_checksum = None, ms_mutex_weight = 0, ms_tom = ''PoissonTOM'',
     ms_branch = [], ms_trt_smr = -1, ms_smweight = 1, ms_samples = 1, ms_grp_id = 0, ms_num = -1, ms_offset = 0,
     ms_num_ruptures = 0, ms_weight = 1\<rparr>"

definition volcanic :: "(nat, int) msrc list \<Rightarrow> (nat, int) sgroup" where
  "volcanic srcs = \<lparr>gr_trt = ''Volcanic'', gr_sources = srcs, gr_src_interdep = ''indep'', gr_rup_interdep = ''indep'',
     gr_cluster = False, gr_changes = 0\<rparr>"

definition model_file :: "string \<Rightarrow> string \<Rightarrow> (nat, int) msrc list \<Rightarrow> nat smodel" where
  "model_file fname branch srcs = \<lparr>md_fname = fname, md_branch = branch, md_geometry = False, md_sections = [],
     md_groups = [volcanic srcs]\<rparr>"

definition data_of :: "nat content \<Rightarrow> nat" where
  "data_of c = fst (snd c)"

text \<open>Two files with a common source and with different sources of the same ID.\<close>

definition two_files :: "nat smdict" where
  "two_files = [(''a.xml'', model_file ''a.xml'' ''b1'' [area_source ''1'' 10, area_source ''2'' 20]),
     (''b.xml'', model_file ''b.xml'' ''b2'' [area_source ''1'' 10, area_source ''2'' 21])]"

definition two_files_fixed :: "string list \<times> nat smdict" where
  "two_files_fixed = projr (find_false_duplicates data_of two_files)"

lemma two_files_ok: "find_false_duplicates data_of two_files = Inr (fst two_files_fixed, snd two_files_fixed)"
  by code_simp

theorem false_duplicates_distinguished_witness:
  "\<exists>x y. x \<in> set (model_sources (snd two_files_fixed)) \<and> y \<in> set (model_sources (snd two_files_fixed)) \<and>
     md_branch (fst (fst x)) \<noteq> md_branch (fst (fst y)) \<and> ms_id (snd x) = ms_id (snd y) \<and>
     ms_checksum (snd x) = ms_checksum (snd y)"
proof -
  let ?x = "model_sources (snd two_files_fixed) ! 0" and ?y = "model_sources (snd two_files_fixed) ! 2"
  have p: "\<forall>x \<in> set (model_sources two_files). basename (ms_id (snd x)) = ms_id (snd x) \<and> CHR ''!'' \<notin> set (ms_id (snd x))"
    by code_simp
  have l: "length (model_sources (snd two_files_fixed)) = 4" by code_simp
  have x: "?x \<in> set (model_sources (snd two_files_fixed))" by (rule nth_mem) (simp add: l)
  have y: "?y \<in> set (model_sources (snd two_files_fixed))" by (rule nth_mem) (simp add: l)
  have e: "ms_id (snd ?x) = ms_id (snd ?y)" "md_branch (fst (fst ?x)) \<noteq> md_branch (fst (fst ?y))" by code_simp+
  have "((fst (fst ?x), snd (fst ?x)), snd ?x) \<in> set (model_sources (snd two_files_fixed))"
    "((fst (fst ?y), snd (fst ?y)), snd ?y) \<in> set (model_sources (snd two_files_fixed))" using x y by simp_all
  from false_duplicates_distinguished [OF two_files_ok p this e(1)] show ?thesis using x y e by blast
qed

text \<open>C31: \<open>_build_groups\<close> fails when \<open>applyToSources\<close> names a source that is not in the source models of
  the branch, also when the source is in a model that extends them: the IDs of the extensions
  are not added to those that are checked.\<close>

theorem extended_sources_refused:
  assumes "rlz \<in> set rlzs" "rz_lt_path rlz = b # path" "fnames_of rlz = Inr fnames"
    and "groups_ids fullname smdict fnames = Inr (src_groups, ids)"
    and "map_of applied (Some b) = Some l" "srcid \<in> set l" "srcid \<notin> set ids"
  shows "\<not> is_ok (build_groups fullname smdict full rootset applied rlzs)"
proof
  assume "is_ok (build_groups fullname smdict full rootset applied rlzs)"
  then obtain groups where "build_groups fullname smdict full rootset applied rlzs = Inr groups" by (auto simp: is_ok_iff)
  then obtain gss where "list_all2 (\<lambda>rlz gs. rlz_groups fullname smdict full rootset applied (1 / of_nat (length rlzs)) rlz = Inr gs) rlzs gss"
    by (rule build_groups_split)
  then obtain gs where "rlz_groups fullname smdict full rootset applied (1 / of_nat (length rlzs)) rlz = Inr gs"
    using all2_mem1 [OF _ assms(1)] by blast
  from rlz_groups_applied [OF this] have "set l \<subseteq> set ids" using assms(2-5) by auto
  then show False using assms(6,7) by blast
qed

definition extended_tree :: "uval bset" where
  "extended_tree = BSet ''sourceModel'' 0 [] False [Branch ''bs0'' ''b1'' 1 (UStr ''a.xml'') ''A''
     (Some (BSet ''extendModel'' 1 [] False [Branch ''bs1'' ''b2'' 1 (UStr ''b.xml'') ''A'' None]))]"

definition extended_files :: "nat smdict" where
  "extended_files = [(''a.xml'', model_file ''a.xml'' ''b1'' [area_source ''1'' 10]),
     (''b.xml'', model_file ''b.xml'' ''b2'' [area_source ''2'' 20])]"

definition extended_rlz :: "uval list realization" where
  "extended_rlz = \<lparr>rz_value = [UStr ''a.xml'', UStr ''b.xml''], rz_weight = 1, rz_ordinal = 0, rz_lt_path = [''b1'', ''b2''],
     rz_samples = 1\<rparr>"

definition one_region :: "string full_lt" where
  "one_region = \<lparr>fl_num_samples = 0, fl_method = ''early_weights'', fl_fake = False, fl_source_id = [], fl_source_data = [],
     fl_gsim = gl_empty, fl_sm_rlzs = [], fl_trti = [(''Stable'', 0), (''Volcanic'', 1)], fl_trts = [''Stable'', ''Volcanic'']\<rparr>"

text \<open>Source 2 is in the extension; naming it in \<open>applyToSources\<close> is refused.\<close>

theorem extended_sources_refused_witness:
  "\<not> is_ok (build_groups id extended_files one_region extended_tree [(Some ''b1'', [''2''])] [extended_rlz]) \<and>
   is_ok (build_groups id extended_files one_region extended_tree [] [extended_rlz])"
proof -
  have f: "fnames_of extended_rlz = Inr [''a.xml'']" by code_simp
  have g: "groups_ids id extended_files [''a.xml''] = Inr ([volcanic [area_source ''1'' 10]], [''1''])" by code_simp
  have p: "rz_lt_path extended_rlz = ''b1'' # [''b2'']" by (simp add: extended_rlz_def)
  have "is_ok (build_groups id extended_files one_region extended_tree [] [extended_rlz])" by code_simp
  then show ?thesis
    using extended_sources_refused [OF _ p f g, of "[extended_rlz]" "[(Some ''b1'', [''2''])]" "[''2'']" "''2''" one_region extended_tree]
    by simp
qed

text \<open>C32: \<open>_get_csm\<close> loses and invents nothing: taken apart by their indices, its sources are those of
  the groups of the realizations (where the digest has no collision), and their IDs are all
  different, if no ID had a semicolon.\<close>

theorem csm_conserves_sources:
  assumes "get_csm adler event_based groups = Inr gs"
    and "\<forall>s \<in> set (all_sources groups). CHR '';'' \<notin> set (ms_id s)"
    and "inj_on adler (content ` set (all_sources groups))"
  shows "distinct (map ms_id (all_sources gs)) \<and> parts (all_sources gs) = mset (map part (all_sources groups))"
  using csm_conserved [OF assms(1)] assms(2,3) by blast

definition two_branches :: "uval bset" where
  "two_branches = BSet ''sourceModel'' 0 [] False [Branch ''bs0'' ''b1'' (1/2) (UStr ''a.xml'') ''A'' None,
     Branch ''bs0'' ''b2'' (1/2) (UStr ''b.xml'') ''B'' None]"

definition two_rlzs :: "uval list realization list" where
  "two_rlzs = [\<lparr>rz_value = [UStr ''a.xml''], rz_weight = 1/2, rz_ordinal = 0, rz_lt_path = [''b1''], rz_samples = 1\<rparr>,
     \<lparr>rz_value = [UStr ''b.xml''], rz_weight = 1/2, rz_ordinal = 1, rz_lt_path = [''b2''], rz_samples = 1\<rparr>]"

definition three_groups :: "(nat, int) sgroup list" where
  "three_groups = projr (build_groups id two_files one_region two_branches [] two_rlzs)"


lemma three_groups_plain: "\<forall>s \<in> set (all_sources three_groups). CHR '';'' \<notin> set (ms_id s)"
  by code_simp

lemma three_groups_inj: "inj_on data_of (content ` set (all_sources three_groups))"
proof -
  have "content ` set (all_sources three_groups) = set (map content (all_sources three_groups))" by simp
  moreover have "distinct (map data_of (remdups (map content (all_sources three_groups))))" by code_simp
  ultimately show ?thesis by (metis distinct_map set_remdups)
qed

theorem csm_conserves_sources_witness:
  "\<exists>gs. get_csm data_of False three_groups = Inr gs \<and> size (parts (all_sources gs)) = 4 \<and>
     map ms_trt_smr (all_sources gs) = [[16777216], [16777216, 16777217], [16777217]]"
proof -
  let ?gs = "projr (get_csm data_of False three_groups)"
  have r: "get_csm data_of False three_groups = Inr ?gs" by code_simp
  have "length (all_sources three_groups) = 4" by code_simp
  moreover have "map ms_trt_smr (all_sources ?gs) = [[16777216], [16777216, 16777217], [16777217]]" by code_simp
  ultimately show ?thesis using csm_conserves_sources [OF r three_groups_plain three_groups_inj] r by auto
qed



text \<open>C34: no group of the composite source model is empty, each is sorted by source ID, a group that is
  not atomic has one region, one tuple of indices and one temporal occurrence model, and no two of
  them have the same ones.\<close>

theorem csm_groups_homogeneous:
  assumes "get_csm adler event_based groups = Inr gs"
  shows "(\<forall>g \<in> set gs. gr_sources g \<noteq> [] \<and> sorted (map ms_id (gr_sources g)) \<and> (atomic g \<or> homogeneous g)) \<and>
    distinct (map group_key (filter (\<lambda>g. \<not> atomic g) gs))"
  using csm_groups [OF assms] by blast

theorem csm_groups_homogeneous_witness:
  "\<exists>gs. get_csm data_of True three_groups = Inr gs \<and> (\<forall>g \<in> set gs. homogeneous g) \<and>
     map (map ms_id \<circ> gr_sources) gs = [[''1;0'', ''2;0''], [''1;1'', ''2;1'']]"
proof -
  let ?gs = "projr (get_csm data_of True three_groups)"
  have r: "get_csm data_of True three_groups = Inr ?gs" by code_simp
  have "\<forall>g \<in> set ?gs. \<not> atomic g" by code_simp
  moreover have "map (map ms_id \<circ> gr_sources) ?gs = [[''1;0'', ''2;0''], [''1;1'', ''2;1'']]" by code_simp
  ultimately show ?thesis using csm_groups_homogeneous [OF r] r by auto
qed

text \<open>C35: after \<open>fix_src_offset\<close> the IDs of the ruptures are all different exactly when no base name but
  the last has more than \<open>2 ** 30\<close> ruptures in all its fragments; the code only refuses single
  fragments with so many.\<close>

theorem rupture_ids_distinct_iff:
  assumes "fix_src_offset cnt csm = Inr csm'" "\<forall>s \<in> set (get_sources csm None). 0 < num_rups cnt s"
  shows "distinct (rup_ids (get_sources csm' None)) \<longleftrightarrow>
    (\<forall>b \<in> basenames csm. \<forall>b' \<in> basenames csm. b < b' \<longrightarrow> total_ruptures cnt csm b \<le> TWO30)"
  by (rule offsets_distinct_iff_totals [OF assms(1)]) (use assms(2) in blast)

definition split_source :: "string \<Rightarrow> int \<Rightarrow> nat csource" where
  "split_source i n = (trt_smrs (area_source i 0))\<lparr>ms_num_ruptures := n\<rparr>"

definition large_model :: "(nat, string) csm" where
  "large_model = projr (csm_init one_region [group_smrs (volcanic [])\<lparr>gr_sources :=
     [split_source ''a.0'' 1000000000, split_source ''a.1'' 1000000000, split_source ''b'' 1]\<rparr>])"

text \<open>Two fragments of a thousand million ruptures pass, and one of their IDs is that of the next source.\<close>

theorem rupture_ids_distinct_iff_witness:
  "\<exists>csm'. fix_src_offset (\<lambda>s. 0) large_model = Inr csm' \<and> \<not> distinct (rup_ids (get_sources csm' None))"
proof -
  have r: "fix_src_offset (\<lambda>s. 0) large_model = Inr (projr (fix_src_offset (\<lambda>s. 0) large_model))" by code_simp
  have pos: "\<forall>s \<in> set (get_sources large_model None). 0 < num_rups (\<lambda>s. 0) s" by code_simp
  have b: "basenames large_model = {''a'', ''b''}" unfolding basenames_def by code_simp
  have "total_ruptures (\<lambda>s. 0) large_model ''a'' = 2000000000" by code_simp
  moreover have "''a'' < ''b''" by code_simp
  ultimately have "\<not> (\<forall>b \<in> basenames large_model. \<forall>b' \<in> basenames large_model. b < b' \<longrightarrow>
      total_ruptures (\<lambda>s. 0) large_model b \<le> TWO30)"
    unfolding b by (auto simp: TWO30_def)
  then show ?thesis using rupture_ids_distinct_iff [OF r pos] r by blast
qed

section \<open>Loss curves\<close>



text \<open>C37: for losses that are not negative and not more than the events, sorted return periods, a strictly
  increasing logarithm and an interpolation that has the values at its nodes and stays between its
  neighbours: the curve has a value for every return period, zero before the shortest period of the
  events, missing after the effective time, the k-th greatest loss at the effective time divided by k
  and a value within the losses in between.\<close>

theorem losses_by_return_period:
  fixes lg :: "rat \<Rightarrow> 'a::linorder"
  assumes "interpolation ip" "\<And>x y. 0 < x \<Longrightarrow> x < y \<Longrightarrow> lg x < lg y"
    and "losses \<noteq> []" "length losses \<le> n" "sorted rps" "0 < eff_time" "\<forall>x \<in> set losses. 0 \<le> x"
    and "fixed = replicate (n - length losses) 0 @ sort losses"
  shows "\<exists>res curve. losses_by_period lg ip pla losses rps n (Some eff_time) True nm = Inr res \<and>
    map_of res nm = Some curve \<and> length curve = length rps \<and> (\<forall>i < length rps.
      (rps ! i < eff_time / of_nat n \<longrightarrow> curve ! i = Some 0) \<and>
      (eff_time / of_nat n \<le> rps ! i \<and> rps ! i \<le> eff_time \<longrightarrow>
        (\<exists>l. curve ! i = Some l \<and> hd fixed \<le> l \<and> l \<le> Max (set losses))) \<and>
      (\<forall>k \<in> {1..n}. rps ! i = eff_time / of_nat k \<longrightarrow> curve ! i = Some (fixed ! (n - k))) \<and>
      (eff_time < rps ! i \<longrightarrow> curve ! i = None))"
  using assms by (rule loss_at_cases)

theorem losses_by_return_period_witness:
  "\<exists>res curve. losses_by_period (\<lambda>t. t) lin_interp None [3, 2, 23, 11] [1, 20, 50, 100, 200] 5 (Some 100) True ''curve'' = Inr res \<and>
    map_of res ''curve'' = Some curve \<and> curve ! 0 = Some 0 \<and> curve ! 1 = Some 0 \<and> curve ! 2 = Some 11 \<and>
    curve ! 3 = Some 23 \<and> curve ! 4 = None"
proof -
  let ?rps = "[1, 20, 50, 100, 200 :: rat]" and ?f = "[0, 2, 3, 11, 23 :: rat]"
  have "\<exists>res curve. losses_by_period (\<lambda>t. t) lin_interp None [3, 2, 23, 11] ?rps 5 (Some 100) True ''curve'' = Inr res \<and>
    map_of res ''curve'' = Some curve \<and> length curve = length ?rps \<and> (\<forall>i < length ?rps.
      (?rps ! i < 100 / of_nat 5 \<longrightarrow> curve ! i = Some 0) \<and>
      (100 / of_nat 5 \<le> ?rps ! i \<and> ?rps ! i \<le> 100 \<longrightarrow>
        (\<exists>l. curve ! i = Some l \<and> hd ?f \<le> l \<and> l \<le> Max (set [3, 2, 23, 11]))) \<and>
      (\<forall>k \<in> {1..5}. ?rps ! i = 100 / of_nat k \<longrightarrow> curve ! i = Some (?f ! (5 - k))) \<and>
      (100 < ?rps ! i \<longrightarrow> curve ! i = None))"
    by (rule losses_by_return_period [OF lin.interpolation_axioms]) simp_all
  then obtain res curve where r: "losses_by_period (\<lambda>t. t) lin_interp None [3, 2, 23, 11] ?rps 5 (Some 100) True ''curve'' = Inr res"
    "map_of res ''curve'' = Some curve"
    and low: "\<And>i. i < 5 \<Longrightarrow> ?rps ! i < 100 / of_nat 5 \<Longrightarrow> curve ! i = Some 0"
    and at: "\<And>i k. i < 5 \<Longrightarrow> k \<in> {1..5} \<Longrightarrow> ?rps ! i = 100 / of_nat k \<Longrightarrow> curve ! i = Some (?f ! (5 - k))"
    and high: "\<And>i. i < 5 \<Longrightarrow> 100 < ?rps ! i \<Longrightarrow> curve ! i = None" by (elim exE conjE) simp
  show ?thesis using r low [of 0] at [of 1 5] at [of 2 2] at [of 3 1] high [of 4] by simp
qed

text \<open>C38: a LossCurvesMapsBuilder that was made for sorted return periods never gives a curve with a missing
  value, whatever the kinds of curves that are asked for, and every curve has a value for every return
  period.\<close>

theorem built_curves_complete:
  assumes "builder_init rps eff_time pla = Inr cb" "sorted rps" "0 < eff_time"
    and "build_curve lg ip cb years col losses agg_types n = Inr dic" "c \<in> snd ` set dic"
  shows "None \<notin> set c \<and> length c = length rps"
  using assms by (rule no_missing_values)

theorem built_curves_complete_witness:
  "let cb = projr (builder_init [10, 100] 100 None);
       dic = projr (build_curve (\<lambda>t. t) lin_interp cb [2020, 2021, 2020] ''loss'' [3, 5, 4] ''ep, aep'' 4) in
   keys dic = [''loss'', ''loss_aep''] \<and> None \<notin> set (snd (hd dic)) \<and> length (snd (hd dic)) = 2"
proof -
  have i: "builder_init [10, 100] 100 None = Inr \<lparr>cb_periods = [10, 100], cb_eff_time = 100, cb_pla = None\<rparr>"
    by (simp add: builder_init_def py_index_def norm_index_def)
  have b: "build_curve (\<lambda>t. t) lin_interp \<lparr>cb_periods = [10, 100], cb_eff_time = 100, cb_pla = None\<rparr> [2020, 2021, 2020] ''loss''
      [3, 5, 4] ''ep, aep'' 4 = Inr [(''loss'', [Some 0, Some 5]), (''loss_aep'', [Some 0, Some 7])]" by code_simp
  show ?thesis using built_curves_complete [OF i _ _ b, of "[Some 0, Some 5]"]
    unfolding i sum.sel Let_def b by simp
qed

text \<open>C39: for a probability between two neighbouring probabilities of exceedance the loss ratio is the linear
  interpolation of the two loss ratios, and lies between them; no division by zero occurs.\<close>

theorem conditional_ratio_interpolates:
  assumes "length lrs = length poes" "3 \<le> length poes" "sorted_wrt (\<ge>) poes" "sorted lrs"
    and "p \<notin> set poes" "p \<le> hd poes" "last poes \<le> p"
  shows "\<exists>i y. Suc i < length poes \<and> poes ! Suc i < p \<and> p < poes ! i \<and>
    conditional_loss_ratio lrs poes p = Inr (Some y) \<and> lrs ! i \<le> y \<and> y \<le> lrs ! Suc i \<and>
    y = lrs ! i + (lrs ! Suc i - lrs ! i) / (poes ! Suc i - poes ! i) * (p - poes ! i)"
  using assms by (rule conditional_between)

theorem conditional_ratio_interpolates_witness:
  "\<exists>y. conditional_loss_ratio [1/10, 2/10, 3/10] [9/10, 5/10, 1/10] (3/10) = Inr (Some y) \<and> 2/10 \<le> y \<and> y \<le> 3/10"
proof -
  let ?l = "[1/10, 2/10, 3/10]" and ?p = "[9/10, 5/10, 1/10 :: rat]"
  have "\<exists>i y. Suc i < length ?p \<and> ?p ! Suc i < 3/10 \<and> 3/10 < ?p ! i \<and>
    conditional_loss_ratio ?l ?p (3/10) = Inr (Some y) \<and> ?l ! i \<le> y \<and> y \<le> ?l ! Suc i \<and>
    y = ?l ! i + (?l ! Suc i - ?l ! i) / (?p ! Suc i - ?p ! i) * (3/10 - ?p ! i)"
    by (rule conditional_ratio_interpolates) simp_all
  then obtain i y where i: "Suc i < length ?p" "?p ! Suc i < 3/10" "3/10 < ?p ! i"
    and y: "conditional_loss_ratio ?l ?p (3/10) = Inr (Some y)" "?l ! i \<le> y" "y \<le> ?l ! Suc i" by blast
  have "i = 0 \<or> i = 1" using i(1) by auto
  then have "i = 1" using i(2) by auto
  then show ?thesis using y by auto
qed

section \<open>Blocks and slices\<close>

text \<open>C40: for a positive bound and non-negative weights \<open>block_splitter\<close> succeeds; its blocks are not
  empty, carry the sum of the weights of their items, have one key each and respect the bound unless
  they hold a single item; no two neighbours could have been one block; no weight is lost.\<close>

theorem block_splitter_correct:
  assumes "0 < m" "\<And>x. x \<in> set xs \<Longrightarrow> 0 \<le> w x"
  shows "\<exists>bs. block_splitter xs m w key sorting = Inr bs \<and> list_all (block_ok m w key) bs \<and>
    successively (full_before m w key) bs \<and>
    sum_list (map ws_weight bs) = sum_list (map (w :: 'a \<Rightarrow> 'w::linordered_idom) xs)"
proof -
  obtain bs where bs: "block_splitter xs m w key sorting = Inr bs"
    using block_splitter_ok_iff [of xs m w key sorting] assms by (auto simp: is_ok_iff)
  show ?thesis using bs block_splitter_Inr(1,2) [OF bs] block_splitter_weight [OF bs] by blast
qed

theorem block_splitter_correct_witness:
  "\<exists>bs. block_splitter [1, 2, 1, 3] 3 (\<lambda>x. x :: int) (\<lambda>x. None :: unit option) True = Inr bs \<and>
     sum_list (map ws_weight bs) = 7"
proof -
  have nonneg: "0 \<le> x" if "x \<in> set [1, 2, 1, 3 :: int]" for x using that by auto
  show ?thesis
    using block_splitter_correct [of 3 "[1, 2, 1, 3]" "\<lambda>x. x :: int" "\<lambda>x. None :: unit option" True, OF _ nonneg] by auto
qed

text \<open>The blocks together hold every item of positive weight exactly as often as the sequence; items
  of weight zero may be lost.\<close>

lemma block_splitter_keeps_items:
  assumes "block_splitter xs m w key sorting = Inr bs" "0 < w x"
  shows "count_list (concat (map ws_seq bs)) x = count_list xs (x :: 'a)"
proof -
  have "filter_mset (\<lambda>x. 0 < w x) (mset (concat (map ws_seq bs))) = filter_mset (\<lambda>x. 0 < w x) (mset xs)"
    using assms(1) by (intro bs.lossless [of _ m w key sorting]) simp
  then have "count (filter_mset (\<lambda>x. 0 < w x) (mset (concat (map ws_seq bs)))) x =
      count (filter_mset (\<lambda>x. 0 < w x) (mset xs)) x"
    by (simp only:)
  then show ?thesis using assms(2) by (simp add: count_mset)
qed

lemma block_splitter_keeps_items_witness:
  "count_list (concat (map ws_seq (projr (block_splitter [1, 0, 2, 1] 3 (\<lambda>x. x :: int) (\<lambda>x. None :: unit option) True)))) 1 = 2"
proof -
  have e: "block_splitter [1, 0, 2, 1] 3 (\<lambda>x. x :: int) (\<lambda>x. None :: unit option) True =
      Inr (projr (block_splitter [1, 0, 2, 1] 3 (\<lambda>x. x :: int) (\<lambda>x. None :: unit option) True))" by code_simp
  show ?thesis using block_splitter_keeps_items [OF e, of 1] by simp
qed

text \<open>\<open>split_in_slices\<close> terminates without error, with at most the number of slices asked for,
  and they tile the range.\<close>

lemma split_in_slices_tiles:
  assumes "0 < number" "number < 2 ^ 53" "0 < num_slices" "num_slices < 2 ^ 53"
  shows "\<exists>sl. split_in_slices number num_slices = Some (Inr sl) \<and> tiles 0 number sl \<and> int (length sl) \<le> num_slices"
proof -
  let ?b = "\<lceil>of_int number / of_int num_slices :: rat\<rceil>"
  have "0 < (of_int number / of_int num_slices :: rat)" using assms by simp
  then have b: "0 < ?b" by (simp only: zero_less_ceiling)
  then have "gen_slices 0 number ?b = Inr (gen_loop 0 number ?b)" using assms(1) by (simp add: gen_slices_def)
  then show ?thesis
    using split_in_slices_gen [OF assms] gen_loop_tiles [OF b assms(1)] split_in_slices_length [OF assms(1,3) refl] by simp
qed

lemma split_in_slices_tiles_witness:
  "\<exists>sl. split_in_slices 10 3 = Some (Inr sl) \<and> tiles 0 10 sl \<and> length sl \<le> 3"
  using split_in_slices_tiles [of 10 3] by auto

section \<open>Containers\<close>

text \<open>Adding a dictionary to an \<open>AccumDict\<close> in place adds key by key.\<close>

lemma accum_dict_iadd:
  assumes "dict_wf d"
  shows "map_of (ad_items (ad_iadd a (Mapping d))) j = (case (map_of (ad_items a) j, map_of d j) of
      (x, None) \<Rightarrow> x | (None, Some v) \<Rightarrow> Some v | (Some u, Some v) \<Rightarrow> Some (u + v))"
  using assms by (rule ad_iadd_map_of)

lemma accum_dict_iadd_witness:
  "map_of (ad_items (ad_iadd (ad_of [(''a'', 1 :: int)]) (Mapping [(''a'', 2)]))) ''a'' = Some 3"
proof -
  have d: "dict_wf [(''a'', 2 :: int)]" "dict_wf [(''a'', 1 :: int)]" by (simp_all add: dict_wf_def)
  show ?thesis using accum_dict_iadd [OF d(1), of "ad_of [(''a'', 1)]" "''a''"] d(2) by simp
qed

text \<open>Subtracting a dictionary in place does not subtract: a key that both have becomes the
  difference of the old value with itself.\<close>

lemma accum_dict_isub_zero:
  assumes "ad_accum a = None" "dict_wf d" "map_of (ad_items a) j = Some u" "map_of d j = Some v"
  shows "map_of (ad_items (ad_isub a (Mapping d))) j = Some (u - u)"
  using ad_isub_map_of [OF assms(1,2), of j] assms(3,4) by simp

lemma accum_dict_isub_zero_witness:
  "map_of (ad_items (ad_isub (ad_of [(''a'', 5 :: int)]) (Mapping [(''a'', 2)]))) ''a'' = Some 0"
proof -
  have d: "dict_wf [(''a'', 2 :: int)]" "dict_wf [(''a'', 5 :: int)]" by (simp_all add: dict_wf_def)
  show ?thesis using accum_dict_isub_zero [OF _ d(1), of "ad_of [(''a'', 5)]" "''a''" 5 2] d(2) by simp
qed

text \<open>A \<open>DictArray\<close> made of a dictionary of equally long lists gives back every list under its key,
  and the slices of the keys follow each other in the flat array.\<close>

lemma dict_array_roundtrip:
  assumes "dict_wf imtls" "da_init imtls = Inr da" "m < length imtls"
  shows "da_getitem da (fst (imtls ! m)) = Inr (snd (imtls ! m)) \<and>
    da_call da (fst (imtls ! m)) = Inr (m * da_L1 da, (m + 1) * da_L1 da) \<and>
    da_size da = length imtls * da_L1 da \<and> da_iter da = keys imtls"
  using da_init_Inr [OF assms] by blast

lemma dict_array_roundtrip_witness:
  "da_getitem (projr (da_init [(''PGA'', [1, 2]), (''SA'', [3, 4 :: rat])])) ''SA'' = Inr [3, 4] \<and>
   da_call (projr (da_init [(''PGA'', [1, 2]), (''SA'', [3, 4 :: rat])])) ''SA'' = Inr (2, 4)"
proof -
  let ?d = "[(''PGA'', [1, 2]), (''SA'', [3, 4 :: rat])]"
  have w: "dict_wf ?d" by (simp add: dict_wf_def)
  have i: "da_init ?d = Inr (projr (da_init ?d))" by code_simp
  have l: "da_L1 (projr (da_init ?d)) = 2" by code_simp
  show ?thesis using dict_array_roundtrip [OF w i, of 1] l by simp
qed

section \<open>Categories and sums\<close>

text \<open>\<open>categorize\<close> succeeds exactly when the values are no more than the codes of the given length,
  and then two positions have the same code exactly when they have the same value.\<close>

lemma categorize_codes:
  assumes "card (set values) \<le> 183 ^ n"
  shows "\<exists>codes. categorize values n = Inr codes \<and>
    (\<forall>i < length values. \<forall>j < length values. codes ! i = codes ! j \<longleftrightarrow> values ! i = values ! j)"
proof -
  obtain codes where "categorize values n = Inr codes"
    using assms categorize_ok_iff [of "values" n] by (auto simp: is_ok_iff)
  then show ?thesis using categorize_inj by blast
qed

lemma categorize_codes_witness:
  "\<exists>codes. categorize [''b'', ''a'', ''b''] 1 = Inr codes \<and> codes ! 0 = codes ! 2 \<and> codes ! 0 \<noteq> codes ! 1"
proof -
  have "card (set [''b'', ''a'', ''b'']) \<le> 183 ^ 1" by code_simp
  from categorize_codes [OF this] obtain codes where c: "categorize [''b'', ''a'', ''b''] 1 = Inr codes" and
    "\<forall>i < 3. \<forall>j < 3. codes ! i = codes ! j \<longleftrightarrow> [''b'', ''a'', ''b''] ! i = [''b'', ''a'', ''b''] ! j" by auto
  then have "codes ! 0 = codes ! 2" "codes ! 0 \<noteq> codes ! 1" by simp_all
  then show ?thesis using c by blast
qed

text \<open>\<open>fast_agg2\<close> gives the tags in increasing order, each with the sum of its values.\<close>

lemma fast_agg2_sums:
  assumes "fast_agg2 tags (Some vals) = Inr (u, agg)"
  shows "u = sorted_list_of_set (set tags) \<and> length agg = length u \<and>
    (\<forall>j < length u. agg ! j = sum_list (map snd (filter (\<lambda>(t, v). t = u ! j) (zip tags vals))))"
  using fast_agg2_sum [OF assms] by blast

lemma fast_agg2_sums_witness:
  "snd (projr (fast_agg2 [''b'', ''a'', ''b''] (Some [1, 2, 3 :: rat]))) ! 1 = 4"
proof -
  have e: "fast_agg2 [''b'', ''a'', ''b''] (Some [1, 2, 3 :: rat]) = Inr ([''a'', ''b''], [2, 4])" by code_simp
  have "[2, 4 :: rat] ! 1 = sum_list (map snd (filter (\<lambda>(t, v). t = [''a'', ''b''] ! 1)
      (zip [''b'', ''a'', ''b''] [1, 2, 3 :: rat])))"
    using fast_agg2_sums [OF e] by (elim conjE allE [of _ 1]) simp
  then show ?thesis by (simp add: e)
qed

section \<open>Validators\<close>

text \<open>A string validated as a simple ID is returned unchanged, and is accepted exactly when it is a
  non-empty ASCII string of at most the maximal length that the regular expression matches.\<close>

lemma simple_id_iff:
  "simple_id s = Inr v \<longleftrightarrow> v = s \<and> id_ok MAX_ID_LENGTH (some_of id_char) s"
  unfolding simple_id_def by (rule simple_id_of_Inr_iff)

text \<open>A longitude that is accepted lies in its range, unless it is not a number; anything else is a
  ValueError.\<close>

lemma longitude_checked:
  assumes "longitude s = r"
  shows "(\<exists>v. r = Inr v \<and> in_range (Fin (- 180)) (Fin 180) v) \<or> r = Inl ValueError"
proof (cases r)
  case (Inl e)
  then show ?thesis using lon.only_value_error [of s e] assms by simp
next
  case (Inr v)
  then show ?thesis using lon.sound [of s v] assms by simp
qed

lemma longitude_checked_witness:
  "longitude ''181'' = Inl ValueError \<and> longitude ''12.5'' = Inr (Fin (25/2)) \<and>
   ((\<exists>v. longitude ''12.5'' = Inr v \<and> in_range (Fin (- 180)) (Fin 180) v) \<or> longitude ''12.5'' = Inl ValueError)"
proof -
  have "longitude ''181'' = Inl ValueError" "longitude ''12.5'' = Inr (Fin (25/2))" by code_simp+
  then show ?thesis using longitude_checked [OF refl, of "''12.5''"] by blast
qed

text \<open>An object made by \<open>ParamSet\<close> holds, for every name that is given and that the class declares,
  the value that the validator of the parameter returns, and nothing else.\<close>

lemma param_set_values:
  assumes "ps_init cls nv = Inr obj" "dict_wf nv"
  shows "map_of obj k = (case (map_of nv k, map_of (pc_params cls) k) of
      (Some val, Some p) \<Rightarrow> (case pa_validator p val of Inr v \<Rightarrow> Some v | Inl _ \<Rightarrow> None) | _ \<Rightarrow> None)"
  using assms by (rule ps_init_map_of)

lemma param_set_values_witness:
  "map_of (projr (ps_init \<lparr>pc_params = [(''x'', \<lparr>pa_validator = positiveint, pa_default = None\<rparr>)], pc_others = [], pc_known_inputs = [], pc_valids = []\<rparr>
     [(''x'', ''7'')])) ''x'' = Some 7"
proof -
  let ?c = "\<lparr>pc_params = [(''x'', \<lparr>pa_validator = positiveint, pa_default = None\<rparr>)], pc_others = [], pc_known_inputs = [], pc_valids = []\<rparr>"
  have i: "ps_init ?c [(''x'', ''7'')] = Inr (projr (ps_init ?c [(''x'', ''7'')]))" by code_simp
  have p: "positiveint ''7'' = Inr 7" by code_simp
  show ?thesis using param_set_values [OF i, of "''x''"] p by (simp add: dict_wf_def)
qed

text \<open>The base name of a source has no fragment number after a dot or a colon.\<close>

lemma basename_clean:
  "no_number CHR ''.'' (basename s) \<and> no_number CHR '':'' (basename s)"
  using basename_no_numbers by blast

end
